(* ===== verification/Prelude.thy ===== *)
theory Prelude
  imports Main "HOL-Library.Word"
begin

section \<open>Prelude: machine types, outcomes of kernel code, shared lemmas\<close>

text \<open>
  Shared by every component theory: the C integer types, the outcome of a kernel function,
  sequencing of such functions, table scans, and the little-endian byte memory.
\<close>

unbundle bit_operations_syntax

named_theorems wp_rules \<open>partial correctness of the operations\<close>
named_theorems outcome_iff \<open>how a sequenced computation can have returned\<close>
named_theorems scan_simps \<open>facts about scans over fixed tables\<close>

subsection \<open>C integer types\<close>

text \<open>
  \<open>uint\<close>, \<open>ushort\<close> and \<open>uchar\<close> of types.h. A C \<open>int\<close> has the same 32 bits as a \<open>uint\<close>; what
  makes it signed is the comparison, written \<open>a <s b\<close>, and the reading \<open>sint\<close>.
\<close>

type_synonym byte = "8 word"
type_synonym ushort = "16 word"
type_synonym uint = "32 word"
type_synonym cint = "32 word"

text \<open>A string literal as the bytes of its characters.\<close>

definition str :: "string \<Rightarrow> byte list" where
  "str cs = map of_char cs"

subsection \<open>Signed and unsigned readings of a 32-bit integer\<close>

lemma sint_range32: "-2147483648 \<le> sint (w :: cint)" "sint (w :: cint) < 2147483648"
  using sint_greater_eq [of w] sint_less [of w] by simp_all

lemma uint_range32: "0 \<le> uint (w :: uint)" "uint (w :: uint) < 4294967296"
  using uint_lt2p [of w] by simp_all

lemma unat_range32: "unat (w :: uint) < 4294967296"
  unfolding unat_eq_nat_uint using uint_range32 [of w] by linarith

lemma uint_sint_mod: "uint (w :: cint) = sint w mod 4294967296"
proof -
  have "sint w = signed_take_bit 31 (uint w)" by (simp add: sint_uint)
  then have "take_bit 32 (sint w) = take_bit 32 (uint w)" by (simp add: take_bit_signed_take_bit)
  then show ?thesis using uint_range32 [of w] by (simp add: take_bit_eq_mod)
qed

lemma uint_sint_nonneg: "0 \<le> sint (w :: cint) \<Longrightarrow> uint w = sint w"
  using uint_sint_mod [of w] sint_range32 [of w] by simp

lemma uint_neg_sint: "sint (w :: cint) < 0 \<Longrightarrow> uint (- w) = - sint w"
proof -
  assume "sint w < 0"
  moreover have "uint (- w) = (- sint w) mod 4294967296"
    by (simp add: uint_word_ariths uint_sint_mod [of w] mod_minus_eq del: of_int_sint)
  ultimately show ?thesis using sint_range32 [of w] by simp
qed

lemma unat_of_nat32: "n < 4294967296 \<Longrightarrow> unat (of_nat n :: uint) = n"
  by (simp add: unsigned_of_nat take_bit_nat_eq_self)

lemma unat_neg32:
  assumes "w \<noteq> (0 :: uint)"
  shows "unat (- w) = 4294967296 - unat w"
  using assms unat_sub_if_size [of 0 w] by (simp add: word_size unat_gt_0)

lemma unat_diff32:
  fixes a b :: uint
  assumes "unat b \<le> unat a"
  shows "unat (a - b) = unat a - unat b"
  using assms by (intro unat_sub) (simp add: word_le_nat_alt)

lemma unat_add32:
  fixes a b :: uint
  assumes "unat a + unat b < 4294967296"
  shows "unat (a + b) = unat a + unat b"
  using assms by (simp add: unat_add_lem [THEN iffD1])

subsection \<open>Outcomes\<close>

text \<open>
  What one uninterrupted run of kernel code can come to:
  \<^item> \<open>Ok a s\<close>: it returned \<open>a\<close> in state \<open>s\<close>;
  \<^item> \<open>Panic m\<close>: it called \<open>panic(m)\<close>, which never returns;
  \<^item> \<open>Swtch s\<close>: it gave the processor away through \<open>swtch\<close> (inside \<open>sleep\<close>, \<open>yield\<close> or \<open>exit\<close>) in
    state \<open>s\<close>;
  \<^item> \<open>Spin\<close>: it spins forever unless another processor or a device acts;
  \<^item> \<open>Fault\<close>: it went through a null or out-of-table pointer, which C leaves undefined.
\<close>

datatype ('s, 'a) outcome = Ok 'a 's | Panic string | Swtch 's | Spin | Fault

fun bnd :: "('s, 'a) outcome \<Rightarrow> ('a \<Rightarrow> 's \<Rightarrow> ('s, 'b) outcome) \<Rightarrow> ('s, 'b) outcome" where
  "bnd (Ok a s) f = f a s"
| "bnd (Panic m) f = Panic m"
| "bnd (Swtch s) f = Swtch s"
| "bnd Spin f = Spin"
| "bnd Fault f = Fault"

lemma bnd_Ok_iff [outcome_iff]: "bnd m f = Ok b t \<longleftrightarrow> (\<exists>a s. m = Ok a s \<and> f a s = Ok b t)"
  by (cases m) auto

lemma bnd_Panic_iff [outcome_iff]:
  "bnd m f = Panic e \<longleftrightarrow> m = Panic e \<or> (\<exists>a s. m = Ok a s \<and> f a s = Panic e)"
  by (cases m) auto

lemma bnd_Swtch_iff [outcome_iff]:
  "bnd m f = Swtch t \<longleftrightarrow> m = Swtch t \<or> (\<exists>a s. m = Ok a s \<and> f a s = Swtch t)"
  by (cases m) auto

lemma bnd_Spin_iff [outcome_iff]:
  "bnd m f = Spin \<longleftrightarrow> m = Spin \<or> (\<exists>a s. m = Ok a s \<and> f a s = Spin)"
  by (cases m) auto

lemma bnd_Fault_iff [outcome_iff]:
  "bnd m f = Fault \<longleftrightarrow> m = Fault \<or> (\<exists>a s. m = Ok a s \<and> f a s = Fault)"
  by (cases m) auto

lemma bnd_assoc: "bnd (bnd m f) g = bnd m (\<lambda>a s. bnd (f a s) g)"
  by (cases m) auto

lemma bnd_cong [fundef_cong]:
  "m = m' \<Longrightarrow> (\<And>a s. m' = Ok a s \<Longrightarrow> f a s = f' a s) \<Longrightarrow> bnd m f = bnd m' f'"
  by (cases m') auto

text \<open>A computation that returns, keeping a property of what it returns.\<close>

definition returns :: "('s, 'a) outcome \<Rightarrow> ('a \<Rightarrow> 's \<Rightarrow> bool) \<Rightarrow> bool" where
  "returns m Q \<longleftrightarrow> (case m of Ok a s \<Rightarrow> Q a s | _ \<Rightarrow> False)"

lemma returns_simps [simp]:
  "returns (Ok a s) Q = Q a s" "\<not> returns (Panic e) Q" "\<not> returns (Swtch s) Q"
  "\<not> returns Spin Q" "\<not> returns Fault Q"
  by (simp_all add: returns_def)

lemma returns_iff: "returns m Q \<longleftrightarrow> (\<exists>a s. m = Ok a s \<and> Q a s)"
  by (cases m) auto

lemma returns_bnd [simp]: "returns (bnd m f) Q \<longleftrightarrow> returns m (\<lambda>a s. returns (f a s) Q)"
  by (cases m) auto

lemma returns_mono: "returns m P \<Longrightarrow> (\<And>a s. P a s \<Longrightarrow> Q a s) \<Longrightarrow> returns m Q"
  by (cases m) auto

text \<open>
  Partial correctness: \<open>wp m R Q\<close> says that \<open>R\<close> holds of what \<open>m\<close> returns and \<open>Q\<close> of the state it
  switches away in. The rules for the operations are collected in \<open>wp_rules\<close>.
\<close>

definition wp :: "('s, 'a) outcome \<Rightarrow> ('a \<Rightarrow> 's \<Rightarrow> bool) \<Rightarrow> ('s \<Rightarrow> bool) \<Rightarrow> bool" where
  "wp m R Q \<longleftrightarrow> (case m of Ok a s \<Rightarrow> R a s | Swtch s \<Rightarrow> Q s | _ \<Rightarrow> True)"

lemma wp_simps [simp]:
  "wp (Ok a s) R Q = R a s" "wp (Swtch s) R Q = Q s" "wp (Panic e) R Q" "wp Spin R Q" "wp Fault R Q"
  by (simp_all add: wp_def)

lemma wp_bnd [simp]: "wp (bnd m f) R Q \<longleftrightarrow> wp m (\<lambda>a s. wp (f a s) R Q) Q"
  by (cases m) auto

lemma wp_mono:
  "wp m R Q \<Longrightarrow> (\<And>a s. R a s \<Longrightarrow> R' a s) \<Longrightarrow> (\<And>s. Q s \<Longrightarrow> Q' s) \<Longrightarrow> wp m R' Q'"
  by (cases m) auto

lemma wp_conj: "wp m R Q \<Longrightarrow> wp m R' Q' \<Longrightarrow> wp m (\<lambda>a s. R a s \<and> R' a s) (\<lambda>s. Q s \<and> Q' s)"
  by (cases m) auto

lemma wp_OkD: "wp m R Q \<Longrightarrow> m = Ok a s \<Longrightarrow> R a s"
  by simp

lemma wp_SwtchD: "wp m R Q \<Longrightarrow> m = Swtch s \<Longrightarrow> Q s"
  by simp

lemma wp_iff: "wp m R Q \<longleftrightarrow> (\<forall>a s. m = Ok a s \<longrightarrow> R a s) \<and> (\<forall>s. m = Swtch s \<longrightarrow> Q s)"
  by (cases m) auto

subsection \<open>Scans over tables\<close>

text \<open>\<open>for (p = table; p < end; p++) if (P(p)) goto found;\<close> as the index of the first hit.\<close>

fun find_idx :: "('a \<Rightarrow> bool) \<Rightarrow> 'a list \<Rightarrow> nat option" where
  "find_idx P [] = None"
| "find_idx P (x # xs) = (if P x then Some 0 else map_option Suc (find_idx P xs))"

lemma find_idx_None [scan_simps]: "find_idx P xs = None \<longleftrightarrow> (\<forall>x \<in> set xs. \<not> P x)"
  by (induction xs) auto

lemma find_idx_Some_iff [scan_simps]:
  "find_idx P xs = Some i \<longleftrightarrow> i < length xs \<and> P (xs ! i) \<and> (\<forall>j < i. \<not> P (xs ! j))"
proof (induction xs arbitrary: i)
  case Nil
  then show ?case by simp
next
  case (Cons x xs)
  then show ?case by (cases i) (auto simp: nth_Cons split: nat.splits)
qed

lemma find_idx_SomeD:
  "find_idx P xs = Some i \<Longrightarrow> i < length xs \<and> P (xs ! i) \<and> (\<forall>j < i. \<not> P (xs ! j))"
  by (simp add: find_idx_Some_iff)

lemma find_idx_ex: "i < length xs \<Longrightarrow> P (xs ! i) \<Longrightarrow> \<exists>j \<le> i. find_idx P xs = Some j"
proof (induction xs arbitrary: i)
  case Nil
  then show ?case by simp
next
  case (Cons x xs)
  show ?case
  proof (cases "P x")
    case True
    then show ?thesis by simp
  next
    case False
    with Cons.prems obtain k where k: "i = Suc k" by (cases i) auto
    with Cons obtain j where "j \<le> k" "find_idx P xs = Some j" by auto
    with False k show ?thesis by auto
  qed
qed

text \<open>
  A scan that keeps the best entry so far: \<open>best\<close> starts at a bound, an entry replaces it only when
  its key is strictly larger, so the first of several largest entries wins.
\<close>

fun scan_max :: "('a \<Rightarrow> bool) \<Rightarrow> ('a \<Rightarrow> 'k::linorder) \<Rightarrow> nat \<Rightarrow> 'a list \<Rightarrow> 'k \<Rightarrow> nat option \<Rightarrow> nat option" where
  "scan_max ok key i [] best res = res"
| "scan_max ok key i (x # xs) best res =
     (if ok x \<and> best < key x then scan_max ok key (Suc i) xs (key x) (Some i)
      else scan_max ok key (Suc i) xs best res)"

lemma scan_max_cases:
  "(scan_max ok key i xs best res = res \<and> (\<forall>x \<in> set xs. ok x \<longrightarrow> key x \<le> best)) \<or>
   (\<exists>j < length xs. scan_max ok key i xs best res = Some (i + j) \<and> ok (xs ! j) \<and> best < key (xs ! j) \<and>
      (\<forall>k < length xs. ok (xs ! k) \<longrightarrow> key (xs ! k) \<le> key (xs ! j)) \<and>
      (\<forall>k < j. ok (xs ! k) \<longrightarrow> key (xs ! k) < key (xs ! j)))"
proof (induction xs arbitrary: i best res)
  case Nil
  then show ?case by simp
next
  case (Cons x xs)
  show ?case
  proof (cases "ok x \<and> best < key x")
    case True
    from Cons.IH [of "Suc i" "key x" "Some i"] show ?thesis
    proof (elim disjE exE conjE)
      assume "scan_max ok key (Suc i) xs (key x) (Some i) = Some i"
        and "\<forall>y \<in> set xs. ok y \<longrightarrow> key y \<le> key x"
      with True have "0 < length (x # xs) \<and> scan_max ok key i (x # xs) best res = Some (i + 0) \<and>
        ok ((x # xs) ! 0) \<and> best < key ((x # xs) ! 0) \<and>
        (\<forall>k < length (x # xs). ok ((x # xs) ! k) \<longrightarrow> key ((x # xs) ! k) \<le> key ((x # xs) ! 0)) \<and>
        (\<forall>k < 0. ok ((x # xs) ! k) \<longrightarrow> key ((x # xs) ! k) < key ((x # xs) ! 0))"
        by (simp add: All_less_Suc2 set_conv_nth) blast
      then show ?thesis by blast
    next
      fix j assume j: "j < length xs" "scan_max ok key (Suc i) xs (key x) (Some i) = Some (Suc i + j)"
        "ok (xs ! j)" "key x < key (xs ! j)"
        "\<forall>k < length xs. ok (xs ! k) \<longrightarrow> key (xs ! k) \<le> key (xs ! j)"
        "\<forall>k < j. ok (xs ! k) \<longrightarrow> key (xs ! k) < key (xs ! j)"
      with True show ?thesis
        using order.strict_trans [of best "key x" "key (xs ! j)"]
        by (intro disjI2 exI [of _ "Suc j"]) (simp add: All_less_Suc2 order_less_imp_le)
    qed
  next
    case False
    from Cons.IH [of "Suc i" best res] show ?thesis
    proof (elim disjE exE conjE)
      assume "scan_max ok key (Suc i) xs best res = res" and "\<forall>y \<in> set xs. ok y \<longrightarrow> key y \<le> best"
      with False show ?thesis by auto
    next
      fix j assume j: "j < length xs" "scan_max ok key (Suc i) xs best res = Some (Suc i + j)"
        "ok (xs ! j)" "best < key (xs ! j)"
        "\<forall>k < length xs. ok (xs ! k) \<longrightarrow> key (xs ! k) \<le> key (xs ! j)"
        "\<forall>k < j. ok (xs ! k) \<longrightarrow> key (xs ! k) < key (xs ! j)"
      with False show ?thesis
        by (intro disjI2 exI [of _ "Suc j"]) (auto simp: All_less_Suc2)
    qed
  qed
qed

lemma scan_max_None_iff [scan_simps]:
  "scan_max ok key 0 xs best None = None \<longleftrightarrow> (\<forall>x \<in> set xs. ok x \<longrightarrow> key x \<le> best)"
proof (rule disjE [OF scan_max_cases [of ok key 0 xs best None]])
  assume "\<exists>j < length xs. scan_max ok key 0 xs best None = Some (0 + j) \<and> ok (xs ! j) \<and> best < key (xs ! j) \<and>
      (\<forall>k < length xs. ok (xs ! k) \<longrightarrow> key (xs ! k) \<le> key (xs ! j)) \<and>
      (\<forall>k < j. ok (xs ! k) \<longrightarrow> key (xs ! k) < key (xs ! j))"
  then obtain j where "j < length xs" "scan_max ok key 0 xs best None = Some j" "ok (xs ! j)"
    "best < key (xs ! j)" by auto
  then show ?thesis using nth_mem [of j xs] leD [of "key (xs ! j)" best] by auto
qed simp

lemma scan_max_SomeD:
  assumes "scan_max ok key 0 xs best None = Some j"
  shows "j < length xs \<and> ok (xs ! j) \<and> best < key (xs ! j) \<and>
    (\<forall>k < length xs. ok (xs ! k) \<longrightarrow> key (xs ! k) \<le> key (xs ! j)) \<and>
    (\<forall>k < j. ok (xs ! k) \<longrightarrow> key (xs ! k) < key (xs ! j))"
  using scan_max_cases [of ok key 0 xs best None] assms by auto

subsection \<open>Lists updated by index\<close>

lemma nth_list_update_if: "xs[i := v] ! j = (if i = j \<and> j < length xs then v else xs ! j)"
  by (cases "i < length xs") (auto simp: nth_list_update list_update_beyond)

end
