(* ===== verification/CString.thy ===== *)
theory CString
  imports Prelude
begin

section \<open>Byte memory and string.c\<close>

text \<open>
  The kernel's memory as bytes by address, little-endian words in it, and the functions of
  string.c on it with their pointer loops. Each is shown equal to what it is for: \<open>memset\<close> fills a
  range, \<open>memmove\<close> moves a range also when source and destination overlap, \<open>strlen\<close>, \<open>strncmp\<close>
  and the bounded copies stop at the terminating byte and at their bound.
\<close>

type_synonym bmem = "uint \<Rightarrow> byte"

definition byte_of :: "nat \<Rightarrow> uint \<Rightarrow> byte" where
  "byte_of i w = ucast (drop_bit (8 * i) w)"

definition st32 :: "bmem \<Rightarrow> uint \<Rightarrow> uint \<Rightarrow> bmem" where
  "st32 m a w = m(a := byte_of 0 w, a + 1 := byte_of 1 w, a + 2 := byte_of 2 w, a + 3 := byte_of 3 w)"

definition ld32 :: "bmem \<Rightarrow> uint \<Rightarrow> uint" where
  "ld32 m a = ucast (m a) OR push_bit 8 (ucast (m (a + 1))) OR push_bit 16 (ucast (m (a + 2)))
     OR push_bit 24 (ucast (m (a + 3)))"

subsection \<open>Memory\<close>

text \<open>\<open>rep stosl\<close> and \<open>rep stosb\<close>, with their count.\<close>

fun stosl :: "bmem \<Rightarrow> uint \<Rightarrow> uint \<Rightarrow> nat \<Rightarrow> bmem" where
  "stosl m a d 0 = m"
| "stosl m a d (Suc n) = stosl (st32 m a d) (a + 4) d n"

fun stosb :: "bmem \<Rightarrow> uint \<Rightarrow> byte \<Rightarrow> nat \<Rightarrow> bmem" where
  "stosb m a d 0 = m"
| "stosb m a d (Suc n) = stosb (m(a := d)) (a + 1) d n"

definition memset :: "bmem \<Rightarrow> uint \<Rightarrow> cint \<Rightarrow> uint \<Rightarrow> bmem" where
  "memset m dst c n =
     (if dst mod 4 = 0 \<and> n mod 4 = 0
      then let c = c AND 0xFF in
           stosl m dst (push_bit 24 c OR push_bit 16 c OR push_bit 8 c OR c) (unat (n div 4))
      else stosb m dst (ucast c) (unat n))"

fun memcmp_loop :: "bmem \<Rightarrow> uint \<Rightarrow> uint \<Rightarrow> nat \<Rightarrow> int" where
  "memcmp_loop m s1 s2 0 = 0"
| "memcmp_loop m s1 s2 (Suc n) =
     (if m s1 \<noteq> m s2 then uint (m s1) - uint (m s2) else memcmp_loop m (s1 + 1) (s2 + 1) n)"

definition memcmp :: "bmem \<Rightarrow> uint \<Rightarrow> uint \<Rightarrow> uint \<Rightarrow> int" where
  "memcmp m v1 v2 n = memcmp_loop m v1 v2 (unat n)"

fun move_down :: "bmem \<Rightarrow> uint \<Rightarrow> uint \<Rightarrow> nat \<Rightarrow> bmem" where
  "move_down m d s 0 = m"
| "move_down m d s (Suc n) = move_down (m(d - 1 := m (s - 1))) (d - 1) (s - 1) n"

fun move_up :: "bmem \<Rightarrow> uint \<Rightarrow> uint \<Rightarrow> nat \<Rightarrow> bmem" where
  "move_up m d s 0 = m"
| "move_up m d s (Suc n) = move_up (m(d := m s)) (d + 1) (s + 1) n"

definition memmove :: "bmem \<Rightarrow> uint \<Rightarrow> uint \<Rightarrow> uint \<Rightarrow> bmem" where
  "memmove m dst src n =
     (if src < dst \<and> src + n > dst then move_down m (dst + n) (src + n) (unat n)
      else move_up m dst src (unat n))"

definition memcpy :: "bmem \<Rightarrow> uint \<Rightarrow> uint \<Rightarrow> uint \<Rightarrow> bmem" where
  "memcpy m dst src n = memmove m dst src n"

subsection \<open>Strings\<close>

text \<open>The loops stop at a terminating byte or a bound; a bound below zero counts as no more room.\<close>

fun strncmp_loop :: "bmem \<Rightarrow> uint \<Rightarrow> uint \<Rightarrow> nat \<Rightarrow> int" where
  "strncmp_loop m p q 0 = 0"
| "strncmp_loop m p q (Suc n) =
     (if m p \<noteq> 0 \<and> m p = m q then strncmp_loop m (p + 1) (q + 1) n else uint (m p) - uint (m q))"

definition strncmp :: "bmem \<Rightarrow> uint \<Rightarrow> uint \<Rightarrow> uint \<Rightarrow> int" where
  "strncmp m p q n = strncmp_loop m p q (unat n)"

fun pad_loop :: "bmem \<Rightarrow> uint \<Rightarrow> nat \<Rightarrow> bmem" where
  "pad_loop m s 0 = m"
| "pad_loop m s (Suc n) = pad_loop (m(s := 0)) (s + 1) n"

fun strncpy_loop :: "bmem \<Rightarrow> uint \<Rightarrow> uint \<Rightarrow> nat \<Rightarrow> bmem" where
  "strncpy_loop m s t 0 = m"
| "strncpy_loop m s t (Suc n) =
     (let c = m t; m = m(s := c) in
      if c \<noteq> 0 then strncpy_loop m (s + 1) (t + 1) n else pad_loop m (s + 1) n)"

definition strncpy :: "bmem \<Rightarrow> uint \<Rightarrow> uint \<Rightarrow> cint \<Rightarrow> bmem" where
  "strncpy m s t n = strncpy_loop m s t (nat (sint n))"

fun safestrcpy_loop :: "bmem \<Rightarrow> uint \<Rightarrow> uint \<Rightarrow> nat \<Rightarrow> bmem" where
  "safestrcpy_loop m s t 0 = m(s := 0)"
| "safestrcpy_loop m s t (Suc n) =
     (let c = m t; m = m(s := c) in
      if c \<noteq> 0 then safestrcpy_loop m (s + 1) (t + 1) n else m(s + 1 := 0))"

definition safestrcpy :: "bmem \<Rightarrow> uint \<Rightarrow> uint \<Rightarrow> cint \<Rightarrow> bmem" where
  "safestrcpy m s t n = (if sint n \<le> 0 then m else safestrcpy_loop m s t (nat (sint n) - 1))"

text \<open>\<open>strlen\<close> does not return when no byte is zero: \<open>None\<close>.\<close>

partial_function (option) strlen_loop :: "bmem \<Rightarrow> uint \<Rightarrow> uint \<Rightarrow> uint option" where
  "strlen_loop m s n = (if m (s + n) = 0 then Some n else strlen_loop m s (n + 1))"

definition strlen :: "bmem \<Rightarrow> uint \<Rightarrow> uint option" where
  "strlen m s = strlen_loop m s 0"

subsection \<open>Ranges of addresses\<close>

lemma unat_pred_less:
  fixes x :: uint
  assumes "Suc n \<le> 4294967296"
  shows "unat (x - 1) < n \<longleftrightarrow> 0 < unat x \<and> unat x < Suc n"
proof (cases "x = 0")
  case True
  have "unat (- 1 :: uint) = 4294967295" by (simp add: unsigned_minus_1_eq_mask mask_eq_exp_minus_1)
  with True assms show ?thesis by simp
next
  case False
  then have "unat (x - 1) = unat x - 1" by (simp add: unat_minus_one)
  moreover have "0 < unat x" using False by (simp add: unat_gt_0)
  ultimately show ?thesis by linarith
qed

lemma stosb_spec:
  "n \<le> 4294967296 \<Longrightarrow> stosb m d c n = (\<lambda>a. if unat (a - d) < n then c else m a)"
proof (induction n arbitrary: m d)
  case (Suc n)
  show ?case
  proof
    fix a
    have "unat (a - (d + 1)) < n \<longleftrightarrow> a \<noteq> d \<and> unat (a - d) < Suc n"
      using unat_pred_less [OF Suc.prems, of "a - d"] by (auto simp: diff_diff_eq unat_gt_0)
    then show "stosb m d c (Suc n) a = (if unat (a - d) < Suc n then c else m a)"
      using Suc by auto
  qed
qed simp

lemma stosl_stosb:
  assumes "byte_of 0 w = c" "byte_of 1 w = c" "byte_of 2 w = c" "byte_of 3 w = c"
  shows "stosl m a w n = stosb m a c (4 * n)"
proof (induction n arbitrary: m a)
  case (Suc n)
  have e: "4 * Suc n = Suc (Suc (Suc (Suc (4 * n))))" by simp
  have "stosb m a c (4 * Suc n) = stosb (st32 m a w) (a + 4) c (4 * n)"
    unfolding st32_def assms e stosb.simps by (simp add: add.assoc)
  then show ?case using Suc by simp
qed simp

lemma bit_255: "bit (0xFF :: cint) n \<longleftrightarrow> n < 8"
proof -
  have "(0xFF :: cint) = mask 8" by (simp add: mask_eq_exp_minus_1)
  then show ?thesis by (auto simp only: bit_mask_iff) simp_all
qed

lemma byte_of_rep:
  fixes c :: cint
  defines "e \<equiv> c AND 0xFF"
  defines "w \<equiv> push_bit 24 e OR push_bit 16 e OR push_bit 8 e OR e"
  shows "byte_of 0 w = ucast c" "byte_of 1 w = ucast c" "byte_of 2 w = ucast c" "byte_of 3 w = ucast c"
proof -
  have e: "bit e n \<longleftrightarrow> bit c n \<and> n < 8" for n
    unfolding e_def by (simp only: bit_and_iff bit_255)
  have "ucast (drop_bit (8 * i) w) = (ucast c :: byte)" if "i < 4" for i
  proof (rule bit_word_eqI)
    fix n assume n: "n < LENGTH(8)"
    from that consider "i = 0" | "i = 1" | "i = 2" | "i = 3" by linarith
    then show "bit (ucast (drop_bit (8 * i) w) :: byte) n = bit (ucast c :: byte) n"
      using n unfolding w_def by cases (auto simp: bit_simps e)
  qed
  from this [of 0] this [of 1] this [of 2] this [of 3]
  show "byte_of 0 w = ucast c" "byte_of 1 w = ucast c" "byte_of 2 w = ucast c" "byte_of 3 w = ucast c"
    unfolding byte_of_def by simp_all
qed

lemma memset_spec:
  "memset m dst c n = (\<lambda>a. if a - dst < n then ucast c else m a)"
proof -
  have l: "unat n \<le> 4294967296" using unat_range32 [of n] by simp
  have "memset m dst c n = stosb m dst (ucast c) (unat n)"
  proof (cases "dst mod 4 = 0 \<and> n mod 4 = 0")
    case True
    have "unat (n mod 4) = unat n mod 4" by (simp add: unat_mod)
    then have "unat n mod 4 = 0" using True by simp
    then have "4 * unat (n div 4) = unat n"
      using mult_div_mod_eq [of 4 "unat n"] by (simp add: unat_div)
    then show ?thesis
      unfolding memset_def Let_def stosl_stosb [OF byte_of_rep] using True by simp
  next
    case False
    then show ?thesis by (auto simp: memset_def)
  qed
  then show ?thesis using stosb_spec [OF l, of m dst "ucast c"] by (simp add: word_less_nat_alt)
qed

lemma move_up_spec:
  assumes "n \<le> 4294967296" "d = s \<or> n \<le> unat (d - s)"
  shows "move_up m d s n = (\<lambda>a. if unat (a - d) < n then m (s + (a - d)) else m a)"
  using assms
proof (induction n arbitrary: m d s)
  case (Suc n)
  have d: "d + 1 - (s + 1) = d - s" by simp
  have "d + 1 = s + 1 \<or> n \<le> unat (d + 1 - (s + 1))" unfolding d using Suc.prems(2) by auto
  note IH = Suc.IH [OF _ this, of "m(d := m s)"]
  show ?case
  proof
    fix a
    have r: "unat (a - (d + 1)) < n \<longleftrightarrow> a \<noteq> d \<and> unat (a - d) < Suc n"
      using unat_pred_less [OF Suc.prems(1), of "a - d"] by (auto simp: diff_diff_eq unat_gt_0)
    have c: "s + (a - d) \<noteq> d" if "a \<noteq> d" "unat (a - d) < Suc n"
    proof
      assume "s + (a - d) = d"
      then have e: "a - d = d - s" by (simp add: algebra_simps)
      show False using Suc.prems(2) that e by auto
    qed
    have x: "s + 1 + (a - (d + 1)) = s + (a - d)" by simp
    have le: "n \<le> 4294967296" using Suc.prems(1) by simp
    show "move_up m d s (Suc n) a = (if unat (a - d) < Suc n then m (s + (a - d)) else m a)"
      unfolding move_up.simps IH [OF le] x using r c by auto
  qed
qed simp

lemma move_down_spec:
  assumes "n \<le> 4294967296" "d = s \<or> n \<le> unat (s - d)"
  shows "move_down m d s n = (\<lambda>a. if unat (d - 1 - a) < n then m (s - (d - a)) else m a)"
  using assms
proof (induction n arbitrary: m d s)
  case (Suc n)
  have d: "s - 1 - (d - 1) = s - d" by simp
  have "d - 1 = s - 1 \<or> n \<le> unat (s - 1 - (d - 1))" unfolding d using Suc.prems(2) by auto
  note IH = Suc.IH [OF _ this, of "m(d - 1 := m (s - 1))"]
  show ?case
  proof
    fix a
    have r: "unat (d - 1 - 1 - a) < n \<longleftrightarrow> a \<noteq> d - 1 \<and> unat (d - 1 - a) < Suc n"
    proof -
      have "d - 1 - 1 - a = (d - 1 - a) - 1" by simp
      moreover have "0 < unat (d - 1 - a) \<longleftrightarrow> a \<noteq> d - 1" by (auto simp: unat_gt_0)
      ultimately show ?thesis using unat_pred_less [OF Suc.prems(1), of "d - 1 - a"] by metis
    qed
    have c: "s - (d - a) \<noteq> d - 1" if "a \<noteq> d - 1" "unat (d - 1 - a) < Suc n"
    proof
      assume "s - (d - a) = d - 1"
      then have e: "d - 1 - a = s - d" by (simp add: algebra_simps)
      from Suc.prems(2) show False
      proof
        assume "d = s"
        with e have "d - 1 - a = 0" by (simp only: diff_self)
        then show False using that(1) by (metis right_minus_eq)
      qed (use that(2) e in simp)
    qed
    have x: "s - 1 - (d - 1 - a) = s - (d - a)" by simp
    have le: "n \<le> 4294967296" using Suc.prems(1) by simp
    show "move_down m d s (Suc n) a = (if unat (d - 1 - a) < Suc n then m (s - (d - a)) else m a)"
      unfolding move_down.simps IH [OF le] x using r c by auto
  qed
qed simp

text \<open>The address range of \<open>n\<close> bytes from \<open>d\<close>, counted from either end.\<close>

lemma range_from_top:
  fixes a d n :: uint
  assumes "0 < unat n"
  shows "unat (d + n - 1 - a) < unat n \<longleftrightarrow> unat (a - d) < unat n"
proof -
  have e: "d + n - 1 - a = (n - 1) - (a - d)" by simp
  have "unat (n - 1) = unat n - 1" using assms by (intro unat_minus_one) auto
  show ?thesis
  proof (cases "a - d \<le> n - 1")
    case True
    then have "unat (n - 1 - (a - d)) = unat (n - 1) - unat (a - d)" by (rule unat_sub)
    moreover have "unat (a - d) \<le> unat (n - 1)" using True by (simp add: word_le_nat_alt)
    ultimately show ?thesis unfolding e using assms \<open>unat (n - 1) = unat n - 1\<close> by linarith
  next
    case False
    then have l: "unat (n - 1) < unat (a - d)" by (simp add: word_le_nat_alt)
    have "unat (n - 1 - (a - d)) = unat (n - 1) + 4294967296 - unat (a - d)"
      using l unat_range32 [of "a - d"] by (simp add: unat_sub_if_size word_size word_le_nat_alt)
    then show ?thesis unfolding e using l assms \<open>unat (n - 1) = unat n - 1\<close> unat_range32 [of "a - d"]
      by linarith
  qed
qed

lemma memmove_spec:
  assumes "unat src + unat n < 4294967296" "unat dst + unat n < 4294967296"
  shows "memmove m dst src n = (\<lambda>a. if a - dst < n then m (src + (a - dst)) else m a)"
proof (cases "src < dst \<and> src + n > dst")
  case True
  have sn: "unat (src + n) = unat src + unat n" using assms(1) by (simp add: unat_add_lem [THEN iffD1])
  from True sn have k: "unat dst - unat src < unat n" "unat src < unat dst"
    by (auto simp: word_less_nat_alt)
  then have n0: "0 < unat n" by linarith
  have "\<not> dst \<le> src" using k by (simp add: word_le_nat_alt)
  then have "unat (src - dst) = unat src + 4294967296 - unat dst"
    by (simp add: unat_sub_if_size word_size word_le_nat_alt)
  then have "unat n \<le> unat (src + n - (dst + n))" using assms by simp
  then have h: "dst + n = src + n \<or> unat n \<le> unat (src + n - (dst + n))" by simp
  have l: "unat n \<le> 4294967296" using unat_range32 [of n] by simp
  have e: "src + n - (dst + n - a) = src + (a - dst)" for a by simp
  have "move_down m (dst + n) (src + n) (unat n) = (\<lambda>a. if a - dst < n then m (src + (a - dst)) else m a)"
    unfolding move_down_spec [OF l h] e range_from_top [OF n0] word_less_nat_alt by (rule refl)
  then show ?thesis using True by (simp add: memmove_def)
next
  case False
  have l: "unat n \<le> 4294967296" using unat_range32 [of n] by simp
  have "dst = src \<or> unat n \<le> unat (dst - src)"
  proof (cases "src \<le> dst")
    case True
    have sn: "unat (src + n) = unat src + unat n" using assms(1) by (simp add: unat_add_lem [THEN iffD1])
    have "unat (dst - src) = unat dst - unat src" using True by (rule unat_sub)
    then show ?thesis using False True sn by (auto simp: word_less_nat_alt word_le_nat_alt word_unat_eq_iff)
  next
    case False
    then have "unat (dst - src) = unat dst + 4294967296 - unat src"
      by (simp add: unat_sub_if_size word_size word_le_nat_alt)
    then have "unat n \<le> unat (dst - src)" using assms(1) by linarith
    then show ?thesis ..
  qed
  from move_up_spec [OF l this, of m]
  have "move_up m dst src (unat n) = (\<lambda>a. if a - dst < n then m (src + (a - dst)) else m a)"
    by (simp only: word_less_nat_alt)
  then show ?thesis using False by (simp only: memmove_def if_False)
qed

subsection \<open>Words in memory\<close>

lemma bit_byte_of: "bit (byte_of i w) n \<longleftrightarrow> n < 8 \<and> bit w (8 * i + n)"
  by (auto simp: byte_of_def bit_simps)

lemma bytes_join:
  "ucast (byte_of 0 w) OR push_bit 8 (ucast (byte_of 1 w)) OR push_bit 16 (ucast (byte_of 2 w))
     OR push_bit 24 (ucast (byte_of 3 w)) = (w :: uint)"
proof (rule bit_word_eqI)
  fix n assume "n < LENGTH(32)"
  then have "n < 8 \<or> (8 \<le> n \<and> n < 16) \<or> (16 \<le> n \<and> n < 24) \<or> (24 \<le> n \<and> n < 32)" by auto
  then show "bit (ucast (byte_of 0 w) OR push_bit 8 (ucast (byte_of 1 w)) OR push_bit 16 (ucast (byte_of 2 w))
     OR push_bit 24 (ucast (byte_of 3 w)) :: uint) n = bit w n"
    by (auto simp: bit_simps bit_byte_of)
qed

lemma ld32_st32 [simp]: "ld32 (st32 m a w) a = w"
  using bytes_join [of w] by (simp add: ld32_def st32_def)

lemma st32_apply: "st32 m a w b = (if unat (b - a) < 4 then byte_of (unat (b - a)) w else m b)"
proof -
  define k where "k = unat (b - a)"
  have b: "b = a + word_of_nat k" by (simp add: k_def)
  consider "k = 0" | "k = 1" | "k = 2" | "k = 3" | "4 \<le> k" by linarith
  then show ?thesis
  proof cases
    case 5
    have "b \<noteq> a + of_nat j" if "j < 4" for j
    proof
      assume "b = a + of_nat j"
      then have "k = unat (of_nat j :: uint)" by (simp add: k_def)
      also have "\<dots> = j" using that by (intro unat_of_nat32) simp
      finally show False using that 5 by simp
    qed
    from this [of 0] this [of 1] this [of 2] this [of 3] 5 show ?thesis
      by (simp add: st32_def flip: k_def)
  qed (use b in \<open>simp_all add: st32_def flip: k_def\<close>)
qed

lemma ld32_cong:
  assumes "\<And>i. i < 4 \<Longrightarrow> m (a + of_nat i) = m' (a + of_nat i)"
  shows "ld32 m a = ld32 m' a"
  using assms [of 0] assms [of 1] assms [of 2] assms [of 3] by (simp add: ld32_def)

lemma ld32_st32_other:
  assumes "4 \<le> unat (a - b)" "4 \<le> unat (b - a)"
  shows "ld32 (st32 m a w) b = ld32 m b"
proof (rule ld32_cong)
  fix i :: nat assume i: "i < 4"
  have o: "unat (of_nat i :: uint) = i" using i by (intro unat_of_nat32) simp
  have "4 \<le> unat (b + of_nat i - a)"
  proof (rule ccontr)
    assume "\<not> 4 \<le> unat (b + of_nat i - a)"
    then have l: "unat (b - a + of_nat i) < 4" by (simp add: algebra_simps)
    have "unat (b - a + of_nat i) = (unat (b - a) + i) mod 4294967296"
      using o by (simp add: unat_word_ariths)
    moreover have "unat (b - a) + i < 4294967296"
    proof -
      have "unat (a - b) = 4294967296 - unat (b - a)"
      proof -
        have "a - b = - (b - a)" by simp
        moreover have "b - a \<noteq> 0" using assms by auto
        ultimately show ?thesis using unat_neg32 by metis
      qed
      then show ?thesis using assms i by linarith
    qed
    ultimately show False using l assms by simp
  qed
  then show "st32 m a w (b + of_nat i) = m (b + of_nat i)" by (simp add: st32_apply)
qed

subsection \<open>Strings in memory\<close>

text \<open>\<open>cstr m s xs\<close>: the bytes \<open>xs\<close>, none of them zero, stand at \<open>s\<close>, followed by a zero byte.\<close>

fun cstr :: "bmem \<Rightarrow> uint \<Rightarrow> byte list \<Rightarrow> bool" where
  "cstr m s [] \<longleftrightarrow> m s = 0"
| "cstr m s (x # xs) \<longleftrightarrow> m s = x \<and> x \<noteq> 0 \<and> cstr m (s + 1) xs"

lemma cstr_cong:
  "(\<And>i. i \<le> length xs \<Longrightarrow> m (s + of_nat i) = m' (s + of_nat i)) \<Longrightarrow> cstr m s xs = cstr m' s xs"
proof (induction xs arbitrary: s)
  case (Cons x xs)
  have "m s = m' s" using Cons.prems [of 0] by simp
  moreover have "m (s + 1 + of_nat i) = m' (s + 1 + of_nat i)" if "i \<le> length xs" for i
    using Cons.prems [of "Suc i"] that by (simp add: algebra_simps)
  then have "cstr m (s + 1) xs = cstr m' (s + 1) xs" by (rule Cons.IH)
  ultimately show ?case by simp
next
  case Nil
  then show ?case using Nil [of 0] by simp
qed

lemma strlen_loop_cstr: "cstr m (s + n) xs \<Longrightarrow> strlen_loop m s n = Some (n + of_nat (length xs))"
proof (induction xs arbitrary: n)
  case Nil
  then show ?case by (subst strlen_loop.simps) simp
next
  case (Cons x xs)
  then have "cstr m (s + (n + 1)) xs" "m (s + n) \<noteq> 0" by (simp_all add: add.assoc)
  with Cons.IH [of "n + 1"] show ?case by (subst strlen_loop.simps) (simp add: algebra_simps)
qed

lemma strncmp_loop_zero:
  "cstr m p xs \<Longrightarrow> cstr m q ys \<Longrightarrow> strncmp_loop m p q n = 0 \<longleftrightarrow> take n xs = take n ys"
proof (induction n arbitrary: p q xs ys)
  case (Suc n)
  show ?case
  proof (cases xs)
    case Nil
    then show ?thesis using Suc.prems by (cases ys) (auto simp: uint_0_iff)
  next
    case (Cons x xs')
    show ?thesis
    proof (cases ys)
      case Nil
      then show ?thesis using Suc.prems Cons by (auto simp: uint_0_iff)
    next
      case (Cons y ys')
      then show ?thesis using Suc.prems \<open>xs = x # xs'\<close> Suc.IH [of "p + 1" xs' "q + 1" ys']
        by (auto simp: word_uint_eq_iff)
    qed
  qed
qed simp

lemma safestrcpy_loop_spec:
  assumes "cstr m t xs" "n + 1 < 4294967296"
    and "\<And>i j. i \<le> n \<Longrightarrow> j \<le> length xs \<Longrightarrow> s + of_nat i \<noteq> t + of_nat j"
  shows "cstr (safestrcpy_loop m s t n) s (take n xs)
     \<and> (\<forall>a. n < unat (a - s) \<longrightarrow> safestrcpy_loop m s t n a = m a)"
  using assms
proof (induction n arbitrary: m s t xs)
  case 0
  then show ?case by auto
next
  case (Suc n)
  show ?case
  proof (cases xs)
    case Nil
    have "unat (s + 1 - s) = 1" by simp
    with Nil Suc.prems(1) show ?thesis by auto
  next
    case (Cons x xs')
    have mt: "m t = x" "x \<noteq> 0" "cstr m (t + 1) xs'" using Suc.prems(1) Cons by auto
    let ?m = "m(s := x)"
    have dis: "s + 1 + of_nat i \<noteq> t + 1 + of_nat j" if "i \<le> n" "j \<le> length xs'" for i j
      using Suc.prems(3) [of "Suc i" "Suc j"] that Cons by (simp add: algebra_simps)
    have "t + 1 + of_nat j \<noteq> s" if "j \<le> length xs'" for j
      using Suc.prems(3) [of 0 "Suc j"] that Cons by (simp add: algebra_simps)
    then have c: "cstr ?m (t + 1) xs'" using mt(3) by (subst cstr_cong [of _ _ _ m]) auto
    have le: "n + 1 < 4294967296" using Suc.prems(2) by simp
    from Suc.IH [OF c le dis]
    have IH: "cstr (safestrcpy_loop ?m (s + 1) (t + 1) n) (s + 1) (take n xs')"
      "\<And>a. n < unat (a - (s + 1)) \<Longrightarrow> safestrcpy_loop ?m (s + 1) (t + 1) n a = ?m a" by blast+
    have e: "safestrcpy_loop m s t (Suc n) = safestrcpy_loop ?m (s + 1) (t + 1) n"
      using mt by (simp add: Let_def)
    have "unat (s - (s + 1)) = 4294967295"
      by (simp add: unsigned_minus_1_eq_mask mask_eq_exp_minus_1)
    then have s: "safestrcpy_loop ?m (s + 1) (t + 1) n s = x"
      using IH(2) [of s] Suc.prems(2) by simp
    have "safestrcpy_loop ?m (s + 1) (t + 1) n a = m a" if a: "Suc n < unat (a - s)" for a
    proof -
      have "unat (a - s - 1) = unat (a - s) - 1" using a by (intro unat_minus_one) auto
      then have "n < unat (a - (s + 1))" using a by (simp add: diff_diff_eq)
      moreover have "a \<noteq> s" using a by auto
      ultimately show ?thesis using IH(2) [of a] by simp
    qed
    then show ?thesis unfolding e using Cons s mt IH(1) by simp
  qed
qed

subsection \<open>Properties\<close>

text \<open>
  C36. \<open>memmove\<close> copies correctly also when the ranges overlap: afterwards every byte of the
  destination range is the byte the source range had before, and all other memory is as before.
\<close>

theorem memmove_overlap:
  assumes "unat src + unat n < 4294967296" "unat dst + unat n < 4294967296"
  shows "memmove m dst src n a = (if a - dst < n then m (src + (a - dst)) else m a)"
  using memmove_spec [OF assms] by simp

theorem memmove_overlap_witness:
  "memmove (\<lambda>a. ucast a) 101 100 4 103 = 102 \<and> memmove (\<lambda>a. ucast a) 100 101 4 103 = 104"
  using memmove_overlap [of 100 4 101 "\<lambda>a. ucast a" 103] memmove_overlap [of 101 4 100 "\<lambda>a. ucast a" 103]
  by simp

text \<open>
  \<open>memset\<close>'s word-wise fast path agrees with its byte-wise path: either way exactly the range
  is filled, with the low byte of the value.
\<close>

theorem memset_fills: "memset m dst c n a = (if a - dst < n then ucast c else m a)"
  by (simp add: memset_spec)

text \<open>
  On strings: \<open>strlen\<close> returns and gives the length, \<open>strncmp\<close> is zero exactly when the
  strings agree up to the bound, and \<open>safestrcpy\<close> leaves in a buffer apart from the source the
  longest prefix that fits, terminated, and touches nothing outside the buffer.
\<close>

theorem string_functions:
  assumes "cstr m p xs" "cstr m q ys" "0 < sint len"
    and "\<And>i j. i < nat (sint len) \<Longrightarrow> j \<le> length xs \<Longrightarrow> s + of_nat i \<noteq> p + of_nat j"
  shows "strlen m p = Some (of_nat (length xs))
     \<and> (strncmp m p q n = 0 \<longleftrightarrow> take (unat n) xs = take (unat n) ys)
     \<and> cstr (safestrcpy m s p len) s (take (nat (sint len) - 1) xs)
     \<and> (\<forall>a. nat (sint len) \<le> unat (a - s) \<longrightarrow> safestrcpy m s p len a = m a)"
proof -
  have l: "nat (sint len) - 1 + 1 < 4294967296" using sint_range32 [of len] assms(3) by linarith
  have sf: "safestrcpy m s p len = safestrcpy_loop m s p (nat (sint len) - 1)"
    using assms(3) by (simp add: safestrcpy_def)
  have c: "cstr (safestrcpy m s p len) s (take (nat (sint len) - 1) xs)
     \<and> (\<forall>a. nat (sint len) - 1 < unat (a - s) \<longrightarrow> safestrcpy m s p len a = m a)"
    unfolding sf using assms(3,4) by (intro safestrcpy_loop_spec [OF assms(1) l]) auto
  have "strlen m p = Some (of_nat (length xs))"
    using strlen_loop_cstr [of m p 0 xs] assms(1) by (simp add: strlen_def)
  moreover have "strncmp m p q n = 0 \<longleftrightarrow> take (unat n) xs = take (unat n) ys"
    unfolding strncmp_def using assms(1,2) by (rule strncmp_loop_zero)
  moreover have "safestrcpy m s p len a = m a" if "nat (sint len) \<le> unat (a - s)" for a
  proof -
    have "nat (sint len) - 1 < unat (a - s)" using that assms(3) by linarith
    with c show ?thesis by blast
  qed
  ultimately show ?thesis using c by blast
qed

definition str_mem :: bmem where
  "str_mem a = (if a = 16 then 104 else if a = 17 then 105 else 0)"

theorem string_functions_witness:
  "strlen str_mem 16 = Some 2 \<and> cstr (safestrcpy str_mem 32 16 2) 32 [104]"
proof -
  have c: "cstr str_mem 16 [104, 105]" by (simp add: str_mem_def)
  have "(32::uint) + of_nat i \<noteq> 16 + of_nat j" if "i < 2" "j \<le> 2" for i j
  proof -
    from that have "i = 0 \<or> i = 1" "j = 0 \<or> j = 1 \<or> j = 2" by linarith+
    then show ?thesis by auto
  qed
  with string_functions [OF c c, of 2 32] show ?thesis by simp
qed

end
