(* ===== verification/Locks.thy ===== *)
theory Locks
  imports Prelude
begin

section \<open>Lock discipline: names of locks, and what a lock user relies on\<close>

text \<open>
  The kernel's spin locks and wait channels are addresses of static objects; two different
  objects have different addresses, so they are modelled as a datatype with one constructor per
  object. Everything but spinlock.c sees a spin lock through the four laws of the locale
  \<open>spin_locking\<close>; the state component \<open>held\<close> is the set of spin locks the running kernel thread
  holds, so \<open>mycpu()->ncli\<close> is its cardinality. The theory Spinlock proves that the code of
  spinlock.c satisfies the same laws.
\<close>

subsection \<open>Lock and channel names\<close>

datatype sleep_id = SBuf nat | SInode nat

datatype lock_id =
    LPtable | LTicks | LKmem | LBcache | LIcache | LFtable | LLog | LIde | LCons | LShm
  | LShmEntry nat | LPrio | LUser | LPipe uint | LSleep sleep_id

datatype chan =
    CProc nat | CTicks | CSleep sleep_id | CPrio | CLog | CInput | CBuf nat
  | CPipeRead uint | CPipeWrite uint

subsection \<open>The interface\<close>

locale spin_locking =
  fixes acq :: "'l \<Rightarrow> 's \<Rightarrow> ('s, unit) outcome"
    and rel :: "'l \<Rightarrow> 's \<Rightarrow> ('s, unit) outcome"
    and holds :: "'s \<Rightarrow> 'l set"
    and sane :: "'s \<Rightarrow> bool"
  assumes acq_Ok: "sane s \<Longrightarrow> acq l s = Ok u t \<Longrightarrow> l \<notin> holds s \<and> holds t = insert l (holds s) \<and> sane t"
    and acq_again: "sane s \<Longrightarrow> l \<in> holds s \<Longrightarrow> \<exists>msg. acq l s = Panic msg"
    and rel_Ok: "sane s \<Longrightarrow> l \<in> holds s \<Longrightarrow>
      returns (rel l s) (\<lambda>_ t. holds t = holds s - {l} \<and> sane t)"
    and rel_unheld: "sane s \<Longrightarrow> l \<notin> holds s \<Longrightarrow> rel l s = Panic ''release''"
begin

text \<open>A critical section \<open>acquire(l); body; release(l)\<close>.\<close>

definition section_of :: "'l \<Rightarrow> ('s \<Rightarrow> ('s, 'a) outcome) \<Rightarrow> 's \<Rightarrow> ('s, 'a) outcome" where
  "section_of l body s =
     bnd (acq l s) (\<lambda>_ s. bnd (body s) (\<lambda>a s. bnd (rel l s) (\<lambda>_ s. Ok a s)))"

text \<open>A section whose body is balanced is balanced, and gives back exactly the locks it found.\<close>

lemma section_balanced:
  assumes "sane s"
    and body: "\<And>s a t. sane s \<Longrightarrow> body s = Ok a t \<Longrightarrow> holds t = holds s \<and> sane t"
    and run: "section_of l body s = Ok a t"
  shows "holds t = holds s \<and> sane t"
proof -
  from run obtain s1 s2 u v where a: "acq l s = Ok u s1" and b: "body s1 = Ok a s2"
    and r: "rel l s2 = Ok v t"
    by (auto simp: section_of_def outcome_iff)
  from acq_Ok [OF assms(1) a] have h1: "l \<notin> holds s" "holds s1 = insert l (holds s)" "sane s1"
    by auto
  from body [OF h1(3) b] have h2: "holds s2 = holds s1" "sane s2" by auto
  from rel_Ok [OF h2(2), of l] h1 h2 r show ?thesis by auto
qed

text \<open>Entering a section that the same thread is already inside panics: no self-deadlock.\<close>

lemma section_reentry: "sane s \<Longrightarrow> l \<in> holds s \<Longrightarrow> \<exists>msg. section_of l body s = Panic msg"
  using acq_again [of s l] by (auto simp: section_of_def)

text \<open>A body that drops the lock makes the final release panic.\<close>

lemma section_double_release:
  assumes "sane s" and "acq l s = Ok u s1" and "body s1 = Ok a s2" and "sane s2" and "l \<notin> holds s2"
  shows "section_of l body s = Panic ''release''"
  using assms by (simp add: section_of_def rel_unheld)

end

subsection \<open>The kernel thread's view of its locks\<close>

record kcore =
  held :: "lock_id set"

definition lk_acquire :: "lock_id \<Rightarrow> 'z kcore_scheme \<Rightarrow> ('z kcore_scheme, unit) outcome" where
  "lk_acquire l s = (if l \<in> held s then Panic ''acquire'' else Ok () (s\<lparr>held := insert l (held s)\<rparr>))"

definition lk_release :: "lock_id \<Rightarrow> 'z kcore_scheme \<Rightarrow> ('z kcore_scheme, unit) outcome" where
  "lk_release l s = (if l \<notin> held s then Panic ''release'' else Ok () (s\<lparr>held := held s - {l}\<rparr>))"

definition lk_holding :: "lock_id \<Rightarrow> 'z kcore_scheme \<Rightarrow> bool" where
  "lk_holding l s \<longleftrightarrow> l \<in> held s"

lemmas lk_defs = lk_acquire_def lk_release_def lk_holding_def

lemma lk_acquire_free [simp]:
  "l \<notin> held s \<Longrightarrow> lk_acquire l s = Ok () (s\<lparr>held := insert l (held s)\<rparr>)"
  by (simp add: lk_acquire_def)

lemma lk_acquire_held [simp]: "l \<in> held s \<Longrightarrow> lk_acquire l s = Panic ''acquire''"
  by (simp add: lk_acquire_def)

lemma lk_release_held [simp]: "l \<in> held s \<Longrightarrow> lk_release l s = Ok () (s\<lparr>held := held s - {l}\<rparr>)"
  by (simp add: lk_release_def)

lemma lk_release_unheld [simp]: "l \<notin> held s \<Longrightarrow> lk_release l s = Panic ''release''"
  by (simp add: lk_release_def)

lemma wp_lk [wp_rules]:
  "wp (lk_acquire l s) R Q \<longleftrightarrow> (l \<notin> held s \<longrightarrow> R () (s\<lparr>held := insert l (held s)\<rparr>))"
  "wp (lk_release l s) R Q \<longleftrightarrow> (l \<in> held s \<longrightarrow> R () (s\<lparr>held := held s - {l}\<rparr>))"
  by (cases "l \<in> held s"; simp)+

interpretation klk: spin_locking lk_acquire lk_release held "\<lambda>_. True"
  by unfold_locales (auto simp: lk_defs split: if_splits)

end
