(* ===== verification/Cprintf.thy ===== *)
theory Cprintf
  imports Locks
begin

section \<open>Kernel console output (console.c: printint, cprintf, cgaputc, consputc; uart.c: uartputc)\<close>

text \<open>
  The output half of the console: formatted printing, the serial port as the list of bytes sent
  to it, and the CGA text memory with its cursor. Printed numbers read back as the number, and
  the cursor never leaves the screen.
\<close>

record tty = kcore +
  cons_locking :: bool
  panicked :: bool
  uart :: bool
  uart_out :: "byte list"
  crt :: "nat \<Rightarrow> ushort"
  crt_pos :: int

definition BACKSPACE :: int where "BACKSPACE = 0x100"

text \<open>\<open>uartputc\<close> polls the line status register at most 128 times, then sends the byte anyway.\<close>

definition uartputc :: "int \<Rightarrow> 'z tty_scheme \<Rightarrow> 'z tty_scheme" where
  "uartputc c s = (if \<not> uart s then s else s\<lparr>uart_out := uart_out s @ [word_of_int c]\<rparr>)"

definition cga_advance :: "int \<Rightarrow> int \<Rightarrow> (nat \<Rightarrow> ushort) \<Rightarrow> int \<times> (nat \<Rightarrow> ushort)" where
  "cga_advance c pos m =
     (if c = 10 then (pos + (80 - pos mod 80), m)
      else if c = BACKSPACE then (if pos > 0 then pos - 1 else pos, m)
      else (pos + 1, m(nat pos := (word_of_int c AND 0xff) OR 0x0700)))"

definition cga_scroll :: "int \<Rightarrow> (nat \<Rightarrow> ushort) \<Rightarrow> int \<times> (nat \<Rightarrow> ushort)" where
  "cga_scroll pos m =
     (if pos div 80 \<ge> 24
      then let moved = (\<lambda>i. if i < 23 * 80 then m (i + 80) else m i);
               pos = pos - 80
           in (pos, \<lambda>i. if nat pos \<le> i \<and> i < 24 * 80 then 0 else moved i)
      else (pos, m))"

definition cgaputc :: "int \<Rightarrow> 'z tty_scheme \<Rightarrow> ('z tty_scheme, unit) outcome" where
  "cgaputc c s =
     (let (pos, m) = cga_advance c (crt_pos s) (crt s) in
      if pos < 0 \<or> pos > 25 * 80 then Panic ''pos under/overflow''
      else let (pos, m) = cga_scroll pos m in
        Ok () (s\<lparr>crt := m(nat pos := 0x0720), crt_pos := pos\<rparr>))"

definition consputc :: "int \<Rightarrow> 'z tty_scheme \<Rightarrow> ('z tty_scheme, unit) outcome" where
  "consputc c s =
     (if panicked s then Spin
      else cgaputc c (if c = BACKSPACE then uartputc 8 (uartputc 32 (uartputc 8 s)) else uartputc c s))"

fun consputs :: "int list \<Rightarrow> 'z tty_scheme \<Rightarrow> ('z tty_scheme, unit) outcome" where
  "consputs [] s = Ok () s"
| "consputs (c # cs) s = bnd (consputc c s) (\<lambda>_ s. consputs cs s)"

subsection \<open>Numbers\<close>

definition hexdigits :: "int list" where
  "hexdigits = [48,49,50,51,52,53,54,55,56,57,97,98,99,100,101,102]"

text \<open>
  The digits as the loop of \<open>printint\<close> stores them, least significant first; \<open>printint\<close> is only
  called with base 10 or 16.
\<close>

function pi_buf :: "nat \<Rightarrow> nat \<Rightarrow> int list" where
  "pi_buf x base = hexdigits ! (x mod base) #
     (if 1 < base \<and> x div base \<noteq> 0 then pi_buf (x div base) base else [])"
  by pat_completeness auto
termination
  by (relation "measure fst") (auto simp: div_greater_zero_iff)

declare pi_buf.simps [simp del]

definition printint_chars :: "cint \<Rightarrow> nat \<Rightarrow> bool \<Rightarrow> int list" where
  "printint_chars xx base sign =
     (let neg = sign \<and> xx <s 0;
          x = (if neg then - xx else xx)
      in rev (pi_buf (unat x) base @ (if neg then [45] else [])))"

subsection \<open>Formatted output\<close>

datatype fmt_arg = AInt cint | AStr "byte list option"

text \<open>
  What one conversion prints and the arguments it leaves; \<open>None\<close> when it asks for an argument
  that was not passed, or of the other kind, which C leaves undefined.
\<close>

definition cprintf_conv :: "byte \<Rightarrow> fmt_arg list \<Rightarrow> (int list \<times> fmt_arg list) option" where
  "cprintf_conv d args =
     (if d = 100 then (case args of AInt n # as \<Rightarrow> Some (printint_chars n 10 True, as) | _ \<Rightarrow> None)
      else if d = 120 \<or> d = 112 then
        (case args of AInt n # as \<Rightarrow> Some (printint_chars n 16 False, as) | _ \<Rightarrow> None)
      else if d = 115 then
        (case args of
           AStr p # as \<Rightarrow> Some (map sint (case p of None \<Rightarrow> str ''(null)'' | Some t \<Rightarrow> takeWhile (\<lambda>c. c \<noteq> 0) t), as)
         | _ \<Rightarrow> None)
      else if d = 37 then Some ([37], args)
      else Some ([37, uint d], args))"

text \<open>A zero byte ends the format, as the end of the list does, and a string argument.\<close>

fun cprintf_chars :: "byte list \<Rightarrow> fmt_arg list \<Rightarrow> int list option" where
  "cprintf_chars [] args = Some []"
| "cprintf_chars [c] args = Some (if c \<noteq> 0 \<and> c \<noteq> 37 then [uint c] else [])"
| "cprintf_chars (c # d # cs) args =
     (if c = 0 then Some []
      else if c \<noteq> 37 then map_option ((#) (uint c)) (cprintf_chars (d # cs) args)
      else if d = 0 then Some []
      else (case cprintf_conv d args of
              None \<Rightarrow> None
            | Some (out, as) \<Rightarrow> map_option ((@) out) (cprintf_chars cs as)))"

definition cprintf :: "byte list \<Rightarrow> fmt_arg list \<Rightarrow> 'z tty_scheme \<Rightarrow> ('z tty_scheme, unit) outcome" where
  "cprintf fmt args s =
     (let locking = cons_locking s in
      bnd (if locking then lk_acquire LCons s else Ok () s) (\<lambda>_ s.
      (case cprintf_chars fmt args of
         None \<Rightarrow> Fault
       | Some cs \<Rightarrow>
           bnd (consputs cs s) (\<lambda>_ s. if locking then lk_release LCons s else Ok () s))))"


subsection \<open>Printed numbers read back\<close>

definition digit_value :: "int \<Rightarrow> int" where
  "digit_value c = (if c < 58 then c - 48 else c - 87)"

definition read_num :: "int \<Rightarrow> int list \<Rightarrow> int" where
  "read_num base cs =
     (case cs of
        [] \<Rightarrow> 0
      | c # ds \<Rightarrow> if c = 45 then - foldl (\<lambda>a d. a * base + digit_value d) 0 ds
                   else foldl (\<lambda>a d. a * base + digit_value d) 0 cs)"

lemma hexdigit_cases:
  "d < 16 \<Longrightarrow> digit_value (hexdigits ! d) = int d \<and> hexdigits ! d \<noteq> 45
     \<and> 0 \<le> hexdigits ! d \<and> hexdigits ! d < 128"
proof -
  have "\<forall>d \<in> set [0..<16]. digit_value (hexdigits ! d) = int d \<and> hexdigits ! d \<noteq> 45
     \<and> 0 \<le> hexdigits ! d \<and> hexdigits ! d < 128"
    by (simp add: upt_rec hexdigits_def digit_value_def)
  then show "d < 16 \<Longrightarrow> ?thesis" by simp
qed

lemma pi_buf_value:
  assumes "2 \<le> base" "base \<le> 16"
  shows "foldr (\<lambda>c a. a * int base + digit_value c) (pi_buf x base) 0 = int x"
  using assms
proof (induction x base rule: pi_buf.induct)
  case (1 x base)
  from "1.prems" have d: "x mod base < 16"
    using mod_less_divisor [of base x] by linarith
  show ?case
  proof (cases "x div base = 0")
    case True
    then have "x mod base = x" using "1.prems" by (simp add: div_eq_0_iff)
    with True d show ?thesis by (subst pi_buf.simps) (simp add: hexdigit_cases)
  next
    case False
    with 1 have "foldr (\<lambda>c a. a * int base + digit_value c) (pi_buf (x div base) base) 0 = int (x div base)"
      by simp
    moreover have "int (x div base) * int base + int (x mod base) = int x"
      by (metis div_mult_mod_eq of_nat_add of_nat_mult)
    ultimately show ?thesis using False "1.prems" d by (subst pi_buf.simps) (simp add: hexdigit_cases)
  qed
qed

lemma pi_buf_chars:
  assumes "2 \<le> base" "base \<le> 16"
  shows "c \<in> set (pi_buf x base) \<Longrightarrow> c \<noteq> 45 \<and> 0 \<le> c \<and> c < 128"
  using assms
proof (induction x base rule: pi_buf.induct)
  case (1 x base)
  from "1.prems" have "x mod base < 16"
    using mod_less_divisor [of base x] by linarith
  note h = hexdigit_cases [OF this]
  from "1.prems"(1) consider "c = hexdigits ! (x mod base)"
    | "1 < base \<and> x div base \<noteq> 0" "c \<in> set (pi_buf (x div base) base)"
    by (subst (asm) pi_buf.simps) (auto split: if_splits)
  then show ?case using h 1 by cases auto
qed

lemma pi_buf_length: "x < base ^ Suc n \<Longrightarrow> 2 \<le> base \<Longrightarrow> length (pi_buf x base) \<le> Suc n"
proof (induction n arbitrary: x)
  case 0
  then show ?case by (subst pi_buf.simps) simp
next
  case (Suc n)
  then have "x div base < base ^ Suc n" by (simp add: div_less_iff_less_mult mult.commute)
  with Suc show ?case by (subst pi_buf.simps) simp
qed

lemma pi_buf_nonempty [simp]: "pi_buf x base \<noteq> []"
  by (subst pi_buf.simps) simp

lemma read_num_buf:
  assumes "2 \<le> base" "base \<le> 16"
  shows "read_num (int base) (rev (pi_buf x base)) = int x"
    and "read_num (int base) (45 # rev (pi_buf x base)) = - int x"
proof -
  obtain c ds where c: "rev (pi_buf x base) = c # ds" by (metis neq_Nil_conv pi_buf_nonempty rev_is_Nil_conv)
  then have "c \<in> set (pi_buf x base)" by (metis list.set_intros(1) set_rev)
  then have "c \<noteq> 45" using pi_buf_chars [OF assms] by blast
  with c show "read_num (int base) (rev (pi_buf x base)) = int x"
    using pi_buf_value [OF assms, of x] by (simp add: read_num_def foldr_conv_foldl)
  show "read_num (int base) (45 # rev (pi_buf x base)) = - int x"
    using pi_buf_value [OF assms, of x] by (simp add: read_num_def foldr_conv_foldl)
qed

text \<open>
  C31. A number printed by \<open>printint\<close> reads back as that number, in decimal with a sign (the most
  negative integer included) and in unsigned hexadecimal, and never needs more than the
  sixteen bytes of its buffer.
\<close>

theorem printint_roundtrip:
  "read_num 10 (printint_chars xx 10 True) = sint xx
   \<and> read_num 16 (printint_chars xx 16 False) = uint xx
   \<and> length (printint_chars xx 10 True) \<le> 16 \<and> length (printint_chars xx 16 False) \<le> 16"
proof -
  have nn: "\<not> xx <s 0 \<Longrightarrow> int (unat xx) = sint xx"
    by (simp add: word_sless_alt uint_sint_nonneg)
  have ng: "xx <s 0 \<Longrightarrow> int (unat (- xx)) = - sint xx"
    by (simp add: word_sless_alt uint_neg_sint)
  have "unat x < 10 ^ Suc 9" for x :: cint using unat_range32 [of x] by simp
  then have l: "length (pi_buf (unat x) 10) \<le> Suc 9" for x :: cint by (rule pi_buf_length) simp
  have "unat xx < 16 ^ Suc 7" using unat_range32 [of xx] by simp
  then have "length (pi_buf (unat xx) 16) \<le> Suc 7" by (rule pi_buf_length) simp
  moreover have "read_num 10 (printint_chars xx 10 True) = sint xx"
    using read_num_buf [of 10 "unat xx"] read_num_buf [of 10 "unat (- xx)"] nn ng
    by (simp add: printint_chars_def Let_def split: if_splits)
  ultimately show ?thesis
    using read_num_buf [of 16 "unat xx"] l [of xx] l [of "- xx"]
    by (auto simp: printint_chars_def Let_def)
qed

subsection \<open>The cursor stays on the screen\<close>

definition screen_ok :: "'z tty_scheme \<Rightarrow> bool" where
  "screen_ok s \<longleftrightarrow> 0 \<le> crt_pos s \<and> crt_pos s < 24 * 80 \<and> \<not> panicked s"

lemma cga_advance_range:
  assumes "0 \<le> pos" "pos < 24 * 80"
  shows "0 \<le> fst (cga_advance c pos m) \<and> fst (cga_advance c pos m) \<le> 24 * 80"
proof -
  have "0 \<le> pos + (80 - pos mod 80) \<and> pos + (80 - pos mod 80) \<le> 24 * 80" using assms by presburger
  then show ?thesis using assms by (simp add: cga_advance_def)
qed

lemma cga_scroll_range:
  assumes "0 \<le> pos" "pos \<le> 24 * 80"
  shows "0 \<le> fst (cga_scroll pos m) \<and> fst (cga_scroll pos m) < 24 * 80"
  using assms by (simp add: cga_scroll_def Let_def) presburger

lemma cgaputc_returns:
  assumes "screen_ok s"
  obtains m p where "cgaputc c s = Ok () (s\<lparr>crt := m, crt_pos := p\<rparr>)" "0 \<le> p" "p < 24 * 80"
proof -
  obtain p1 m1 where 1: "cga_advance c (crt_pos s) (crt s) = (p1, m1)" by fastforce
  obtain p2 m2 where 2: "cga_scroll p1 m1 = (p2, m2)" by fastforce
  have r: "0 \<le> p1" "p1 \<le> 24 * 80"
    using assms cga_advance_range [of "crt_pos s" c "crt s"] 1 by (auto simp: screen_ok_def)
  then have "0 \<le> p2" "p2 < 24 * 80" using cga_scroll_range [of p1 m1] 2 by auto
  with r show thesis by (intro that) (auto simp: cgaputc_def 1 2)
qed

definition sent :: "int list \<Rightarrow> 'z tty_scheme \<Rightarrow> byte list" where
  "sent cs s = (if uart s then map word_of_int cs else [])"

lemma consputc_returns:
  assumes "screen_ok s" "c \<noteq> BACKSPACE"
  obtains m p where "consputc c s = Ok () (s\<lparr>uart_out := uart_out s @ sent [c] s, crt := m, crt_pos := p\<rparr>)"
    "0 \<le> p" "p < 24 * 80"
proof -
  have "screen_ok (uartputc c s)" using assms by (simp add: screen_ok_def uartputc_def)
  then show thesis
    by (rule cgaputc_returns [of _ c], intro that)
      (use assms in \<open>auto simp: consputc_def screen_ok_def uartputc_def sent_def split: if_splits\<close>)
qed

lemma consputs_returns:
  assumes "screen_ok s" "BACKSPACE \<notin> set cs"
  shows "\<exists>m p. consputs cs s = Ok () (s\<lparr>uart_out := uart_out s @ sent cs s, crt := m, crt_pos := p\<rparr>)
     \<and> 0 \<le> p \<and> p < 24 * 80"
  using assms
proof (induction cs arbitrary: s)
  case Nil
  then show ?case
    by (intro exI [of _ "crt s"] exI [of _ "crt_pos s"]) (simp add: sent_def screen_ok_def)
next
  case (Cons c cs)
  from Cons.prems have ok: "screen_ok s" and c: "c \<noteq> BACKSPACE" by auto
  obtain m p where mp: "consputc c s = Ok () (s\<lparr>uart_out := uart_out s @ sent [c] s, crt := m, crt_pos := p\<rparr>)"
    "0 \<le> p" "p < 24 * 80" by (rule consputc_returns [OF ok c])
  define s1 where "s1 = s\<lparr>uart_out := uart_out s @ sent [c] s, crt := m, crt_pos := p\<rparr>"
  have "screen_ok s1" using ok mp by (simp add: screen_ok_def s1_def)
  from Cons.IH [OF this] Cons.prems obtain m' p' where
    "consputs cs s1 = Ok () (s1\<lparr>uart_out := uart_out s1 @ sent cs s1, crt := m', crt_pos := p'\<rparr>)"
    "0 \<le> p'" "p' < 24 * 80" by auto
  then show ?case using mp(1)
    by (intro exI [of _ m'] exI [of _ p']) (auto simp flip: s1_def, auto simp: s1_def sent_def)
qed

lemma printint_chars_range:
  assumes "2 \<le> base" "base \<le> 16" "c \<in> set (printint_chars xx base sign)"
  shows "c \<noteq> BACKSPACE"
proof -
  from assms(3) consider "c = 45" | x where "c \<in> set (pi_buf x base)"
    by (auto simp: printint_chars_def Let_def split: if_splits)
  then show ?thesis using pi_buf_chars [OF assms(1,2)] by cases (fastforce simp: BACKSPACE_def)+
qed

lemma byte_not_backspace [simp]: "BACKSPACE \<notin> uint ` A" "BACKSPACE \<notin> sint ` A" for A :: "byte set"
proof -
  have "uint (w :: byte) < 256" "sint w < 256" for w
    using uint_lt2p [of w] sint_less [of w] by simp_all
  then show "BACKSPACE \<notin> uint ` A" "BACKSPACE \<notin> sint ` A"
    by (metis BACKSPACE_def imageE less_irrefl)+
qed

lemma byte_uint_not_backspace [simp]: "uint (w :: byte) \<noteq> BACKSPACE"
  using byte_not_backspace(1) [of "{w}"] by simp

lemma cprintf_conv_no_backspace:
  assumes "cprintf_conv d args = Some (out, as)"
  shows "BACKSPACE \<notin> set out"
proof -
  have b: "BACKSPACE \<noteq> 37" by (simp add: BACKSPACE_def)
  from assms consider n where "out = printint_chars n 10 True" | n where "out = printint_chars n 16 False"
    | t :: "byte list" where "out = map sint t" | "out = [37]" | "out = [37, uint d]"
    unfolding cprintf_conv_def by (auto split: if_splits list.splits fmt_arg.splits)
  then show ?thesis
    using printint_chars_range [of 10 BACKSPACE] printint_chars_range [of 16 BACKSPACE] b
    by cases (auto dest: sym)
qed

lemma cprintf_chars_no_backspace:
  "cprintf_chars fmt args = Some cs \<Longrightarrow> BACKSPACE \<notin> set cs"
proof (induction fmt args arbitrary: cs rule: cprintf_chars.induct)
  case (3 c d rest args)
  show ?case
  proof (cases "c = 0 \<or> c = 37 \<and> d = 0")
    case True
    with "3.prems" show ?thesis by (auto split: if_splits)
  next
    case no: False
    show ?thesis
    proof (cases "c = 37")
      case True
      with no "3.prems" obtain out as r where
        o: "cprintf_conv d args = Some (out, as)" and r: "cprintf_chars rest as = Some r"
        and cs: "cs = out @ r"
        by (auto split: option.splits)
      from "3.IH"(2) no True o r have "BACKSPACE \<notin> set r" by auto
      with cprintf_conv_no_backspace [OF o] cs show ?thesis by simp
    next
      case False
      with no "3.prems" obtain r where r: "cprintf_chars (d # rest) args = Some r" and cs: "cs = uint c # r"
        by auto
      have "c \<noteq> 0" using no by blast
      from "3.IH"(1) [OF this False r] cs show ?thesis by (simp add: not_sym [OF byte_uint_not_backspace])
    qed
  qed
qed (auto split: if_splits dest: sym)

lemma cprintf_Ok:
  assumes "screen_ok s" "LCons \<notin> held s" "cprintf_chars fmt args = Some cs"
  shows "\<exists>m p. cprintf fmt args s = Ok () (s\<lparr>uart_out := uart_out s @ sent cs s, crt := m, crt_pos := p\<rparr>)
     \<and> 0 \<le> p \<and> p < 24 * 80"
proof -
  define s1 where "s1 = (if cons_locking s then s\<lparr>held := insert LCons (held s)\<rparr> else s)"
  have "screen_ok s1" using assms(1) by (simp add: s1_def screen_ok_def)
  from consputs_returns [OF this cprintf_chars_no_backspace [OF assms(3)]] obtain m p where
    p: "consputs cs s1 = Ok () (s1\<lparr>uart_out := uart_out s1 @ sent cs s1, crt := m, crt_pos := p\<rparr>)"
    "0 \<le> p" "p < 24 * 80" by blast
  have a: "(if cons_locking s then lk_acquire LCons s else Ok () s) = Ok () s1"
    using assms(2) by (simp add: s1_def)
  show ?thesis
    unfolding cprintf_def Let_def a
    by (intro exI [of _ m] exI [of _ p]) (use p assms in \<open>simp add: s1_def lk_release_def sent_def\<close>)
qed

text \<open>
  C32. With the cursor on the screen and the console lock free, \<open>cprintf\<close> returns: it never panics
  on the cursor position, gives back the lock it took, keeps the cursor on the screen, and the
  serial port receives exactly the formatted characters.
\<close>

theorem cprintf_returns:
  assumes "screen_ok s" "LCons \<notin> held s" "cprintf_chars fmt args = Some cs"
  shows "\<exists>s'. cprintf fmt args s = Ok () s' \<and> screen_ok s' \<and> held s' = held s
     \<and> uart_out s' = uart_out s @ sent cs s"
  using cprintf_Ok [OF assms] assms(1) by (auto simp: screen_ok_def)

definition tty0 :: tty where
  "tty0 = \<lparr>held = {}, cons_locking = True, panicked = False, uart = True, uart_out = [],
     crt = (\<lambda>_. 0), crt_pos = 1919\<rparr>"

theorem cprintf_returns_witness:
  "\<exists>s'. cprintf (str ''%d%%'') [AInt (- 7)] tty0 = Ok () s' \<and> uart_out s' = str ''-7%''"
proof -
  have "cprintf_chars (str ''%d%%'') [AInt (- 7)] = Some [45, 55, 37]"
    by code_simp
  from cprintf_returns [of tty0, OF _ _ this] show ?thesis
    by (auto simp: tty0_def screen_ok_def sent_def str_def)
qed

end
