(* ===== verification/Float32.thy ===== *)
theory Float32
  imports Complex_Main "HOL-Library.Log_Nat"
begin

section \<open>C \<open>float\<close> arithmetic used by the scheduler\<close>

text \<open>
  The best-job-first queue ranks processes with C \<open>float\<close>s. A finite float is \<open>m * 2 ^ e\<close>; every
  operation rounds its exact result to a 24-bit significand, to nearest with ties to even (IEEE
  754 binary32; 53 bits for \<open>double\<close>). The exponent range is left unbounded: the operands are
  32-bit integers and counters advanced by 0.1, so no result leaves the range of binary32.
  For the same reason there are no infinities and no NaNs. Every operation is taken to round to
  the type of its operands; the x87 unit may instead carry an expression such as that of
  \<open>calculate_rank\<close> in a wider register and round it once, when it is stored.
\<close>

datatype f32 = F32 (mant: int) (expo: int)

definition fval :: "f32 \<Rightarrow> real" where
  "fval x = of_int (mant x) * 2 powr of_int (expo x)"

definition rnd :: "nat \<Rightarrow> int \<Rightarrow> int \<Rightarrow> f32" where
  "rnd p m e =
     (let n = bitlen \<bar>m\<bar> in
      if n \<le> int p then F32 m e
      else let k = nat (n - int p); q = \<bar>m\<bar> div 2 ^ k; r = \<bar>m\<bar> mod 2 ^ k; h = 2 ^ (k - 1);
               q' = (if h < r \<or> (h = r \<and> odd q) then q + 1 else q)
           in F32 (sgn m * q') (e + int k))"

definition aligned :: "f32 \<Rightarrow> f32 \<Rightarrow> int \<times> int \<times> int" where
  "aligned x y =
     (let e = min (expo x) (expo y)
      in (mant x * 2 ^ nat (expo x - e), mant y * 2 ^ nat (expo y - e), e))"

definition fadd :: "f32 \<Rightarrow> f32 \<Rightarrow> f32" where
  "fadd x y = (let (a, b, e) = aligned x y in rnd 24 (a + b) e)"

definition fmul :: "f32 \<Rightarrow> f32 \<Rightarrow> f32" where
  "fmul x y = rnd 24 (mant x * mant y) (expo x + expo y)"

definition flt :: "f32 \<Rightarrow> f32 \<Rightarrow> bool" where
  "flt x y = (let (a, b, e) = aligned x y in a < b)"

definition f_of_int :: "int \<Rightarrow> f32" where
  "f_of_int i = rnd 24 i 0"

text \<open>\<open>x += 0.1\<close> with a \<open>double\<close> literal: the sum is a \<open>double\<close>, then rounded to \<open>float\<close>.\<close>

definition d0_1 :: f32 where "d0_1 = F32 3602879701896397 (-55)"
definition f0_1 :: f32 where "f0_1 = F32 13421773 (-27)"
definition f1_0 :: f32 where "f1_0 = F32 1 0"

definition fadd_double :: "f32 \<Rightarrow> f32 \<Rightarrow> f32" where
  "fadd_double x y =
     (let (a, b, e) = aligned x y; d = rnd 53 (a + b) e in rnd 24 (mant d) (expo d))"

text \<open>The cast to \<open>int\<close> truncates towards zero.\<close>

definition f_to_int :: "f32 \<Rightarrow> int" where
  "f_to_int x = (if 0 \<le> expo x then mant x * 2 ^ nat (expo x)
                 else sgn (mant x) * (\<bar>mant x\<bar> div 2 ^ nat (- expo x)))"

subsection \<open>The comparison is the order of the real values\<close>

lemma aligned_val:
  assumes "aligned x y = (a, b, e)"
  shows "fval x = of_int a * 2 powr of_int e" and "fval y = of_int b * 2 powr of_int e"
proof -
  have split: "(2::real) ^ nat (e1 - e) * 2 powr of_int e = 2 powr of_int e1" if "e \<le> e1" for e1
  proof -
    have "(2::real) ^ nat (e1 - e) = 2 powr of_int (e1 - e)" using that powr_realpow [of 2 "nat (e1 - e)"] by simp
    then show ?thesis by (simp add: powr_add [symmetric])
  qed
  from assms have e: "e = min (expo x) (expo y)" and a: "a = mant x * 2 ^ nat (expo x - e)"
    and b: "b = mant y * 2 ^ nat (expo y - e)"
    by (auto simp: aligned_def Let_def)
  show "fval x = of_int a * 2 powr of_int e"
    using split [of "expo x"] by (simp add: fval_def a e mult.assoc)
  show "fval y = of_int b * 2 powr of_int e"
    using split [of "expo y"] by (simp add: fval_def b e mult.assoc)
qed

lemma flt_iff: "flt x y \<longleftrightarrow> fval x < fval y"
proof -
  obtain a b e where al: "aligned x y = (a, b, e)" by (metis prod_cases3)
  show ?thesis using aligned_val [OF al] by (simp add: flt_def al)
qed

lemma rnd_exact: "bitlen \<bar>m\<bar> \<le> int p \<Longrightarrow> rnd p m e = F32 m e"
  by (simp add: rnd_def Let_def)

lemma f_of_int_exact: "\<bar>i\<bar> < 2 ^ 24 \<Longrightarrow> fval (f_of_int i) = of_int i"
proof -
  assume "\<bar>i\<bar> < 2 ^ 24"
  then have "nat \<bar>i\<bar> < 2 ^ 24" by (simp add: nat_less_iff)
  then have "floorlog 2 (nat \<bar>i\<bar>) \<le> 24" by (intro floorlog_leI) auto
  then have "bitlen \<bar>i\<bar> \<le> int 24" by (simp add: bitlen_def)
  then show ?thesis by (simp add: f_of_int_def rnd_exact fval_def)
qed

end
