(* ===== verification/Proc.thy ===== *)
theory Proc
  imports Cprintf Float32
begin

section \<open>Processes and the scheduler (proc.h, proc.c)\<close>

text \<open>
  The process table, the three scheduling queues (round robin, last come first served, best job
  first) with aging, and the primitives that move a process between its states: sleep, wakeup,
  yield, kill and one round of the scheduler. Operations that also create or destroy address
  spaces and open files (fork, exit, wait) are in the theory Process.
\<close>

subsection \<open>Data\<close>

datatype procstate = UNUSED | EMBRYO | SLEEPING | RUNNABLE | RUNNING | ZOMBIE

definition RR :: cint where "RR = 1"
definition LCFS :: cint where "LCFS = 2"
definition BJF :: cint where "BJF = 3"
definition AGING_THRS :: cint where "AGING_THRS = 8000"
definition MIN_INT :: cint where "MIN_INT = -10000"
definition MAX_INT :: cint where "MAX_INT = 10000"
definition NPROC :: nat where "NPROC = 64"
definition KSTACKSIZE :: uint where "KSTACKSIZE = 4096"
definition PRIORITY_DEF :: cint where "PRIORITY_DEF = 3"

record trapframe =
  tf_edi :: uint
  tf_esi :: uint
  tf_ebp :: uint
  tf_ebx :: uint
  tf_edx :: uint
  tf_ecx :: uint
  tf_eax :: uint
  tf_es :: ushort
  tf_ds :: ushort
  tf_trapno :: uint
  tf_err :: uint
  tf_eip :: uint
  tf_cs :: ushort
  tf_eflags :: uint
  tf_esp :: uint
  tf_ss :: ushort

record kcontext =
  ctx_edi :: uint
  ctx_esi :: uint
  ctx_ebx :: uint
  ctx_ebp :: uint
  ctx_eip :: uint

text \<open>
  \<open>struct proc\<close>. Pointers into a kernel table are indices (\<open>None\<close> is the null pointer); the trap
  frame and the saved context, which live on the process's kernel stack, are kept by value, with
  the word above the context (where \<open>forkret\<close> returns to) as \<open>ctx_ret\<close>.
\<close>

record proc =
  sz :: uint
  pgdir :: uint
  kstack :: uint
  pstate :: procstate
  pid :: cint
  parent :: "nat option"
  tf :: trapframe
  pcontext :: kcontext
  ctx_ret :: uint
  creation_time :: cint
  preemption_time :: cint
  que_id :: cint
  pchan :: "chan option"
  killed :: bool
  ofile :: "nat option list"
  cwd :: "nat option"
  pname :: "byte list"
  priority :: cint
  priority_ratio :: f32
  creation_time_ratio :: f32
  executed_cycle :: f32
  executed_cycle_ratio :: f32
  process_size_ratio :: f32
  shm :: uint

text \<open>The table, the process on this processor, its page-table register and task state.\<close>

record pcore = tty +
  ptable :: "proc list"
  nextpid :: cint
  initproc :: "nat option"
  cpu_proc :: "nat option"
  cpu_cr3 :: uint
  cpu_esp0 :: uint
  kpgdir :: uint
  ticks :: uint

definition upd_proc :: "nat \<Rightarrow> (proc \<Rightarrow> proc) \<Rightarrow> 'z pcore_scheme \<Rightarrow> 'z pcore_scheme" where
  "upd_proc i f s = s\<lparr>ptable := (ptable s)[i := f (ptable s ! i)]\<rparr>"

definition myproc :: "'z pcore_scheme \<Rightarrow> nat option" where
  "myproc s = cpu_proc s"

subsection \<open>The three queues\<close>

text \<open>The rank of a process, each operation rounded to single precision (see the theory Float32).\<close>

definition calculate_rank :: "proc \<Rightarrow> f32" where
  "calculate_rank p =
     fadd (fadd (fadd (fmul (f_of_int (sint (priority p))) (priority_ratio p))
                      (fmul (f_of_int (sint (creation_time p))) (creation_time_ratio p)))
                (fmul (executed_cycle p) (executed_cycle_ratio p)))
          (fmul (f_of_int (uint (sz p))) (process_size_ratio p))"

fun round_robin_loop :: "cint \<Rightarrow> nat \<Rightarrow> proc list \<Rightarrow> cint \<Rightarrow> nat option \<Rightarrow> nat option" where
  "round_robin_loop now i [] max_diff res = res"
| "round_robin_loop now i (p # ps) max_diff res =
     (if pstate p \<noteq> RUNNABLE \<or> que_id p \<noteq> RR then round_robin_loop now (Suc i) ps max_diff res
      else if max_diff <s now - preemption_time p
      then round_robin_loop now (Suc i) ps (now - preemption_time p) (Some i)
      else round_robin_loop now (Suc i) ps max_diff res)"

definition round_robin :: "'z pcore_scheme \<Rightarrow> nat option" where
  "round_robin s = round_robin_loop (ticks s) 0 (ptable s) MIN_INT None"

fun lcfs_loop :: "nat \<Rightarrow> proc list \<Rightarrow> cint \<Rightarrow> nat option \<Rightarrow> nat option" where
  "lcfs_loop i [] latest_time res = res"
| "lcfs_loop i (p # ps) latest_time res =
     (if pstate p \<noteq> RUNNABLE \<or> que_id p \<noteq> LCFS then lcfs_loop (Suc i) ps latest_time res
      else if latest_time <s creation_time p then lcfs_loop (Suc i) ps (creation_time p) (Some i)
      else lcfs_loop (Suc i) ps latest_time res)"

definition last_come_first_serve :: "'z pcore_scheme \<Rightarrow> nat option" where
  "last_come_first_serve s = lcfs_loop 0 (ptable s) MIN_INT None"

fun bjf_loop :: "nat \<Rightarrow> proc list \<Rightarrow> f32 \<Rightarrow> nat option \<Rightarrow> nat option" where
  "bjf_loop i [] min_rank res = res"
| "bjf_loop i (p # ps) min_rank res =
     (if pstate p \<noteq> RUNNABLE \<or> que_id p \<noteq> BJF then bjf_loop (Suc i) ps min_rank res
      else let rank = calculate_rank p in
           if flt rank min_rank then bjf_loop (Suc i) ps rank (Some i)
           else bjf_loop (Suc i) ps min_rank res)"

definition best_job_first :: "'z pcore_scheme \<Rightarrow> nat option" where
  "best_job_first s = bjf_loop 0 (ptable s) (f_of_int (sint MAX_INT)) None"

definition pick_proc :: "'z pcore_scheme \<Rightarrow> nat option" where
  "pick_proc s =
     (case round_robin s of
        Some p \<Rightarrow> Some p
      | None \<Rightarrow> (case last_come_first_serve s of
                   Some p \<Rightarrow> Some p
                 | None \<Rightarrow> best_job_first s))"

definition age_proc :: "cint \<Rightarrow> proc \<Rightarrow> proc" where
  "age_proc time p =
     (if pstate p = RUNNABLE \<and> que_id p \<noteq> RR
      then if AGING_THRS <s time - preemption_time p then p\<lparr>que_id := RR\<rparr> else p
      else p)"

definition aging :: "'z pcore_scheme \<Rightarrow> 'z pcore_scheme" where
  "aging s = s\<lparr>ptable := map (age_proc (ticks s)) (ptable s)\<rparr>"

definition reset_bjf_attributes ::
    "f32 \<Rightarrow> f32 \<Rightarrow> f32 \<Rightarrow> f32 \<Rightarrow> 'z pcore_scheme \<Rightarrow> ('z pcore_scheme, unit) outcome" where
  "reset_bjf_attributes pr ct ec sr s =
     bnd (lk_acquire LPtable s) (\<lambda>_ s.
       lk_release LPtable (s\<lparr>ptable := map (\<lambda>p.
         if pstate p \<noteq> UNUSED
         then p\<lparr>priority_ratio := pr, creation_time_ratio := ct,
                executed_cycle_ratio := ec, process_size_ratio := sr\<rparr>
         else p) (ptable s)\<rparr>))"

subsection \<open>Switching\<close>

definition V2P :: "uint \<Rightarrow> uint" where "V2P a = a - 0x80000000"

definition switchkvm :: "'z pcore_scheme \<Rightarrow> 'z pcore_scheme" where
  "switchkvm s = s\<lparr>cpu_cr3 := V2P (kpgdir s)\<rparr>"

definition switchuvm :: "nat option \<Rightarrow> 'z pcore_scheme \<Rightarrow> ('z pcore_scheme, unit) outcome" where
  "switchuvm p s =
     (case p of
        None \<Rightarrow> Panic ''switchuvm: no process''
      | Some i \<Rightarrow>
          if kstack (ptable s ! i) = 0 then Panic ''switchuvm: no kstack''
          else if pgdir (ptable s ! i) = 0 then Panic ''switchuvm: no pgdir''
          else Ok () (s\<lparr>cpu_esp0 := kstack (ptable s ! i) + KSTACKSIZE,
                        cpu_cr3 := V2P (pgdir (ptable s ! i))\<rparr>))"

text \<open>
  One round of the scheduler, up to the \<open>swtch\<close> into the chosen process: \<open>Ok None\<close> when nothing
  is runnable, \<open>Ok (Some p)\<close> when process \<open>p\<close> now runs, still holding \<open>ptable.lock\<close>.
\<close>

definition scheduler_round :: "'z pcore_scheme \<Rightarrow> ('z pcore_scheme, nat option) outcome" where
  "scheduler_round s =
     bnd (lk_acquire LPtable s) (\<lambda>_ s.
     (case pick_proc s of
        None \<Rightarrow> bnd (lk_release LPtable s) (\<lambda>_ s. Ok None s)
      | Some p \<Rightarrow>
          bnd (switchuvm (Some p) (s\<lparr>cpu_proc := Some p\<rparr>)) (\<lambda>_ s.
            Ok (Some p) (upd_proc p (\<lambda>q. q\<lparr>pstate := RUNNING, preemption_time := ticks s,
              executed_cycle := fadd (executed_cycle q) f0_1\<rparr>) s))))"

text \<open>What the scheduler does when a process switches back to it.\<close>

definition scheduler_back :: "'z pcore_scheme \<Rightarrow> ('z pcore_scheme, unit) outcome" where
  "scheduler_back s = lk_release LPtable ((switchkvm s)\<lparr>cpu_proc := None\<rparr>)"

definition sched :: "'z pcore_scheme \<Rightarrow> ('z pcore_scheme, unit) outcome" where
  "sched s =
     (if \<not> lk_holding LPtable s then Panic ''sched ptable.lock''
      else if card (held s) \<noteq> 1 then Panic ''sched locks''
      else case myproc s of
             None \<Rightarrow> Fault
           | Some p \<Rightarrow> if pstate (ptable s ! p) = RUNNING then Panic ''sched running'' else Swtch s)"

definition yield :: "'z pcore_scheme \<Rightarrow> ('z pcore_scheme, unit) outcome" where
  "yield s =
     bnd (lk_acquire LPtable s) (\<lambda>_ s.
     (case myproc s of
        None \<Rightarrow> Fault
      | Some p \<Rightarrow> sched (upd_proc p (\<lambda>q. q\<lparr>pstate := RUNNABLE, preemption_time := ticks s,
                     executed_cycle := fadd_double (executed_cycle q) d0_1\<rparr>) s)))"

text \<open>\<open>yield\<close> after the process is switched to again.\<close>

definition yield_resume :: "'z pcore_scheme \<Rightarrow> ('z pcore_scheme, unit) outcome" where
  "yield_resume s = lk_release LPtable s"

subsection \<open>Sleep and wakeup\<close>

text \<open>\<open>sleep(chan, lk)\<close> up to the switch; the null lock is \<open>None\<close>.\<close>

definition sleep :: "chan \<Rightarrow> lock_id option \<Rightarrow> 'z pcore_scheme \<Rightarrow> ('z pcore_scheme, unit) outcome" where
  "sleep ch lk s =
     (case myproc s of
        None \<Rightarrow> Panic ''sleep''
      | Some p \<Rightarrow> (case lk of
          None \<Rightarrow> Panic ''sleep without lk''
        | Some l \<Rightarrow>
            bnd (if l \<noteq> LPtable
                 then bnd (lk_acquire LPtable s) (\<lambda>_ s. lk_release l s)
                 else Ok () s) (\<lambda>_ s.
            sched (upd_proc p (\<lambda>q. q\<lparr>pchan := Some ch, pstate := SLEEPING\<rparr>) s))))"

text \<open>\<open>sleep\<close> once the process runs again.\<close>

definition sleep_resume :: "lock_id \<Rightarrow> 'z pcore_scheme \<Rightarrow> ('z pcore_scheme, unit) outcome" where
  "sleep_resume l s =
     (case myproc s of
        None \<Rightarrow> Fault
      | Some p \<Rightarrow>
          let s = upd_proc p (\<lambda>q. q\<lparr>pchan := None\<rparr>) s in
          if l \<noteq> LPtable then bnd (lk_release LPtable s) (\<lambda>_ s. lk_acquire l s) else Ok () s)"

definition wake_one :: "chan option \<Rightarrow> proc \<Rightarrow> proc" where
  "wake_one ch p = (if pstate p = SLEEPING \<and> pchan p = ch then p\<lparr>pstate := RUNNABLE\<rparr> else p)"

definition wakeup1 :: "chan option \<Rightarrow> 'z pcore_scheme \<Rightarrow> 'z pcore_scheme" where
  "wakeup1 ch s = s\<lparr>ptable := map (wake_one ch) (ptable s)\<rparr>"

definition wakeup :: "chan \<Rightarrow> 'z pcore_scheme \<Rightarrow> ('z pcore_scheme, unit) outcome" where
  "wakeup ch s = bnd (lk_acquire LPtable s) (\<lambda>_ s. lk_release LPtable (wakeup1 (Some ch) s))"

text \<open>The priority lock's wakeup: of the sleepers, only the one with the largest pid.\<close>

fun wakeup_pl_loop :: "chan \<Rightarrow> nat \<Rightarrow> proc list \<Rightarrow> cint \<Rightarrow> nat option \<Rightarrow> cint \<times> nat option" where
  "wakeup_pl_loop ch i [] max_pid chosen = (max_pid, chosen)"
| "wakeup_pl_loop ch i (p # ps) max_pid chosen =
     (if pchan p = Some ch \<and> max_pid <s pid p \<and> pstate p = SLEEPING
      then wakeup_pl_loop ch (Suc i) ps (pid p) (Some i)
      else wakeup_pl_loop ch (Suc i) ps max_pid chosen)"

definition wakeup_pl :: "chan \<Rightarrow> 'z pcore_scheme \<Rightarrow> ('z pcore_scheme, unit) outcome" where
  "wakeup_pl ch s =
     bnd (lk_acquire LPtable s) (\<lambda>_ s.
       let (max_pid, chosen) = wakeup_pl_loop ch 0 (ptable s) 0 None in
       if max_pid \<noteq> 0 then
         (case chosen of
            None \<Rightarrow> Fault
          | Some i \<Rightarrow> lk_release LPtable (upd_proc i (\<lambda>q. q\<lparr>pstate := RUNNABLE\<rparr>) s))
       else lk_release LPtable s)"

definition kill :: "cint \<Rightarrow> 'z pcore_scheme \<Rightarrow> ('z pcore_scheme, cint) outcome" where
  "kill pd s =
     bnd (lk_acquire LPtable s) (\<lambda>_ s.
     (case find_idx (\<lambda>p. pid p = pd) (ptable s) of
        Some i \<Rightarrow>
          bnd (lk_release LPtable (upd_proc i (\<lambda>q.
                 let q = q\<lparr>killed := True\<rparr> in
                 if pstate q = SLEEPING then q\<lparr>pstate := RUNNABLE\<rparr> else q) s)) (\<lambda>_ s. Ok 0 s)
      | None \<Rightarrow> bnd (lk_release LPtable s) (\<lambda>_ s. Ok (-1) s)))"

subsection \<open>Looking processes up\<close>

text \<open>\<open>find_proc\<close> returns the pointer one past the table when no process has the pid.\<close>

definition find_proc :: "cint \<Rightarrow> 'z pcore_scheme \<Rightarrow> ('z pcore_scheme, nat) outcome" where
  "find_proc pd s =
     bnd (lk_acquire LPtable s) (\<lambda>_ s.
     bnd (lk_release LPtable s) (\<lambda>_ s.
       Ok (case find_idx (\<lambda>p. pid p = pd) (ptable s) of Some i \<Rightarrow> i | None \<Rightarrow> length (ptable s)) s))"

text \<open>A dereference of a process pointer: an index past the table is undefined behaviour.\<close>

definition deref :: "nat option \<Rightarrow> 'z pcore_scheme \<Rightarrow> ('z pcore_scheme, proc) outcome" where
  "deref p s =
     (case p of None \<Rightarrow> Fault
      | Some i \<Rightarrow> if i < length (ptable s) then Ok (ptable s ! i) s else Fault)"

fun count_child_loop :: "cint \<Rightarrow> proc list \<Rightarrow> cint \<Rightarrow> 'z pcore_scheme \<Rightarrow> ('z pcore_scheme, cint) outcome" where
  "count_child_loop fpid [] count s = Ok count s"
| "count_child_loop fpid (p # ps) count s =
     bnd (deref (parent p) s) (\<lambda>q s.
       count_child_loop fpid ps (if pid q = fpid then count + 1 else count) s)"

definition count_child :: "nat option \<Rightarrow> 'z pcore_scheme \<Rightarrow> ('z pcore_scheme, cint) outcome" where
  "count_child father s =
     bnd (lk_acquire LPtable s) (\<lambda>_ s.
     bnd (case ptable s of
            [] \<Rightarrow> Ok 0 s
          | _ \<Rightarrow> bnd (deref father s) (\<lambda>f s. count_child_loop (pid f) (ptable s) 0 s)) (\<lambda>c s.
     bnd (lk_release LPtable s) (\<lambda>_ s. Ok c s)))"

subsection \<open>The scans, as maximum searches\<close>

lemma round_robin_loop_scan:
  "round_robin_loop now i ps md res =
     scan_max (\<lambda>p. pstate p = RUNNABLE \<and> que_id p = RR) (\<lambda>p. sint (now - preemption_time p)) i ps (sint md) res"
  by (induction ps arbitrary: i md res) (auto simp: word_sless_alt)

lemma lcfs_loop_scan:
  "lcfs_loop i ps lt res =
     scan_max (\<lambda>p. pstate p = RUNNABLE \<and> que_id p = LCFS) (\<lambda>p. sint (creation_time p)) i ps (sint lt) res"
  by (induction ps arbitrary: i lt res) (auto simp: word_sless_alt)

lemma bjf_loop_scan:
  "bjf_loop i ps mr res =
     scan_max (\<lambda>p. pstate p = RUNNABLE \<and> que_id p = BJF) (\<lambda>p. - fval (calculate_rank p)) i ps (- fval mr) res"
  by (induction ps arbitrary: i mr res) (auto simp: flt_iff Let_def)

lemma wakeup_pl_loop_scan:
  "snd (wakeup_pl_loop ch i ps mp ch') =
     scan_max (\<lambda>p. pchan p = Some ch \<and> pstate p = SLEEPING) (\<lambda>p. sint (pid p)) i ps (sint mp) ch'"
  by (induction ps arbitrary: i mp ch') (auto simp: word_sless_alt)

lemma queue_ids [simp]: "RR \<noteq> LCFS" "LCFS \<noteq> RR" "RR \<noteq> BJF" "BJF \<noteq> RR" "LCFS \<noteq> BJF" "BJF \<noteq> LCFS"
  "sint RR = 1" "sint LCFS = 2" "sint BJF = 3" "sint MIN_INT = -10000" "sint MAX_INT = 10000"
  by (simp_all add: RR_def LCFS_def BJF_def MIN_INT_def MAX_INT_def)

lemma fval_10000 [simp]: "fval (f_of_int 10000) = 10000"
  using f_of_int_exact [of 10000] by simp

subsection \<open>The scheduling policy\<close>

text \<open>
  The policy the three scans implement: among the eligible processes, the smallest queue number
  first; inside a queue the largest key (time waited, creation time, minus the rank); then the
  smallest table index. A process is eligible when it is runnable and its key passes the bound
  the scan starts from.
\<close>

definition sched_key :: "cint \<Rightarrow> proc \<Rightarrow> real" where
  "sched_key now p =
     (if que_id p = RR then of_int (sint (now - preemption_time p))
      else if que_id p = LCFS then of_int (sint (creation_time p))
      else - fval (calculate_rank p))"

definition eligible :: "cint \<Rightarrow> proc \<Rightarrow> bool" where
  "eligible now p \<longleftrightarrow> pstate p = RUNNABLE \<and> que_id p \<in> {RR, LCFS, BJF} \<and> -10000 < sched_key now p"

definition preferred :: "cint \<Rightarrow> proc list \<Rightarrow> nat \<Rightarrow> nat \<Rightarrow> bool" where
  "preferred now ps i j \<longleftrightarrow>
     sint (que_id (ps ! i)) < sint (que_id (ps ! j)) \<or>
     que_id (ps ! i) = que_id (ps ! j) \<and>
       (sched_key now (ps ! j) < sched_key now (ps ! i) \<or>
        sched_key now (ps ! j) = sched_key now (ps ! i) \<and> i < j)"

lemma preferred_asym: "preferred now ps i j \<Longrightarrow> \<not> preferred now ps j i"
  by (auto simp: preferred_def)

text \<open>Each scan finds the most preferred eligible process of its queue.\<close>

definition queue_best :: "cint \<Rightarrow> proc list \<Rightarrow> cint \<Rightarrow> nat \<Rightarrow> bool" where
  "queue_best now ps q i \<longleftrightarrow> i < length ps \<and> eligible now (ps ! i) \<and> que_id (ps ! i) = q \<and>
     (\<forall>j < length ps. eligible now (ps ! j) \<and> que_id (ps ! j) = q \<and> j \<noteq> i \<longrightarrow> preferred now ps i j)"

lemma queue_scan:
  fixes key :: "proc \<Rightarrow> 'k::linorder" and f :: "'k \<Rightarrow> real"
  assumes mono: "strict_mono f"
    and key: "\<And>p. pstate p = RUNNABLE \<Longrightarrow> que_id p = q \<Longrightarrow> sched_key now p = f (key p)"
    and bound: "f b = -10000" and q: "q \<in> {RR, LCFS, BJF}"
  shows "case scan_max (\<lambda>p. pstate p = RUNNABLE \<and> que_id p = q) key 0 ps b None of
           None \<Rightarrow> \<forall>p \<in> set ps. que_id p = q \<longrightarrow> \<not> eligible now p
         | Some i \<Rightarrow> queue_best now ps q i"
proof -
  let ?ok = "\<lambda>p. pstate p = RUNNABLE \<and> que_id p = q"
  have el: "eligible now p \<longleftrightarrow> ?ok p \<and> b < key p" if "que_id p = q" for p
    using that key [of p] strict_mono_less [OF mono, of b "key p"] bound q by (auto simp: eligible_def)
  show ?thesis
  proof (cases "scan_max ?ok key 0 ps b None")
    case None
    then have "\<forall>p \<in> set ps. ?ok p \<longrightarrow> key p \<le> b" by (simp add: scan_max_None_iff)
    then show ?thesis using None el by (auto simp: not_less)
  next
    case (Some i)
    note best = scan_max_SomeD [OF Some]
    have "preferred now ps i j" if j: "j < length ps" "eligible now (ps ! j)" "que_id (ps ! j) = q" "j \<noteq> i" for j
    proof -
      from j el have "?ok (ps ! j)" by blast
      moreover have "key (ps ! j) < key (ps ! i) \<or> key (ps ! j) = key (ps ! i) \<and> i < j"
        using best j(1,4) \<open>?ok (ps ! j)\<close> by (metis antisym_conv1 linorder_less_linear order_less_irrefl)
      ultimately show ?thesis
        using best key strict_mono_less [OF mono] by (auto simp: preferred_def)
    qed
    then show ?thesis using Some best el by (auto simp: queue_best_def)
  qed
qed

lemma strict_mono_of_int: "strict_mono (of_int :: int \<Rightarrow> real)"
  by (simp add: strict_mono_def)

lemma round_robin_best:
  "case round_robin s of None \<Rightarrow> \<forall>p \<in> set (ptable s). que_id p = RR \<longrightarrow> \<not> eligible (ticks s) p
   | Some i \<Rightarrow> queue_best (ticks s) (ptable s) RR i"
  unfolding round_robin_def round_robin_loop_scan
  by (rule queue_scan [OF strict_mono_of_int]) (simp_all add: sched_key_def)

lemma lcfs_best:
  "case last_come_first_serve s of None \<Rightarrow> \<forall>p \<in> set (ptable s). que_id p = LCFS \<longrightarrow> \<not> eligible (ticks s) p
   | Some i \<Rightarrow> queue_best (ticks s) (ptable s) LCFS i"
  unfolding last_come_first_serve_def lcfs_loop_scan
  by (rule queue_scan [OF strict_mono_of_int]) (simp_all add: sched_key_def)

lemma bjf_best:
  "case best_job_first s of None \<Rightarrow> \<forall>p \<in> set (ptable s). que_id p = BJF \<longrightarrow> \<not> eligible (ticks s) p
   | Some i \<Rightarrow> queue_best (ticks s) (ptable s) BJF i"
  unfolding best_job_first_def bjf_loop_scan
  by (rule queue_scan [where f = "\<lambda>x. x"]) (simp_all add: sched_key_def strict_mono_def)

lemma eligible_queue: "eligible now p \<Longrightarrow> que_id p = RR \<or> que_id p = LCFS \<or> que_id p = BJF"
  by (auto simp: eligible_def)

lemma pick_proc_None_iff: "pick_proc s = None \<longleftrightarrow> (\<forall>p \<in> set (ptable s). \<not> eligible (ticks s) p)"
proof -
  have "\<exists>p \<in> set (ptable s). eligible (ticks s) p" if "queue_best (ticks s) (ptable s) q i" for q i
    using that by (auto simp: queue_best_def)
  then show ?thesis
    using round_robin_best [of s] lcfs_best [of s] bjf_best [of s] eligible_queue [of "ticks s"]
    by (auto simp: pick_proc_def split: option.splits) blast+
qed

lemma pick_proc_best:
  assumes "pick_proc s = Some i"
  shows "i < length (ptable s) \<and> eligible (ticks s) (ptable s ! i) \<and>
    (\<forall>j < length (ptable s). eligible (ticks s) (ptable s ! j) \<and> j \<noteq> i \<longrightarrow> preferred (ticks s) (ptable s) i j)"
proof -
  obtain q where best: "queue_best (ticks s) (ptable s) q i"
    and low: "\<forall>p \<in> set (ptable s). eligible (ticks s) p \<longrightarrow> sint q \<le> sint (que_id p)"
    and q: "q \<in> {RR, LCFS, BJF}"
    using assms round_robin_best [of s] lcfs_best [of s] bjf_best [of s]
    by (fastforce simp: pick_proc_def dest: eligible_queue split: option.splits)
  have "preferred (ticks s) (ptable s) i j"
    if j: "j < length (ptable s)" "eligible (ticks s) (ptable s ! j)" "j \<noteq> i" for j
  proof (cases "que_id (ptable s ! j) = q")
    case True
    then show ?thesis using best j by (simp add: queue_best_def)
  next
    case False
    have "sint q \<le> sint (que_id (ptable s ! j))" using low j nth_mem by blast
    moreover have "sint q \<noteq> sint (que_id (ptable s ! j))" using False eligible_queue [OF j(2)] q by auto
    ultimately show ?thesis using best by (auto simp: preferred_def queue_best_def)
  qed
  then show ?thesis using best by (simp add: queue_best_def)
qed

lemma pick_proc_held [simp]: "pick_proc (s\<lparr>held := h\<rparr>) = pick_proc s"
  unfolding pick_proc_def round_robin_def last_come_first_serve_def best_job_first_def
  by (simp cong: option.case_cong)

subsection \<open>Properties of the scheduler\<close>

text \<open>
  C23. The scheduler's choice is exactly the policy: it returns process \<open>i\<close> if and only if \<open>i\<close> is
  an eligible table entry that is preferred to every other eligible entry.
\<close>

theorem pick_proc_policy:
  "pick_proc s = Some i \<longleftrightarrow>
     i < length (ptable s) \<and> eligible (ticks s) (ptable s ! i) \<and>
     (\<forall>j < length (ptable s). eligible (ticks s) (ptable s ! j) \<and> j \<noteq> i \<longrightarrow>
        preferred (ticks s) (ptable s) i j)" (is "?L \<longleftrightarrow> ?R")
proof
  assume ?L then show ?R by (rule pick_proc_best)
next
  assume R: ?R
  then obtain k where k: "pick_proc s = Some k"
    using pick_proc_None_iff [of s] nth_mem by (metis option.exhaust)
  have "k = i"
  proof (rule ccontr)
    assume "k \<noteq> i"
    with R pick_proc_best [OF k] show False using preferred_asym by metis
  qed
  with k show ?L by simp
qed

text \<open>The process table as the loader leaves it: zeroed static storage.\<close>

definition tf0 :: trapframe where
  "tf0 = \<lparr>tf_edi = 0, tf_esi = 0, tf_ebp = 0, tf_ebx = 0, tf_edx = 0, tf_ecx = 0, tf_eax = 0,
     tf_es = 0, tf_ds = 0, tf_trapno = 0, tf_err = 0, tf_eip = 0, tf_cs = 0, tf_eflags = 0,
     tf_esp = 0, tf_ss = 0\<rparr>"

definition ctx0 :: kcontext where
  "ctx0 = \<lparr>ctx_edi = 0, ctx_esi = 0, ctx_ebx = 0, ctx_ebp = 0, ctx_eip = 0\<rparr>"

definition proc0 :: proc where
  "proc0 = \<lparr>sz = 0, pgdir = 0, kstack = 0, pstate = UNUSED, pid = 0, parent = None, tf = tf0,
     pcontext = ctx0, ctx_ret = 0, creation_time = 0, preemption_time = 0, que_id = 0,
     pchan = None, killed = False, ofile = replicate 16 None, cwd = None,
     pname = replicate 16 0, priority = 0, priority_ratio = F32 0 0, creation_time_ratio = F32 0 0,
     executed_cycle = F32 0 0, executed_cycle_ratio = F32 0 0, process_size_ratio = F32 0 0, shm = 0\<rparr>"

definition pcore0 :: pcore where
  "pcore0 = \<lparr>held = {}, cons_locking = True, panicked = False, uart = True, uart_out = [],
     crt = (\<lambda>_. 0), crt_pos = 0, ptable = replicate 64 proc0, nextpid = 1, initproc = None, cpu_proc = None,
     cpu_cr3 = 0, cpu_esp0 = 0, kpgdir = 0, ticks = 0\<rparr>"

theorem pick_proc_policy_witness:
  "let s = pcore0\<lparr>ptable := [proc0, proc0\<lparr>pstate := RUNNABLE, que_id := LCFS, creation_time := 5\<rparr>,
             proc0\<lparr>pstate := RUNNABLE, que_id := RR, preemption_time := 3\<rparr>,
             proc0\<lparr>pstate := RUNNABLE, que_id := RR, preemption_time := 2\<rparr>], ticks := 10\<rparr>
   in pick_proc s = Some 3"
proof -
  let ?s = "pcore0\<lparr>ptable := [proc0, proc0\<lparr>pstate := RUNNABLE, que_id := LCFS, creation_time := 5\<rparr>,
             proc0\<lparr>pstate := RUNNABLE, que_id := RR, preemption_time := 3\<rparr>,
             proc0\<lparr>pstate := RUNNABLE, que_id := RR, preemption_time := 2\<rparr>], ticks := 10\<rparr>"
  have "pick_proc ?s = Some 3"
    by (subst pick_proc_policy)
      (simp add: All_less_Suc2 eligible_def preferred_def sched_key_def proc0_def del: of_int_sint)
  then show ?thesis by (simp add: Let_def)
qed

text \<open>
  C33. The rank limit of the best-job-first queue: a process that a round of the scheduler takes from that queue
  has a rank below \<open>MAX_INT\<close> = 10000, whatever else is runnable, so a process at or above the
  limit is not run from its queue. When all runnable processes are of that kind and none has waited
  more than the ageing threshold of 8000 ticks, ageing moves none of them to another queue and
  the scheduler idles although there are processes to run.
\<close>

theorem bjf_rank_starvation:
  assumes "LPtable \<notin> held s"
  shows "(\<forall>i t. scheduler_round s = Ok (Some i) t \<and> que_id (ptable s ! i) = BJF \<longrightarrow>
        flt (calculate_rank (ptable s ! i)) (f_of_int 10000))
    \<and> ((\<forall>p \<in> set (ptable s). pstate p = RUNNABLE \<longrightarrow>
          que_id p = BJF \<and> \<not> flt (calculate_rank p) (f_of_int 10000) \<and> \<not> AGING_THRS <s ticks s - preemption_time p) \<longrightarrow>
        aging s = s \<and> scheduler_round (aging s) = Ok None s)"
proof (intro conjI allI impI)
  fix i t assume r: "scheduler_round s = Ok (Some i) t \<and> que_id (ptable s ! i) = BJF"
  then have "pick_proc s = Some i"
    using assms by (auto simp: scheduler_round_def outcome_iff split: option.splits)
  then have "eligible (ticks s) (ptable s ! i)" using pick_proc_best by blast
  then show "flt (calculate_rank (ptable s ! i)) (f_of_int 10000)" using r by (simp add: eligible_def sched_key_def flt_iff)
next
  assume l: "\<forall>p \<in> set (ptable s). pstate p = RUNNABLE \<longrightarrow>
      que_id p = BJF \<and> \<not> flt (calculate_rank p) (f_of_int 10000) \<and> \<not> AGING_THRS <s ticks s - preemption_time p"
  have "map (age_proc (ticks s)) (ptable s) = ptable s" using l by (intro map_idI) (auto simp: age_proc_def)
  then show a: "aging s = s" by (simp add: aging_def)
  have "\<not> eligible (ticks s) p" if "p \<in> set (ptable s)" for p
  proof (cases "pstate p = RUNNABLE")
    case True
    with l that have "que_id p = BJF" "10000 \<le> fval (calculate_rank p)" by (auto simp: flt_iff not_less)
    then show ?thesis by (simp add: eligible_def sched_key_def)
  next
    case False
    then show ?thesis by (simp add: eligible_def)
  qed
  then have "pick_proc s = None" by (simp add: pick_proc_None_iff)
  then show "scheduler_round (aging s) = Ok None s" unfolding a using assms by (simp add: scheduler_round_def)
qed

theorem bjf_rank_starvation_witness:
  "let p = proc0\<lparr>pstate := RUNNABLE, que_id := BJF, sz := 16384, priority := PRIORITY_DEF,
          priority_ratio := f1_0, creation_time_ratio := f1_0, executed_cycle := f0_1,
          executed_cycle_ratio := f1_0, process_size_ratio := f1_0\<rparr>;
       s = pcore0\<lparr>ptable := [p], ticks := 8000\<rparr>
   in scheduler_round (aging s) = Ok None s"
proof -
  let ?p = "proc0\<lparr>pstate := RUNNABLE, que_id := BJF, sz := 16384, priority := PRIORITY_DEF,
          priority_ratio := f1_0, creation_time_ratio := f1_0, executed_cycle := f0_1,
          executed_cycle_ratio := f1_0, process_size_ratio := f1_0\<rparr>"
  let ?s = "pcore0\<lparr>ptable := [?p], ticks := 8000\<rparr>"
  have r: "que_id ?p = BJF" "\<not> flt (calculate_rank ?p) (f_of_int 10000)" by code_simp+
  have w: "\<not> AGING_THRS <s ticks ?s - preemption_time ?p" by (simp add: AGING_THRS_def proc0_def)
  have h: "LPtable \<notin> held ?s" and one: "set (ptable ?s) = {?p}" by (simp_all add: pcore0_def)
  have "\<forall>p \<in> set (ptable ?s). pstate p = RUNNABLE \<longrightarrow>
      que_id p = BJF \<and> \<not> flt (calculate_rank p) (f_of_int 10000) \<and> \<not> AGING_THRS <s ticks ?s - preemption_time p"
    unfolding one using r w by blast
  with bjf_rank_starvation [OF h] have "scheduler_round (aging ?s) = Ok None ?s" by blast
  then show ?thesis by (simp add: Let_def)
qed

lemma aging_simps [simp]: "ticks (aging s) = ticks s" "length (ptable (aging s)) = length (ptable s)"
  "i < length (ptable s) \<Longrightarrow> ptable (aging s) ! i = age_proc (ticks s) (ptable s ! i)"
  by (simp_all add: aging_def)

text \<open>
  C29. Aging ends starvation: after a timer tick's aging pass, as long as some runnable process of
  any queue has waited more than 8000 ticks, the scheduler picks a round-robin process that has
  waited at least as long.
\<close>

theorem aging_bounds_waiting:
  assumes "i < length (ptable s)" and "pstate (ptable s ! i) = RUNNABLE"
    and "AGING_THRS <s ticks s - preemption_time (ptable s ! i)"
  shows "\<exists>j. pick_proc (aging s) = Some j \<and> que_id (ptable (aging s) ! j) = RR \<and>
    sint (ticks s - preemption_time (ptable s ! i)) \<le> sint (ticks s - preemption_time (ptable s ! j))"
proof -
  let ?p = "ptable (aging s) ! i" and ?now = "ticks s"
  have pre: "preemption_time (ptable (aging s) ! j) = preemption_time (ptable s ! j)"
    if "j < length (ptable s)" for j using that by (simp add: age_proc_def)
  have rr: "que_id ?p = RR" and run: "pstate ?p = RUNNABLE"
    using assms by (simp_all add: age_proc_def)
  have "8000 < sint (?now - preemption_time (ptable s ! i))"
    using assms(3) by (simp add: word_sless_alt AGING_THRS_def)
  then have el: "eligible ?now ?p" using rr run pre assms(1)
    by (simp add: eligible_def sched_key_def del: of_int_sint)
  then obtain j where j: "pick_proc (aging s) = Some j"
    using pick_proc_None_iff [of "aging s"] assms(1) nth_mem [of i "ptable (aging s)"]
    by (cases "pick_proc (aging s)") auto
  note best = pick_proc_best [OF j]
  have "que_id (ptable (aging s) ! j) = RR \<and> sched_key ?now ?p \<le> sched_key ?now (ptable (aging s) ! j)"
  proof (cases "j = i")
    case True then show ?thesis using rr by simp
  next
    case False
    then have "preferred ?now (ptable (aging s)) j i" using best el assms(1) by auto
    then show ?thesis using best rr eligible_queue [of ?now "ptable (aging s) ! j"]
      by (auto simp: preferred_def)
  qed
  then show ?thesis using j rr pre best assms(1) by (auto simp: sched_key_def simp del: of_int_sint)
qed

theorem aging_bounds_waiting_witness:
  "let s = pcore0\<lparr>ptable := [proc0\<lparr>pstate := RUNNABLE, que_id := RR, preemption_time := 9000\<rparr>,
                  proc0\<lparr>pstate := RUNNABLE, que_id := LCFS, preemption_time := 5\<rparr>], ticks := 9001\<rparr>
   in \<exists>j. pick_proc (aging s) = Some j \<and> que_id (ptable (aging s) ! j) = RR \<and>
        8996 \<le> sint (ticks s - preemption_time (ptable s ! j))"
proof -
  let ?s = "pcore0\<lparr>ptable := [proc0\<lparr>pstate := RUNNABLE, que_id := RR, preemption_time := 9000\<rparr>,
                  proc0\<lparr>pstate := RUNNABLE, que_id := LCFS, preemption_time := 5\<rparr>], ticks := 9001\<rparr>"
  have "AGING_THRS <s ticks ?s - preemption_time (ptable ?s ! 1)"
    by (simp add: word_sless_alt AGING_THRS_def)
  from aging_bounds_waiting [of 1 ?s, OF _ _ this] show ?thesis
    by (simp add: Let_def)
qed

end
