(* ===== verification/Sched.thy ===== *)
theory Sched
  imports Proc
begin

section \<open>Scheduling as a transition system (proc.c)\<close>

text \<open>
  The operations of \<open>Proc\<close> composed the way one processor runs them: the scheduler dispatches a
  process, the process takes and gives back locks, yields or sleeps, which switches back into the
  scheduler, and its kernel code or an interrupt wakes, kills and ages processes in between. The
  invariant is that the process on the processor is the one marked running.
\<close>

subsection \<open>What each operation does to the table\<close>

lemma wakeup_eq:
  "LPtable \<notin> held s \<Longrightarrow> wakeup ch s = Ok () (s\<lparr>ptable := map (wake_one (Some ch)) (ptable s)\<rparr>)"
  by (simp add: wakeup_def wakeup1_def)

lemma reset_bjf_eq:
  "LPtable \<notin> held s \<Longrightarrow>
   reset_bjf_attributes a b c d s = Ok () (s\<lparr>ptable := map (\<lambda>p. if pstate p \<noteq> UNUSED
         then p\<lparr>priority_ratio := a, creation_time_ratio := b,
                executed_cycle_ratio := c, process_size_ratio := d\<rparr> else p) (ptable s)\<rparr>)"
  by (simp add: reset_bjf_attributes_def)

lemma kill_eq:
  assumes "LPtable \<notin> held s"
  shows "kill pd s =
    (case find_idx (\<lambda>p. pid p = pd) (ptable s) of
       Some i \<Rightarrow> Ok 0 (upd_proc i (\<lambda>q. q\<lparr>killed := True, pstate := (if pstate q = SLEEPING then RUNNABLE else pstate q)\<rparr>) s)
     | None \<Rightarrow> Ok (-1) s)"
  using assms by (auto simp: kill_def upd_proc_def Let_def split: option.splits)

text \<open>The sleepers \<open>wakeup_pl\<close> picks from.\<close>

definition pl_candidate :: "chan \<Rightarrow> proc \<Rightarrow> bool" where
  "pl_candidate ch p \<longleftrightarrow> pchan p = Some ch \<and> pstate p = SLEEPING \<and> 0 <s pid p"

lemma wakeup_pl_loop_max:
  "wakeup_pl_loop ch i ps mp c = (m, c') \<Longrightarrow>
     (m = mp \<and> c' = c) \<or> (\<exists>j < length ps. c' = Some (i + j) \<and> m = pid (ps ! j))"
proof (induction ps arbitrary: i mp c)
  case (Cons p ps)
  then show ?case
    by (auto split: if_splits) (metis (no_types, lifting) Suc_less_eq add_Suc_right add_Suc_shift
        nth_Cons_Suc nth_Cons_0 add_0_right zero_less_Suc)+
qed simp

lemma wakeup_pl_eq:
  assumes "LPtable \<notin> held s"
  obtains (none) "wakeup_pl ch s = Ok () s" "\<forall>p \<in> set (ptable s). \<not> pl_candidate ch p"
    | (one) i where "wakeup_pl ch s = Ok () (upd_proc i (\<lambda>q. q\<lparr>pstate := RUNNABLE\<rparr>) s)"
        "i < length (ptable s)" "pl_candidate ch (ptable s ! i)"
        "\<forall>p \<in> set (ptable s). pl_candidate ch p \<longrightarrow> sint (pid p) \<le> sint (pid (ptable s ! i))"
proof -
  obtain m c where mc: "wakeup_pl_loop ch 0 (ptable s) 0 None = (m, c)" by fastforce
  then have sc: "scan_max (\<lambda>p. pchan p = Some ch \<and> pstate p = SLEEPING) (\<lambda>p. sint (pid p)) 0 (ptable s) 0 None = c"
    using wakeup_pl_loop_scan [of ch 0 "ptable s" 0 None] by simp
  show thesis
  proof (cases c)
    case None
    then have "m = 0" using wakeup_pl_loop_max [OF mc] by auto
    moreover have "\<forall>p \<in> set (ptable s). \<not> pl_candidate ch p"
      using sc None by (fastforce simp: scan_max_None_iff pl_candidate_def word_sless_alt)
    ultimately show thesis using assms mc by (intro none) (simp_all add: wakeup_pl_def)
  next
    case (Some i)
    note sd = scan_max_SomeD [OF sc [unfolded Some]]
    have "m = pid (ptable s ! i)" using wakeup_pl_loop_max [OF mc] Some by auto
    moreover have "pid (ptable s ! i) \<noteq> 0" using sd by auto
    ultimately have "wakeup_pl ch s = Ok () (upd_proc i (\<lambda>q. q\<lparr>pstate := RUNNABLE\<rparr>) s)"
      using assms mc Some by (simp add: wakeup_pl_def upd_proc_def)
    moreover have "pl_candidate ch (ptable s ! i)" using sd by (simp add: pl_candidate_def word_sless_alt)
    moreover have "\<forall>p \<in> set (ptable s). pl_candidate ch p \<longrightarrow> sint (pid p) \<le> sint (pid (ptable s ! i))"
      using sd by (auto simp: pl_candidate_def in_set_conv_nth)
    ultimately show thesis using sd one by blast
  qed
qed

subsection \<open>One processor\<close>

definition run_ok :: "'z pcore_scheme \<Rightarrow> bool" where
  "run_ok s \<longleftrightarrow>
     (\<forall>i < length (ptable s). pstate (ptable s ! i) = RUNNING \<longleftrightarrow> cpu_proc s = Some i) \<and>
     (\<forall>i. cpu_proc s = Some i \<longrightarrow> i < length (ptable s)) \<and>
     (cpu_proc s = None \<longrightarrow> held s = {})"

inductive cpu_step :: "'z pcore_scheme \<Rightarrow> 'z pcore_scheme \<Rightarrow> bool" where
  idle: "cpu_proc s = None \<Longrightarrow> scheduler_round s = Ok None s' \<Longrightarrow> cpu_step s s'"
| dispatch: "cpu_proc s = None \<Longrightarrow> scheduler_round s = Ok (Some p) s' \<Longrightarrow> cpu_step s s'"
| resume_yield: "cpu_proc s = Some p \<Longrightarrow> yield_resume s = Ok () s' \<Longrightarrow> cpu_step s s'"
| resume_sleep: "cpu_proc s = Some p \<Longrightarrow> sleep_resume lk s = Ok () s' \<Longrightarrow> cpu_step s s'"
| lock: "cpu_proc s = Some p \<Longrightarrow> lk_acquire lk s = Ok () s' \<Longrightarrow> cpu_step s s'"
| unlock: "cpu_proc s = Some p \<Longrightarrow> lk_release lk s = Ok () s' \<Longrightarrow> cpu_step s s'"
| yields: "cpu_proc s = Some p \<Longrightarrow> yield s = Swtch s1 \<Longrightarrow> scheduler_back s1 = Ok () s' \<Longrightarrow> cpu_step s s'"
| sleeps: "cpu_proc s = Some p \<Longrightarrow> sleep ch (Some lk) s = Swtch s1 \<Longrightarrow> scheduler_back s1 = Ok () s' \<Longrightarrow>
    cpu_step s s'"
| wakes: "wakeup ch s = Ok () s' \<Longrightarrow> cpu_step s s'"
| wakes_pl: "wakeup_pl ch s = Ok () s' \<Longrightarrow> cpu_step s s'"
| kills: "kill pd s = Ok r s' \<Longrightarrow> cpu_step s s'"
| tick: "cpu_step s (aging (s\<lparr>ticks := ticks s + 1\<rparr>))"
| retune: "reset_bjf_attributes a b c d s = Ok () s' \<Longrightarrow> cpu_step s s'"

inductive cpu_reach :: "'z pcore_scheme \<Rightarrow> 'z pcore_scheme \<Rightarrow> bool" where
  refl: "cpu_reach s s"
| step: "cpu_reach s t \<Longrightarrow> cpu_step t u \<Longrightarrow> cpu_reach s u"

lemma run_ok_map:
  assumes "run_ok s" "\<And>p. pstate (f p) = RUNNING \<longleftrightarrow> pstate p = RUNNING"
  shows "run_ok (s\<lparr>ptable := map f (ptable s)\<rparr>)"
  using assms by (simp add: run_ok_def)

lemma run_ok_upd:
  assumes "run_ok s" "\<And>q. pstate (f q) = RUNNING \<longleftrightarrow> pstate q = RUNNING"
  shows "run_ok (upd_proc i f s)"
  using assms by (auto simp: run_ok_def upd_proc_def nth_list_update_if)

lemma run_ok_upd_at:
  assumes "run_ok s" "pstate (f (ptable s ! i)) = RUNNING \<longleftrightarrow> pstate (ptable s ! i) = RUNNING"
  shows "run_ok (upd_proc i f s)"
  using assms by (auto simp: run_ok_def upd_proc_def nth_list_update_if)

lemma run_ok_held: "run_ok s \<Longrightarrow> cpu_proc s = Some p \<Longrightarrow> run_ok (s\<lparr>held := h\<rparr>)"
  by (simp add: run_ok_def)

text \<open>A process that is on the processor, stops running and switches away.\<close>

lemma run_ok_away:
  assumes "run_ok s" "cpu_proc s = Some p" "pstate (f (ptable s ! p)) \<noteq> RUNNING" "h = {}"
  shows "run_ok (upd_proc p f s\<lparr>cpu_cr3 := c, cpu_proc := None, held := h\<rparr>)"
  using assms by (auto simp: run_ok_def upd_proc_def nth_list_update_if)

lemma sched_Swtch:
  "sched s = Swtch s' \<longleftrightarrow>
     s' = s \<and> held s = {LPtable} \<and> (\<exists>p. cpu_proc s = Some p \<and> pstate (ptable s ! p) \<noteq> RUNNING)"
  by (auto simp: sched_def lk_holding_def myproc_def card_1_singleton_iff split: option.splits)

lemma held_upd_proc [simp]: "held (upd_proc i f s) = held s"
  by (simp add: upd_proc_def)

lemma held_held: "held (s\<lparr>held := h\<rparr>) = h"
  by simp

lemma sched_held: "sched s = Swtch s' \<Longrightarrow> held s = {LPtable}"
  by (simp add: sched_Swtch)

lemma scheduler_round_Some:
  assumes "scheduler_round s = Ok (Some p) s'"
  shows "p < length (ptable s)" "pstate (ptable s ! p) = RUNNABLE" "LPtable \<notin> held s"
    "held s' = insert LPtable (held s)" "cpu_proc s' = Some p" "ticks s' = ticks s"
    "ptable s' = (ptable s)[p := (ptable s ! p)\<lparr>pstate := RUNNING, preemption_time := ticks s,
              executed_cycle := fadd (executed_cycle (ptable s ! p)) f0_1\<rparr>]"
proof -
  have n: "LPtable \<notin> held s" using assms by (auto simp: scheduler_round_def)
  with assms have pk: "pick_proc s = Some p"
    by (auto simp: scheduler_round_def outcome_iff split: option.splits)
  from pick_proc_best [OF pk] show "p < length (ptable s)" "pstate (ptable s ! p) = RUNNABLE" "LPtable \<notin> held s"
    using n by (auto simp: eligible_def)
  show "held s' = insert LPtable (held s)" "cpu_proc s' = Some p" "ticks s' = ticks s"
    "ptable s' = (ptable s)[p := (ptable s ! p)\<lparr>pstate := RUNNING, preemption_time := ticks s,
              executed_cycle := fadd (executed_cycle (ptable s ! p)) f0_1\<rparr>]"
    using assms n pk
    by (auto simp: scheduler_round_def switchuvm_def upd_proc_def split: if_splits)
qed

lemma scheduler_round_None:
  "scheduler_round s = Ok None s' \<Longrightarrow> s' = s"
  by (cases "LPtable \<in> held s")
    (auto simp: scheduler_round_def outcome_iff split: option.splits if_splits)

lemma run_ok_dispatch:
  assumes "run_ok s" "cpu_proc s = None" "scheduler_round s = Ok (Some p) s'"
  shows "run_ok s'"
  using assms(1,2) scheduler_round_Some [OF assms(3)]
  by (auto simp: run_ok_def nth_list_update_if)

lemma yield_Swtch:
  assumes "yield s = Swtch s1" "cpu_proc s = Some p"
  shows "held s = {}" "s1 = upd_proc p (\<lambda>q. q\<lparr>pstate := RUNNABLE, preemption_time := ticks s,
           executed_cycle := fadd_double (executed_cycle q) d0_1\<rparr>) (s\<lparr>held := {LPtable}\<rparr>)"
proof -
  have n: "LPtable \<notin> held s" using assms by (auto simp: yield_def)
  with assms show h: "held s = {}"
    by (auto simp: yield_def myproc_def sched_Swtch upd_proc_def)
  show "s1 = upd_proc p (\<lambda>q. q\<lparr>pstate := RUNNABLE, preemption_time := ticks s,
           executed_cycle := fadd_double (executed_cycle q) d0_1\<rparr>) (s\<lparr>held := {LPtable}\<rparr>)"
    using assms n h by (auto simp: yield_def myproc_def sched_Swtch)
qed

lemma sleep_Swtch:
  assumes "sleep ch (Some lk) s = Swtch s1" "cpu_proc s = Some p"
  shows "held s = {lk}"
    "s1 = upd_proc p (\<lambda>q. q\<lparr>pchan := Some ch, pstate := SLEEPING\<rparr>) (s\<lparr>held := {LPtable}\<rparr>)"
proof -
  show "held s = {lk}"
  proof (cases "lk = LPtable")
    case True
    with assms show ?thesis by (auto simp: sleep_def myproc_def sched_Swtch upd_proc_def)
  next
    case False
    have n: "LPtable \<notin> held s"
      using assms False by (cases "LPtable \<in> held s") (simp_all add: sleep_def myproc_def)
    have l: "lk \<in> held s"
      using assms False n by (cases "lk \<in> held s") (simp_all add: sleep_def myproc_def)
    have "sched (upd_proc p (\<lambda>q. q\<lparr>pchan := Some ch, pstate := SLEEPING\<rparr>)
        (s\<lparr>held := insert LPtable (held s) - {lk}\<rparr>)) = Swtch s1"
      using assms False n l by (simp add: sleep_def myproc_def)
    from sched_held [OF this] have e: "insert LPtable (held s) - {lk} = {LPtable}"
      by (simp only: held_upd_proc held_held)
    show ?thesis
    proof (intro subset_antisym subsetI)
      fix x assume "x \<in> held s"
      then show "x \<in> {lk}" using e n by (cases "x = lk") (blast dest: equalityD1)+
    qed (use l in simp)
  qed
  note h = this
  show "s1 = upd_proc p (\<lambda>q. q\<lparr>pchan := Some ch, pstate := SLEEPING\<rparr>) (s\<lparr>held := {LPtable}\<rparr>)"
  proof (cases "lk = LPtable")
    case True
    have e: "s\<lparr>held := {LPtable}\<rparr> = s" using h True [symmetric] by simp
    show ?thesis unfolding e using assms True by (simp add: sleep_def myproc_def sched_Swtch)
  next
    case False
    have "{LPtable, lk} - {lk} = {LPtable}" using False by auto
    with assms h False show ?thesis by (simp add: sleep_def myproc_def sched_Swtch)
  qed
qed

lemma wp_wakeup [wp_rules]:
  "wp (wakeup ch s) R Q \<longleftrightarrow> (LPtable \<notin> held s \<longrightarrow> R () (s\<lparr>ptable := map (wake_one (Some ch)) (ptable s)\<rparr>))"
  by (cases "LPtable \<in> held s") (simp_all add: wakeup_eq, simp add: wakeup_def)

lemma wp_sleep:
  assumes "\<And>p. cpu_proc s = Some p \<Longrightarrow>
    Q (upd_proc p (\<lambda>q. q\<lparr>pchan := Some ch, pstate := SLEEPING\<rparr>) (s\<lparr>held := {LPtable}\<rparr>))"
  shows "wp (sleep ch (Some lk) s) R Q"
proof (cases "cpu_proc s")
  case None
  then show ?thesis by (simp add: sleep_def myproc_def)
next
  case (Some p)
  show ?thesis
  proof (cases "sleep ch (Some lk) s")
    case (Ok a t)
    then show ?thesis
      by (auto simp: sleep_def sched_def myproc_def outcome_iff split: option.splits if_splits)
  next
    case (Swtch t)
    with sleep_Swtch(2) [OF Swtch Some] assms [OF Some] show ?thesis by simp
  qed simp_all
qed

lemma scheduler_back_eq:
  "held s = {LPtable} \<Longrightarrow>
   scheduler_back s = Ok () (s\<lparr>cpu_cr3 := V2P (kpgdir s), cpu_proc := None, held := {}\<rparr>)"
  by (simp add: scheduler_back_def switchkvm_def)

lemma run_ok_leave:
  assumes "run_ok s" "cpu_proc s = Some p" "s1 = upd_proc p f (s\<lparr>held := {LPtable}\<rparr>)"
    "\<And>q. pstate (f q) \<noteq> RUNNING" "scheduler_back s1 = Ok () s'"
  shows "run_ok s'"
proof -
  have "held s1 = {LPtable}" unfolding assms(3) by simp
  with assms(5) have "s' = s1\<lparr>cpu_cr3 := V2P (kpgdir s1), cpu_proc := None, held := {}\<rparr>"
    by (simp add: scheduler_back_eq)
  then show ?thesis unfolding assms(3)
    using assms(1,2,4) by (auto simp: run_ok_def upd_proc_def nth_list_update_if)
qed

lemma held_of_running: "run_ok s \<Longrightarrow> cpu_proc s = None \<Longrightarrow> l \<notin> held s"
  by (simp add: run_ok_def)

lemma wake_one_running [simp]: "pstate (wake_one ch p) = RUNNING \<longleftrightarrow> pstate p = RUNNING"
  by (simp add: wake_one_def)

lemma sleep_resume_eq:
  assumes "cpu_proc s = Some p" "sleep_resume lk s = Ok () s'"
  shows "\<exists>h. s' = upd_proc p (\<lambda>q. q\<lparr>pchan := None\<rparr>) (s\<lparr>held := h\<rparr>)"
proof (cases "lk = LPtable")
  case True
  with assms show ?thesis
    by (intro exI [of _ "held s"]) (simp add: sleep_resume_def myproc_def upd_proc_def)
next
  case False
  with assms show ?thesis
    by (intro exI [of _ "insert lk (held s - {LPtable})"])
      (auto simp: sleep_resume_def myproc_def Let_def lk_defs upd_proc_def split: if_splits)
qed

lemma run_ok_step: "cpu_step s s' \<Longrightarrow> run_ok s \<Longrightarrow> run_ok s'"
proof (induction rule: cpu_step.induct)
  case (idle s s')
  then show ?case using scheduler_round_None by metis
next
  case (dispatch s p s')
  then show ?case using run_ok_dispatch by metis
next
  case (resume_yield s p s')
  then show ?case by (auto simp: yield_resume_def lk_release_def run_ok_held split: if_splits)
next
  case (resume_sleep s p lk s')
  then obtain h where "s' = upd_proc p (\<lambda>q. q\<lparr>pchan := None\<rparr>) (s\<lparr>held := h\<rparr>)"
    using sleep_resume_eq by blast
  moreover have "run_ok (s\<lparr>held := h\<rparr>)" using resume_sleep run_ok_held by blast
  ultimately show ?case using run_ok_upd by fastforce
next
  case (lock s p lk s')
  then show ?case by (auto simp: lk_acquire_def run_ok_held split: if_splits)
next
  case (unlock s p lk s')
  then show ?case by (auto simp: lk_release_def run_ok_held split: if_splits)
next
  case (yields s p s1 s')
  from yield_Swtch(2) [OF yields(2,1)] show ?case
    by (rule run_ok_leave [OF yields(4,1) _ _ yields(3)]) simp
next
  case (sleeps s p ch lk s1 s')
  from sleep_Swtch(2) [OF sleeps(2,1)] show ?case
    by (rule run_ok_leave [OF sleeps(4,1) _ _ sleeps(3)]) simp
next
  case (wakes ch s s')
  then have "LPtable \<notin> held s" by (auto simp: wakeup_def)
  with wakes show ?case by (auto simp: wakeup_eq intro!: run_ok_map)
next
  case (wakes_pl ch s s')
  then have "LPtable \<notin> held s" by (auto simp: wakeup_pl_def)
  then show ?case
  proof (cases rule: wakeup_pl_eq [of s ch])
    case none
    then show ?thesis using wakes_pl by simp
  next
    case (one i)
    then have "run_ok (upd_proc i (\<lambda>q. q\<lparr>pstate := RUNNABLE\<rparr>) s)"
      using wakes_pl by (intro run_ok_upd_at) (auto simp: pl_candidate_def)
    then show ?thesis using one wakes_pl by simp
  qed
next
  case (kills pd s r s')
  then have "LPtable \<notin> held s" by (auto simp: kill_def)
  with kills show ?case by (auto simp: kill_eq intro!: run_ok_upd split: option.splits if_splits)
next
  case (tick s)
  then have "run_ok (s\<lparr>ticks := ticks s + 1\<rparr>)" by (simp add: run_ok_def)
  then show ?case unfolding aging_def by (rule run_ok_map) (simp add: age_proc_def)
next
  case (retune a b c d s s')
  then have "LPtable \<notin> held s" by (auto simp: reset_bjf_attributes_def)
  with retune show ?case by (auto simp: reset_bjf_eq intro!: run_ok_map split: if_splits)
qed

lemma run_ok_reach: "cpu_reach s t \<Longrightarrow> run_ok s \<Longrightarrow> run_ok t"
  by (induction rule: cpu_reach.induct) (blast intro: run_ok_step)+

inductive_cases cpu_step_elim: "cpu_step s s'"

subsection \<open>Properties\<close>

text \<open>
  C24. On one processor, after any sequence of scheduling rounds, lock operations, yields, sleeps,
  wakeups, kills, clock ticks and changes of the BJF ratios, the only process in state RUNNING is
  the one the processor runs, so there is never more than one.
\<close>

theorem one_running:
  assumes "cpu_reach s t" "run_ok s" "i < length (ptable t)" "pstate (ptable t ! i) = RUNNING"
  shows "cpu_proc t = Some i \<and> (\<forall>j < length (ptable t). pstate (ptable t ! j) = RUNNING \<longrightarrow> j = i)"
  using run_ok_reach [OF assms(1,2)] assms(3,4) by (auto simp: run_ok_def)

definition proc_rr :: proc where
  "proc_rr = proc0\<lparr>pstate := RUNNABLE, que_id := RR, kstack := 0x1000, pgdir := 0x2000, pid := 7\<rparr>"

definition proc_on :: proc where
  "proc_on = proc_rr\<lparr>pstate := RUNNING, preemption_time := 0, executed_cycle := fadd (executed_cycle proc_rr) f0_1\<rparr>"

definition sched0 :: pcore where
  "sched0 = pcore0\<lparr>ptable := [proc0, proc_rr]\<rparr>"

definition sched1 :: pcore where
  "sched1 = sched0\<lparr>held := {LPtable}, cpu_proc := Some 1, cpu_esp0 := 0x2000,
     cpu_cr3 := 0x2000 - 0x80000000, ptable := [proc0, proc_on]\<rparr>"

lemma pick_sched0: "pick_proc sched0 = Some 1"
proof -
  have "round_robin sched0 = Some 1"
    by (simp add: round_robin_def sched0_def pcore0_def proc_rr_def proc0_def MIN_INT_def word_sless_alt)
  then show ?thesis by (simp add: pick_proc_def)
qed

lemma dispatch_sched0: "scheduler_round sched0 = Ok (Some 1) sched1"
proof -
  have h: "LPtable \<notin> held sched0" by (simp add: sched0_def pcore0_def)
  show ?thesis
    by (simp add: scheduler_round_def h pick_sched0 switchuvm_def)
      (simp add: sched0_def sched1_def proc_on_def proc_rr_def pcore0_def proc0_def upd_proc_def
        V2P_def KSTACKSIZE_def)
qed

lemma run_ok_sched0: "run_ok sched0"
  by (simp add: run_ok_def sched0_def pcore0_def proc0_def proc_rr_def All_less_Suc2 numeral_2_eq_2)

theorem one_running_witness:
  "cpu_reach sched0 sched1 \<and> pstate (ptable sched1 ! 1) = RUNNING \<and> cpu_proc sched1 = Some 1"
proof -
  have "cpu_step sched0 sched1"
    by (rule cpu_step.dispatch [OF _ dispatch_sched0]) (simp add: sched0_def pcore0_def)
  then have r: "cpu_reach sched0 sched1" by (blast intro: cpu_reach.intros)
  have p: "1 < length (ptable sched1)" "pstate (ptable sched1 ! 1) = RUNNING"
    by (simp_all add: sched1_def proc_on_def)
  from one_running [OF r run_ok_sched0 p] have "cpu_proc sched1 = Some 1" by (rule conjunct1)
  with r p show ?thesis by blast
qed

text \<open>
  C25. Going to sleep hands the lock over and a later wakeup finds the sleeper: \<open>sleep\<close> called by
  the running process with only \<open>lk\<close> held switches away with the process asleep on the channel
  and \<open>ptable.lock\<close> the only lock still held; back in the scheduler no lock is held, so another
  process can take \<open>lk\<close> and call \<open>wakeup\<close>, which makes the sleeper runnable again.
\<close>

theorem sleep_wakeup_handoff:
  assumes "run_ok s" "cpu_proc s = Some p" "held s = {lk}"
  shows "\<exists>s1 s2 s3. sleep ch (Some lk) s = Swtch s1 \<and> held s1 = {LPtable}
     \<and> scheduler_back s1 = Ok () s2 \<and> held s2 = {} \<and> cpu_proc s2 = None
     \<and> pstate (ptable s2 ! p) = SLEEPING \<and> pchan (ptable s2 ! p) = Some ch
     \<and> wakeup ch s2 = Ok () s3 \<and> pstate (ptable s3 ! p) = RUNNABLE"
proof -
  define s1 where "s1 = upd_proc p (\<lambda>q. q\<lparr>pchan := Some ch, pstate := SLEEPING\<rparr>) (s\<lparr>held := {LPtable}\<rparr>)"
  have p: "p < length (ptable s)" using assms by (simp add: run_ok_def)
  have sw: "sleep ch (Some lk) s = Swtch s1"
  proof (cases "lk = LPtable")
    case True
    have e: "s\<lparr>held := {LPtable}\<rparr> = s" using assms(3) True [symmetric] by simp
    show ?thesis unfolding s1_def e using assms True p
      by (simp add: sleep_def myproc_def sched_Swtch) (simp add: upd_proc_def)
  next
    case False
    have "{LPtable, lk} - {lk} = {LPtable}" using False by auto
    with assms False p show ?thesis
      by (simp add: sleep_def myproc_def sched_Swtch s1_def) (simp add: upd_proc_def)
  qed
  define s2 where "s2 = s1\<lparr>cpu_cr3 := V2P (kpgdir s1), cpu_proc := None, held := {}\<rparr>"
  have h1: "held s1 = {LPtable}" by (simp add: s1_def)
  have 2: "scheduler_back s1 = Ok () s2" by (simp add: scheduler_back_eq h1 s2_def)
  have pp: "p < length (ptable s2)" "pstate (ptable s2 ! p) = SLEEPING" "pchan (ptable s2 ! p) = Some ch"
    using p by (simp_all add: s2_def s1_def upd_proc_def)
  have h2: "held s2 = {}" "cpu_proc s2 = None" by (simp_all add: s2_def)
  have "wakeup ch s2 = Ok () (s2\<lparr>ptable := map (wake_one (Some ch)) (ptable s2)\<rparr>)"
    using h2 by (intro wakeup_eq) simp
  moreover have "pstate (wake_one (Some ch) (ptable s2 ! p)) = RUNNABLE"
    using pp by (simp add: wake_one_def)
  ultimately show ?thesis using sw h1 2 h2 pp
    by (intro exI [of _ s1] exI [of _ s2] exI [of _ "s2\<lparr>ptable := map (wake_one (Some ch)) (ptable s2)\<rparr>"])
      simp
qed

definition sched2 :: pcore where
  "sched2 = sched1\<lparr>held := {LTicks}\<rparr>"

lemma run_ok_sched2: "run_ok sched2"
  by (simp add: run_ok_def sched2_def sched1_def sched0_def pcore0_def proc0_def proc_on_def
      All_less_Suc2 numeral_2_eq_2)

theorem sleep_wakeup_handoff_witness:
  "\<exists>s1 s2 s3. sleep CTicks (Some LTicks) sched2 = Swtch s1 \<and> scheduler_back s1 = Ok () s2
     \<and> wakeup CTicks s2 = Ok () s3 \<and> pstate (ptable s3 ! 1) = RUNNABLE"
  using sleep_wakeup_handoff [OF run_ok_sched2, of 1 LTicks CTicks]
  by (auto simp: sched2_def sched1_def)

text \<open>
  \<open>wakeup_pl\<close> never dereferences its null pointer, and makes at most one process runnable: if
  processes with a positive pid sleep on the channel it is the one with the largest pid, and
  every other table entry stays as it was.
\<close>

theorem wakeup_pl_largest:
  assumes "LPtable \<notin> held s"
  shows "\<exists>s'. wakeup_pl ch s = Ok () s' \<and> held s' = held s \<and>
    ((\<forall>p \<in> set (ptable s). \<not> pl_candidate ch p) \<and> ptable s' = ptable s \<or>
     (\<exists>i < length (ptable s). pl_candidate ch (ptable s ! i)
        \<and> (\<forall>p \<in> set (ptable s). pl_candidate ch p \<longrightarrow> sint (pid p) \<le> sint (pid (ptable s ! i)))
        \<and> ptable s' = (ptable s)[i := (ptable s ! i)\<lparr>pstate := RUNNABLE\<rparr>]))"
  using assms
proof (cases rule: wakeup_pl_eq [of s ch])
  case none
  then show ?thesis by auto
next
  case (one i)
  then show ?thesis by (auto simp: upd_proc_def)
qed

definition prio0 :: pcore where
  "prio0 = pcore0\<lparr>ptable := [proc0, proc0\<lparr>pid := 3, pstate := SLEEPING, pchan := Some CPrio\<rparr>,
       proc0\<lparr>pid := 5, pstate := SLEEPING, pchan := Some CPrio\<rparr>]\<rparr>"

theorem wakeup_pl_largest_witness:
  "\<exists>s'. wakeup_pl CPrio prio0 = Ok () s' \<and> map pstate (ptable s') = [UNUSED, SLEEPING, RUNNABLE]"
proof -
  have n: "LPtable \<notin> held prio0" by (simp add: prio0_def pcore0_def)
  have c: "pl_candidate CPrio (ptable prio0 ! 2)" "\<not> pl_candidate CPrio (ptable prio0 ! 0)"
    "sint (pid (ptable prio0 ! 1)) = 3" "sint (pid (ptable prio0 ! 2)) = 5" "length (ptable prio0) = 3"
    by (simp_all add: pl_candidate_def prio0_def proc0_def word_sless_alt)
  then have m: "ptable prio0 ! 2 \<in> set (ptable prio0)" by (intro nth_mem) simp
  from wakeup_pl_largest [OF n, of CPrio] obtain s' i where
    s': "wakeup_pl CPrio prio0 = Ok () s'" and i: "i < length (ptable prio0)" "pl_candidate CPrio (ptable prio0 ! i)"
      "\<forall>p \<in> set (ptable prio0). pl_candidate CPrio p \<longrightarrow> sint (pid p) \<le> sint (pid (ptable prio0 ! i))"
      "ptable s' = (ptable prio0)[i := (ptable prio0 ! i)\<lparr>pstate := RUNNABLE\<rparr>]"
    using c(1) m by blast
  have "5 \<le> sint (pid (ptable prio0 ! i))" using i(3) m c by metis
  moreover have "i = 0 \<or> i = 1 \<or> i = 2" using i(1) c(5) by linarith
  ultimately have "i = 2" using c i(2) by auto
  with i(4) have "ptable s' = (ptable prio0)[Suc (Suc 0) := (ptable prio0 ! 2)\<lparr>pstate := RUNNABLE\<rparr>]"
    by (simp only: numeral_2_eq_2)
  then have "map pstate (ptable s') = (map pstate (ptable prio0))[Suc (Suc 0) := RUNNABLE]"
    by (simp add: map_update)
  moreover have "map pstate (ptable prio0) = [UNUSED, SLEEPING, SLEEPING]"
    by (simp add: prio0_def proc0_def)
  ultimately have "map pstate (ptable s') = [UNUSED, SLEEPING, RUNNABLE]" by simp
  with s' show ?thesis by (intro exI [of _ s'] conjI)
qed

end
