(* ===== verification/Sleeplock.thy ===== *)
theory Sleeplock
  imports Sched
begin

section \<open>Sleep locks and the priority lock (sleeplock.c, priority\_lock.c, proc.c: siktir)\<close>

text \<open>
  Locks a process waits for asleep. Both kinds share one contract, the locale \<open>blocking_lock\<close>:
  entering sets the lock word, a process that finds it set switches away and looks again when it
  is woken. The two kinds differ in whom a release wakes: \<open>releasesleep\<close> wakes every waiter,
  \<open>release_priority\<close> only the one with the largest pid.
\<close>

record sleeplock =
  sl_locked :: uint
  sl_name :: "byte list"
  sl_pid :: cint

record priority_lock =
  pl_locked :: cint
  pl_name :: "byte list"
  pl_pid :: cint

record slcore = pcore +
  slocks :: "sleep_id \<Rightarrow> sleeplock"
  PL :: priority_lock
  abbas :: cint

definition upd_sleep :: "sleep_id \<Rightarrow> sleeplock \<Rightarrow> 'z slcore_scheme \<Rightarrow> 'z slcore_scheme" where
  "upd_sleep i l s = s\<lparr>slocks := (slocks s)(i := l)\<rparr>"

subsection \<open>Sleep locks\<close>

text \<open>The inner spin lock's initialisation only clears its word, which \<open>held\<close> already shows free.\<close>

definition initsleeplock :: "sleep_id \<Rightarrow> byte list \<Rightarrow> 'z slcore_scheme \<Rightarrow> 'z slcore_scheme" where
  "initsleeplock i nm s = upd_sleep i \<lparr>sl_locked = 0, sl_name = nm, sl_pid = 0\<rparr> s"

text \<open>One look at the lock word, with the inner spin lock held: sleep on it, or take it.\<close>

definition acquiresleep_loop :: "sleep_id \<Rightarrow> 'z slcore_scheme \<Rightarrow> ('z slcore_scheme, unit) outcome" where
  "acquiresleep_loop i s =
     (if sl_locked (slocks s i) \<noteq> 0 then sleep (CSleep i) (Some (LSleep i)) s
      else let s = upd_sleep i ((slocks s i)\<lparr>sl_locked := 1\<rparr>) s in
           (case myproc s of
              None \<Rightarrow> Fault
            | Some p \<Rightarrow> lk_release (LSleep i) (upd_sleep i ((slocks s i)\<lparr>sl_pid := pid (ptable s ! p)\<rparr>) s)))"

definition acquiresleep :: "sleep_id \<Rightarrow> 'z slcore_scheme \<Rightarrow> ('z slcore_scheme, unit) outcome" where
  "acquiresleep i s = bnd (lk_acquire (LSleep i) s) (\<lambda>_ s. acquiresleep_loop i s)"

text \<open>\<open>acquiresleep\<close> once the process it put to sleep runs again.\<close>

definition acquiresleep_resume :: "sleep_id \<Rightarrow> 'z slcore_scheme \<Rightarrow> ('z slcore_scheme, unit) outcome" where
  "acquiresleep_resume i s = bnd (sleep_resume (LSleep i) s) (\<lambda>_ s. acquiresleep_loop i s)"

definition releasesleep :: "sleep_id \<Rightarrow> 'z slcore_scheme \<Rightarrow> ('z slcore_scheme, unit) outcome" where
  "releasesleep i s =
     bnd (lk_acquire (LSleep i) s) (\<lambda>_ s.
     bnd (wakeup (CSleep i) (upd_sleep i ((slocks s i)\<lparr>sl_locked := 0, sl_pid := 0\<rparr>) s)) (\<lambda>_ s.
       lk_release (LSleep i) s))"

definition holdingsleep :: "sleep_id \<Rightarrow> 'z slcore_scheme \<Rightarrow> ('z slcore_scheme, bool) outcome" where
  "holdingsleep i s =
     bnd (lk_acquire (LSleep i) s) (\<lambda>_ s.
     bnd (if sl_locked (slocks s i) = 0 then Ok False s
          else case myproc s of
                 None \<Rightarrow> Fault
               | Some p \<Rightarrow> Ok (sl_pid (slocks s i) = pid (ptable s ! p)) s) (\<lambda>r s.
     bnd (lk_release (LSleep i) s) (\<lambda>_ s. Ok r s)))"

subsection \<open>The priority lock\<close>

definition init_priority :: "byte list \<Rightarrow> 'z slcore_scheme \<Rightarrow> 'z slcore_scheme" where
  "init_priority nm s = s\<lparr>PL := \<lparr>pl_locked = 0, pl_name = nm, pl_pid = 0\<rparr>\<rparr>"

definition acquir_priority_loop :: "'z slcore_scheme \<Rightarrow> ('z slcore_scheme, unit) outcome" where
  "acquir_priority_loop s =
     (if pl_locked (PL s) \<noteq> 0 then sleep CPrio (Some LPrio) s
      else let s = s\<lparr>PL := (PL s)\<lparr>pl_locked := 1\<rparr>\<rparr> in
           (case myproc s of
              None \<Rightarrow> Fault
            | Some p \<Rightarrow> lk_release LPrio (s\<lparr>PL := (PL s)\<lparr>pl_pid := pid (ptable s ! p)\<rparr>\<rparr>)))"

definition acquir_priority :: "'z slcore_scheme \<Rightarrow> ('z slcore_scheme, unit) outcome" where
  "acquir_priority s = bnd (lk_acquire LPrio s) (\<lambda>_ s. acquir_priority_loop s)"

definition acquir_priority_resume :: "'z slcore_scheme \<Rightarrow> ('z slcore_scheme, unit) outcome" where
  "acquir_priority_resume s = bnd (sleep_resume LPrio s) (\<lambda>_ s. acquir_priority_loop s)"

definition release_priority :: "'z slcore_scheme \<Rightarrow> ('z slcore_scheme, unit) outcome" where
  "release_priority s =
     bnd (lk_acquire LPrio s) (\<lambda>_ s.
     bnd (wakeup_pl CPrio (s\<lparr>PL := (PL s)\<lparr>pl_locked := 0, pl_pid := 0\<rparr>\<rparr>)) (\<lambda>_ s.
       lk_release LPrio s))"

definition holding_priority :: "'z slcore_scheme \<Rightarrow> ('z slcore_scheme, bool) outcome" where
  "holding_priority s =
     bnd (lk_acquire LPrio s) (\<lambda>_ s.
     bnd (if pl_locked (PL s) = 0 then Ok False s
          else case myproc s of
                 None \<Rightarrow> Fault
               | Some p \<Rightarrow> Ok (pl_pid (PL s) = pid (ptable s ! p)) s) (\<lambda>r s.
     bnd (lk_release LPrio s) (\<lambda>_ s. Ok r s)))"

text \<open>\<open>siktir\<close>, the system call that bumps a counter under the priority lock.\<close>

definition siktir_body :: "'z slcore_scheme \<Rightarrow> ('z slcore_scheme, unit) outcome" where
  "siktir_body s =
     (let s = s\<lparr>abbas := abbas s + 1\<rparr> in
      bnd (cprintf (str ''%d'' @ [10]) [AInt (abbas s)] s) (\<lambda>_ s. release_priority s))"

definition siktir :: "'z slcore_scheme \<Rightarrow> ('z slcore_scheme, unit) outcome" where
  "siktir s = bnd (acquir_priority s) (\<lambda>_ s. siktir_body s)"

definition siktir_resume :: "'z slcore_scheme \<Rightarrow> ('z slcore_scheme, unit) outcome" where
  "siktir_resume s = bnd (acquir_priority_resume s) (\<lambda>_ s. siktir_body s)"

text \<open>\<open>print_lock_que\<close> takes \<open>ptable.lock\<close> and returns without giving it back.\<close>

fun print_lock_que_loop :: "proc list \<Rightarrow> 'z tty_scheme \<Rightarrow> ('z tty_scheme, unit) outcome" where
  "print_lock_que_loop [] s = Ok () s"
| "print_lock_que_loop (p # ps) s =
     (if pchan p = Some CPrio
      then bnd (cprintf (str ''%d'' @ [9]) [AInt (pid p)] s) (\<lambda>_ s.
           bnd (cprintf (str ''%s'' @ [9]) [AStr (Some (takeWhile (\<lambda>c. c \<noteq> 0) (pname p)))] s) (\<lambda>_ s.
             print_lock_que_loop ps s))
      else print_lock_que_loop ps s)"

definition print_lock_que :: "'z slcore_scheme \<Rightarrow> ('z slcore_scheme, unit) outcome" where
  "print_lock_que s = bnd (lk_acquire LPtable s) (\<lambda>_ s. print_lock_que_loop (ptable s) s)"

definition print_que :: "'z slcore_scheme \<Rightarrow> ('z slcore_scheme, unit) outcome" where
  "print_que s = print_lock_que s"

subsection \<open>The contract of a blocking lock\<close>

text \<open>
  The processes inside the section of a lock: \<open>who\<close> is the process on the processor, \<open>lockd\<close>
  whether the lock word is set; the steps of the lock interleave with any other step that leaves
  the word alone.
\<close>

inductive lock_run ::
    "('s \<Rightarrow> ('s, unit) outcome) \<Rightarrow> ('s \<Rightarrow> ('s, unit) outcome) \<Rightarrow> ('s \<Rightarrow> ('s, unit) outcome) \<Rightarrow>
     ('s \<Rightarrow> bool) \<Rightarrow> ('s \<Rightarrow> nat option) \<Rightarrow> 's \<Rightarrow> nat option set \<Rightarrow> bool"
  for acq res rel lockd who where
  start: "\<not> lockd s \<Longrightarrow> lock_run acq res rel lockd who s {}"
| enter: "lock_run acq res rel lockd who s C \<Longrightarrow> acq s = Ok () t \<Longrightarrow>
    lock_run acq res rel lockd who t (insert (who s) C)"
| wait: "lock_run acq res rel lockd who s C \<Longrightarrow> acq s = Swtch t \<Longrightarrow> lock_run acq res rel lockd who t C"
| woken_enter: "lock_run acq res rel lockd who s C \<Longrightarrow> res s = Ok () t \<Longrightarrow>
    lock_run acq res rel lockd who t (insert (who s) C)"
| woken_wait: "lock_run acq res rel lockd who s C \<Longrightarrow> res s = Swtch t \<Longrightarrow> lock_run acq res rel lockd who t C"
| leave: "lock_run acq res rel lockd who s C \<Longrightarrow> who s \<in> C \<Longrightarrow> rel s = Ok () t \<Longrightarrow>
    lock_run acq res rel lockd who t (C - {who s})"
| other: "lock_run acq res rel lockd who s C \<Longrightarrow> lockd t = lockd s \<Longrightarrow> lock_run acq res rel lockd who t C"

locale blocking_lock =
  fixes acq res rel :: "'s \<Rightarrow> ('s, unit) outcome"
    and lockd :: "'s \<Rightarrow> bool"
    and who :: "'s \<Rightarrow> nat option"
  assumes acq_enter: "acq s = Ok () t \<Longrightarrow> \<not> lockd s \<and> lockd t"
    and acq_wait: "acq s = Swtch t \<Longrightarrow> lockd t = lockd s"
    and res_enter: "res s = Ok () t \<Longrightarrow> \<not> lockd s \<and> lockd t"
    and res_wait: "res s = Swtch t \<Longrightarrow> lockd t = lockd s"
    and rel_free: "rel s = Ok () t \<Longrightarrow> \<not> lockd t"
begin

lemma section_inv:
  "lock_run acq res rel lockd who s C \<Longrightarrow> (lockd s \<or> C = {}) \<and> (\<forall>a \<in> C. \<forall>b \<in> C. a = b)"
proof (induction rule: lock_run.induct)
  case (enter s C t)
  then show ?case using acq_enter [OF enter(2)] by auto
next
  case (wait s C t)
  then show ?case using acq_wait [OF wait(2)] by auto
next
  case (woken_enter s C t)
  then show ?case using res_enter [OF woken_enter(2)] by auto
next
  case (woken_wait s C t)
  then show ?case using res_wait [OF woken_wait(2)] by auto
next
  case (leave s C t)
  then show ?case by blast
qed auto

lemma exclusive: "lock_run acq res rel lockd who s C \<Longrightarrow> a \<in> C \<Longrightarrow> b \<in> C \<Longrightarrow> a = b"
  using section_inv by blast

lemma inside_locked: "lock_run acq res rel lockd who s C \<Longrightarrow> a \<in> C \<Longrightarrow> lockd s"
  using section_inv by blast

end

subsection \<open>Both kinds keep the contract\<close>

lemma upd_proc_slcore [simp]:
  "slocks (upd_proc i f s) = slocks s" "PL (upd_proc i f s) = PL s" "abbas (upd_proc i f s) = abbas s"
  by (simp_all add: upd_proc_def)

lemma sleep_not_Ok [simp]: "sleep ch lk s \<noteq> Ok u t"
proof
  assume "sleep ch lk s = Ok u t"
  then show False
    by (auto simp: sleep_def sched_def myproc_def outcome_iff split: option.splits if_splits)
qed

lemma sleep_slcore:
  assumes "sleep ch (Some lk) s = Swtch t"
  shows "slocks t = slocks s" "PL t = PL s" "abbas t = abbas s"
proof -
  obtain p where "cpu_proc s = Some p"
    using assms by (cases "cpu_proc s") (auto simp: sleep_def myproc_def)
  from sleep_Swtch(2) [OF assms this] show "slocks t = slocks s" "PL t = PL s" "abbas t = abbas s"
    by simp_all
qed

lemma sleep_resume_slcore:
  assumes "sleep_resume lk s = Ok u t"
  shows "slocks t = slocks s" "PL t = PL s" "abbas t = abbas s"
proof -
  obtain p where "cpu_proc s = Some p"
    using assms by (cases "cpu_proc s") (auto simp: sleep_resume_def myproc_def)
  with assms obtain h where "t = upd_proc p (\<lambda>q. q\<lparr>pchan := None\<rparr>) (s\<lparr>held := h\<rparr>)"
    using sleep_resume_eq [of s p lk t] by auto
  then show "slocks t = slocks s" "PL t = PL s" "abbas t = abbas s" by simp_all
qed

lemma sleep_resume_not_Swtch [simp]: "sleep_resume lk s \<noteq> Swtch t"
  by (auto simp: sleep_resume_def lk_defs outcome_iff Let_def split: option.splits if_splits)

lemma lk_acquire_slcore:
  assumes "lk_acquire l s = Ok u t"
  shows "slocks t = slocks s" "PL t = PL s" "ptable t = ptable s" "cpu_proc t = cpu_proc s"
  using assms by (auto simp: lk_acquire_def split: if_splits)

lemma acquiresleep_loop_Ok:
  "acquiresleep_loop i s = Ok u t \<Longrightarrow> sl_locked (slocks s i) = 0 \<and> sl_locked (slocks t i) = 1"
  by (auto simp: acquiresleep_loop_def Let_def lk_release_def upd_sleep_def split: if_splits option.splits)

lemma acquiresleep_loop_Swtch:
  "acquiresleep_loop i s = Swtch t \<Longrightarrow> slocks t = slocks s"
  by (auto simp: acquiresleep_loop_def Let_def lk_release_def sleep_slcore split: if_splits option.splits)

lemma acquir_priority_loop_Ok:
  "acquir_priority_loop s = Ok u t \<Longrightarrow> pl_locked (PL s) = 0 \<and> pl_locked (PL t) = 1"
  by (auto simp: acquir_priority_loop_def Let_def lk_release_def split: if_splits option.splits)

lemma acquir_priority_loop_Swtch:
  "acquir_priority_loop s = Swtch t \<Longrightarrow> PL t = PL s"
  by (auto simp: acquir_priority_loop_def Let_def lk_release_def sleep_slcore split: if_splits option.splits)

lemma lk_not_Swtch [simp]: "lk_acquire l s \<noteq> Swtch t" "lk_release l s \<noteq> Swtch t"
  by (auto simp: lk_defs)

lemma wakeup_Ok:
  "wakeup ch s = Ok u t \<Longrightarrow> LPtable \<notin> held s \<and> t = s\<lparr>ptable := map (wake_one (Some ch)) (ptable s)\<rparr>"
  by (cases "LPtable \<in> held s") (simp_all add: wakeup_eq, simp add: wakeup_def)

lemma wakeup_pl_slcore:
  assumes "wakeup_pl ch s = Ok u t"
  shows "PL t = PL s" "held t = held s"
proof -
  have "LPtable \<notin> held s" using assms by (auto simp: wakeup_pl_def)
  then have "PL t = PL s \<and> held t = held s"
    by (cases rule: wakeup_pl_eq [of s ch]) (use assms in auto)
  then show "PL t = PL s" "held t = held s" by auto
qed

interpretation slk: blocking_lock "acquiresleep i" "acquiresleep_resume i" "releasesleep i"
  "\<lambda>s. sl_locked (slocks s i) \<noteq> 0" cpu_proc for i
proof
  fix s t :: "'a slcore_scheme"
  show "acquiresleep i s = Ok () t \<Longrightarrow> \<not> sl_locked (slocks s i) \<noteq> 0 \<and> sl_locked (slocks t i) \<noteq> 0"
    by (auto simp: acquiresleep_def outcome_iff dest!: acquiresleep_loop_Ok lk_acquire_slcore(1))
  show "acquiresleep i s = Swtch t \<Longrightarrow> (sl_locked (slocks t i) \<noteq> 0) = (sl_locked (slocks s i) \<noteq> 0)"
    by (auto simp: acquiresleep_def outcome_iff dest!: acquiresleep_loop_Swtch lk_acquire_slcore(1))
  show "acquiresleep_resume i s = Ok () t \<Longrightarrow> \<not> sl_locked (slocks s i) \<noteq> 0 \<and> sl_locked (slocks t i) \<noteq> 0"
    by (auto simp: acquiresleep_resume_def outcome_iff dest!: acquiresleep_loop_Ok sleep_resume_slcore(1))
  show "acquiresleep_resume i s = Swtch t \<Longrightarrow> (sl_locked (slocks t i) \<noteq> 0) = (sl_locked (slocks s i) \<noteq> 0)"
    by (auto simp: acquiresleep_resume_def outcome_iff dest!: acquiresleep_loop_Swtch sleep_resume_slcore(1))
  show "releasesleep i s = Ok () t \<Longrightarrow> \<not> sl_locked (slocks t i) \<noteq> 0"
    by (auto simp: releasesleep_def outcome_iff lk_release_def upd_sleep_def dest!: wakeup_Ok split: if_splits)
qed

interpretation plk: blocking_lock acquir_priority acquir_priority_resume release_priority
  "\<lambda>s. pl_locked (PL s) \<noteq> 0" cpu_proc
proof
  fix s t :: "'a slcore_scheme"
  show "acquir_priority s = Ok () t \<Longrightarrow> \<not> pl_locked (PL s) \<noteq> 0 \<and> pl_locked (PL t) \<noteq> 0"
    by (auto simp: acquir_priority_def outcome_iff dest!: acquir_priority_loop_Ok lk_acquire_slcore(2))
  show "acquir_priority s = Swtch t \<Longrightarrow> (pl_locked (PL t) \<noteq> 0) = (pl_locked (PL s) \<noteq> 0)"
    by (auto simp: acquir_priority_def outcome_iff dest!: acquir_priority_loop_Swtch lk_acquire_slcore(2))
  show "acquir_priority_resume s = Ok () t \<Longrightarrow> \<not> pl_locked (PL s) \<noteq> 0 \<and> pl_locked (PL t) \<noteq> 0"
    by (auto simp: acquir_priority_resume_def outcome_iff dest!: acquir_priority_loop_Ok sleep_resume_slcore(2))
  show "acquir_priority_resume s = Swtch t \<Longrightarrow> (pl_locked (PL t) \<noteq> 0) = (pl_locked (PL s) \<noteq> 0)"
    by (auto simp: acquir_priority_resume_def outcome_iff dest!: acquir_priority_loop_Swtch sleep_resume_slcore(2))
  show "release_priority s = Ok () t \<Longrightarrow> \<not> pl_locked (PL t) \<noteq> 0"
    by (auto simp: release_priority_def outcome_iff lk_release_def dest!: wakeup_pl_slcore(1) split: if_splits)
qed

subsection \<open>Properties\<close>

text \<open>
  C26. Sleep locks exclude: however the calls of \<open>acquiresleep\<close> and \<open>releasesleep\<close> by different
  processes interleave, sleeping and waking included, at most one process is between its acquire
  and its release, and the lock word is set meanwhile.
\<close>

theorem sleeplock_exclusive:
  assumes "lock_run (acquiresleep i) (acquiresleep_resume i) (releasesleep i)
             (\<lambda>s. sl_locked (slocks s i) \<noteq> 0) cpu_proc s C" "a \<in> C" "b \<in> C"
  shows "a = b \<and> sl_locked (slocks s i) \<noteq> 0"
  using slk.exclusive [OF assms] slk.inside_locked [OF assms(1,2)] by simp

definition slcore0 :: slcore where
  "slcore0 = pcore.extend (pcore0\<lparr>ptable := [proc0\<lparr>pid := 4\<rparr>], cpu_proc := Some 0\<rparr>)
     \<lparr>slocks = (\<lambda>_. \<lparr>sl_locked = 0, sl_name = [], sl_pid = 0\<rparr>),
      PL = \<lparr>pl_locked = 0, pl_name = [], pl_pid = 0\<rparr>, abbas = 0\<rparr>"

lemma slcore0_simps [simp]:
  "held slcore0 = {}" "cpu_proc slcore0 = Some 0" "ptable slcore0 = [proc0\<lparr>pid := 4\<rparr>]"
  "slocks slcore0 = (\<lambda>_. \<lparr>sl_locked = 0, sl_name = [], sl_pid = 0\<rparr>)"
  "PL slcore0 = \<lparr>pl_locked = 0, pl_name = [], pl_pid = 0\<rparr>" "abbas slcore0 = 0"
  "screen_ok slcore0" "uart slcore0" "uart_out slcore0 = []"
  by (simp_all add: slcore0_def pcore.defs pcore0_def screen_ok_def)

theorem sleeplock_exclusive_witness:
  "\<exists>s. lock_run (acquiresleep (SBuf 3)) (acquiresleep_resume (SBuf 3)) (releasesleep (SBuf 3))
             (\<lambda>s. sl_locked (slocks s (SBuf 3)) \<noteq> 0) cpu_proc (s :: slcore) {Some 0}
     \<and> sl_locked (slocks s (SBuf 3)) \<noteq> 0"
proof -
  let ?run = "lock_run (acquiresleep (SBuf 3)) (acquiresleep_resume (SBuf 3)) (releasesleep (SBuf 3))
             (\<lambda>s. sl_locked (slocks s (SBuf 3)) \<noteq> 0) cpu_proc :: slcore \<Rightarrow> nat option set \<Rightarrow> bool"
  obtain t where t: "acquiresleep (SBuf 3) slcore0 = Ok () t"
    by (simp add: acquiresleep_def acquiresleep_loop_def myproc_def upd_sleep_def)
  have "?run slcore0 {}" by (rule lock_run.start) simp
  from lock_run.enter [OF this t] have r: "?run t {Some 0}" by simp
  with sleeplock_exclusive [OF r, of "Some 0" "Some 0"] show ?thesis by blast
qed

text \<open>
  C27. The priority lock excludes in the same way.
\<close>

theorem priority_lock_exclusive:
  assumes "lock_run acquir_priority acquir_priority_resume release_priority
             (\<lambda>s. pl_locked (PL s) \<noteq> 0) cpu_proc s C" "a \<in> C" "b \<in> C"
  shows "a = b \<and> pl_locked (PL s) \<noteq> 0"
  using plk.exclusive [OF assms] plk.inside_locked [OF assms(1,2)] by simp

theorem priority_lock_exclusive_witness:
  "\<exists>s. lock_run acquir_priority acquir_priority_resume release_priority
             (\<lambda>s. pl_locked (PL s) \<noteq> 0) cpu_proc (s :: slcore) {Some 0} \<and> pl_locked (PL s) \<noteq> 0"
proof -
  let ?run = "lock_run acquir_priority acquir_priority_resume release_priority
             (\<lambda>s. pl_locked (PL s) \<noteq> 0) cpu_proc :: slcore \<Rightarrow> nat option set \<Rightarrow> bool"
  obtain t where t: "acquir_priority slcore0 = Ok () t"
    by (simp add: acquir_priority_def acquir_priority_loop_def myproc_def)
  have "?run slcore0 {}" by (rule lock_run.start) simp
  from lock_run.enter [OF this t] have r: "?run t {Some 0}" by simp
  with priority_lock_exclusive [OF r, of "Some 0" "Some 0"] show ?thesis by blast
qed

lemma release_priority_eq:
  assumes "LPrio \<notin> held s" "LPtable \<notin> held s"
  shows "\<exists>t. release_priority s = Ok () t \<and> held t = held s \<and> PL t = (PL s)\<lparr>pl_locked := 0, pl_pid := 0\<rparr>
    \<and> (\<exists>u. wakeup_pl CPrio s = Ok () u \<and> ptable t = ptable u) \<and> abbas t = abbas s
    \<and> uart_out t = uart_out s"
proof -
  define s1 where "s1 = s\<lparr>held := insert LPrio (held s), PL := (PL s)\<lparr>pl_locked := 0, pl_pid := 0\<rparr>\<rparr>"
  have n: "LPtable \<notin> held s1" using assms by (simp add: s1_def)
  have loop: "ptable s1 = ptable s" by (simp add: s1_def)
  obtain m c where mc: "wakeup_pl_loop CPrio 0 (ptable s) 0 None = (m, c)" by fastforce
  have w: "wakeup_pl CPrio s = (if m \<noteq> 0 then (case c of None \<Rightarrow> Fault
      | Some i \<Rightarrow> Ok () (upd_proc i (\<lambda>q. q\<lparr>pstate := RUNNABLE\<rparr>) s)) else Ok () s)"
    using assms mc by (simp add: wakeup_pl_def upd_proc_def cong: option.case_cong)
  have w1: "wakeup_pl CPrio s1 = (if m \<noteq> 0 then (case c of None \<Rightarrow> Fault
      | Some i \<Rightarrow> Ok () (upd_proc i (\<lambda>q. q\<lparr>pstate := RUNNABLE\<rparr>) s1)) else Ok () s1)"
    using n mc loop by (simp add: wakeup_pl_def upd_proc_def cong: option.case_cong)
  have nf: "m \<noteq> 0 \<Longrightarrow> c \<noteq> None" using wakeup_pl_loop_max [OF mc] by auto
  have rel: "release_priority s = bnd (wakeup_pl CPrio s1) (\<lambda>_ s. lk_release LPrio s)"
    using assms by (simp add: release_priority_def s1_def)
  have h: "held s1 = insert LPrio (held s)" by (simp add: s1_def)
  consider "m = 0" | i where "m \<noteq> 0" "c = Some i" using nf by (cases c) auto
  then show ?thesis
  proof cases
    case 1
    then show ?thesis unfolding rel w1 w using h assms by (simp add: s1_def)
  next
    case 2
    then show ?thesis unfolding rel w1 w using h assms by (simp add: s1_def upd_proc_def)
  qed
qed

text \<open>
  C28. Releasing the priority lock frees it and passes it by pid: of the processes asleep on it,
  exactly the one with the largest pid becomes runnable, all others keep sleeping.
\<close>

theorem release_priority_order:
  assumes "LPrio \<notin> held s" "LPtable \<notin> held s" "p \<in> set (ptable s)" "pl_candidate CPrio p"
  shows "\<exists>t i. release_priority s = Ok () t \<and> pl_locked (PL t) = 0 \<and> held t = held s
     \<and> i < length (ptable s) \<and> pl_candidate CPrio (ptable s ! i) \<and> sint (pid p) \<le> sint (pid (ptable s ! i))
     \<and> ptable t = (ptable s)[i := (ptable s ! i)\<lparr>pstate := RUNNABLE\<rparr>]"
proof -
  obtain t u where t: "release_priority s = Ok () t" "held t = held s"
      "PL t = (PL s)\<lparr>pl_locked := 0, pl_pid := 0\<rparr>" "wakeup_pl CPrio s = Ok () u" "ptable t = ptable u"
    using release_priority_eq [OF assms(1,2)] by blast
  from assms(2) show ?thesis
  proof (cases rule: wakeup_pl_eq [of s CPrio])
    case none
    then show ?thesis using assms(3,4) by blast
  next
    case (one i)
    then have "ptable t = (ptable s)[i := (ptable s ! i)\<lparr>pstate := RUNNABLE\<rparr>]"
      using t by (simp add: upd_proc_def)
    then show ?thesis using t one assms(3,4) by (intro exI [of _ t] exI [of _ i]) simp
  qed
qed

definition slcore1 :: slcore where
  "slcore1 = slcore0\<lparr>ptable := [proc0\<lparr>pid := 9, pstate := SLEEPING, pchan := Some CPrio\<rparr>]\<rparr>"

theorem release_priority_order_witness:
  "\<exists>t. release_priority slcore1 = Ok () t \<and> pl_locked (PL t) = 0"
proof -
  have "LPrio \<notin> held slcore1" "LPtable \<notin> held slcore1"
    "ptable slcore1 ! 0 \<in> set (ptable slcore1)" "pl_candidate CPrio (ptable slcore1 ! 0)"
    by (simp_all add: slcore1_def pl_candidate_def word_sless_alt)
  from release_priority_order [OF this] show ?thesis by (elim exE conjE) (intro exI conjI)
qed

lemma siktir_format:
  "cprintf_chars (str ''%d'' @ [10]) [AInt n] = Some (printint_chars n 10 True @ [10])"
  by (simp add: str_def cprintf_conv_def)

text \<open>
  The counting system call \<open>siktir\<close>: with the priority lock free it returns, the counter has
  grown by one, its new value is printed on a line, and the priority lock is free again.
\<close>

theorem siktir_counts:
  assumes "held s = {}" "cpu_proc s = Some p" "pl_locked (PL s) = 0" "screen_ok s"
  shows "\<exists>t. siktir s = Ok () t \<and> abbas t = abbas s + 1 \<and> pl_locked (PL t) = 0 \<and> held t = {}
     \<and> uart_out t = uart_out s @ sent (printint_chars (abbas s + 1) 10 True @ [10]) s"
proof -
  define s1 where "s1 = s\<lparr>PL := (PL s)\<lparr>pl_locked := 1, pl_pid := pid (ptable s ! p)\<rparr>\<rparr>"
  have a: "acquir_priority s = Ok () s1"
    using assms by (simp add: acquir_priority_def acquir_priority_loop_def myproc_def s1_def)
  define s2 where "s2 = s1\<lparr>abbas := abbas s1 + 1\<rparr>"
  have ok: "screen_ok s2" "LCons \<notin> held s2" using assms by (simp_all add: s2_def s1_def screen_ok_def)
  obtain m q where c: "cprintf (str ''%d'' @ [10]) [AInt (abbas s2)] s2 =
      Ok () (s2\<lparr>uart_out := uart_out s2 @ sent (printint_chars (abbas s2) 10 True @ [10]) s2, crt := m, crt_pos := q\<rparr>)"
    using cprintf_Ok [OF ok siktir_format] by blast
  define s3 where "s3 = s2\<lparr>uart_out := uart_out s2 @ sent (printint_chars (abbas s2) 10 True @ [10]) s2,
      crt := m, crt_pos := q\<rparr>"
  have h: "held s3 = {}" using assms by (simp add: s3_def s2_def s1_def)
  then have "LPrio \<notin> held s3" "LPtable \<notin> held s3" by simp_all
  from release_priority_eq [OF this] obtain t where t: "release_priority s3 = Ok () t" "held t = {}"
    "PL t = (PL s3)\<lparr>pl_locked := 0, pl_pid := 0\<rparr>" "abbas t = abbas s3" "uart_out t = uart_out s3"
    using h by blast
  have ab: "abbas s2 = abbas s1 + 1" by (simp add: s2_def)
  have "siktir s = Ok () t"
    using a c [folded s3_def, unfolded ab] t(1) by (simp add: siktir_def siktir_body_def flip: s2_def)
  then show ?thesis using t by (intro exI [of _ t]) (simp add: s3_def s2_def s1_def sent_def)
qed

theorem siktir_counts_witness:
  "\<exists>t. siktir slcore0 = Ok () t \<and> abbas t = 1 \<and> uart_out t = [49, 10]"
proof -
  have d: "printint_chars 1 10 True @ [10] = [49, 10]" by code_simp
  from siktir_counts [of slcore0 0] d show ?thesis by (auto simp: sent_def)
qed

lemma print_lock_que_loop_held:
  "screen_ok s \<Longrightarrow> LCons \<notin> held s \<Longrightarrow> \<exists>t. print_lock_que_loop ps s = Ok () t \<and> held t = held s"
proof (induction ps arbitrary: s)
  case (Cons p ps)
  define name where "name = takeWhile (\<lambda>c. c \<noteq> 0) (pname p)"
  have f1: "cprintf_chars (str ''%d'' @ [9]) [AInt (pid p)] = Some (printint_chars (pid p) 10 True @ [9])"
    by (simp add: str_def cprintf_conv_def)
  have nz: "\<forall>x \<in> set name. x \<noteq> 0" by (auto simp: name_def dest: set_takeWhileD)
  have f2: "cprintf_chars (str ''%s'' @ [9]) [AStr (Some name)] = Some (map sint name @ [9])"
    using nz by (simp add: str_def cprintf_conv_def)
  obtain m q where c1: "cprintf (str ''%d'' @ [9]) [AInt (pid p)] s =
      Ok () (s\<lparr>uart_out := uart_out s @ sent (printint_chars (pid p) 10 True @ [9]) s, crt := m, crt_pos := q\<rparr>)"
    and q: "0 \<le> q" "q < 24 * 80"
    using cprintf_Ok [OF Cons.prems f1] by blast
  define s1 where "s1 = s\<lparr>uart_out := uart_out s @ sent (printint_chars (pid p) 10 True @ [9]) s, crt := m, crt_pos := q\<rparr>"
  have ok1: "screen_ok s1" "LCons \<notin> held s1" using Cons.prems q by (simp_all add: s1_def screen_ok_def)
  obtain m' q' where c2: "cprintf (str ''%s'' @ [9]) [AStr (Some name)] s1 =
      Ok () (s1\<lparr>uart_out := uart_out s1 @ sent (map sint name @ [9]) s1, crt := m', crt_pos := q'\<rparr>)"
    and q': "0 \<le> q'" "q' < 24 * 80"
    using cprintf_Ok [OF ok1 f2] by blast
  define s2 where "s2 = s1\<lparr>uart_out := uart_out s1 @ sent (map sint name @ [9]) s1, crt := m', crt_pos := q'\<rparr>"
  have ok2: "screen_ok s2" "LCons \<notin> held s2" "held s2 = held s"
    using ok1 q' by (simp_all add: s2_def screen_ok_def, simp add: s1_def)
  show ?case
    using Cons.IH [OF Cons.prems] Cons.IH [OF ok2(1,2)] ok2(3) c1 c2
    by (simp flip: name_def s1_def s2_def)
qed simp

text \<open>
  C34. \<open>print_lock_que\<close> returns with \<open>ptable.lock\<close> still held, so the next acquisition of it by
  the same thread, for example in \<open>wakeup\<close>, panics.
\<close>

theorem print_lock_que_keeps_lock:
  assumes "screen_ok s" "LCons \<notin> held s" "LPtable \<notin> held s"
  shows "\<exists>t. print_que s = Ok () t \<and> LPtable \<in> held t \<and> wakeup ch t = Panic ''acquire''"
proof -
  have "screen_ok (s\<lparr>held := insert LPtable (held s)\<rparr>)" using assms by (simp add: screen_ok_def)
  then obtain t where "print_lock_que_loop (ptable s) (s\<lparr>held := insert LPtable (held s)\<rparr>) = Ok () t"
    "held t = insert LPtable (held s)"
    using print_lock_que_loop_held [of "s\<lparr>held := insert LPtable (held s)\<rparr>" "ptable s"] assms(2) by auto
  then show ?thesis using assms by (simp add: print_que_def print_lock_que_def wakeup_def)
qed

theorem print_lock_que_keeps_lock_witness:
  "\<exists>t. print_que slcore0 = Ok () t \<and> wakeup CTicks t = Panic ''acquire''"
  using print_lock_que_keeps_lock [of slcore0 CTicks] by auto

end
