(* ===== verification/Kalloc.thy ===== *)
theory Kalloc
  imports CString Sleeplock
begin

section \<open>The page allocator (kalloc.c)\<close>

text \<open>
  Free pages form a linked list through their own first word. The abstraction \<open>free_chain\<close> reads
  the list out of memory; \<open>kalloc\<close> and \<open>kfree\<close> pop and push on it, and a page that is handed out
  is never one that some caller still has.
\<close>

record shmid_ds =
  ref_count :: cint
  attached_processes :: "cint list"
  frame :: uint
  marked :: cint

text \<open>
  Memory by kernel virtual address; \<open>kend\<close> and \<open>kdata\<close> are the linker's \<open>end\<close> and \<open>data\<close>
  symbols.
\<close>

record kmstate = slcore +
  pmem :: bmem
  km_use_lock :: bool
  km_freelist :: uint
  kend :: uint
  kdata :: uint
  shm_table :: "shmid_ds list"

definition PGSIZE :: uint where "PGSIZE = 4096"
definition PHYSTOP :: uint where "PHYSTOP = 0xE000000"
definition PGROUNDUP :: "uint \<Rightarrow> uint" where
  "PGROUNDUP x = (x + PGSIZE - 1) AND NOT (PGSIZE - 1)"
definition PGROUNDDOWN :: "uint \<Rightarrow> uint" where
  "PGROUNDDOWN x = x AND NOT (PGSIZE - 1)"

text \<open>The allocator's lock is taken only once \<open>kinit2\<close> has run.\<close>

definition km_lock :: "'z kmstate_scheme \<Rightarrow> ('z kmstate_scheme, unit) outcome" where
  "km_lock s = (if km_use_lock s then lk_acquire LKmem s else Ok () s)"

definition km_unlock :: "'z kmstate_scheme \<Rightarrow> ('z kmstate_scheme, unit) outcome" where
  "km_unlock s = (if km_use_lock s then lk_release LKmem s else Ok () s)"

definition kfree :: "uint \<Rightarrow> 'z kmstate_scheme \<Rightarrow> ('z kmstate_scheme, unit) outcome" where
  "kfree v s =
     (if v mod PGSIZE \<noteq> 0 \<or> v < kend s \<or> V2P v \<ge> PHYSTOP then Panic ''kfree''
      else let s = s\<lparr>pmem := memset (pmem s) v 1 PGSIZE\<rparr> in
        bnd (km_lock s) (\<lambda>_ s.
          km_unlock (s\<lparr>pmem := st32 (pmem s) v (km_freelist s), km_freelist := v\<rparr>)))"

definition kalloc :: "'z kmstate_scheme \<Rightarrow> ('z kmstate_scheme, uint) outcome" where
  "kalloc s =
     bnd (km_lock s) (\<lambda>_ s.
       let r = km_freelist s;
           s = (if r \<noteq> 0 then s\<lparr>km_freelist := ld32 (pmem s) r\<rparr> else s)
       in bnd (km_unlock s) (\<lambda>_ s. Ok r s))"

text \<open>\<open>freerange\<close> over the number of whole pages between the two addresses.\<close>

fun freerange_loop :: "nat \<Rightarrow> uint \<Rightarrow> 'z kmstate_scheme \<Rightarrow> ('z kmstate_scheme, unit) outcome" where
  "freerange_loop 0 p s = Ok () s"
| "freerange_loop (Suc n) p s = bnd (kfree p s) (\<lambda>_ s. freerange_loop n (p + PGSIZE) s)"

definition freerange :: "uint \<Rightarrow> uint \<Rightarrow> 'z kmstate_scheme \<Rightarrow> ('z kmstate_scheme, unit) outcome" where
  "freerange vstart vend s =
     (let p = PGROUNDUP vstart in
      freerange_loop ((unat vend - unat p) div unat PGSIZE) p s)"

definition kinit1 :: "uint \<Rightarrow> uint \<Rightarrow> 'z kmstate_scheme \<Rightarrow> ('z kmstate_scheme, unit) outcome" where
  "kinit1 vstart vend s = freerange vstart vend (s\<lparr>km_use_lock := False\<rparr>)"

definition kinit2 :: "uint \<Rightarrow> uint \<Rightarrow> 'z kmstate_scheme \<Rightarrow> ('z kmstate_scheme, unit) outcome" where
  "kinit2 vstart vend s = bnd (freerange vstart vend s) (\<lambda>_ s. Ok () (s\<lparr>km_use_lock := True\<rparr>))"

subsection \<open>Pages\<close>

lemma unat_mod_page: "(a :: uint) mod 4096 = 0 \<longleftrightarrow> unat a mod 4096 = 0"
  by (simp add: word_unat_eq_iff unat_mod)

lemma page_diff:
  fixes a b :: uint
  assumes "a mod 4096 = 0" "b mod 4096 = 0"
  shows "(a - b) mod 4096 = 0"
proof -
  have "unat (a - b) = (if unat b \<le> unat a then unat a - unat b else unat a + 4294967296 - unat b)"
    by (simp add: unat_sub_if_size word_size word_le_nat_alt)
  moreover have "unat a mod 4096 = 0" "unat b mod 4096 = 0" using assms by (simp_all add: unat_mod_page)
  ultimately show ?thesis using unat_range32 [of b] unfolding unat_mod_page
    by (auto simp: mod_eq_0_iff_dvd intro: dvd_diff_nat)
qed

lemma page_apart:
  fixes a b :: uint
  assumes "a mod 4096 = 0" "b mod 4096 = 0" "a \<noteq> b" "i < 4096"
  shows "4096 \<le> unat (a + of_nat i - b)" "unat (a + of_nat i - b) = unat (a - b) + i"
proof -
  have m: "unat (a - b) mod 4096 = 0" using page_diff [OF assms(1,2)] by (simp add: unat_mod_page)
  have "a - b \<noteq> 0" using assms(3) by simp
  then have "unat (a - b) \<noteq> 0" by (simp only: unat_eq_zero not_False_eq_True)
  obtain k where k: "unat (a - b) = 4096 * k" using m by (auto simp: mod_eq_0_iff_dvd)
  with \<open>unat (a - b) \<noteq> 0\<close> have g: "4096 \<le> unat (a - b)" by simp
  have "4096 * k < 4294967296" using k unat_range32 [of "a - b"] by simp
  then have "4096 * k + 4096 \<le> 4294967296" by simp
  then have "unat (a - b) + 4096 \<le> 4294967296" by (simp only: k)
  then have "unat (a - b) + unat (of_nat i :: uint) < 4294967296"
    using assms(4) by (simp add: unat_of_nat32)
  then have "unat (a - b + of_nat i) = unat (a - b) + i"
    using assms(4) by (simp add: unat_add32 unat_of_nat32)
  moreover have "a + of_nat i - b = a - b + of_nat i" by simp
  ultimately show "unat (a + of_nat i - b) = unat (a - b) + i" by metis
  then show "4096 \<le> unat (a + of_nat i - b)" using g by simp
qed

lemma memset_page_other:
  assumes "v mod 4096 = 0" "x mod 4096 = 0" "x \<noteq> v" "i < 4096"
  shows "memset m v c 4096 (x + of_nat i) = m (x + of_nat i)"
  using page_apart(1) [OF assms(2,1,3,4)] by (simp add: memset_spec word_less_nat_alt)

lemma st32_page_other:
  assumes "v mod 4096 = 0" "x mod 4096 = 0" "x \<noteq> v" "i < 4096"
  shows "st32 m v w (x + of_nat i) = m (x + of_nat i)"
  using page_apart(1) [OF assms(2,1,3,4)] by (simp add: st32_apply)

subsection \<open>The free list in memory\<close>

fun free_chain :: "bmem \<Rightarrow> uint \<Rightarrow> uint list \<Rightarrow> bool" where
  "free_chain m p [] \<longleftrightarrow> p = 0"
| "free_chain m p (x # xs) \<longleftrightarrow> p = x \<and> x \<noteq> 0 \<and> free_chain m (ld32 m x) xs"

lemma free_chain_unique: "free_chain m p xs \<Longrightarrow> free_chain m p ys \<Longrightarrow> xs = ys"
proof (induction xs arbitrary: p ys)
  case Nil
  then show ?case by (cases ys) auto
next
  case (Cons x xs)
  then show ?case by (cases ys) auto
qed

lemma free_chain_frame:
  assumes "\<And>x i. x \<in> set xs \<Longrightarrow> i < 4 \<Longrightarrow> m' (x + of_nat i) = m (x + of_nat i)"
  shows "free_chain m' p xs = free_chain m p xs"
  using assms
proof (induction xs arbitrary: p)
  case (Cons x xs)
  have "ld32 m' x = ld32 m x" using Cons.prems by (intro ld32_cong) simp
  with Cons show ?case by simp
qed simp

definition page_ok :: "'z kmstate_scheme \<Rightarrow> uint \<Rightarrow> bool" where
  "page_ok s x \<longleftrightarrow> x mod PGSIZE = 0 \<and> kend s \<le> x \<and> V2P x < PHYSTOP"

definition km_ok :: "'z kmstate_scheme \<Rightarrow> uint list \<Rightarrow> bool" where
  "km_ok s xs \<longleftrightarrow> free_chain (pmem s) (km_freelist s) xs \<and> distinct xs \<and> (\<forall>x \<in> set xs. page_ok s x)
     \<and> 0 < kend s"

definition free_pages :: "'z kmstate_scheme \<Rightarrow> uint set" where
  "free_pages s = {x. \<exists>xs. km_ok s xs \<and> x \<in> set xs}"

lemma km_ok_free_pages: "km_ok s xs \<Longrightarrow> free_pages s = set xs"
  by (auto simp: free_pages_def km_ok_def dest: free_chain_unique)

lemma page_ok_nonzero: "page_ok s x \<Longrightarrow> 0 < kend s \<Longrightarrow> x \<noteq> 0"
  by (auto simp: page_ok_def)

lemma kalloc_eq:
  "LKmem \<notin> held s \<Longrightarrow>
   kalloc s = Ok (km_freelist s) (if km_freelist s \<noteq> 0 then s\<lparr>km_freelist := ld32 (pmem s) (km_freelist s)\<rparr> else s)"
  by (simp add: kalloc_def km_lock_def km_unlock_def Let_def)

lemma kfree_eq:
  "LKmem \<notin> held s \<Longrightarrow>
   kfree v s = (if page_ok s v
     then Ok () (s\<lparr>pmem := st32 (memset (pmem s) v 1 PGSIZE) v (km_freelist s), km_freelist := v\<rparr>)
     else Panic ''kfree'')"
  by (auto simp: kfree_def km_lock_def km_unlock_def page_ok_def Let_def not_le not_less)

lemma kalloc_pops:
  assumes "km_ok s xs" "LKmem \<notin> held s"
  shows "(xs = [] \<and> kalloc s = Ok 0 s) \<or>
    (\<exists>x ys t. xs = x # ys \<and> x \<noteq> 0 \<and> kalloc s = Ok x t \<and> km_ok t ys \<and> pmem t = pmem s
       \<and> t = s\<lparr>km_freelist := km_freelist t\<rparr>)"
proof (cases xs)
  case Nil
  then show ?thesis using assms by (simp add: kalloc_eq km_ok_def)
next
  case (Cons x ys)
  then show ?thesis using assms by (auto simp: kalloc_eq km_ok_def page_ok_def)
qed

lemma kfree_pushes:
  assumes "km_ok s xs" "LKmem \<notin> held s" "page_ok s v" "v \<notin> set xs"
  shows "\<exists>t. kfree v s = Ok () t \<and> km_ok t (v # xs) \<and> held t = held s"
proof -
  define m where "m = st32 (memset (pmem s) v 1 PGSIZE) v (km_freelist s)"
  define t where "t = s\<lparr>pmem := m, km_freelist := v\<rparr>"
  have v: "v mod 4096 = 0" using assms(3) by (simp add: page_ok_def PGSIZE_def)
  have x: "x mod 4096 = 0" "x \<noteq> v" if "x \<in> set xs" for x
    using assms(1,4) that by (auto simp: km_ok_def page_ok_def PGSIZE_def)
  have "m (x + of_nat i) = pmem s (x + of_nat i)" if "x \<in> set xs" "i < 4" for x i
    using that x [OF that(1)] v
    by (simp add: m_def PGSIZE_def st32_page_other memset_page_other)
  then have "free_chain m (km_freelist s) xs"
    using assms(1) free_chain_frame [of xs m "pmem s" "km_freelist s"] by (simp add: km_ok_def)
  moreover have "ld32 m v = km_freelist s" by (simp add: m_def)
  moreover have "v \<noteq> 0" using assms(1,3) page_ok_nonzero by (auto simp: km_ok_def)
  ultimately have "km_ok t (v # xs)"
    using assms by (auto simp: km_ok_def t_def page_ok_def)
  then show ?thesis using assms by (simp add: kfree_eq m_def t_def)
qed

subsection \<open>What an allocator promises\<close>

text \<open>
  Clients of the allocator take pages and give back pages they have; \<open>alloc_run s X\<close> says that
  \<open>s\<close> is reached with the pages \<open>X\<close> out.
\<close>

inductive alloc_run ::
    "('s \<Rightarrow> ('s, 'p::zero) outcome) \<Rightarrow> ('p \<Rightarrow> 's \<Rightarrow> ('s, unit) outcome) \<Rightarrow> ('s \<Rightarrow> bool) \<Rightarrow> 's \<Rightarrow> 'p set \<Rightarrow> bool"
  for alloc free init where
  start: "init s \<Longrightarrow> alloc_run alloc free init s {}"
| take: "alloc_run alloc free init s X \<Longrightarrow> alloc s = Ok p t \<Longrightarrow> p \<noteq> 0 \<Longrightarrow> alloc_run alloc free init t (insert p X)"
| none_left: "alloc_run alloc free init s X \<Longrightarrow> alloc s = Ok 0 t \<Longrightarrow> alloc_run alloc free init t X"
| give: "alloc_run alloc free init s X \<Longrightarrow> p \<in> X \<Longrightarrow> free p s = Ok () t \<Longrightarrow> alloc_run alloc free init t (X - {p})"

locale page_allocator =
  fixes alloc :: "'s \<Rightarrow> ('s, 'p::zero) outcome"
    and free :: "'p \<Rightarrow> 's \<Rightarrow> ('s, unit) outcome"
    and avail :: "'s \<Rightarrow> 'p set"
    and inv :: "'s \<Rightarrow> bool"
    and valid :: "'s \<Rightarrow> 'p \<Rightarrow> bool"
  assumes alloc_returns: "inv s \<Longrightarrow> \<exists>p t. alloc s = Ok p t"
    and alloc_takes: "inv s \<Longrightarrow> alloc s = Ok p t \<Longrightarrow> p \<noteq> 0 \<Longrightarrow>
      p \<in> avail s \<and> avail t = avail s - {p} \<and> inv t \<and> valid s p"
    and alloc_none: "inv s \<Longrightarrow> alloc s = Ok 0 t \<Longrightarrow> avail s = {} \<and> t = s"
    and free_gives: "inv s \<Longrightarrow> valid s p \<Longrightarrow> p \<notin> avail s \<Longrightarrow>
      \<exists>t. free p s = Ok () t \<and> avail t = insert p (avail s) \<and> inv t"
    and alloc_valid: "alloc s = Ok p t \<Longrightarrow> valid t = valid s"
    and free_valid: "free p s = Ok () t \<Longrightarrow> valid t = valid s"
begin

lemma run_inv: "alloc_run alloc free inv s X \<Longrightarrow> inv s \<and> X \<inter> avail s = {} \<and> (\<forall>p \<in> X. valid s p)"
proof (induction rule: alloc_run.induct)
  case (take s X p t)
  then show ?case using alloc_takes [of s p t] alloc_valid [of s p t] by auto
next
  case (none_left s X t)
  then show ?case using alloc_none [of s t] by auto
next
  case (give s X p t)
  then obtain u where "free p s = Ok () u" "avail u = insert p (avail s)" "inv u"
    using free_gives [of s p] by blast
  then show ?case using give free_valid [of p s t] by auto
qed simp

lemma run_fresh: "alloc_run alloc free inv s X \<Longrightarrow> alloc s = Ok p t \<Longrightarrow> p \<noteq> 0 \<Longrightarrow> p \<notin> X"
  using run_inv alloc_takes by blast

lemma run_returns: "alloc_run alloc free inv s X \<Longrightarrow> p \<in> X \<Longrightarrow> \<exists>t. free p s = Ok () t"
  using run_inv free_gives by blast

end

definition km_inv :: "'z kmstate_scheme \<Rightarrow> bool" where
  "km_inv s \<longleftrightarrow> LKmem \<notin> held s \<and> (\<exists>xs. km_ok s xs)"

lemma km_lock_frame: "km_lock s = Ok u t \<Longrightarrow> kend t = kend s"
  "km_unlock s = Ok u t \<Longrightarrow> kend t = kend s"
  by (auto simp: km_lock_def km_unlock_def lk_defs split: if_splits)

lemma kalloc_kend: "kalloc s = Ok p t \<Longrightarrow> kend t = kend s"
  by (auto simp: kalloc_def outcome_iff Let_def dest!: km_lock_frame split: if_splits)

lemma kfree_kend: "kfree p s = Ok u t \<Longrightarrow> kend t = kend s"
  by (auto simp: kfree_def outcome_iff Let_def dest!: km_lock_frame split: if_splits)

interpretation kpg: page_allocator kalloc kfree free_pages km_inv page_ok
proof
  fix s t :: "'a kmstate_scheme" and p
  show "km_inv s \<Longrightarrow> \<exists>p t. kalloc s = Ok p t" by (auto simp: km_inv_def kalloc_eq)
  show "p \<in> free_pages s \<and> free_pages t = free_pages s - {p} \<and> km_inv t \<and> page_ok s p"
    if pr: "km_inv s" "kalloc s = Ok p t" "p \<noteq> 0"
  proof -
    obtain xs where xs: "km_ok s xs" "LKmem \<notin> held s" using pr(1) by (auto simp: km_inv_def)
    from kalloc_pops [OF xs] pr obtain ys where
      ys: "xs = p # ys" "km_ok t ys" "t = s\<lparr>km_freelist := km_freelist t\<rparr>" by auto
    have "held t = held s" by (subst ys(3)) simp
    then show ?thesis
      using xs ys(1,2) km_ok_free_pages [OF xs(1)] km_ok_free_pages [OF ys(2)]
      by (auto simp: km_inv_def km_ok_def)
  qed
  show "free_pages s = {} \<and> t = s" if pr: "km_inv s" "kalloc s = Ok 0 t"
  proof -
    obtain xs where xs: "km_ok s xs" "LKmem \<notin> held s" using pr(1) by (auto simp: km_inv_def)
    from kalloc_pops [OF xs] pr(2) have "xs = []" "t = s" by auto
    then show ?thesis using km_ok_free_pages [OF xs(1)] by simp
  qed
  show "\<exists>t. kfree p s = Ok () t \<and> free_pages t = insert p (free_pages s) \<and> km_inv t"
    if pr: "km_inv s" "page_ok s p" "p \<notin> free_pages s"
  proof -
    obtain xs where xs: "km_ok s xs" "LKmem \<notin> held s" using pr(1) by (auto simp: km_inv_def)
    have "p \<notin> set xs" using pr(3) km_ok_free_pages [OF xs(1)] by simp
    from kfree_pushes [OF xs pr(2) this] obtain u where
      u: "kfree p s = Ok () u" "km_ok u (p # xs)" "held u = held s" by blast
    then show ?thesis using xs km_ok_free_pages [OF xs(1)] km_ok_free_pages [OF u(2)]
      by (auto simp: km_inv_def)
  qed
  show "kalloc s = Ok p t \<Longrightarrow> page_ok t = page_ok s" by (drule kalloc_kend) (simp add: page_ok_def fun_eq_iff)
  show "kfree p s = Ok () t \<Longrightarrow> page_ok t = page_ok s" by (drule kfree_kend) (simp add: page_ok_def fun_eq_iff)
qed

subsection \<open>Properties\<close>

text \<open>
  C37. No page is out twice: after any sequence of allocations and of frees of pages that are out,
  a page \<open>kalloc\<close> returns is none of the pages that are out, and freeing a page that is out
  succeeds.
\<close>

theorem kalloc_fresh:
  assumes "alloc_run kalloc kfree km_inv s X"
  shows "(kalloc s = Ok p t \<and> p \<noteq> 0 \<longrightarrow> p \<notin> X) \<and> (q \<in> X \<longrightarrow> (\<exists>u. kfree q s = Ok () u))"
  using kpg.run_fresh [OF assms] kpg.run_returns [OF assms] by blast

definition km0 :: kmstate where
  "km0 = slcore.extend slcore0 \<lparr>pmem = (\<lambda>_. 0), km_use_lock = True, km_freelist = 0x80200000, kend = 0x80100000,
     kdata = 0x80100000, shm_table = []\<rparr>"

lemma km0_simps [simp]:
  "pmem km0 = (\<lambda>_. 0)" "km_freelist km0 = 0x80200000" "kend km0 = 0x80100000" "held km0 = {}" "km_use_lock km0"
  by (simp_all add: km0_def slcore.defs)

lemma km0_inv: "km_inv km0"
proof -
  have "ld32 (\<lambda>_. 0) a = 0" for a by (simp add: ld32_def)
  then have "km_ok km0 [0x80200000]"
    by (simp add: km_ok_def page_ok_def PGSIZE_def PHYSTOP_def V2P_def)
  then show ?thesis by (auto simp: km_inv_def)
qed

theorem kalloc_fresh_witness:
  "\<exists>s. alloc_run kalloc kfree km_inv (s :: kmstate) {0x80200000} \<and> (\<exists>u. kfree 0x80200000 s = Ok () u)"
proof -
  obtain t where t: "kalloc km0 = Ok 0x80200000 t" by (simp add: kalloc_eq)
  have "alloc_run kalloc kfree km_inv km0 {}" by (rule alloc_run.start) (rule km0_inv)
  from alloc_run.take [OF this t] have r: "alloc_run kalloc kfree km_inv t {0x80200000}" by simp
  with kalloc_fresh [OF r] show ?thesis by blast
qed

end
