(* ===== verification/Vm.thy ===== *)
theory Vm
  imports Kalloc
begin

section \<open>Page tables and user memory (vm.c, mmu.h)\<close>

text \<open>
  Two-level page tables as words in memory, and the operations that build, grow, shrink, copy and
  free an address space. Addresses are 32-bit words; a page table is named by the kernel address
  of its directory. The shared-memory pages at the end of vm.c are here too.
\<close>

definition PTE_P :: uint where "PTE_P = 1"
definition PTE_W :: uint where "PTE_W = 2"
definition PTE_U :: uint where "PTE_U = 4"
definition PDX :: "uint \<Rightarrow> uint" where "PDX va = drop_bit 22 va AND 0x3FF"
definition PTX :: "uint \<Rightarrow> uint" where "PTX va = drop_bit 12 va AND 0x3FF"
definition PGADDR :: "uint \<Rightarrow> uint \<Rightarrow> uint \<Rightarrow> uint" where
  "PGADDR d t ofs = push_bit 22 d OR push_bit 12 t OR ofs"
definition PTE_ADDR :: "uint \<Rightarrow> uint" where "PTE_ADDR pte = pte AND NOT 0xFFF"
definition PTE_FLAGS :: "uint \<Rightarrow> uint" where "PTE_FLAGS pte = pte AND 0xFFF"
definition P2V :: "uint \<Rightarrow> uint" where "P2V a = a + 0x80000000"
definition KERNB :: uint where "KERNB = 0x80000000"
definition EXTMEM :: uint where "EXTMEM = 0x100000"
definition DEVSPACE :: uint where "DEVSPACE = 0xFE000000"
definition KERNLINK :: uint where "KERNLINK = KERNB + EXTMEM"

definition store :: "uint \<Rightarrow> uint \<Rightarrow> 'z kmstate_scheme \<Rightarrow> 'z kmstate_scheme" where
  "store a w s = s\<lparr>pmem := st32 (pmem s) a w\<rparr>"

definition fill :: "uint \<Rightarrow> cint \<Rightarrow> uint \<Rightarrow> 'z kmstate_scheme \<Rightarrow> 'z kmstate_scheme" where
  "fill a c n s = s\<lparr>pmem := memset (pmem s) a c n\<rparr>"

subsection \<open>Walking and mapping\<close>

text \<open>The address of the page-table entry for \<open>va\<close>, or 0.\<close>

definition walkpgdir :: "uint \<Rightarrow> uint \<Rightarrow> bool \<Rightarrow> 'z kmstate_scheme \<Rightarrow> ('z kmstate_scheme, uint) outcome" where
  "walkpgdir pd va alloc s =
     (let pde = pd + 4 * PDX va in
      if ld32 (pmem s) pde AND PTE_P \<noteq> 0
      then Ok (P2V (PTE_ADDR (ld32 (pmem s) pde)) + 4 * PTX va) s
      else if \<not> alloc then Ok 0 s
      else bnd (kalloc s) (\<lambda>pgtab s.
        if pgtab = 0 then Ok 0 s
        else Ok (pgtab + 4 * PTX va)
               (store pde (V2P pgtab OR PTE_P OR PTE_W OR PTE_U) (fill pgtab 0 PGSIZE s))))"

text \<open>
  The loop of \<open>mappages\<close> over the pages from \<open>a\<close> to \<open>last\<close>: as both are page-aligned, \<open>a\<close> meets
  \<open>last\<close> after \<open>n\<close> increments of a page.
\<close>

fun mappages_loop :: "nat \<Rightarrow> uint \<Rightarrow> uint \<Rightarrow> uint \<Rightarrow> uint \<Rightarrow> 'z kmstate_scheme \<Rightarrow> ('z kmstate_scheme, cint) outcome" where
  "mappages_loop n pd a pa perm s =
     bnd (walkpgdir pd a True s) (\<lambda>pte s.
       if pte = 0 then Ok (- 1) s
       else if ld32 (pmem s) pte AND PTE_P \<noteq> 0 then Panic ''remap''
       else let s = store pte (pa OR perm OR PTE_P) s in
         (case n of
            0 \<Rightarrow> Ok 0 s
          | Suc k \<Rightarrow> mappages_loop k pd (a + PGSIZE) (pa + PGSIZE) perm s))"

definition mappages :: "uint \<Rightarrow> uint \<Rightarrow> uint \<Rightarrow> uint \<Rightarrow> uint \<Rightarrow> 'z kmstate_scheme \<Rightarrow> ('z kmstate_scheme, cint) outcome" where
  "mappages pd va len pa perm s =
     (let a = PGROUNDDOWN va; last = PGROUNDDOWN (va + len - 1) in
      mappages_loop (unat (last - a) div unat PGSIZE) pd a pa perm s)"

subsection \<open>Freeing\<close>

lemma unat_up_measure:
  fixes a b :: uint
  shows "unat a < unat b \<Longrightarrow> 4294967296 - unat b < 4294967296 - unat a"
  using unat_range32 [of a] unat_range32 [of b] by linarith

text \<open>
  The loop of \<open>deallocuvm\<close>. When its address wraps around it starts over from the bottom: \<open>again\<close>
  says that this may still happen. The pass from the bottom clears every present entry it meets,
  unless \<open>kfree\<close> panics, so an address that wraps a second time keeps wrapping: \<open>Spin\<close>.
\<close>

function deallocuvm_loop ::
    "bool \<Rightarrow> uint \<Rightarrow> uint \<Rightarrow> uint \<Rightarrow> 'z kmstate_scheme \<Rightarrow> ('z kmstate_scheme, unit) outcome" where
  "deallocuvm_loop again pd a oldsz s =
     (if \<not> a < oldsz then Ok () s
      else bnd (walkpgdir pd a False s) (\<lambda>pte s.
        if pte = 0 then
          let a' = PGADDR (PDX a + 1) 0 0 - PGSIZE + PGSIZE in
          if a < a' then deallocuvm_loop again pd a' oldsz s
          else if again then deallocuvm_loop False pd a' oldsz s else Spin
        else bnd (if ld32 (pmem s) pte AND PTE_P \<noteq> 0
                  then let pa = PTE_ADDR (ld32 (pmem s) pte) in
                       if pa = 0 then Panic ''kfree''
                       else bnd (kfree (P2V pa) s) (\<lambda>_ s. Ok () (store pte 0 s))
                  else Ok () s) (\<lambda>_ s.
          if a < a + PGSIZE then deallocuvm_loop again pd (a + PGSIZE) oldsz s
          else if again then deallocuvm_loop False pd (a + PGSIZE) oldsz s else Spin)))"
  by pat_completeness auto
termination
  by (relation "measures [\<lambda>(again, pd, a, oldsz, s). if again then 1 else 0, \<lambda>(again, pd, a, oldsz, s). 2 ^ 32 - unat a]")
    (auto simp: word_less_nat_alt intro: unat_up_measure)

declare deallocuvm_loop.simps [simp del]

definition deallocuvm :: "uint \<Rightarrow> uint \<Rightarrow> uint \<Rightarrow> 'z kmstate_scheme \<Rightarrow> ('z kmstate_scheme, uint) outcome" where
  "deallocuvm pd oldsz newsz s =
     (if newsz \<ge> oldsz then Ok oldsz s
      else bnd (deallocuvm_loop True pd (PGROUNDUP newsz) oldsz s) (\<lambda>_ s. Ok newsz s))"

fun freevm_loop :: "uint \<Rightarrow> nat list \<Rightarrow> 'z kmstate_scheme \<Rightarrow> ('z kmstate_scheme, unit) outcome" where
  "freevm_loop pd [] s = Ok () s"
| "freevm_loop pd (i # is) s =
     (let pde = ld32 (pmem s) (pd + 4 * of_nat i) in
      bnd (if pde AND PTE_P \<noteq> 0 then kfree (P2V (PTE_ADDR pde)) s else Ok () s) (\<lambda>_ s.
        freevm_loop pd is s))"

definition freevm :: "uint \<Rightarrow> 'z kmstate_scheme \<Rightarrow> ('z kmstate_scheme, unit) outcome" where
  "freevm pd s =
     (if pd = 0 then Panic ''freevm: no pgdir''
      else bnd (deallocuvm pd KERNB 0 s) (\<lambda>_ s.
           bnd (freevm_loop pd [0..<1024] s) (\<lambda>_ s. kfree pd s)))"

subsection \<open>Building\<close>

definition kmap :: "'z kmstate_scheme \<Rightarrow> (uint \<times> uint \<times> uint \<times> uint) list" where
  "kmap s = [(KERNB, 0, EXTMEM, PTE_W),
             (KERNLINK, V2P KERNLINK, V2P (kdata s), 0),
             (kdata s, V2P (kdata s), PHYSTOP, PTE_W),
             (DEVSPACE, DEVSPACE, 0, PTE_W)]"

fun setupkvm_loop :: "uint \<Rightarrow> (uint \<times> uint \<times> uint \<times> uint) list \<Rightarrow> 'z kmstate_scheme \<Rightarrow> ('z kmstate_scheme, uint) outcome" where
  "setupkvm_loop pd [] s = Ok pd s"
| "setupkvm_loop pd ((virt, phys_start, phys_end, perm) # ks) s =
     bnd (mappages pd virt (phys_end - phys_start) phys_start perm s) (\<lambda>r s.
       if r <s 0 then bnd (freevm pd s) (\<lambda>_ s. Ok 0 s) else setupkvm_loop pd ks s)"

definition setupkvm :: "'z kmstate_scheme \<Rightarrow> ('z kmstate_scheme, uint) outcome" where
  "setupkvm s =
     bnd (kalloc s) (\<lambda>pd s.
       if pd = 0 then Ok 0 s
       else let s = fill pd 0 PGSIZE s in
         if P2V PHYSTOP > DEVSPACE then Panic ''PHYSTOP too high'' else setupkvm_loop pd (kmap s) s)"

definition kvmalloc :: "'z kmstate_scheme \<Rightarrow> ('z kmstate_scheme, unit) outcome" where
  "kvmalloc s = bnd (setupkvm s) (\<lambda>pd s. Ok () (switchkvm (s\<lparr>kpgdir := pd\<rparr>)))"

text \<open>A failed \<open>kalloc\<close> in \<open>inituvm\<close> is a write through a null pointer.\<close>

fun copy_in :: "uint \<Rightarrow> byte list \<Rightarrow> bmem \<Rightarrow> bmem" where
  "copy_in a [] m = m"
| "copy_in a (b # bs) m = copy_in (a + 1) bs (m(a := b))"

definition inituvm :: "uint \<Rightarrow> byte list \<Rightarrow> 'z kmstate_scheme \<Rightarrow> ('z kmstate_scheme, unit) outcome" where
  "inituvm pd init s =
     (if length init \<ge> unat PGSIZE then Panic ''inituvm: more than a page''
      else bnd (kalloc s) (\<lambda>mem s.
        if mem = 0 then Fault
        else bnd (mappages pd 0 PGSIZE (V2P mem) (PTE_W OR PTE_U) (fill mem 0 PGSIZE s)) (\<lambda>_ s.
          Ok () (s\<lparr>pmem := copy_in mem init (pmem s)\<rparr>))))"

text \<open>The pages of \<open>allocuvm\<close>'s loop, counted before it starts: \<open>newsz\<close> is below the kernel, so \<open>a\<close> does not wrap.\<close>

fun allocuvm_loop :: "nat \<Rightarrow> uint \<Rightarrow> uint \<Rightarrow> uint \<Rightarrow> uint \<Rightarrow> 'z kmstate_scheme \<Rightarrow> ('z kmstate_scheme, uint) outcome" where
  "allocuvm_loop 0 pd a oldsz newsz s = Ok newsz s"
| "allocuvm_loop (Suc n) pd a oldsz newsz s =
     bnd (kalloc s) (\<lambda>mem s.
       if mem = 0 then
         bnd (cprintf (str ''allocuvm out of memory'' @ [10]) [] s) (\<lambda>_ s.
         bnd (deallocuvm pd newsz oldsz s) (\<lambda>_ s. Ok 0 s))
       else bnd (mappages pd a PGSIZE (V2P mem) (PTE_W OR PTE_U) (fill mem 0 PGSIZE s)) (\<lambda>r s.
         if r <s 0 then
           bnd (cprintf (str ''allocuvm out of memory (2)'' @ [10]) [] s) (\<lambda>_ s.
           bnd (deallocuvm pd newsz oldsz s) (\<lambda>_ s.
           bnd (kfree mem s) (\<lambda>_ s. Ok 0 s)))
         else allocuvm_loop n pd (a + PGSIZE) oldsz newsz s))"

definition allocuvm :: "uint \<Rightarrow> uint \<Rightarrow> uint \<Rightarrow> 'z kmstate_scheme \<Rightarrow> ('z kmstate_scheme, uint) outcome" where
  "allocuvm pd oldsz newsz s =
     (if newsz \<ge> KERNB then Ok 0 s
      else if newsz < oldsz then Ok oldsz s
      else let a = PGROUNDUP oldsz in
        allocuvm_loop ((unat newsz - unat a + 4095) div 4096) pd a oldsz newsz s)"

definition clearpteu :: "uint \<Rightarrow> uint \<Rightarrow> 'z kmstate_scheme \<Rightarrow> ('z kmstate_scheme, unit) outcome" where
  "clearpteu pd uva s =
     bnd (walkpgdir pd uva False s) (\<lambda>pte s.
       if pte = 0 then Panic ''clearpteu''
       else Ok () (store pte (ld32 (pmem s) pte AND NOT PTE_U) s))"

text \<open>
  The loop of \<open>copyuvm\<close> over \<open>n\<close> pages; \<open>False\<close> is the jump to \<open>bad\<close>. A size within the last page
  of the address space, which no process has, is outside the model.
\<close>

fun copyuvm_loop :: "nat \<Rightarrow> uint \<Rightarrow> uint \<Rightarrow> uint \<Rightarrow> 'z kmstate_scheme \<Rightarrow> ('z kmstate_scheme, bool) outcome" where
  "copyuvm_loop 0 pd d i s = Ok True s"
| "copyuvm_loop (Suc n) pd d i s =
     bnd (walkpgdir pd i False s) (\<lambda>pte s.
       if pte = 0 then Panic ''copyuvm: pte should exist''
       else if ld32 (pmem s) pte AND PTE_P = 0 then Panic ''copyuvm: page not present''
       else let pa = PTE_ADDR (ld32 (pmem s) pte); flags = PTE_FLAGS (ld32 (pmem s) pte) in
         bnd (kalloc s) (\<lambda>mem s.
           if mem = 0 then Ok False s
           else let s = s\<lparr>pmem := memmove (pmem s) mem (P2V pa) PGSIZE\<rparr> in
             bnd (mappages d i PGSIZE (V2P mem) flags s) (\<lambda>r s.
               if r <s 0 then bnd (kfree mem s) (\<lambda>_ s. Ok False s)
               else copyuvm_loop n pd d (i + PGSIZE) s)))"

definition copyuvm :: "uint \<Rightarrow> uint \<Rightarrow> 'z kmstate_scheme \<Rightarrow> ('z kmstate_scheme, uint) outcome" where
  "copyuvm pd n s =
     bnd (setupkvm s) (\<lambda>d s.
       if d = 0 then Ok 0 s
       else if n > 0xfffff000 then Fault
       else bnd (copyuvm_loop ((unat n + 4095) div 4096) pd d 0 s) (\<lambda>ok s.
         if ok then Ok d s else bnd (freevm d s) (\<lambda>_ s. Ok 0 s)))"

subsection \<open>User addresses\<close>

text \<open>An absent page table makes \<open>uva2ka\<close> read through a null pointer.\<close>

definition uva2ka :: "uint \<Rightarrow> uint \<Rightarrow> 'z kmstate_scheme \<Rightarrow> ('z kmstate_scheme, uint) outcome" where
  "uva2ka pd uva s =
     bnd (walkpgdir pd uva False s) (\<lambda>pte s.
       if pte = 0 then Fault
       else let e = ld32 (pmem s) pte in
         if e AND PTE_P = 0 then Ok 0 s
         else if e AND PTE_U = 0 then Ok 0 s
         else Ok (P2V (PTE_ADDR e)) s)"

text \<open>\<open>copyout\<close> of the bytes \<open>buf\<close>, page by page; each round copies at least one byte.\<close>

function copyout :: "uint \<Rightarrow> uint \<Rightarrow> byte list \<Rightarrow> 'z kmstate_scheme \<Rightarrow> ('z kmstate_scheme, cint) outcome" where
  "copyout pd va buf s =
     (if buf = [] then Ok 0 s
      else let va0 = PGROUNDDOWN va in
        bnd (uva2ka pd va0 s) (\<lambda>pa0 s.
          if pa0 = 0 then Ok (- 1) s
          else let n = min (unat (PGSIZE - (va - va0))) (length buf) in
            if n = 0 then Spin
            else copyout pd (va0 + PGSIZE) (drop n buf)
                   (s\<lparr>pmem := copy_in (pa0 + (va - va0)) (take n buf) (pmem s)\<rparr>)))"
  by pat_completeness auto
termination
  by (relation "measure (\<lambda>(pd, va, buf, s). length buf)") auto

declare copyout.simps [simp del]

subsection \<open>Shared memory\<close>

definition SHARED_MEMORY_COUNT :: nat where "SHARED_MEMORY_COUNT = 8"
definition MAX_ATTACHED_PROCS :: nat where "MAX_ATTACHED_PROCS = 23"

definition upd_shm :: "nat \<Rightarrow> (shmid_ds \<Rightarrow> shmid_ds) \<Rightarrow> 'z kmstate_scheme \<Rightarrow> 'z kmstate_scheme" where
  "upd_shm i f s = s\<lparr>shm_table := (shm_table s)[i := f (shm_table s ! i)]\<rparr>"

fun shm_init_loop :: "nat list \<Rightarrow> 'z kmstate_scheme \<Rightarrow> ('z kmstate_scheme, unit) outcome" where
  "shm_init_loop [] s = Ok () s"
| "shm_init_loop (i # is) s =
     bnd (lk_acquire (LShmEntry i) s) (\<lambda>_ s.
     bnd (lk_release (LShmEntry i) (upd_shm i (\<lambda>d. d\<lparr>ref_count := 0, marked := 0,
            attached_processes := replicate MAX_ATTACHED_PROCS (- 1)\<rparr>) s)) (\<lambda>_ s.
       shm_init_loop is s))"

definition shared_memory_init :: "'z kmstate_scheme \<Rightarrow> ('z kmstate_scheme, unit) outcome" where
  "shared_memory_init s =
     bnd (lk_acquire LShm s) (\<lambda>_ s.
     bnd (shm_init_loop [0..<SHARED_MEMORY_COUNT] s) (\<lambda>_ s. lk_release LShm s))"

text \<open>An id outside the table is an access out of its bounds: \<open>Fault\<close>.\<close>

definition open_shared_memory :: "cint \<Rightarrow> 'z kmstate_scheme \<Rightarrow> ('z kmstate_scheme, uint) outcome" where
  "open_shared_memory shmid s =
     (case myproc s of
        None \<Rightarrow> Fault
      | Some p \<Rightarrow>
          let q = ptable s ! p; i = nat (sint shmid) in
          if shm q \<noteq> 0 then Ok 0 s
          else if \<not> (0 \<le> sint shmid \<and> i < length (shm_table s)) then Fault
          else bnd (lk_acquire (LShmEntry i) s) (\<lambda>_ s.
               bnd (if ref_count (shm_table s ! i) = 0
                    then bnd (kalloc s) (\<lambda>mem s.
                           if mem = 0 then Fault
                           else Ok () (upd_shm i (\<lambda>d. d\<lparr>frame := mem\<rparr>) (fill mem 0 16 s)))
                    else Ok () s) (\<lambda>_ s.
               let start_addr = PGROUNDUP (sz q) in
               bnd (mappages (pgdir q) start_addr 16 (V2P (frame (shm_table s ! i))) (PTE_W OR PTE_U) s) (\<lambda>_ s.
               bnd (lk_release (LShmEntry i)
                      (upd_proc p (\<lambda>q. q\<lparr>shm := start_addr\<rparr>)
                        (upd_shm i (\<lambda>d. d\<lparr>ref_count := ref_count d + 1\<rparr>) s))) (\<lambda>_ s.
                 Ok start_addr s)))))"

definition close_shm :: "cint \<Rightarrow> 'z kmstate_scheme \<Rightarrow> ('z kmstate_scheme, unit) outcome" where
  "close_shm shmid s =
     (case myproc s of
        None \<Rightarrow> Fault
      | Some p \<Rightarrow>
          let i = nat (sint shmid); s = upd_proc p (\<lambda>q. q\<lparr>shm := 0\<rparr>) s in
          bnd (lk_acquire LShm s) (\<lambda>_ s.
          bnd (if \<not> (0 \<le> sint shmid \<and> i < length (shm_table s)) then Fault
               else if ref_count (shm_table s ! i) \<noteq> 0
               then let me = pid (ptable s ! p);
                        s = upd_shm i (\<lambda>d. d\<lparr>ref_count := ref_count d - 1,
                              attached_processes := map (\<lambda>a. if a = me then - 1 else a) (attached_processes d)\<rparr>) s
                    in if ref_count (shm_table s ! i) = 0
                       then bnd (freevm (pgdir (ptable s ! p)) s) (\<lambda>_ s.
                            bnd (cprintf (str ''here'' @ [10]) [] s) (\<lambda>_ s.
                            bnd (kfree (frame (shm_table s ! i)) s) (\<lambda>_ s.
                              Ok () (upd_shm i (\<lambda>d. d\<lparr>frame := 0\<rparr>) s))))
                       else Ok () s
               else Ok () s) (\<lambda>_ s. lk_release LShm s)))"

end
