(* ===== verification/Bio.thy ===== *)
theory Bio
  imports Vm
begin

section \<open>The buffer cache and the disk (bio.c, buf.h, memide.c)\<close>

text \<open>
  Disk blocks cached in a fixed table of buffers, kept in least-recently-used order. The disk is
  the one of memide.c, an array of blocks written and read at once; the driver of ide.c, which
  queues requests and sleeps, is the theory \<open>Ide\<close>. The linked ring of buffers is the list of table
  indices in the order of the \<open>next\<close> pointers from the head; \<open>BufRing\<close> shows that the pointer
  updates of bio.c do to the ring what is done to this list here.
\<close>

definition BSIZE :: nat where "BSIZE = 512"
definition NBUF :: nat where "NBUF = 30"
definition B_VALID :: cint where "B_VALID = 2"
definition B_DIRTY :: cint where "B_DIRTY = 4"

record buf =
  bflags :: cint
  bdev :: uint
  bblockno :: uint
  brefcnt :: uint
  bdata :: "byte list"

text \<open>\<open>dwrites\<close> records the order of the writes that reached the disk.\<close>

record bstate = kmstate +
  bufs :: "buf list"
  lru :: "nat list"
  disk :: "nat \<Rightarrow> byte list"
  disksize :: uint
  dwrites :: "(nat \<times> byte list) list"

definition upd_buf :: "nat \<Rightarrow> (buf \<Rightarrow> buf) \<Rightarrow> 'z bstate_scheme \<Rightarrow> 'z bstate_scheme" where
  "upd_buf i f s = s\<lparr>bufs := (bufs s)[i := f (bufs s ! i)]\<rparr>"

subsection \<open>The disk\<close>

definition iderw :: "nat \<Rightarrow> 'z bstate_scheme \<Rightarrow> ('z bstate_scheme, unit) outcome" where
  "iderw i s =
     bnd (holdingsleep (SBuf i) s) (\<lambda>h s.
       let b = bufs s ! i; bn = unat (bblockno b) in
       if \<not> h then Panic ''iderw: buf not locked''
       else if bflags b AND (B_VALID OR B_DIRTY) = B_VALID then Panic ''iderw: nothing to do''
       else if bdev b \<noteq> 1 then Panic ''iderw: request not for disk 1''
       else if bblockno b \<ge> disksize s then Panic ''iderw: block out of range''
       else if bflags b AND B_DIRTY \<noteq> 0
       then Ok () (upd_buf i (\<lambda>b. b\<lparr>bflags := (bflags b AND NOT B_DIRTY) OR B_VALID\<rparr>)
                    (s\<lparr>disk := (disk s)(bn := bdata b), dwrites := dwrites s @ [(bn, bdata b)]\<rparr>))
       else Ok () (upd_buf i (\<lambda>b. b\<lparr>bdata := disk s bn, bflags := bflags b OR B_VALID\<rparr>) s))"

subsection \<open>The cache\<close>

text \<open>
  \<open>binit\<close> pushes the buffers onto the front of the list one after the other; their contents and
  reference counts are left as they are.
\<close>

fun binit_loop :: "nat list \<Rightarrow> 'z bstate_scheme \<Rightarrow> 'z bstate_scheme" where
  "binit_loop [] s = s"
| "binit_loop (i # is) s =
     binit_loop is (initsleeplock (SBuf i) (str ''buffer'') (s\<lparr>lru := i # lru s\<rparr>))"

definition binit :: "'z bstate_scheme \<Rightarrow> 'z bstate_scheme" where
  "binit s = binit_loop [0..<NBUF] (s\<lparr>lru := []\<rparr>)"

definition bget :: "uint \<Rightarrow> uint \<Rightarrow> 'z bstate_scheme \<Rightarrow> ('z bstate_scheme, nat) outcome" where
  "bget dev blockno s =
     bnd (lk_acquire LBcache s) (\<lambda>_ s.
     (case find (\<lambda>i. bdev (bufs s ! i) = dev \<and> bblockno (bufs s ! i) = blockno) (lru s) of
        Some i \<Rightarrow>
          bnd (lk_release LBcache (upd_buf i (\<lambda>b. b\<lparr>brefcnt := brefcnt b + 1\<rparr>) s)) (\<lambda>_ s.
          bnd (acquiresleep (SBuf i) s) (\<lambda>_ s. Ok i s))
      | None \<Rightarrow>
          (case find (\<lambda>i. brefcnt (bufs s ! i) = 0 \<and> bflags (bufs s ! i) AND B_DIRTY = 0) (rev (lru s)) of
             Some i \<Rightarrow>
               bnd (lk_release LBcache (upd_buf i (\<lambda>b. b\<lparr>bdev := dev, bblockno := blockno,
                      bflags := 0, brefcnt := 1\<rparr>) s)) (\<lambda>_ s.
               bnd (acquiresleep (SBuf i) s) (\<lambda>_ s. Ok i s))
           | None \<Rightarrow> Panic ''bget: no buffers'')))"

definition bread :: "uint \<Rightarrow> uint \<Rightarrow> 'z bstate_scheme \<Rightarrow> ('z bstate_scheme, nat) outcome" where
  "bread dev blockno s =
     bnd (bget dev blockno s) (\<lambda>i s.
     bnd (if bflags (bufs s ! i) AND B_VALID = 0 then iderw i s else Ok () s) (\<lambda>_ s. Ok i s))"

definition bwrite :: "nat \<Rightarrow> 'z bstate_scheme \<Rightarrow> ('z bstate_scheme, unit) outcome" where
  "bwrite i s =
     bnd (holdingsleep (SBuf i) s) (\<lambda>h s.
       if \<not> h then Panic ''bwrite''
       else iderw i (upd_buf i (\<lambda>b. b\<lparr>bflags := bflags b OR B_DIRTY\<rparr>) s))"

definition brelse :: "nat \<Rightarrow> 'z bstate_scheme \<Rightarrow> ('z bstate_scheme, unit) outcome" where
  "brelse i s =
     bnd (holdingsleep (SBuf i) s) (\<lambda>h s.
       if \<not> h then Panic ''brelse''
       else bnd (releasesleep (SBuf i) s) (\<lambda>_ s.
         bnd (lk_acquire LBcache s) (\<lambda>_ s.
           let s = upd_buf i (\<lambda>b. b\<lparr>brefcnt := brefcnt b - 1\<rparr>) s;
               s = (if brefcnt (bufs s ! i) = 0 then s\<lparr>lru := i # removeAll i (lru s)\<rparr> else s)
           in lk_release LBcache s)))"

subsection \<open>Words in a block\<close>

definition rd32 :: "byte list \<Rightarrow> nat \<Rightarrow> uint" where
  "rd32 bs i = ucast (bs ! i) OR push_bit 8 (ucast (bs ! (i + 1))) OR push_bit 16 (ucast (bs ! (i + 2)))
     OR push_bit 24 (ucast (bs ! (i + 3)))"

definition wr32 :: "byte list \<Rightarrow> nat \<Rightarrow> uint \<Rightarrow> byte list" where
  "wr32 bs i w = bs[i := byte_of 0 w, i + 1 := byte_of 1 w, i + 2 := byte_of 2 w, i + 3 := byte_of 3 w]"

definition rd16 :: "byte list \<Rightarrow> nat \<Rightarrow> ushort" where
  "rd16 bs i = ucast (bs ! i) OR push_bit 8 (ucast (bs ! (i + 1)))"

definition wr16 :: "byte list \<Rightarrow> nat \<Rightarrow> ushort \<Rightarrow> byte list" where
  "wr16 bs i w = bs[i := ucast w, i + 1 := ucast (drop_bit 8 w)]"

lemma length_wr [simp]: "length (wr32 bs i w) = length bs" "length (wr16 bs i h) = length bs"
  by (simp_all add: wr32_def wr16_def)

lemma rd32_wr32 [simp]: "i + 3 < length bs \<Longrightarrow> rd32 (wr32 bs i w) i = w"
  using bytes_join [of w] by (simp add: rd32_def wr32_def nth_list_update)

lemma rd32_wr32_other:
  "i + 4 \<le> j \<or> j + 4 \<le> i \<Longrightarrow> rd32 (wr32 bs i w) j = rd32 bs j"
  by (auto simp: rd32_def wr32_def)

subsection \<open>An empty machine\<close>

text \<open>A cache that holds nothing and a disk of zeroes, for the examples below.\<close>

definition buf0 :: buf where
  "buf0 = \<lparr>bflags = 0, bdev = 0, bblockno = 0, brefcnt = 0, bdata = replicate BSIZE 0\<rparr>"

definition bstate0 :: bstate where
  "bstate0 = kmstate.extend km0 \<lparr>bufs = replicate NBUF buf0, lru = rev [0..<NBUF],
     disk = (\<lambda>_. replicate BSIZE 0), disksize = 1000, dwrites = []\<rparr>"

lemma bstate0_simps [simp]:
  "held bstate0 = {}" "cpu_proc bstate0 = Some 0" "ptable bstate0 = [proc0\<lparr>pid := 4\<rparr>]"
  "slocks bstate0 = (\<lambda>_. \<lparr>sl_locked = 0, sl_name = [], sl_pid = 0\<rparr>)"
  "bufs bstate0 = replicate NBUF buf0" "lru bstate0 = rev [0..<NBUF]"
  "disk bstate0 = (\<lambda>_. replicate BSIZE 0)" "disksize bstate0 = 1000" "dwrites bstate0 = []"
  by (simp_all add: bstate0_def km0_def kmstate.defs slcore.defs slcore0_def pcore.defs pcore0_def)

end
