(* ===== verification/Log.thy ===== *)
theory Log
  imports Bio
begin

section \<open>The write-ahead log (log.c; fs.c: readsb)\<close>

text \<open>
  File-system operations bracket their block writes with \<open>begin_op\<close> and \<open>end_op\<close>; the last one
  out commits: it copies the changed blocks to the log, writes the header, installs the blocks at
  home and clears the header. A crash between any two disk writes of the commit followed by
  recovery leaves all of the changes or none.
\<close>

definition LOGSIZE :: nat where "LOGSIZE = 30"
definition MAXOPBLOCKS :: nat where "MAXOPBLOCKS = 10"

record superblock =
  sb_size :: uint
  sb_nblocks :: uint
  sb_ninodes :: uint
  sb_nlog :: uint
  sb_logstart :: uint
  sb_inodestart :: uint
  sb_bmapstart :: uint

record logstate = bstate +
  log_start :: cint
  log_size :: cint
  log_outstanding :: cint
  log_committing :: bool
  log_dev :: cint
  lh_n :: cint
  lh_block :: "cint list"

subsection \<open>The super block\<close>

definition parse_sb :: "byte list \<Rightarrow> superblock" where
  "parse_sb d = \<lparr>sb_size = rd32 d 0, sb_nblocks = rd32 d 4, sb_ninodes = rd32 d 8, sb_nlog = rd32 d 12,
     sb_logstart = rd32 d 16, sb_inodestart = rd32 d 20, sb_bmapstart = rd32 d 24\<rparr>"

definition readsb :: "uint \<Rightarrow> 'z bstate_scheme \<Rightarrow> ('z bstate_scheme, superblock) outcome" where
  "readsb dev s =
     bnd (bread dev 1 s) (\<lambda>i s.
       let r = parse_sb (bdata (bufs s ! i)) in
       bnd (brelse i s) (\<lambda>_ s. Ok r s))"

subsection \<open>Moving blocks between the log and home\<close>

definition set_bdata :: "nat \<Rightarrow> byte list \<Rightarrow> 'z bstate_scheme \<Rightarrow> 'z bstate_scheme" where
  "set_bdata i d s = upd_buf i (\<lambda>b. b\<lparr>bdata := d\<rparr>) s"

text \<open>The loop over the entries \<open>tail .. n - 1\<close> of the header, \<open>n\<close> read from the state.\<close>

fun install_loop :: "nat list \<Rightarrow> 'z logstate_scheme \<Rightarrow> ('z logstate_scheme, unit) outcome" where
  "install_loop [] s = Ok () s"
| "install_loop (tail # ts) s =
     bnd (bread (log_dev s) (log_start s + of_nat tail + 1) s) (\<lambda>lbuf s.
     bnd (bread (log_dev s) (lh_block s ! tail) s) (\<lambda>dbuf s.
     bnd (bwrite dbuf (set_bdata dbuf (bdata (bufs s ! lbuf)) s)) (\<lambda>_ s.
     bnd (brelse lbuf s) (\<lambda>_ s.
     bnd (brelse dbuf s) (\<lambda>_ s. install_loop ts s)))))"

definition entries :: "'z logstate_scheme \<Rightarrow> nat list" where
  "entries s = [0..<nat (sint (lh_n s))]"

definition install_trans :: "'z logstate_scheme \<Rightarrow> ('z logstate_scheme, unit) outcome" where
  "install_trans s = install_loop (entries s) s"

text \<open>A header on disk with more entries than the in-memory table holds overruns it: \<open>Fault\<close>.\<close>

definition read_head :: "'z logstate_scheme \<Rightarrow> ('z logstate_scheme, unit) outcome" where
  "read_head s =
     bnd (bread (log_dev s) (log_start s) s) (\<lambda>i s.
       let d = bdata (bufs s ! i); n = nat (sint (rd32 d 0)) in
       if n > LOGSIZE then Fault
       else brelse i (s\<lparr>lh_n := rd32 d 0,
                        lh_block := map (\<lambda>k. rd32 d (4 + 4 * k)) [0..<n] @ drop n (lh_block s)\<rparr>))"

fun put_entries :: "nat list \<Rightarrow> cint list \<Rightarrow> byte list \<Rightarrow> byte list" where
  "put_entries [] bl d = d"
| "put_entries (k # ks) bl d = put_entries ks bl (wr32 d (4 + 4 * k) (bl ! k))"

definition write_head :: "'z logstate_scheme \<Rightarrow> ('z logstate_scheme, unit) outcome" where
  "write_head s =
     bnd (bread (log_dev s) (log_start s) s) (\<lambda>i s.
     bnd (bwrite i (set_bdata i
            (put_entries (entries s) (lh_block s) (wr32 (bdata (bufs s ! i)) 0 (lh_n s))) s)) (\<lambda>_ s.
       brelse i s))"

definition recover_from_log :: "'z logstate_scheme \<Rightarrow> ('z logstate_scheme, unit) outcome" where
  "recover_from_log s =
     bnd (read_head s) (\<lambda>_ s.
     bnd (install_trans s) (\<lambda>_ s. write_head (s\<lparr>lh_n := 0\<rparr>)))"

definition initlog :: "cint \<Rightarrow> 'z logstate_scheme \<Rightarrow> ('z logstate_scheme, unit) outcome" where
  "initlog dev s =
     (if 4 * (LOGSIZE + 1) \<ge> BSIZE then Panic ''initlog: too big logheader''
      else bnd (readsb dev s) (\<lambda>sb s.
        recover_from_log (s\<lparr>log_start := sb_logstart sb, log_size := sb_nlog sb, log_dev := dev\<rparr>)))"

subsection \<open>Operations\<close>

text \<open>One look of \<open>begin_op\<close>, with the log's lock held: sleep, or reserve room.\<close>

definition begin_op_loop :: "'z logstate_scheme \<Rightarrow> ('z logstate_scheme, unit) outcome" where
  "begin_op_loop s =
     (if log_committing s then sleep CLog (Some LLog) s
      else if of_nat LOGSIZE <s lh_n s + (log_outstanding s + 1) * of_nat MAXOPBLOCKS
      then sleep CLog (Some LLog) s
      else lk_release LLog (s\<lparr>log_outstanding := log_outstanding s + 1\<rparr>))"

definition begin_op :: "'z logstate_scheme \<Rightarrow> ('z logstate_scheme, unit) outcome" where
  "begin_op s = bnd (lk_acquire LLog s) (\<lambda>_ s. begin_op_loop s)"

definition begin_op_resume :: "'z logstate_scheme \<Rightarrow> ('z logstate_scheme, unit) outcome" where
  "begin_op_resume s = bnd (sleep_resume LLog s) (\<lambda>_ s. begin_op_loop s)"

fun write_log_loop :: "nat list \<Rightarrow> 'z logstate_scheme \<Rightarrow> ('z logstate_scheme, unit) outcome" where
  "write_log_loop [] s = Ok () s"
| "write_log_loop (tail # ts) s =
     bnd (bread (log_dev s) (log_start s + of_nat tail + 1) s) (\<lambda>to s.
     bnd (bread (log_dev s) (lh_block s ! tail) s) (\<lambda>from s.
     bnd (bwrite to (set_bdata to (bdata (bufs s ! from)) s)) (\<lambda>_ s.
     bnd (brelse from s) (\<lambda>_ s.
     bnd (brelse to s) (\<lambda>_ s. write_log_loop ts s)))))"

definition write_log :: "'z logstate_scheme \<Rightarrow> ('z logstate_scheme, unit) outcome" where
  "write_log s = write_log_loop (entries s) s"

definition commit :: "'z logstate_scheme \<Rightarrow> ('z logstate_scheme, unit) outcome" where
  "commit s =
     (if 0 <s lh_n s
      then bnd (write_log s) (\<lambda>_ s.
           bnd (write_head s) (\<lambda>_ s.
           bnd (install_trans s) (\<lambda>_ s. write_head (s\<lparr>lh_n := 0\<rparr>))))
      else Ok () s)"

definition end_op :: "'z logstate_scheme \<Rightarrow> ('z logstate_scheme, unit) outcome" where
  "end_op s =
     bnd (lk_acquire LLog s) (\<lambda>_ s.
       let s = s\<lparr>log_outstanding := log_outstanding s - 1\<rparr> in
       if log_committing s then Panic ''log.committing''
       else if log_outstanding s = 0
       then bnd (lk_release LLog (s\<lparr>log_committing := True\<rparr>)) (\<lambda>_ s.
            bnd (commit s) (\<lambda>_ s.
            bnd (lk_acquire LLog s) (\<lambda>_ s.
            bnd (wakeup CLog (s\<lparr>log_committing := False\<rparr>)) (\<lambda>_ s. lk_release LLog s))))
       else bnd (wakeup CLog s) (\<lambda>_ s. lk_release LLog s))"

definition log_write :: "nat \<Rightarrow> 'z logstate_scheme \<Rightarrow> ('z logstate_scheme, unit) outcome" where
  "log_write b s =
     (if of_nat LOGSIZE \<le>s lh_n s \<or> log_size s - 1 \<le>s lh_n s then Panic ''too big a transaction''
      else if log_outstanding s <s 1 then Panic ''log_write outside of trans''
      else bnd (lk_acquire LLog s) (\<lambda>_ s.
        let n = nat (sint (lh_n s)); bn = bblockno (bufs s ! b);
            i = (case find_idx (\<lambda>x. x = bn) (take n (lh_block s)) of Some k \<Rightarrow> k | None \<Rightarrow> n);
            s = s\<lparr>lh_block := (lh_block s)[i := bn]\<rparr>;
            s = (if i = n then s\<lparr>lh_n := lh_n s + 1\<rparr> else s)
        in lk_release LLog (upd_buf b (\<lambda>b. b\<lparr>bflags := bflags b OR B_DIRTY\<rparr>) s)))"

definition log0 :: logstate where
  "log0 = bstate.extend bstate0 \<lparr>log_start = 2, log_size = 30, log_outstanding = 0, log_committing = False,
     log_dev = 1, lh_n = 0, lh_block = replicate LOGSIZE 0\<rparr>"

end
