(* ===== verification/Inode.thy ===== *)
theory Inode
  imports Log
begin

section \<open>Disk blocks and inodes (fs.c up to itrunc, fs.h, file.h)\<close>

text \<open>
  The free-block bitmap, the inodes on disk and their in-memory cache with reference counts, and
  the map from a file's block numbers to disk blocks. An inode cache entry is named by its index.
\<close>

definition NINODE :: nat where "NINODE = 50"
definition NDIRECT :: nat where "NDIRECT = 12"
definition NINDIRECT :: nat where "NINDIRECT = BSIZE div 4"
definition MAXFILE :: nat where "MAXFILE = NDIRECT + NINDIRECT"
definition IPB :: nat where "IPB = 8"
definition BPB :: nat where "BPB = BSIZE * 8"
definition ROOTINO :: uint where "ROOTINO = 1"
definition ROOTDEV :: uint where "ROOTDEV = 1"
definition T_DIR :: ushort where "T_DIR = 1"
definition T_FILE :: ushort where "T_FILE = 2"
definition T_DEV :: ushort where "T_DEV = 3"

record dinode =
  di_type :: ushort
  di_major :: ushort
  di_minor :: ushort
  di_nlink :: ushort
  di_size :: uint
  di_addrs :: "uint list"

record inode =
  idev :: uint
  inum :: uint
  iref :: cint
  ivalid :: bool
  itype :: ushort
  imajor :: ushort
  iminor :: ushort
  inlink :: ushort
  isize :: uint
  iaddrs :: "uint list"

record istate = logstate +
  sb :: superblock
  icache :: "inode list"

definition upd_inode :: "nat \<Rightarrow> (inode \<Rightarrow> inode) \<Rightarrow> 'z istate_scheme \<Rightarrow> 'z istate_scheme" where
  "upd_inode i f s = s\<lparr>icache := (icache s)[i := f (icache s ! i)]\<rparr>"

definition IBLOCK :: "uint \<Rightarrow> superblock \<Rightarrow> uint" where
  "IBLOCK i b = i div of_nat IPB + sb_inodestart b"

definition BBLOCK :: "uint \<Rightarrow> superblock \<Rightarrow> uint" where
  "BBLOCK n b = n div of_nat BPB + sb_bmapstart b"

subsection \<open>On-disk inodes as bytes of a block\<close>

text \<open>The 64 bytes of \<open>struct dinode\<close>: four 16-bit fields, the size, thirteen block addresses.\<close>

definition get_dinode :: "byte list \<Rightarrow> nat \<Rightarrow> dinode" where
  "get_dinode d k =
     (let a = 64 * k in
      \<lparr>di_type = rd16 d a, di_major = rd16 d (a + 2), di_minor = rd16 d (a + 4), di_nlink = rd16 d (a + 6),
       di_size = rd32 d (a + 8), di_addrs = map (\<lambda>j. rd32 d (a + 12 + 4 * j)) [0..<NDIRECT + 1]\<rparr>)"

fun put_words :: "nat \<Rightarrow> uint list \<Rightarrow> byte list \<Rightarrow> byte list" where
  "put_words a [] d = d"
| "put_words a (w # ws) d = put_words (a + 4) ws (wr32 d a w)"

definition put_dinode :: "nat \<Rightarrow> dinode \<Rightarrow> byte list \<Rightarrow> byte list" where
  "put_dinode k di d =
     (let a = 64 * k in
      put_words (a + 12) (di_addrs di)
       (wr32 (wr16 (wr16 (wr16 (wr16 d a (di_type di)) (a + 2) (di_major di)) (a + 4) (di_minor di))
          (a + 6) (di_nlink di)) (a + 8) (di_size di)))"

subsection \<open>Blocks\<close>

definition bzero :: "uint \<Rightarrow> uint \<Rightarrow> 'z istate_scheme \<Rightarrow> ('z istate_scheme, unit) outcome" where
  "bzero dev bno s =
     bnd (bread dev bno s) (\<lambda>i s.
     bnd (log_write i (set_bdata i (replicate BSIZE 0) s)) (\<lambda>_ s. brelse i s))"

definition bit_of :: "nat \<Rightarrow> byte" where
  "bit_of bi = push_bit (bi mod 8) 1"

definition bit_free :: "byte list \<Rightarrow> nat \<Rightarrow> bool" where
  "bit_free d bi \<longleftrightarrow> d ! (bi div 8) AND bit_of bi = 0"

text \<open>The outer loop of \<open>balloc\<close> over the first block numbers \<open>b\<close> of the bitmap blocks.\<close>

fun balloc_loop :: "uint \<Rightarrow> nat list \<Rightarrow> 'z istate_scheme \<Rightarrow> ('z istate_scheme, uint) outcome" where
  "balloc_loop dev [] s = Panic ''balloc: out of blocks''"
| "balloc_loop dev (b # bs) s =
     bnd (bread dev (BBLOCK (of_nat b) (sb s)) s) (\<lambda>i s.
       let d = bdata (bufs s ! i) in
       (case find (bit_free d) [0..<min BPB (unat (sb_size (sb s)) - b)] of
          Some bi \<Rightarrow>
            bnd (log_write i (set_bdata i (d[bi div 8 := d ! (bi div 8) OR bit_of bi]) s)) (\<lambda>_ s.
            bnd (brelse i s) (\<lambda>_ s.
            bnd (bzero dev (of_nat (b + bi)) s) (\<lambda>_ s. Ok (of_nat (b + bi)) s)))
        | None \<Rightarrow> bnd (brelse i s) (\<lambda>_ s. balloc_loop dev bs s)))"

definition balloc :: "uint \<Rightarrow> 'z istate_scheme \<Rightarrow> ('z istate_scheme, uint) outcome" where
  "balloc dev s =
     balloc_loop dev (map (\<lambda>k. k * BPB) [0..<(unat (sb_size (sb s)) + BPB - 1) div BPB]) s"

definition bfree :: "uint \<Rightarrow> uint \<Rightarrow> 'z istate_scheme \<Rightarrow> ('z istate_scheme, unit) outcome" where
  "bfree dev b s =
     bnd (bread dev (BBLOCK b (sb s)) s) (\<lambda>i s.
       let d = bdata (bufs s ! i); bi = unat b mod BPB in
       if bit_free d bi then Panic ''freeing free block''
       else bnd (log_write i (set_bdata i (d[bi div 8 := d ! (bi div 8) AND NOT (bit_of bi)]) s)) (\<lambda>_ s.
         brelse i s))"

subsection \<open>Inodes\<close>

fun iinit_locks :: "nat list \<Rightarrow> 'z istate_scheme \<Rightarrow> 'z istate_scheme" where
  "iinit_locks [] s = s"
| "iinit_locks (i # is) s = iinit_locks is (initsleeplock (SInode i) (str ''inode'') s)"

definition iinit :: "uint \<Rightarrow> 'z istate_scheme \<Rightarrow> ('z istate_scheme, unit) outcome" where
  "iinit dev s =
     bnd (readsb dev (iinit_locks [0..<NINODE] s)) (\<lambda>r s.
       let s = s\<lparr>sb := r\<rparr> in
       cprintf (str ''sb: size %d nblocks %d ninodes %d nlog %d logstart %d inodestart %d bmap start %d'' @ [10])
         [AInt (sb_size r), AInt (sb_nblocks r), AInt (sb_ninodes r), AInt (sb_nlog r), AInt (sb_logstart r),
          AInt (sb_inodestart r), AInt (sb_bmapstart r)] s)"

text \<open>
  \<open>iget\<close> returns a cache entry that already refers to the inode, or the first free entry seen.
\<close>

definition iget :: "uint \<Rightarrow> uint \<Rightarrow> 'z istate_scheme \<Rightarrow> ('z istate_scheme, nat) outcome" where
  "iget dev ino s =
     bnd (lk_acquire LIcache s) (\<lambda>_ s.
     (case find_idx (\<lambda>ip. 0 <s iref ip \<and> idev ip = dev \<and> inum ip = ino) (icache s) of
        Some i \<Rightarrow>
          bnd (lk_release LIcache (upd_inode i (\<lambda>ip. ip\<lparr>iref := iref ip + 1\<rparr>) s)) (\<lambda>_ s. Ok i s)
      | None \<Rightarrow>
          (case find_idx (\<lambda>ip. iref ip = 0) (icache s) of
             None \<Rightarrow> Panic ''iget: no inodes''
           | Some i \<Rightarrow>
               bnd (lk_release LIcache (upd_inode i (\<lambda>ip. ip\<lparr>idev := dev, inum := ino, iref := 1,
                      ivalid := False\<rparr>) s)) (\<lambda>_ s. Ok i s))))"

fun ialloc_loop :: "uint \<Rightarrow> ushort \<Rightarrow> nat list \<Rightarrow> 'z istate_scheme \<Rightarrow> ('z istate_scheme, nat) outcome" where
  "ialloc_loop dev ty [] s = Panic ''ialloc: no inodes''"
| "ialloc_loop dev ty (k # ks) s =
     bnd (bread dev (IBLOCK (of_nat k) (sb s)) s) (\<lambda>i s.
       let d = bdata (bufs s ! i) in
       if di_type (get_dinode d (k mod IPB)) = 0
       then bnd (log_write i (set_bdata i (put_dinode (k mod IPB) \<lparr>di_type = ty, di_major = 0, di_minor = 0,
                   di_nlink = 0, di_size = 0, di_addrs = replicate (NDIRECT + 1) 0\<rparr> d) s)) (\<lambda>_ s.
            bnd (brelse i s) (\<lambda>_ s. iget dev (of_nat k) s))
       else bnd (brelse i s) (\<lambda>_ s. ialloc_loop dev ty ks s))"

definition ialloc :: "uint \<Rightarrow> ushort \<Rightarrow> 'z istate_scheme \<Rightarrow> ('z istate_scheme, nat) outcome" where
  "ialloc dev ty s = ialloc_loop dev ty [1..<unat (sb_ninodes (sb s))] s"

definition iupdate :: "nat \<Rightarrow> 'z istate_scheme \<Rightarrow> ('z istate_scheme, unit) outcome" where
  "iupdate i s =
     (let ip = icache s ! i in
      bnd (bread (idev ip) (IBLOCK (inum ip) (sb s)) s) (\<lambda>b s.
      bnd (log_write b (set_bdata b (put_dinode (unat (inum ip) mod IPB)
             \<lparr>di_type = itype ip, di_major = imajor ip, di_minor = iminor ip, di_nlink = inlink ip,
              di_size = isize ip, di_addrs = iaddrs ip\<rparr> (bdata (bufs s ! b))) s)) (\<lambda>_ s.
        brelse b s)))"

definition idup :: "nat \<Rightarrow> 'z istate_scheme \<Rightarrow> ('z istate_scheme, nat) outcome" where
  "idup i s =
     bnd (lk_acquire LIcache s) (\<lambda>_ s.
     bnd (lk_release LIcache (upd_inode i (\<lambda>ip. ip\<lparr>iref := iref ip + 1\<rparr>) s)) (\<lambda>_ s. Ok i s))"

text \<open>The part of \<open>ilock\<close> with the sleep lock held.\<close>

definition ilock_read :: "nat \<Rightarrow> 'z istate_scheme \<Rightarrow> ('z istate_scheme, unit) outcome" where
  "ilock_read i s =
     (if ivalid (icache s ! i) then Ok () s
      else bnd (bread (idev (icache s ! i)) (IBLOCK (inum (icache s ! i)) (sb s)) s) (\<lambda>b s.
        let di = get_dinode (bdata (bufs s ! b)) (unat (inum (icache s ! i)) mod IPB) in
        bnd (brelse b (upd_inode i (\<lambda>ip. ip\<lparr>itype := di_type di, imajor := di_major di, iminor := di_minor di,
               inlink := di_nlink di, isize := di_size di, iaddrs := di_addrs di\<rparr>) s)) (\<lambda>_ s.
          let s = upd_inode i (\<lambda>ip. ip\<lparr>ivalid := True\<rparr>) s in
          if itype (icache s ! i) = 0 then Panic ''ilock: no type'' else Ok () s)))"

definition ilock :: "nat option \<Rightarrow> 'z istate_scheme \<Rightarrow> ('z istate_scheme, unit) outcome" where
  "ilock p s =
     (case p of
        None \<Rightarrow> Panic ''ilock''
      | Some i \<Rightarrow>
          if iref (icache s ! i) <s 1 then Panic ''ilock''
          else bnd (acquiresleep (SInode i) s) (\<lambda>_ s. ilock_read i s))"

definition iunlock :: "nat option \<Rightarrow> 'z istate_scheme \<Rightarrow> ('z istate_scheme, unit) outcome" where
  "iunlock p s =
     (case p of
        None \<Rightarrow> Panic ''iunlock''
      | Some i \<Rightarrow>
          bnd (holdingsleep (SInode i) s) (\<lambda>h s.
            if \<not> h \<or> iref (icache s ! i) <s 1 then Panic ''iunlock''
            else releasesleep (SInode i) s))"

subsection \<open>File content\<close>

definition bmap :: "nat \<Rightarrow> uint \<Rightarrow> 'z istate_scheme \<Rightarrow> ('z istate_scheme, uint) outcome" where
  "bmap i bn s =
     (let n = unat bn; ip = icache s ! i in
      if n < NDIRECT then
        (if iaddrs ip ! n = 0
         then bnd (balloc (idev ip) s) (\<lambda>addr s.
                Ok addr (upd_inode i (\<lambda>ip. ip\<lparr>iaddrs := (iaddrs ip)[n := addr]\<rparr>) s))
         else Ok (iaddrs ip ! n) s)
      else if n - NDIRECT < NINDIRECT then
        bnd (if iaddrs ip ! NDIRECT = 0
             then bnd (balloc (idev ip) s) (\<lambda>addr s.
                    Ok addr (upd_inode i (\<lambda>ip. ip\<lparr>iaddrs := (iaddrs ip)[NDIRECT := addr]\<rparr>) s))
             else Ok (iaddrs ip ! NDIRECT) s) (\<lambda>ind s.
        bnd (bread (idev ip) ind s) (\<lambda>b s.
          let a = rd32 (bdata (bufs s ! b)) (4 * (n - NDIRECT)) in
          bnd (if a = 0
               then bnd (balloc (idev ip) s) (\<lambda>addr s.
                    bnd (log_write b (set_bdata b (wr32 (bdata (bufs s ! b)) (4 * (n - NDIRECT)) addr) s)) (\<lambda>_ s.
                      Ok addr s))
               else Ok a s) (\<lambda>addr s.
          bnd (brelse b s) (\<lambda>_ s. Ok addr s))))
      else Panic ''bmap: out of range'')"

fun itrunc_direct :: "nat \<Rightarrow> nat list \<Rightarrow> 'z istate_scheme \<Rightarrow> ('z istate_scheme, unit) outcome" where
  "itrunc_direct i [] s = Ok () s"
| "itrunc_direct i (k # ks) s =
     (if iaddrs (icache s ! i) ! k \<noteq> 0
      then bnd (bfree (idev (icache s ! i)) (iaddrs (icache s ! i) ! k) s) (\<lambda>_ s.
             itrunc_direct i ks (upd_inode i (\<lambda>ip. ip\<lparr>iaddrs := (iaddrs ip)[k := 0]\<rparr>) s))
      else itrunc_direct i ks s)"

fun itrunc_indirect :: "uint \<Rightarrow> nat \<Rightarrow> nat list \<Rightarrow> 'z istate_scheme \<Rightarrow> ('z istate_scheme, unit) outcome" where
  "itrunc_indirect dev b [] s = Ok () s"
| "itrunc_indirect dev b (j # js) s =
     (let a = rd32 (bdata (bufs s ! b)) (4 * j) in
      bnd (if a \<noteq> 0 then bfree dev a s else Ok () s) (\<lambda>_ s. itrunc_indirect dev b js s))"

definition itrunc :: "nat \<Rightarrow> 'z istate_scheme \<Rightarrow> ('z istate_scheme, unit) outcome" where
  "itrunc i s =
     bnd (itrunc_direct i [0..<NDIRECT] s) (\<lambda>_ s.
     bnd (let ind = iaddrs (icache s ! i) ! NDIRECT; dev = idev (icache s ! i) in
          if ind \<noteq> 0
          then bnd (bread dev ind s) (\<lambda>b s.
               bnd (itrunc_indirect dev b [0..<NINDIRECT] s) (\<lambda>_ s.
               bnd (brelse b s) (\<lambda>_ s.
               bnd (bfree dev ind s) (\<lambda>_ s.
                 Ok () (upd_inode i (\<lambda>ip. ip\<lparr>iaddrs := (iaddrs ip)[NDIRECT := 0]\<rparr>) s)))))
          else Ok () s) (\<lambda>_ s.
       iupdate i (upd_inode i (\<lambda>ip. ip\<lparr>isize := 0\<rparr>) s)))"

definition iput :: "nat \<Rightarrow> 'z istate_scheme \<Rightarrow> ('z istate_scheme, unit) outcome" where
  "iput i s =
     bnd (acquiresleep (SInode i) s) (\<lambda>_ s.
     bnd (if ivalid (icache s ! i) \<and> inlink (icache s ! i) = 0
          then bnd (lk_acquire LIcache s) (\<lambda>_ s.
               let r = iref (icache s ! i) in
               bnd (lk_release LIcache s) (\<lambda>_ s.
                 if r = 1
                 then bnd (itrunc i s) (\<lambda>_ s.
                      bnd (iupdate i (upd_inode i (\<lambda>ip. ip\<lparr>itype := 0\<rparr>) s)) (\<lambda>_ s.
                        Ok () (upd_inode i (\<lambda>ip. ip\<lparr>ivalid := False\<rparr>) s)))
                 else Ok () s))
          else Ok () s) (\<lambda>_ s.
     bnd (releasesleep (SInode i) s) (\<lambda>_ s.
     bnd (lk_acquire LIcache s) (\<lambda>_ s.
       lk_release LIcache (upd_inode i (\<lambda>ip. ip\<lparr>iref := iref ip - 1\<rparr>) s)))))"

definition iunlockput :: "nat \<Rightarrow> 'z istate_scheme \<Rightarrow> ('z istate_scheme, unit) outcome" where
  "iunlockput i s = bnd (iunlock (Some i) s) (\<lambda>_ s. iput i s)"

record stat =
  st_type :: ushort
  st_dev :: cint
  st_ino :: uint
  st_nlink :: ushort
  st_size :: uint

definition stati :: "nat \<Rightarrow> 'z istate_scheme \<Rightarrow> stat" where
  "stati i s =
     (let ip = icache s ! i in
      \<lparr>st_type = itype ip, st_dev = idev ip, st_ino = inum ip, st_nlink = inlink ip, st_size = isize ip\<rparr>)"

definition inode0 :: inode where
  "inode0 = \<lparr>idev = 0, inum = 0, iref = 0, ivalid = False, itype = 0, imajor = 0, iminor = 0, inlink = 0,
     isize = 0, iaddrs = replicate 13 0\<rparr>"

definition sb0 :: superblock where
  "sb0 = \<lparr>sb_size = 1000, sb_nblocks = 941, sb_ninodes = 200, sb_nlog = 30, sb_logstart = 2,
     sb_inodestart = 32, sb_bmapstart = 58\<rparr>"

definition istate0 :: istate where
  "istate0 = logstate.extend log0 \<lparr>sb = sb0, icache = replicate NINODE inode0\<rparr>"

end
