(* ===== verification/Spinlock.thy ===== *)
theory Spinlock
  imports Locks
begin

section \<open>Spin locks (spinlock.c)\<close>

text \<open>
  The code of spinlock.c on a multiprocessor: each processor has its EFLAGS register, the
  matched \<open>pushcli\<close>/\<open>popcli\<close> depth in its \<open>struct cpu\<close>, and the locks live in shared memory.
  \<open>acquire\<close> is split at the instruction where another processor can interfere, the \<open>xchg\<close>.
  The theory proves that pushcli and popcli are matched, that the locks obey the laws of
  \<open>spin_locking\<close>, and mutual exclusion for every interleaving of the processors.
\<close>

subsection \<open>State\<close>

record cpu =
  apicid :: byte
  ncli :: cint
  intena :: uint

record spinlock =
  locked :: uint
  lname :: string
  lcpu :: "nat option"
  pcs :: "uint list"

record smp =
  cpus :: "cpu list"
  eflags :: "nat \<Rightarrow> uint"
  apic :: "nat \<Rightarrow> byte"
  locks :: "lock_id \<Rightarrow> spinlock"
  kwords :: "uint \<Rightarrow> uint"

text \<open>
  \<open>cpus\<close> holds the first \<open>ncpu\<close> entries of \<open>cpus[NCPU]\<close>; \<open>apic\<close> is the local APIC id the
  hardware reports on each processor; \<open>kwords\<close> is the kernel memory as 32-bit words, which
  \<open>getcallerpcs\<close> walks. The nesting depth \<open>ncli\<close> is a C \<open>int\<close>: 32 bits that wrap around.
\<close>

definition FL_IF :: uint where "FL_IF = 0x200"
definition KERNBASE :: uint where "KERNBASE = 0x80000000"

definition readeflags :: "nat \<Rightarrow> smp \<Rightarrow> uint" where
  "readeflags me s = eflags s me"

definition cli :: "nat \<Rightarrow> smp \<Rightarrow> smp" where
  "cli me s = s\<lparr>eflags := (eflags s)(me := eflags s me AND NOT FL_IF)\<rparr>"

definition sti :: "nat \<Rightarrow> smp \<Rightarrow> smp" where
  "sti me s = s\<lparr>eflags := (eflags s)(me := eflags s me OR FL_IF)\<rparr>"

definition intr_on :: "nat \<Rightarrow> smp \<Rightarrow> bool" where
  "intr_on me s \<longleftrightarrow> readeflags me s AND FL_IF \<noteq> 0"

definition mycpu :: "nat \<Rightarrow> smp \<Rightarrow> (smp, nat) outcome" where
  "mycpu me s =
     (if readeflags me s AND FL_IF \<noteq> 0
      then Panic (''mycpu called with interrupts enabled'' @ [CHR 0x0A])
      else case find_idx (\<lambda>c. apicid c = apic s me) (cpus s) of
             Some i \<Rightarrow> Ok i s
           | None \<Rightarrow> Panic (''unknown apicid'' @ [CHR 0x0A]))"

definition upd_cpu :: "nat \<Rightarrow> cpu \<Rightarrow> smp \<Rightarrow> smp" where
  "upd_cpu i c s = s\<lparr>cpus := (cpus s)[i := c]\<rparr>"

definition upd_lock :: "lock_id \<Rightarrow> spinlock \<Rightarrow> smp \<Rightarrow> smp" where
  "upd_lock lk l s = s\<lparr>locks := (locks s)(lk := l)\<rparr>"

subsection \<open>Operations\<close>

definition initlock :: "lock_id \<Rightarrow> string \<Rightarrow> smp \<Rightarrow> smp" where
  "initlock lk nm s = upd_lock lk ((locks s lk)\<lparr>lname := nm, locked := 0, lcpu := None\<rparr>) s"

definition pushcli :: "nat \<Rightarrow> smp \<Rightarrow> (smp, unit) outcome" where
  "pushcli me s =
     (let fl = readeflags me s; s = cli me s in
      bnd (mycpu me s) (\<lambda>i s.
        let c = cpus s ! i;
            c = (if ncli c = 0 then c\<lparr>intena := fl AND FL_IF\<rparr> else c)
        in Ok () (upd_cpu i (c\<lparr>ncli := ncli c + 1\<rparr>) s)))"

definition popcli :: "nat \<Rightarrow> smp \<Rightarrow> (smp, unit) outcome" where
  "popcli me s =
     (if readeflags me s AND FL_IF \<noteq> 0 then Panic ''popcli - interruptible''
      else bnd (mycpu me s) (\<lambda>i s.
        let c = (cpus s ! i)\<lparr>ncli := ncli (cpus s ! i) - 1\<rparr>; s = upd_cpu i c s in
        if ncli c <s 0 then Panic ''popcli''
        else if ncli c = 0 \<and> intena c \<noteq> 0 then Ok () (sti me s)
        else Ok () s))"

definition holding :: "nat \<Rightarrow> lock_id \<Rightarrow> smp \<Rightarrow> (smp, bool) outcome" where
  "holding me lk s =
     bnd (pushcli me s) (\<lambda>_ s.
     bnd (if locked (locks s lk) = 0 then Ok False s
          else bnd (mycpu me s) (\<lambda>i s. Ok (lcpu (locks s lk) = Some i) s)) (\<lambda>r s.
     bnd (popcli me s) (\<lambda>_ s. Ok r s)))"

text \<open>Record the call stack by following the saved %ebp chain, at most ten frames.\<close>

fun pcs_walk :: "(uint \<Rightarrow> uint) \<Rightarrow> nat \<Rightarrow> uint \<Rightarrow> uint list" where
  "pcs_walk m 0 ebp = []"
| "pcs_walk m (Suc n) ebp =
     (if ebp = 0 \<or> ebp < KERNBASE \<or> ebp = 0xffffffff then replicate (Suc n) 0
      else m (ebp + 4) # pcs_walk m n (m ebp))"

definition getcallerpcs :: "(uint \<Rightarrow> uint) \<Rightarrow> uint \<Rightarrow> uint list" where
  "getcallerpcs m v = pcs_walk m 10 (v - 8)"

definition xchg :: "lock_id \<Rightarrow> uint \<Rightarrow> smp \<Rightarrow> uint \<times> smp" where
  "xchg lk v s = (locked (locks s lk), upd_lock lk ((locks s lk)\<lparr>locked := v\<rparr>) s)"

definition acquire_enter :: "nat \<Rightarrow> lock_id \<Rightarrow> smp \<Rightarrow> (smp, unit) outcome" where
  "acquire_enter me lk s =
     bnd (pushcli me s) (\<lambda>_ s.
     bnd (holding me lk s) (\<lambda>h s. if h then Panic ''acquire'' else Ok () s))"

definition acquire_record :: "nat \<Rightarrow> lock_id \<Rightarrow> uint \<Rightarrow> smp \<Rightarrow> (smp, unit) outcome" where
  "acquire_record me lk v s =
     bnd (mycpu me s) (\<lambda>i s.
       Ok () (upd_lock lk ((locks s lk)\<lparr>lcpu := Some i, pcs := getcallerpcs (kwords s) v\<rparr>) s))"

text \<open>
  The whole of \<open>acquire\<close>; \<open>v\<close> is the address of its argument on the stack. When the lock word
  is already non-zero, \<open>xchg\<close> keeps reading non-zero until another processor clears it: \<open>Spin\<close>.
\<close>

definition acquire :: "nat \<Rightarrow> uint \<Rightarrow> lock_id \<Rightarrow> smp \<Rightarrow> (smp, unit) outcome" where
  "acquire me v lk s =
     bnd (acquire_enter me lk s) (\<lambda>_ s.
       let (old, s) = xchg lk 1 s in
       if old \<noteq> 0 then Spin else acquire_record me lk v s)"

definition release_enter :: "nat \<Rightarrow> lock_id \<Rightarrow> smp \<Rightarrow> (smp, unit) outcome" where
  "release_enter me lk s =
     bnd (holding me lk s) (\<lambda>h s.
       if \<not> h then Panic ''release''
       else Ok () (upd_lock lk ((locks s lk)\<lparr>pcs := (pcs (locks s lk))[0 := 0], lcpu := None\<rparr>) s))"

definition release_clear :: "nat \<Rightarrow> lock_id \<Rightarrow> smp \<Rightarrow> (smp, unit) outcome" where
  "release_clear me lk s = popcli me (upd_lock lk ((locks s lk)\<lparr>locked := 0\<rparr>) s)"

definition release :: "nat \<Rightarrow> lock_id \<Rightarrow> smp \<Rightarrow> (smp, unit) outcome" where
  "release me lk s = bnd (release_enter me lk s) (\<lambda>_ s. release_clear me lk s)"

subsection \<open>Interrupt flag bits\<close>

lemma FL_IF_exp: "FL_IF = 2 ^ 9"
  by (simp add: FL_IF_def)

lemma FL_IF_bit: "x AND FL_IF = 0 \<longleftrightarrow> \<not> bit x 9"
  unfolding FL_IF_exp by (rule and_exp_eq_0_iff_not_bit)

lemma bit_FL_IF [simp]: "bit FL_IF n \<longleftrightarrow> n = 9"
  unfolding FL_IF_exp by (auto simp: bit_exp_iff simp del: power_numeral)

lemma if_cleared [simp]: "(x AND NOT FL_IF) AND FL_IF = 0"
  by (simp add: FL_IF_bit bit_simps)

lemma if_set [simp]: "(x OR FL_IF) AND FL_IF \<noteq> 0"
  by (simp only: FL_IF_bit) (simp add: bit_simps)

lemma if_clear_off: "x AND FL_IF = 0 \<Longrightarrow> x AND NOT FL_IF = x"
  by (rule bit_word_eqI) (auto simp: FL_IF_bit bit_simps)

lemma if_clear_set: "x AND FL_IF \<noteq> 0 \<Longrightarrow> (x AND NOT FL_IF) OR FL_IF = x"
  by (rule bit_word_eqI) (auto simp: FL_IF_bit bit_simps)

subsection \<open>The 32-bit nesting depth\<close>

lemma sint_succ: "sint (w :: cint) < 2147483647 \<Longrightarrow> sint (w + 1) = sint w + 1"
  using sint_range32 [of w] by (simp add: sint_word_ariths signed_take_bit_int_eq_self)

lemma sint_pred: "- 2147483648 < sint (w :: cint) \<Longrightarrow> sint (w - 1) = sint w - 1"
  using sint_range32 [of w] by (simp add: sint_word_ariths signed_take_bit_int_eq_self)

lemma sint_max: "sint (w :: cint) = 2147483647 \<Longrightarrow> w = 0x7FFFFFFF"
  by (rule signed_word_eqI) simp

lemma sint_lt_max: "(w :: cint) \<noteq> 0x7FFFFFFF \<Longrightarrow> sint w < 2147483647"
  using sint_max [of w] sint_range32(2) [of w] by linarith

lemma sint_pos_ne: "0 < sint (w :: cint) \<Longrightarrow> w \<noteq> 0"
  by auto

subsection \<open>The processor invariant\<close>

text \<open>
  Every processor finds its own \<open>struct cpu\<close> through its APIC id, its nesting depth is not
  negative, and while it is positive the processor takes no interrupts.
\<close>

definition own_ids :: "smp \<Rightarrow> bool" where
  "own_ids s \<longleftrightarrow> distinct (map apicid (cpus s)) \<and>
     (\<forall>i < length (cpus s). apicid (cpus s ! i) = apic s i)"

definition smp_ok :: "smp \<Rightarrow> bool" where
  "smp_ok s \<longleftrightarrow> own_ids s \<and>
     (\<forall>i < length (cpus s). 0 \<le> sint (ncli (cpus s ! i)) \<and> (ncli (cpus s ! i) \<noteq> 0 \<longrightarrow> \<not> intr_on i s))"

lemma smp_okD:
  assumes "smp_ok s"
  shows "own_ids s" and "i < length (cpus s) \<Longrightarrow> 0 \<le> sint (ncli (cpus s ! i))"
    and "i < length (cpus s) \<Longrightarrow> ncli (cpus s ! i) \<noteq> 0 \<Longrightarrow> eflags s i AND FL_IF = 0"
  using assms by (auto simp: smp_ok_def intr_on_def readeflags_def)

lemma find_own_cpu:
  assumes "own_ids s" and "me < length (cpus s)"
  shows "find_idx (\<lambda>c. apicid c = apic s me) (cpus s) = Some me"
proof -
  have "apicid (cpus s ! j) \<noteq> apic s me" if "j < me" for j
  proof
    assume "apicid (cpus s ! j) = apic s me"
    then have "map apicid (cpus s) ! j = map apicid (cpus s) ! me"
      using that assms by (simp add: own_ids_def)
    then show False
      using that assms nth_eq_iff_index_eq [of "map apicid (cpus s)" j me] by (simp add: own_ids_def)
  qed
  then show ?thesis using assms by (simp add: find_idx_Some_iff own_ids_def)
qed

lemma mycpu_own:
  "own_ids s \<Longrightarrow> me < length (cpus s) \<Longrightarrow> eflags s me AND FL_IF = 0 \<Longrightarrow> mycpu me s = Ok me s"
  by (simp add: mycpu_def readeflags_def find_own_cpu)

lemma cli_simps [simp]: "cpus (cli me s) = cpus s" "locks (cli me s) = locks s"
  "eflags (cli me s) me AND FL_IF = 0"
  by (simp_all add: cli_def)

lemma ncli_noop: "ncli c = 0 \<Longrightarrow> c\<lparr>intena := x, ncli := 0\<rparr> = c\<lparr>intena := x\<rparr>"
  by (cases c) simp

lemma own_ids_frame [simp]: "own_ids (cli me s) = own_ids s" "own_ids (sti me s) = own_ids s"
  "own_ids (upd_lock lk l s) = own_ids s"
  by (simp_all add: own_ids_def cli_def sti_def upd_lock_def)

lemma own_ids_upd_cpu:
  assumes "own_ids s" and "me < length (cpus s)" and "apicid c = apicid (cpus s ! me)"
  shows "own_ids (upd_cpu me c s)"
proof -
  have "map apicid ((cpus s)[me := c]) = map apicid (cpus s)"
    using assms(2,3) by (simp add: map_update list_update_same_conv)
  then show ?thesis using assms by (auto simp: own_ids_def upd_cpu_def nth_list_update)
qed

lemma smp_ok_cli: "smp_ok s \<Longrightarrow> smp_ok (cli me s)"
  by (auto simp: smp_ok_def intr_on_def readeflags_def) (auto simp: cli_def split: if_splits)

lemma smp_ok_upd_lock [simp]: "smp_ok (upd_lock lk l s) = smp_ok s"
  by (simp add: smp_ok_def intr_on_def readeflags_def) (simp add: upd_lock_def)

lemma smp_ok_upd_cpu:
  assumes "smp_ok s" and "me < length (cpus s)" and "apicid c = apicid (cpus s ! me)"
    and "0 \<le> sint (ncli c)" and "ncli c \<noteq> 0 \<Longrightarrow> eflags s me AND FL_IF = 0"
  shows "smp_ok (upd_cpu me c s)"
  using assms own_ids_upd_cpu [of s me c] smp_okD [OF assms(1)]
  by (auto simp: smp_ok_def intr_on_def readeflags_def)
    (auto simp: upd_cpu_def nth_list_update split: if_splits)

subsection \<open>Matched pushcli and popcli\<close>

text \<open>What \<open>pushcli\<close> remembers, and the state it leaves.\<close>

definition saved_intena :: "nat \<Rightarrow> smp \<Rightarrow> uint" where
  "saved_intena me s =
     (if ncli (cpus s ! me) = 0 then eflags s me AND FL_IF else intena (cpus s ! me))"

definition pushed :: "nat \<Rightarrow> smp \<Rightarrow> smp" where
  "pushed me s = upd_cpu me ((cpus s ! me)\<lparr>intena := saved_intena me s,
     ncli := ncli (cpus s ! me) + 1\<rparr>) (cli me s)"

definition noted :: "nat \<Rightarrow> smp \<Rightarrow> smp" where
  "noted me s = upd_cpu me ((cpus s ! me)\<lparr>intena := saved_intena me s\<rparr>) s"

lemma pushcli_eq:
  assumes "own_ids s" and "me < length (cpus s)"
  shows "pushcli me s = Ok () (pushed me s)"
proof -
  have "mycpu me (cli me s) = Ok me (cli me s)"
    using assms by (simp add: mycpu_own)
  then show ?thesis
    by (simp add: pushcli_def pushed_def saved_intena_def readeflags_def Let_def cli_def upd_cpu_def)
qed

lemma own_ids_pushed: "own_ids s \<Longrightarrow> me < length (cpus s) \<Longrightarrow> own_ids (pushed me s)"
  unfolding pushed_def by (rule own_ids_upd_cpu) auto

lemma smp_ok_pushed:
  "smp_ok s \<Longrightarrow> me < length (cpus s) \<Longrightarrow> sint (ncli (cpus s ! me)) < 2147483647 \<Longrightarrow> smp_ok (pushed me s)"
  unfolding pushed_def
  by (rule smp_ok_upd_cpu) (auto simp: smp_ok_cli smp_okD sint_succ)

lemma popcli_eq:
  assumes "own_ids s" and "me < length (cpus s)" and "eflags s me AND FL_IF = 0"
  shows "popcli me s =
    (let s1 = upd_cpu me ((cpus s ! me)\<lparr>ncli := ncli (cpus s ! me) - 1\<rparr>) s in
     if ncli (cpus s ! me) - 1 <s 0 then Panic ''popcli''
     else Ok () (if ncli (cpus s ! me) = 1 \<and> intena (cpus s ! me) \<noteq> 0 then sti me s1 else s1))"
  using assms by (auto simp: popcli_def mycpu_own readeflags_def Let_def)

text \<open>
  \<open>popcli\<close> undoes \<open>pushcli\<close>, also when the increment wrapped around: the decrement wraps back.
\<close>

lemma popcli_pushed:
  assumes "smp_ok s" and "me < length (cpus s)"
  shows "popcli me (pushed me s) = Ok () (noted me s)"
proof -
  have ok: "own_ids (pushed me s)" and len: "me < length (cpus (pushed me s))"
    and q: "eflags (pushed me s) me AND FL_IF = 0"
    using assms smp_okD(1) [of s]
    by (simp add: own_ids_pushed, simp_all add: pushed_def upd_cpu_def cli_def)
  have n: "ncli (cpus (pushed me s) ! me) = ncli (cpus s ! me) + 1"
    and i: "intena (cpus (pushed me s) ! me) = saved_intena me s"
    using assms by (simp_all add: pushed_def upd_cpu_def cli_def)
  have nn: "\<not> ncli (cpus s ! me) <s 0"
    using smp_okD(2) [OF assms] by (simp add: word_sless_alt)
  show ?thesis
  proof (cases "ncli (cpus s ! me) = 0 \<and> eflags s me AND FL_IF \<noteq> 0")
    case True
    then show ?thesis using assms n i
      by (simp add: popcli_eq [OF ok len q])
        (simp add: pushed_def noted_def upd_cpu_def sti_def cli_def saved_intena_def if_clear_set ncli_noop)
  next
    case False
    then have off: "eflags s me AND FL_IF = 0"
      using smp_okD(3) [OF assms] by fastforce
    then show ?thesis using assms n i False nn
      by (simp add: popcli_eq [OF ok len q])
        (auto simp: pushed_def noted_def upd_cpu_def sti_def cli_def saved_intena_def if_clear_off)
  qed
qed

lemma noted_nested: "me < length (cpus s) \<Longrightarrow> ncli (cpus s ! me) \<noteq> 0 \<Longrightarrow> noted me s = s"
  by (simp add: noted_def upd_cpu_def saved_intena_def)

subsection \<open>Who holds a lock\<close>

definition held_by :: "nat \<Rightarrow> smp \<Rightarrow> lock_id set" where
  "held_by me s = {lk. locked (locks s lk) \<noteq> 0 \<and> lcpu (locks s lk) = Some me}"

text \<open>A processor's nesting depth is at least the number of locks it holds.\<close>

definition cpu_sane :: "nat \<Rightarrow> smp \<Rightarrow> bool" where
  "cpu_sane me s \<longleftrightarrow> smp_ok s \<and> me < length (cpus s) \<and> finite (held_by me s) \<and>
     int (card (held_by me s)) \<le> sint (ncli (cpus s ! me))"

lemma pushed_simps [simp]:
  "locks (pushed me s) = locks s" "length (cpus (pushed me s)) = length (cpus s)"
  "held_by me' (pushed me s) = held_by me' s" "kwords (pushed me s) = kwords s"
  by (simp_all add: pushed_def upd_cpu_def cli_def held_by_def)

lemma pushed_depth:
  "me < length (cpus s) \<Longrightarrow> ncli (cpus (pushed me s) ! me) = ncli (cpus s ! me) + 1"
  by (simp add: pushed_def upd_cpu_def)

lemma pushed_quiet: "eflags (pushed me s) me AND FL_IF = 0"
  by (simp add: pushed_def upd_cpu_def cli_def)

lemma holding_wraps:
  assumes "own_ids s" and "me < length (cpus s)" and "ncli (cpus s ! me) <s 0"
  shows "holding me lk s = Panic ''popcli''"
  using assms
  by (auto simp: holding_def pushcli_eq popcli_eq mycpu_own own_ids_pushed pushed_quiet pushed_depth Let_def)

lemma holding_eq:
  assumes "smp_ok s" and "me < length (cpus s)"
  shows "holding me lk s = Ok (lk \<in> held_by me s) (noted me s)"
  using assms smp_okD(1) [OF assms(1)]
  by (auto simp: holding_def pushcli_eq popcli_pushed mycpu_own own_ids_pushed pushed_quiet held_by_def)

text \<open>
  \<open>acquire\<close> on a processor whose depth is already the largest \<open>int\<close> does not get past its own
  \<open>holding\<close> check: the depth has wrapped to a negative number and \<open>popcli\<close> panics.
\<close>

lemma acquire_enter_eq:
  assumes "smp_ok s" and "me < length (cpus s)"
  shows "acquire_enter me lk s =
    (if ncli (cpus s ! me) = 0x7FFFFFFF then Panic ''popcli''
     else if lk \<in> held_by me s then Panic ''acquire'' else Ok () (pushed me s))"
proof (cases "ncli (cpus s ! me) = 0x7FFFFFFF")
  case True
  then have "ncli (cpus (pushed me s) ! me) <s 0"
    using assms by (simp add: pushed_depth word_sless_alt)
  then show ?thesis using True assms smp_okD(1) [OF assms(1)]
    by (simp add: acquire_enter_def pushcli_eq holding_wraps own_ids_pushed)
next
  case False
  then have lt: "sint (ncli (cpus s ! me)) < 2147483647" by (rule sint_lt_max)
  then have "0 < sint (ncli (cpus (pushed me s) ! me))"
    using assms smp_okD(2) [OF assms] by (simp add: pushed_depth sint_succ)
  then have "ncli (cpus (pushed me s) ! me) \<noteq> 0" by (rule sint_pos_ne)
  then show ?thesis using assms lt False smp_okD(1) [OF assms(1)]
    by (simp add: acquire_enter_def pushcli_eq holding_eq smp_ok_pushed noted_nested)
qed

lemma depth_below_max:
  "smp_ok s \<Longrightarrow> me < length (cpus s) \<Longrightarrow> acquire_enter me lk s = Ok u t \<Longrightarrow>
   sint (ncli (cpus s ! me)) < 2147483647"
  by (rule sint_lt_max) (auto simp: acquire_enter_eq)

lemma acquire_eq:
  assumes "smp_ok s" and "me < length (cpus s)"
  shows "acquire me v lk s =
    (if ncli (cpus s ! me) = 0x7FFFFFFF then Panic ''popcli''
     else if lk \<in> held_by me s then Panic ''acquire''
     else if locked (locks s lk) \<noteq> 0 then Spin
     else Ok () (upd_lock lk ((locks s lk)\<lparr>locked := 1, lcpu := Some me,
                   pcs := getcallerpcs (kwords s) v\<rparr>) (pushed me s)))"
proof -
  have "mycpu me (upd_lock lk l (pushed me s)) = Ok me (upd_lock lk l (pushed me s))" for l
    using assms smp_okD(1) [OF assms(1)] by (intro mycpu_own)
      (simp add: own_ids_pushed, simp add: upd_lock_def, simp add: upd_lock_def pushed_quiet)
  then show ?thesis using assms
    by (simp add: acquire_def acquire_enter_eq xchg_def acquire_record_def)
      (simp add: upd_lock_def)
qed

lemma sti_simps [simp]: "cpus (sti me s) = cpus s" "locks (sti me s) = locks s"
  "held_by i (sti me s) = held_by i s"
  by (simp_all add: sti_def held_by_def)

lemma smp_ok_sti: "smp_ok s \<Longrightarrow> ncli (cpus s ! me) = 0 \<Longrightarrow> smp_ok (sti me s)"
  by (auto simp: smp_ok_def intr_on_def readeflags_def) (auto simp: sti_def split: if_splits)

text \<open>\<open>popcli\<close> on a processor with positive depth.\<close>

lemma popcli_nested:
  assumes "smp_ok s" and "me < length (cpus s)" and "0 < sint (ncli (cpus s ! me))"
  shows "popcli me s =
    (let s1 = upd_cpu me ((cpus s ! me)\<lparr>ncli := ncli (cpus s ! me) - 1\<rparr>) s in
     Ok () (if ncli (cpus s ! me) = 1 \<and> intena (cpus s ! me) \<noteq> 0 then sti me s1 else s1))"
  using assms(3) popcli_eq [OF smp_okD(1) [OF assms(1)] assms(2) smp_okD(3) [OF assms(1,2) sint_pos_ne [OF assms(3)]]]
  by (simp add: word_sless_alt sint_pred Let_def)

lemma popcli_returns:
  assumes "smp_ok s" and "me < length (cpus s)" and "0 < sint (ncli (cpus s ! me))"
  shows "returns (popcli me s) (\<lambda>_ t. smp_ok t \<and> locks t = locks s \<and>
     length (cpus t) = length (cpus s) \<and> sint (ncli (cpus t ! me)) = sint (ncli (cpus s ! me)) - 1)"
proof -
  define s1 where "s1 = upd_cpu me ((cpus s ! me)\<lparr>ncli := ncli (cpus s ! me) - 1\<rparr>) s"
  have ok: "smp_ok s1"
    unfolding s1_def using assms smp_okD(3) [OF assms(1,2) sint_pos_ne [OF assms(3)]]
    by (intro smp_ok_upd_cpu) (auto simp: sint_pred)
  have s1: "ncli (cpus s1 ! me) = ncli (cpus s ! me) - 1" "locks s1 = locks s"
    "length (cpus s1) = length (cpus s)"
    using assms by (simp_all add: s1_def upd_cpu_def)
  have "popcli me s = Ok () (if ncli (cpus s ! me) = 1 \<and> intena (cpus s ! me) \<noteq> 0 then sti me s1 else s1)"
    by (simp add: popcli_nested [OF assms] s1_def Let_def)
  then show ?thesis using ok s1 assms(3) by (simp add: smp_ok_sti sint_pred)
qed

lemma held_by_upd_lock: "held_by me (upd_lock lk l s) =
  (if locked l \<noteq> 0 \<and> lcpu l = Some me then insert lk (held_by me s) else held_by me s - {lk})"
  by (auto simp: held_by_def upd_lock_def)

lemma upd_lock_simps [simp]: "cpus (upd_lock lk l s) = cpus s"
  "locks (upd_lock lk l s) = (locks s)(lk := l)" "eflags (upd_lock lk l s) = eflags s"
  by (simp_all add: upd_lock_def)

lemma release_eq:
  assumes "smp_ok s" and "me < length (cpus s)" and "0 < sint (ncli (cpus s ! me))"
  shows "release me lk s =
    (if lk \<notin> held_by me s then Panic ''release''
     else popcli me (upd_lock lk ((locks s lk)\<lparr>pcs := (pcs (locks s lk))[0 := 0],
            lcpu := None, locked := 0\<rparr>) s))"
  using assms sint_pos_ne [OF assms(3)]
  by (simp add: release_def release_enter_def holding_eq noted_nested release_clear_def)
    (simp add: upd_lock_def)

text \<open>The code of spinlock.c obeys the laws every other component relies on.\<close>

interpretation spl: spin_locking "acquire me v" "release me" "held_by me" "cpu_sane me" for me v
proof unfold_locales
  fix s l u t assume sane: "cpu_sane me s" and run: "acquire me v l s = Ok u t"
  then have ok: "smp_ok s" and me: "me < length (cpus s)" by (auto simp: cpu_sane_def)
  with run have free: "l \<notin> held_by me s"
    and t: "t = upd_lock l ((locks s l)\<lparr>locked := 1, lcpu := Some me,
                   pcs := getcallerpcs (kwords s) v\<rparr>) (pushed me s)"
    and lt: "sint (ncli (cpus s ! me)) < 2147483647"
    by (auto simp: acquire_eq sint_lt_max split: if_splits)
  then show "l \<notin> held_by me s \<and> held_by me t = insert l (held_by me s) \<and> cpu_sane me t"
    using sane ok me by (simp add: held_by_upd_lock cpu_sane_def smp_ok_pushed pushed_depth sint_succ)
next
  fix s l assume "cpu_sane me s" and "l \<in> held_by me s"
  then show "\<exists>msg. acquire me v l s = Panic msg" by (simp add: acquire_eq cpu_sane_def)
next
  fix s l assume sane: "cpu_sane me s" and l: "l \<in> held_by me s"
  then have ok: "smp_ok s" and me: "me < length (cpus s)" and fin: "finite (held_by me s)"
    by (auto simp: cpu_sane_def)
  from l fin have "0 < card (held_by me s)" by (auto simp: card_gt_0_iff)
  with sane have pos: "0 < sint (ncli (cpus s ! me))" by (simp add: cpu_sane_def)
  let ?s1 = "upd_lock l ((locks s l)\<lparr>pcs := (pcs (locks s l))[0 := 0],
            lcpu := None, locked := 0\<rparr>) s"
  have "returns (popcli me ?s1) (\<lambda>_ t. smp_ok t \<and> locks t = locks ?s1 \<and>
     length (cpus t) = length (cpus s) \<and> sint (ncli (cpus t ! me)) = sint (ncli (cpus s ! me)) - 1)"
    using popcli_returns [of ?s1 me] ok me pos by simp
  moreover have "held_by me t = held_by me s - {l}" if "locks t = locks ?s1" for t
    using that by (auto simp: held_by_def)
  ultimately show "returns (release me l s) (\<lambda>_ t. held_by me t = held_by me s - {l} \<and> cpu_sane me t)"
    using ok me pos l fin sane \<open>0 < card (held_by me s)\<close>
    by (auto simp: release_eq returns_iff cpu_sane_def)
next
  fix s l assume sane: "cpu_sane me s" and "l \<notin> held_by me s"
  then show "release me l s = Panic ''release''"
    by (simp add: release_def release_enter_def holding_eq cpu_sane_def)
qed

subsection \<open>Interleaved processors\<close>

text \<open>
  A machine in which any processor may move at any time, one shared-memory access per step:
  \<open>acquire\<close> is its entry (pushcli and the \<open>holding\<close> check), any number of failing \<open>xchg\<close>, one
  that succeeds, and the recording of the owner; \<open>release\<close> is its entry, which clears the owner,
  and the store that clears the lock word. \<open>inside\<close> is the set of locks whose \<open>xchg\<close> a processor
  won and whose word it has not yet cleared: its critical sections.
\<close>

datatype phase = Idle | Spinning lock_id | Recording lock_id | Releasing lock_id

record machine =
  mem :: smp
  ph :: "nat \<Rightarrow> phase"
  inside :: "nat \<Rightarrow> lock_id set"

inductive mstep :: "machine \<Rightarrow> machine \<Rightarrow> bool" where
  enter: "me < length (cpus (mem m)) \<Longrightarrow> ph m me = Idle \<Longrightarrow> acquire_enter me lk (mem m) = Ok u s \<Longrightarrow>
    mstep m (m\<lparr>mem := s, ph := (ph m)(me := Spinning lk)\<rparr>)"
| spin: "ph m me = Spinning lk \<Longrightarrow> xchg lk 1 (mem m) = (old, s) \<Longrightarrow> old \<noteq> 0 \<Longrightarrow>
    mstep m (m\<lparr>mem := s\<rparr>)"
| win: "ph m me = Spinning lk \<Longrightarrow> xchg lk 1 (mem m) = (0, s) \<Longrightarrow>
    mstep m (m\<lparr>mem := s, ph := (ph m)(me := Recording lk),
               inside := (inside m)(me := insert lk (inside m me))\<rparr>)"
| record_owner: "ph m me = Recording lk \<Longrightarrow> acquire_record me lk v (mem m) = Ok u s \<Longrightarrow>
    mstep m (m\<lparr>mem := s, ph := (ph m)(me := Idle)\<rparr>)"
| leave: "me < length (cpus (mem m)) \<Longrightarrow> ph m me = Idle \<Longrightarrow> release_enter me lk (mem m) = Ok u s \<Longrightarrow>
    mstep m (m\<lparr>mem := s, ph := (ph m)(me := Releasing lk)\<rparr>)"
| clear: "ph m me = Releasing lk \<Longrightarrow> release_clear me lk (mem m) = Ok u s \<Longrightarrow>
    mstep m (m\<lparr>mem := s, ph := (ph m)(me := Idle),
               inside := (inside m)(me := inside m me - {lk})\<rparr>)"

definition minit :: "machine \<Rightarrow> bool" where
  "minit m \<longleftrightarrow> smp_ok (mem m) \<and> (\<forall>me. ph m me = Idle) \<and> (\<forall>me. inside m me = {}) \<and>
     (\<forall>lk. locked (locks (mem m) lk) = 0 \<and> lcpu (locks (mem m) lk) = None) \<and>
     (\<forall>i < length (cpus (mem m)). ncli (cpus (mem m) ! i) = 0)"

inductive mreach :: "machine \<Rightarrow> bool" where
  mreach_init: "minit m \<Longrightarrow> mreach m"
| mreach_step: "mreach m \<Longrightarrow> mstep m m' \<Longrightarrow> mreach m'"

text \<open>
  The invariant: a lock is inside exactly one processor's section precisely when its word is
  non-zero, and the recorded owner, when there is one, is that processor.
\<close>

definition depth_of :: "machine \<Rightarrow> nat \<Rightarrow> int" where
  "depth_of m me = int (card (inside m me)) + (case ph m me of Spinning _ \<Rightarrow> 1 | _ \<Rightarrow> 0)"

definition minv :: "machine \<Rightarrow> bool" where
  "minv m \<longleftrightarrow> smp_ok (mem m) \<and>
     (\<forall>me lk. ph m me \<noteq> Idle \<or> lk \<in> inside m me \<longrightarrow> me < length (cpus (mem m))) \<and>
     (\<forall>me. finite (inside m me)) \<and>
     (\<forall>i < length (cpus (mem m)). sint (ncli (cpus (mem m) ! i)) = depth_of m i) \<and>
     (\<forall>lk. locked (locks (mem m) lk) = 0 \<longrightarrow> (\<forall>me. lk \<notin> inside m me)) \<and>
     (\<forall>lk i j. lk \<in> inside m i \<and> lk \<in> inside m j \<longrightarrow> i = j) \<and>
     (\<forall>lk i. lcpu (locks (mem m) lk) = Some i \<longleftrightarrow>
        lk \<in> inside m i \<and> ph m i \<noteq> Recording lk \<and> ph m i \<noteq> Releasing lk) \<and>
     (\<forall>lk i. ph m i = Spinning lk \<longrightarrow> lk \<notin> inside m i) \<and>
     (\<forall>lk i. ph m i = Recording lk \<or> ph m i = Releasing lk \<longrightarrow> lk \<in> inside m i)"

lemma minv_init: "minit m \<Longrightarrow> minv m"
  by (auto simp: minit_def minv_def depth_of_def)

lemma minvD:
  assumes "minv m"
  shows "smp_ok (mem m)" "finite (inside m me)"
    "ph m me \<noteq> Idle \<Longrightarrow> me < length (cpus (mem m))"
    "lk \<in> inside m me \<Longrightarrow> me < length (cpus (mem m))"
    "i < length (cpus (mem m)) \<Longrightarrow> sint (ncli (cpus (mem m) ! i)) = depth_of m i"
    "locked (locks (mem m) lk) = 0 \<Longrightarrow> lk \<notin> inside m me"
    "lk \<in> inside m i \<Longrightarrow> lk \<in> inside m j \<Longrightarrow> i = j"
    "lcpu (locks (mem m) lk) = Some i \<longleftrightarrow>
       lk \<in> inside m i \<and> ph m i \<noteq> Recording lk \<and> ph m i \<noteq> Releasing lk"
    "ph m i = Spinning lk \<Longrightarrow> lk \<notin> inside m i"
    "ph m i = Recording lk \<Longrightarrow> lk \<in> inside m i" "ph m i = Releasing lk \<Longrightarrow> lk \<in> inside m i"
  using assms unfolding minv_def by blast+

lemma minv_held: "minv m \<Longrightarrow> ph m me = Idle \<Longrightarrow> lk \<in> held_by me (mem m) \<longleftrightarrow> lk \<in> inside m me"
  by (auto simp: minv_def held_by_def)

lemma minv_depth:
  assumes "minv m" and "lk \<in> inside m me"
  shows "0 < sint (ncli (cpus (mem m) ! me))"
proof -
  have "0 < card (inside m me)" using minvD(2) [OF assms(1)] assms(2) card_gt_0_iff by blast
  then show ?thesis using minvD(4,5) [OF assms(1)] assms(2)
    by (simp add: depth_of_def split: phase.splits)
qed

text \<open>
  One lemma carries all six rules: the moving processor \<open>me\<close> works on \<open>lk\<close>; the other
  processors, the other locks and the depth of the other processors are as before.
\<close>

lemma minv_move:
  assumes m: "minv m" and me: "me < length (cpus (mem m))"
    and s: "smp_ok s" "length (cpus s) = length (cpus (mem m))"
    and others: "\<And>i. i \<noteq> me \<Longrightarrow> ncli (cpus s ! i) = ncli (cpus (mem m) ! i)"
    and locks: "\<And>l. l \<noteq> lk \<Longrightarrow> locks s l = locks (mem m) l"
    and A: "A - {lk} = inside m me - {lk}"
    and depth: "sint (ncli (cpus s ! me)) = int (card A) + (case p of Spinning _ \<Rightarrow> 1 | _ \<Rightarrow> 0)"
    and word: "locked (locks s lk) = 0 \<Longrightarrow> lk \<notin> A \<and> (\<forall>i. i \<noteq> me \<longrightarrow> lk \<notin> inside m i)"
    and sole: "\<And>i. lk \<in> A \<Longrightarrow> i \<noteq> me \<Longrightarrow> lk \<notin> inside m i"
    and owner: "lcpu (locks s lk) = Some me \<longleftrightarrow> lk \<in> A \<and> p \<noteq> Recording lk \<and> p \<noteq> Releasing lk"
    and owner': "\<And>i. i \<noteq> me \<Longrightarrow> lcpu (locks s lk) = Some i \<longleftrightarrow> lcpu (locks (mem m) lk) = Some i"
    and was: "ph m me = Idle \<or> ph m me = Spinning lk \<or> ph m me = Recording lk \<or> ph m me = Releasing lk"
    and p: "p = Idle \<or> p = Spinning lk \<and> lk \<notin> A \<or> (p = Recording lk \<or> p = Releasing lk) \<and> lk \<in> A"
  shows "minv (m\<lparr>mem := s, ph := (ph m)(me := p), inside := (inside m)(me := A)\<rparr>)"
proof -
  let ?m = "m\<lparr>mem := s, ph := (ph m)(me := p), inside := (inside m)(me := A)\<rparr>"
  have A': "l \<in> A \<longleftrightarrow> l \<in> inside m me" if "l \<noteq> lk" for l using A that by blast
  have "finite (A - {lk})" using minvD(2) [OF m, of me] by (simp add: A)
  then have fin: "finite A" by simp
  have d: "sint (ncli (cpus s ! i)) = depth_of ?m i" if "i < length (cpus s)" for i
    using that depth others [of i] minvD(5) [OF m, of i] s by (simp add: depth_of_def)
  show ?thesis
    unfolding minv_def
  proof (intro conjI allI impI, goal_cases)
    case 1 show ?case using s by simp
  next
    case (2 i l) then show ?case using minvD(3,4) [OF m] me s by (auto split: if_splits)
  next
    case (3 i) show ?case using fin minvD(2) [OF m] by simp
  next
    case (4 i) then show ?case using d by simp
  next
    case (5 l i)
    then show ?case using word locks [of l] minvD(6) [OF m, of l i] minvD(6) [OF m, of l me] A'
      by (cases "l = lk") auto
  next
    case (6 l i j)
    then have ij: "if i = me then l \<in> A else l \<in> inside m i" "if j = me then l \<in> A else l \<in> inside m j"
      by (simp_all split: if_splits)
    show ?case
    proof (cases "l = lk")
      case True
      then show ?thesis using ij sole minvD(7) [OF m, of lk i j] by metis
    next
      case False
      then have "l \<in> inside m i" "l \<in> inside m j" using ij A' by (simp_all split: if_splits)
      then show ?thesis by (rule minvD(7) [OF m])
    qed
  next
    case (7 l i)
    show ?case
    proof (cases "l = lk")
      case True
      then show ?thesis using owner owner' [of i] minvD(8) [OF m, of lk i] by auto
    next
      case False
      then show ?thesis using locks [of l] minvD(8) [OF m, of l i] A' [of l] p was by auto
    qed
  next
    case (8 l i) then show ?case using minvD(9) [OF m] p by (auto split: if_splits)
  next
    case (9 l i) then show ?case using minvD(10,11) [OF m] p by (auto split: if_splits)
  qed
qed

lemma minv_enter:
  assumes m: "minv m" and me: "me < length (cpus (mem m))" and idle: "ph m me = Idle"
    and run: "acquire_enter me lk (mem m) = Ok u s"
  shows "minv (m\<lparr>mem := s, ph := (ph m)(me := Spinning lk)\<rparr>)"
proof -
  note ok = minvD(1) [OF m]
  from run have s: "s = pushed me (mem m)" and "lk \<notin> held_by me (mem m)"
    by (auto simp: acquire_enter_eq [OF ok me] split: if_splits)
  then have out: "lk \<notin> inside m me" using minv_held [OF m idle] by simp
  note lt = depth_below_max [OF ok me run]
  have "minv (m\<lparr>mem := s, ph := (ph m)(me := Spinning lk), inside := (inside m)(me := inside m me)\<rparr>)"
  proof (rule minv_move [OF m me, where lk = lk])
    show "sint (ncli (cpus s ! me)) = int (card (inside m me)) + (case Spinning lk of Spinning _ \<Rightarrow> 1 | _ \<Rightarrow> 0)"
      using minvD(5) [OF m me] idle me by (simp add: s pushed_depth depth_of_def sint_succ [OF lt])
    show "ncli (cpus s ! i) = ncli (cpus (mem m) ! i)" if "i \<noteq> me" for i
      using that by (simp add: s pushed_def upd_cpu_def)
  qed (use out idle minvD(6,8) [OF m] ok me lt in \<open>auto simp: s smp_ok_pushed\<close>)
  then show ?thesis by simp
qed

lemma minv_spin:
  assumes m: "minv m" and sp: "ph m me = Spinning lk" and x: "xchg lk 1 (mem m) = (old, s)"
    and old: "old \<noteq> 0"
  shows "minv (m\<lparr>mem := s\<rparr>)"
proof -
  have me: "me < length (cpus (mem m))" using minvD(3) [OF m] sp by simp
  from x old have s: "s = upd_lock lk ((locks (mem m) lk)\<lparr>locked := 1\<rparr>) (mem m)"
    by (auto simp: xchg_def)
  have "minv (m\<lparr>mem := s, ph := (ph m)(me := Spinning lk), inside := (inside m)(me := inside m me)\<rparr>)"
  proof (rule minv_move [OF m me, where lk = lk])
    show "sint (ncli (cpus s ! me)) = int (card (inside m me)) + (case Spinning lk of Spinning _ \<Rightarrow> 1 | _ \<Rightarrow> 0)"
      using minvD(5) [OF m me] sp by (simp add: s depth_of_def)
  qed (use sp minvD(1,8,9) [OF m] in \<open>auto simp: s\<close>)
  then show ?thesis using sp by (simp add: fun_upd_idem)
qed

lemma minv_win:
  assumes m: "minv m" and sp: "ph m me = Spinning lk" and x: "xchg lk 1 (mem m) = (0, s)"
  shows "minv (m\<lparr>mem := s, ph := (ph m)(me := Recording lk),
               inside := (inside m)(me := insert lk (inside m me))\<rparr>)"
proof -
  have me: "me < length (cpus (mem m))" using minvD(3) [OF m] sp by simp
  from x have s: "s = upd_lock lk ((locks (mem m) lk)\<lparr>locked := 1\<rparr>) (mem m)"
    and free: "locked (locks (mem m) lk) = 0"
    by (auto simp: xchg_def)
  note out = minvD(6) [OF m free]
  show ?thesis
  proof (rule minv_move [OF m me, where lk = lk])
    show "sint (ncli (cpus s ! me)) = int (card (insert lk (inside m me))) +
        (case Recording lk of Spinning _ \<Rightarrow> 1 | _ \<Rightarrow> 0)"
      using minvD(5) [OF m me] sp out [of me] minvD(2) [OF m, of me] by (simp add: s depth_of_def)
  qed (use sp out minvD(1,8) [OF m] in \<open>auto simp: s\<close>)
qed

lemma minv_record:
  assumes m: "minv m" and rec: "ph m me = Recording lk"
    and run: "acquire_record me lk v (mem m) = Ok u s"
  shows "minv (m\<lparr>mem := s, ph := (ph m)(me := Idle)\<rparr>)"
proof -
  have me: "me < length (cpus (mem m))" and ins: "lk \<in> inside m me"
    using minvD(3,10) [OF m] rec by auto
  note ok = minvD(1) [OF m]
  have s: "s = upd_lock lk ((locks (mem m) lk)\<lparr>lcpu := Some me,
      pcs := getcallerpcs (kwords (mem m)) v\<rparr>) (mem m)"
    using run ok me smp_okD(1) [OF ok] smp_okD(3) [OF ok me sint_pos_ne [OF minv_depth [OF m ins]]]
    by (simp add: acquire_record_def mycpu_own)
  have "minv (m\<lparr>mem := s, ph := (ph m)(me := Idle), inside := (inside m)(me := inside m me)\<rparr>)"
  proof (rule minv_move [OF m me, where lk = lk])
    show "sint (ncli (cpus s ! me)) = int (card (inside m me)) + (case Idle of Spinning _ \<Rightarrow> 1 | _ \<Rightarrow> 0)"
      using minvD(5) [OF m me] rec by (simp add: s depth_of_def)
    show "lcpu (locks s lk) = Some i \<longleftrightarrow> lcpu (locks (mem m) lk) = Some i" if "i \<noteq> me" for i
      using that minvD(8) [OF m, of lk i] minvD(7) [OF m _ ins, of i] by (auto simp: s)
    show "lk \<notin> inside m i" if "i \<noteq> me" for i using that minvD(7) [OF m _ ins, of i] by auto
  qed (use rec ins minvD(1,6) [OF m] in \<open>auto simp: s\<close>)
  then show ?thesis by simp
qed

lemma minv_leave:
  assumes m: "minv m" and me: "me < length (cpus (mem m))" and idle: "ph m me = Idle"
    and run: "release_enter me lk (mem m) = Ok u s"
  shows "minv (m\<lparr>mem := s, ph := (ph m)(me := Releasing lk)\<rparr>)"
proof -
  note ok = minvD(1) [OF m]
  from run have "lk \<in> held_by me (mem m)"
    by (auto simp: release_enter_def holding_eq [OF ok me] split: if_splits)
  then have ins: "lk \<in> inside m me" using minv_held [OF m idle] by simp
  have s: "s = upd_lock lk ((locks (mem m) lk)\<lparr>pcs := (pcs (locks (mem m) lk))[0 := 0],
      lcpu := None\<rparr>) (mem m)"
    using run ok me sint_pos_ne [OF minv_depth [OF m ins]]
    by (simp add: release_enter_def holding_eq noted_nested split: if_splits)
  have "minv (m\<lparr>mem := s, ph := (ph m)(me := Releasing lk), inside := (inside m)(me := inside m me)\<rparr>)"
  proof (rule minv_move [OF m me, where lk = lk])
    show "sint (ncli (cpus s ! me)) = int (card (inside m me)) + (case Releasing lk of Spinning _ \<Rightarrow> 1 | _ \<Rightarrow> 0)"
      using minvD(5) [OF m me] idle by (simp add: s depth_of_def)
    show "lcpu (locks s lk) = Some i \<longleftrightarrow> lcpu (locks (mem m) lk) = Some i" if "i \<noteq> me" for i
      using that minvD(8) [OF m, of lk i] minvD(7) [OF m _ ins, of i] by (auto simp: s)
    show "lk \<notin> inside m i" if "i \<noteq> me" for i using that minvD(7) [OF m _ ins, of i] by auto
  qed (use idle ins minvD(1,6) [OF m] in \<open>auto simp: s\<close>)
  then show ?thesis by simp
qed

lemma minv_clear:
  assumes m: "minv m" and rel: "ph m me = Releasing lk" and run: "release_clear me lk (mem m) = Ok u s"
  shows "minv (m\<lparr>mem := s, ph := (ph m)(me := Idle), inside := (inside m)(me := inside m me - {lk})\<rparr>)"
proof -
  have me: "me < length (cpus (mem m))" and ins: "lk \<in> inside m me"
    using minvD(3,11) [OF m] rel by auto
  note ok = minvD(1) [OF m] and pos = minv_depth [OF m ins]
  let ?s = "upd_lock lk ((locks (mem m) lk)\<lparr>locked := 0\<rparr>) (mem m)"
  have s: "smp_ok s" "locks s = locks ?s" "length (cpus s) = length (cpus (mem m))"
    "sint (ncli (cpus s ! me)) = sint (ncli (cpus (mem m) ! me)) - 1"
    using popcli_returns [of ?s me] ok me pos run by (auto simp: release_clear_def)
  have card: "int (card (inside m me - {lk})) = int (card (inside m me)) - 1"
    using ins minvD(2) [OF m, of me] card_Suc_Diff1 [of "inside m me" lk] by simp
  show ?thesis
  proof (rule minv_move [OF m me s(1,3), where lk = lk])
    show "sint (ncli (cpus s ! me)) = int (card (inside m me - {lk})) + (case Idle of Spinning _ \<Rightarrow> 1 | _ \<Rightarrow> 0)"
      using minvD(5) [OF m me] rel card by (simp add: s depth_of_def)
    show "ncli (cpus s ! i) = ncli (cpus (mem m) ! i)" if "i \<noteq> me" for i
      using run that ok me pos
      by (auto simp: release_clear_def popcli_nested [of ?s me] Let_def upd_cpu_def split: if_splits)
    show "lk \<notin> inside m me - {lk} \<and> (\<forall>i. i \<noteq> me \<longrightarrow> lk \<notin> inside m i)"
      using minvD(7) [OF m _ ins] by blast
  qed (use rel minvD(8) [OF m, of lk me] in \<open>auto simp: s\<close>)
qed

lemma minv_step: "mstep m m' \<Longrightarrow> minv m \<Longrightarrow> minv m'"
proof (induction rule: mstep.induct)
  case enter then show ?case by (blast intro: minv_enter)
next
  case spin then show ?case by (blast intro: minv_spin)
next
  case win then show ?case by (blast intro: minv_win)
next
  case record_owner then show ?case by (blast intro: minv_record)
next
  case leave then show ?case by (blast intro: minv_leave)
next
  case clear then show ?case by (blast intro: minv_clear)
qed

lemma mreach_minv: "mreach m \<Longrightarrow> minv m"
  by (induction rule: mreach.induct) (blast intro: minv_init minv_step)+

subsection \<open>Properties\<close>

text \<open>
  C22. Mutual exclusion: on any number of processors whose acquire and release steps interleave in
  any order, two processors are never inside the section of the same lock, and the processor
  inside has interrupts off.
\<close>

theorem spin_mutual_exclusion:
  assumes "mreach m" "lk \<in> inside m i" "lk \<in> inside m j"
  shows "i = j \<and> \<not> intr_on i (mem m)"
proof -
  note inv = mreach_minv [OF assms(1)]
  have "i < length (cpus (mem m))" using minvD(4) [OF inv assms(2)] .
  then have "\<not> intr_on i (mem m)"
    using sint_pos_ne [OF minv_depth [OF inv assms(2)]] minvD(1) [OF inv] by (simp add: smp_ok_def)
  with minvD(7) [OF inv assms(2,3)] show ?thesis by simp
qed

definition smp0 :: smp where
  "smp0 = \<lparr>cpus = [\<lparr>apicid = 0, ncli = 0, intena = 0\<rparr>, \<lparr>apicid = 1, ncli = 0, intena = 0\<rparr>],
     eflags = (\<lambda>_. FL_IF), apic = of_nat,
     locks = (\<lambda>_. \<lparr>locked = 0, lname = [], lcpu = None, pcs = replicate 10 0\<rparr>), kwords = (\<lambda>_. 0)\<rparr>"

definition machine0 :: machine where
  "machine0 = \<lparr>mem = smp0, ph = (\<lambda>_. Idle), inside = (\<lambda>_. {})\<rparr>"

lemma smp0_ok: "smp_ok smp0"
  by (simp add: smp_ok_def own_ids_def smp0_def All_less_Suc2 numeral_2_eq_2)

lemma minit0: "minit machine0"
  using smp0_ok by (simp add: minit_def machine0_def smp0_def All_less_Suc2 numeral_2_eq_2)

theorem spin_mutual_exclusion_witness:
  "\<exists>m. mreach m \<and> LCons \<in> inside m 0 \<and> LCons \<notin> inside m 1"
proof -
  have len: "0 < length (cpus smp0)" by (simp add: smp0_def)
  have "LCons \<notin> held_by 0 smp0" by (simp add: held_by_def smp0_def)
  with acquire_enter_eq [OF smp0_ok len, of LCons]
  have e: "acquire_enter 0 LCons smp0 = Ok () (pushed 0 smp0)" by (simp add: smp0_def)
  define m1 where "m1 = machine0\<lparr>mem := pushed 0 smp0, ph := (ph machine0)(0 := Spinning LCons)\<rparr>"
  have 1: "mreach m1" unfolding m1_def
    by (rule mreach_step [OF mreach_init [OF minit0] mstep.enter [OF _ _ _]])
      (use len e in \<open>simp_all add: machine0_def\<close>)
  obtain s2 where x: "xchg LCons 1 (mem m1) = (0, s2)"
    by (simp add: xchg_def m1_def machine0_def smp0_def)
  define m2 where "m2 = m1\<lparr>mem := s2, ph := (ph m1)(0 := Recording LCons),
    inside := (inside m1)(0 := insert LCons (inside m1 0))\<rparr>"
  have "mreach m2" unfolding m2_def
    by (rule mreach_step [OF 1 mstep.win [OF _ x]]) (simp add: m1_def)
  moreover have i: "LCons \<in> inside m2 0" by (simp add: m2_def)
  ultimately show ?thesis using spin_mutual_exclusion [of m2 LCons 0 1] by auto
qed

text \<open>Nested interrupt disabling.\<close>

fun pushes :: "nat \<Rightarrow> nat \<Rightarrow> smp \<Rightarrow> (smp, unit) outcome" where
  "pushes me 0 s = Ok () s"
| "pushes me (Suc n) s = bnd (pushcli me s) (\<lambda>_ s. pushes me n s)"

fun pops :: "nat \<Rightarrow> nat \<Rightarrow> smp \<Rightarrow> (smp, unit) outcome" where
  "pops me 0 s = Ok () s"
| "pops me (Suc n) s = bnd (pops me n s) (\<lambda>_ s. popcli me s)"

lemma pushes_pops:
  assumes "smp_ok s" "me < length (cpus s)" "sint (ncli (cpus s ! me)) + int n \<le> 2147483648"
  shows "\<exists>t. pushes me n s = Ok () t \<and> (0 < n \<longrightarrow> \<not> intr_on me t)
     \<and> pops me n t = Ok () (if n = 0 then s else noted me s)"
  using assms
proof (induction n arbitrary: s)
  case (Suc n)
  let ?p = "pushed me s"
  note ids = smp_okD(1) [OF Suc.prems(1)] and nn = smp_okD(2) [OF Suc.prems(1,2)]
  show ?case
  proof (cases "n = 0")
    case True
    then show ?thesis using Suc.prems ids pushed_quiet [of me s]
      by (simp add: pushcli_eq popcli_pushed intr_on_def readeflags_def)
  next
    case False
    then have lt: "sint (ncli (cpus s ! me)) < 2147483647" using Suc.prems(3) by simp
    have d: "sint (ncli (cpus ?p ! me)) = sint (ncli (cpus s ! me)) + 1"
      using Suc.prems(2) lt by (simp add: pushed_depth sint_succ)
    have ok: "smp_ok ?p" "me < length (cpus ?p)" "sint (ncli (cpus ?p ! me)) + int n \<le> 2147483648"
      using Suc.prems lt d by (simp_all add: smp_ok_pushed)
    from Suc.IH [OF ok] False obtain t where t: "pushes me n ?p = Ok () t" "\<not> intr_on me t"
      "pops me n t = Ok () (noted me ?p)" by auto
    have "noted me ?p = ?p"
      using ok(2) d nn by (intro noted_nested sint_pos_ne) simp_all
    then show ?thesis using t Suc.prems ids by (simp add: pushcli_eq popcli_pushed)
  qed
qed simp

text \<open>One nested \<open>pushcli\<close> too many: the depth is negative when the first \<open>popcli\<close> reads it.\<close>

lemma pushes_overflow:
  assumes "smp_ok s" "me < length (cpus s)" "sint (ncli (cpus s ! me)) + int n = 2147483649"
  shows "\<exists>t. pushes me n s = Ok () t \<and> pops me n t = Panic ''popcli''"
  using assms
proof (induction n arbitrary: s)
  case 0
  then show ?case using sint_range32(2) [of "ncli (cpus s ! me)"] by simp
next
  case (Suc n)
  let ?p = "pushed me s"
  note ids = smp_okD(1) [OF Suc.prems(1)]
  have idp: "own_ids ?p" "me < length (cpus ?p)" using ids Suc.prems by (simp_all add: own_ids_pushed)
  show ?case
  proof (cases "sint (ncli (cpus s ! me)) = 2147483647")
    case True
    then have n: "n = 1" and "ncli (cpus s ! me) = 0x7FFFFFFF" using Suc.prems(3) sint_max by auto
    then have neg: "ncli (cpus (pushed me ?p) ! me) - 1 <s 0"
      using Suc.prems(2) by (simp add: pushed_depth word_sless_alt)
    have "popcli me (pushed me ?p) = Panic ''popcli''"
      using popcli_eq [OF own_ids_pushed [OF idp] _ pushed_quiet] idp(2) neg by simp
    then show ?thesis using n ids idp Suc.prems by (simp add: pushcli_eq)
  next
    case False
    then have lt: "sint (ncli (cpus s ! me)) < 2147483647"
      using sint_range32(2) [of "ncli (cpus s ! me)"] by simp
    have "smp_ok ?p" "sint (ncli (cpus ?p ! me)) + int n = 2147483649"
      using Suc.prems lt by (simp_all add: smp_ok_pushed pushed_depth sint_succ)
    from Suc.IH [OF this(1) idp(2) this(2)] show ?thesis
      using ids Suc.prems by (auto simp: pushcli_eq)
  qed
qed

text \<open>
  C30. \<open>pushcli\<close> and \<open>popcli\<close> match, within the 32-bit counter \<open>ncli\<close>: from a consistent processor
  state, \<open>n\<close> nested \<open>pushcli\<close> calls that take the depth to at most \<open>2^31\<close> succeed and leave
  interrupts off; as many \<open>popcli\<close> calls succeed and restore the depth and the interrupt flag, so
  interrupts are on again exactly when they were on before. The bound is exact: one call more and
  the depth is negative when the first \<open>popcli\<close> decrements it, which panics.
\<close>

theorem pushcli_popcli_matched:
  assumes "smp_ok s" "me < length (cpus s)" "0 < n"
  shows "(sint (ncli (cpus s ! me)) + int n \<le> 2 ^ 31 \<longrightarrow>
       (\<exists>t u. pushes me n s = Ok () t \<and> \<not> intr_on me t \<and> pops me n t = Ok () u
         \<and> (intr_on me u \<longleftrightarrow> intr_on me s) \<and> ncli (cpus u ! me) = ncli (cpus s ! me) \<and> locks u = locks s))
     \<and> (sint (ncli (cpus s ! me)) + int n = 2 ^ 31 + 1 \<longrightarrow>
       (\<exists>t. pushes me n s = Ok () t \<and> pops me n t = Panic ''popcli''))"
proof -
  have "intr_on me (noted me s) = intr_on me s" "ncli (cpus (noted me s) ! me) = ncli (cpus s ! me)"
    "locks (noted me s) = locks s"
    using assms(2) by (simp_all add: noted_def upd_cpu_def intr_on_def readeflags_def)
  with pushes_pops [OF assms(1,2), of n] pushes_overflow [OF assms(1,2), of n] assms(3)
  show ?thesis by fastforce
qed

definition smp_deep :: smp where
  "smp_deep = smp0\<lparr>cpus := [\<lparr>apicid = 0, ncli = 0x7FFFFFFF, intena = 0\<rparr>], eflags := (\<lambda>_. 0)\<rparr>"

theorem pushcli_popcli_matched_witness:
  "(\<exists>t u. pushes 0 3 smp0 = Ok () t \<and> \<not> intr_on 0 t \<and> pops 0 3 t = Ok () u \<and> intr_on 0 u)
   \<and> (\<exists>t. pushes 0 2 smp_deep = Ok () t \<and> pops 0 2 t = Panic ''popcli'')"
proof
  have i: "intr_on 0 smp0" and l: "0 < length (cpus smp0)" and d: "ncli (cpus smp0 ! 0) = 0"
    by (simp_all add: intr_on_def readeflags_def smp0_def FL_IF_def)
  have "(0::nat) < 3" by simp
  from pushcli_popcli_matched [OF smp0_ok l this] i d
  show "\<exists>t u. pushes 0 3 smp0 = Ok () t \<and> \<not> intr_on 0 t \<and> pops 0 3 t = Ok () u \<and> intr_on 0 u"
    by auto
next
  have ok: "smp_ok smp_deep" and l: "0 < length (cpus smp_deep)"
    and d: "sint (ncli (cpus smp_deep ! 0)) = 2147483647"
    by (simp_all add: smp_ok_def own_ids_def smp_deep_def smp0_def intr_on_def readeflags_def)
  have "(0::nat) < 2" by simp
  from pushcli_popcli_matched [OF ok l this] d
  show "\<exists>t. pushes 0 2 smp_deep = Ok () t \<and> pops 0 2 t = Panic ''popcli''" by simp
qed

text \<open>
  A critical section \<open>acquire(lk); body; release(lk)\<close> around a body that keeps the set of
  held locks returns with exactly the locks it found; entering it with the lock already held
  panics instead of deadlocking.
\<close>

theorem spin_section_balanced:
  assumes "cpu_sane me s"
    and "\<And>s a t. cpu_sane me s \<Longrightarrow> body s = Ok a t \<Longrightarrow> held_by me t = held_by me s \<and> cpu_sane me t"
  shows "(lk \<in> held_by me s \<longrightarrow> bnd (acquire me v lk s) (\<lambda>_ s. bnd (body s) (\<lambda>a s.
             bnd (release me lk s) (\<lambda>_ s. Ok a s))) \<in> range Panic)
     \<and> (bnd (acquire me v lk s) (\<lambda>_ s. bnd (body s) (\<lambda>a s.
             bnd (release me lk s) (\<lambda>_ s. Ok a s))) = Ok a t \<longrightarrow>
           held_by me t = held_by me s \<and> cpu_sane me t)"
  using spl.section_reentry [OF assms(1), of lk v body] spl.section_balanced [OF assms(1), of body v lk a t] assms(2)
  unfolding spl.section_of_def by blast

theorem spin_section_balanced_witness:
  "\<exists>t. bnd (acquire 0 0 LCons smp0) (\<lambda>_ s. bnd (Ok (7::nat) s) (\<lambda>a s.
             bnd (release 0 LCons s) (\<lambda>_ s. Ok a s))) = Ok 7 t \<and> held_by 0 t = held_by 0 smp0"
proof -
  have len: "0 < length (cpus smp0)" by (simp add: smp0_def)
  have hb: "held_by 0 smp0 = {}" by (simp add: held_by_def smp0_def)
  have sane: "cpu_sane 0 smp0" using smp0_ok len hb by (simp add: cpu_sane_def smp0_def)
  have "locked (locks smp0 LCons) = 0" "ncli (cpus smp0 ! 0) = 0" by (simp_all add: smp0_def)
  with acquire_eq [OF smp0_ok len, of 0 LCons] hb obtain s1 where a: "acquire 0 0 LCons smp0 = Ok () s1"
    by auto
  from spl.acq_Ok [OF sane a] have "LCons \<in> held_by 0 s1" "cpu_sane 0 s1" by auto
  from spl.rel_Ok [OF this(2,1)] obtain t where r: "release 0 LCons s1 = Ok () t"
    by (auto simp: returns_iff)
  have "bnd (acquire 0 0 LCons smp0) (\<lambda>_ s. bnd (Ok (7::nat) s) (\<lambda>a s.
             bnd (release 0 LCons s) (\<lambda>_ s. Ok a s))) = Ok 7 t" using a r by simp
  moreover from this have "held_by 0 t = held_by 0 smp0"
    using spin_section_balanced [OF sane, of "Ok 7" LCons 0 7 t] by auto
  ultimately show ?thesis by blast
qed

end
