(* ===== verification/ProcDump.thy ===== *)
theory ProcDump
  imports Vm Spinlock
begin

section \<open>Process listings and small helpers (proc.c)\<close>

text \<open>
  The two process listings printed on the console (\<open>procdump\<close> for ^P, \<open>print_bitches\<close> for a system
  call) with their helpers, and the digital root behind a system call.
\<close>

subsection \<open>Digits\<close>

text \<open>C's division by ten rounds towards zero.\<close>

definition div10 :: "int \<Rightarrow> int" where
  "div10 x = (if x < 0 then - (- x div 10) else x div 10)"

lemma div10_abs: "x \<noteq> 0 \<Longrightarrow> nat \<bar>div10 x\<bar> < nat \<bar>x\<bar>"
  by (auto simp: div10_def)

function digit_loop :: "int \<Rightarrow> nat \<Rightarrow> nat" where
  "digit_loop num count = (if num \<noteq> 0 then digit_loop (div10 num) (count + 1) else count)"
  by pat_completeness auto
termination
  by (relation "measure (\<lambda>(x, c). nat \<bar>x\<bar>)") (use div10_abs in auto)

declare digit_loop.simps [simp del]

definition how_many_digit :: "cint \<Rightarrow> nat" where
  "how_many_digit num = (if num = 0 then 1 else digit_loop (sint num) 0)"

function digit_sum :: "nat \<Rightarrow> nat \<Rightarrow> nat" where
  "digit_sum temp res = (if temp \<noteq> 0 then digit_sum (temp div 10) (res + temp mod 10) else res)"
  by pat_completeness auto
termination
  by (relation "measure fst") auto

declare digit_sum.simps [simp del]

lemma ten: "10 * (t div 10) + t mod 10 = (t :: nat)"
  by simp

lemma digit_sum_le: "digit_sum t r \<le> t + r"
proof (induction t r rule: digit_sum.induct)
  case (1 t r)
  show ?case
  proof (cases "t = 0")
    case True
    then show ?thesis by (subst digit_sum.simps) simp
  next
    case False
    with 1 have "digit_sum t r \<le> t div 10 + (r + t mod 10)" by (subst digit_sum.simps) simp
    also have "\<dots> \<le> t + r" using ten [of t] by linarith
    finally show ?thesis .
  qed
qed

lemma digit_sum_less: "10 \<le> t \<Longrightarrow> digit_sum t 0 < t"
proof -
  assume t: "10 \<le> t"
  then have "digit_sum t 0 = digit_sum (t div 10) (t mod 10)" by (subst digit_sum.simps) simp
  also have "\<dots> \<le> t div 10 + t mod 10" by (rule digit_sum_le)
  also have "\<dots> < t" using t ten [of t] by linarith
  finally show ?thesis .
qed

function root_loop :: "nat \<Rightarrow> nat" where
  "root_loop num = (if num \<ge> 10 then root_loop (digit_sum num 0) else num)"
  by pat_completeness auto
termination
  by (relation "measure id") (use digit_sum_less in auto)

declare root_loop.simps [simp del]

text \<open>A negative argument is returned as it is.\<close>

definition find_digital_root :: "cint \<Rightarrow> cint" where
  "find_digital_root num = (if sint num < 10 then num else of_nat (root_loop (nat (sint num))))"

subsection \<open>Listings\<close>

fun repeat_print :: "nat \<Rightarrow> byte list \<Rightarrow> 'z tty_scheme \<Rightarrow> ('z tty_scheme, unit) outcome" where
  "repeat_print 0 f s = Ok () s"
| "repeat_print (Suc n) f s = bnd (cprintf f [] s) (\<lambda>_ s. repeat_print n f s)"

definition print_space :: "int \<Rightarrow> 'z tty_scheme \<Rightarrow> ('z tty_scheme, unit) outcome" where
  "print_space num s = repeat_print (nat num) (str '' '') s"

text \<open>
  \<open>print_name\<close> copies the name over a buffer of 14 bytes: 12 spaces, a byte it does not
  initialise (\<open>junk\<close>) and a zero. A name longer than 13 bytes overwrites the terminator.
\<close>

definition print_name :: "byte \<Rightarrow> byte list \<Rightarrow> 'z tty_scheme \<Rightarrow> ('z tty_scheme, unit) outcome" where
  "print_name junk nm s =
     (let name = takeWhile (\<lambda>c. c \<noteq> 0) nm in
      if length name > 13 then Fault
      else let buf = name @ drop (length name) (replicate 12 32 @ [junk]) in
        cprintf (str ''%s'') [AStr (Some (takeWhile (\<lambda>c. c \<noteq> 0) buf))] s)"

definition print_pstate :: "procstate \<Rightarrow> 'z tty_scheme \<Rightarrow> ('z tty_scheme, unit) outcome" where
  "print_pstate st s =
     (case st of
        UNUSED \<Rightarrow> cprintf (str ''UNUSED    '') [] s
      | EMBRYO \<Rightarrow> cprintf (str ''EMBRYO    '') [] s
      | SLEEPING \<Rightarrow> cprintf (str ''SLEEPING  '') [] s
      | RUNNABLE \<Rightarrow> cprintf (str ''RUNNABLE  '') [] s
      | RUNNING \<Rightarrow> cprintf (str ''RUNNING   '') [] s
      | ZOMBIE \<Rightarrow> cprintf (str ''ZOMBIE    '') [] s)"

text \<open>The conversion of a float to an \<open>int\<close>, in the range where C defines it.\<close>

definition f_cint :: "f32 \<Rightarrow> cint" where
  "f_cint f = word_of_int (f_to_int f)"

definition print_row :: "byte \<Rightarrow> proc \<Rightarrow> 'z tty_scheme \<Rightarrow> ('z tty_scheme, unit) outcome" where
  "print_row junk p s =
     bnd (print_name junk (pname p) s) (\<lambda>_ s.
     bnd (cprintf (str ''%d'') [AInt (pid p)] s) (\<lambda>_ s.
     bnd (print_space (4 - int (how_many_digit (pid p))) s) (\<lambda>_ s.
     bnd (print_pstate (pstate p) s) (\<lambda>_ s.
     bnd (cprintf (str ''%d     '') [AInt (que_id p)] s) (\<lambda>_ s.
     bnd (cprintf (str ''%d'') [AInt (f_cint (executed_cycle p))] s) (\<lambda>_ s.
     bnd (print_space (5 - int (how_many_digit (f_cint (executed_cycle p)))) s) (\<lambda>_ s.
     bnd (cprintf (str ''%d'') [AInt (creation_time p)] s) (\<lambda>_ s.
     bnd (print_space (10 - int (how_many_digit (creation_time p))) s) (\<lambda>_ s.
     bnd (cprintf (str ''%d       '') [AInt (priority p)] s) (\<lambda>_ s.
     bnd (cprintf (str ''%d     '') [AInt (f_cint (priority_ratio p))] s) (\<lambda>_ s.
     bnd (cprintf (str ''%d      '') [AInt (f_cint (creation_time_ratio p))] s) (\<lambda>_ s.
     bnd (cprintf (str ''%d   '') [AInt (f_cint (executed_cycle_ratio p))] s) (\<lambda>_ s.
     bnd (cprintf (str ''%d'') [AInt (f_cint (calculate_rank p))] s) (\<lambda>_ s.
       cprintf [10] [] s))))))))))))))"

fun print_rows :: "byte \<Rightarrow> proc list \<Rightarrow> 'z tty_scheme \<Rightarrow> ('z tty_scheme, unit) outcome" where
  "print_rows junk [] s = Ok () s"
| "print_rows junk (p # ps) s =
     (if pstate p = UNUSED then print_rows junk ps s
      else bnd (print_row junk p s) (\<lambda>_ s. print_rows junk ps s))"

definition print_bitches :: "byte \<Rightarrow> 'z pcore_scheme \<Rightarrow> ('z pcore_scheme, unit) outcome" where
  "print_bitches junk s =
     bnd (lk_acquire LPtable s) (\<lambda>_ s.
     bnd (cprintf (str ''process_name PID State   Queue Cycle Arrival Priority R_prty R_Arvl R_exec Rank'' @ [10]) [] s) (\<lambda>_ s.
     bnd (repeat_print 80 (str ''-'') s) (\<lambda>_ s.
     bnd (cprintf [10] [] s) (\<lambda>_ s.
     bnd (print_rows junk (ptable s) s) (\<lambda>_ s. lk_release LPtable s)))))"

definition state_name :: "procstate \<Rightarrow> byte list" where
  "state_name st =
     (case st of UNUSED \<Rightarrow> str ''unused'' | EMBRYO \<Rightarrow> str ''embryo'' | SLEEPING \<Rightarrow> str ''sleep ''
      | RUNNABLE \<Rightarrow> str ''runble'' | RUNNING \<Rightarrow> str ''run   '' | ZOMBIE \<Rightarrow> str ''zombie'')"

fun print_pcs :: "uint list \<Rightarrow> 'z tty_scheme \<Rightarrow> ('z tty_scheme, unit) outcome" where
  "print_pcs [] s = Ok () s"
| "print_pcs (pc # rest) s =
     (if pc = 0 then Ok () s
      else bnd (cprintf (str '' %p'') [AInt pc] s) (\<lambda>_ s. print_pcs rest s))"

fun procdump_loop :: "proc list \<Rightarrow> 'z kmstate_scheme \<Rightarrow> ('z kmstate_scheme, unit) outcome" where
  "procdump_loop [] s = Ok () s"
| "procdump_loop (p # ps) s =
     (if pstate p = UNUSED then procdump_loop ps s
      else bnd (cprintf (str ''%d %s %s'') [AInt (pid p), AStr (Some (state_name (pstate p))),
                  AStr (Some (takeWhile (\<lambda>c. c \<noteq> 0) (pname p)))] s) (\<lambda>_ s.
           bnd (if pstate p = SLEEPING
                then print_pcs (getcallerpcs (ld32 (pmem s)) (ctx_ebp (pcontext p) + 8)) s
                else Ok () s) (\<lambda>_ s.
           bnd (cprintf [10] [] s) (\<lambda>_ s. procdump_loop ps s))))"

definition procdump :: "'z kmstate_scheme \<Rightarrow> ('z kmstate_scheme, unit) outcome" where
  "procdump s = procdump_loop (ptable s) s"

subsection \<open>Properties\<close>

lemma digit_sum_mod9: "digit_sum t r mod 9 = (t + r) mod 9"
proof (induction t r rule: digit_sum.induct)
  case (1 t r)
  show ?case
  proof (cases "t = 0")
    case True
    then show ?thesis by (subst digit_sum.simps) simp
  next
    case False
    with 1 have "digit_sum t r mod 9 = (t div 10 + (r + t mod 10)) mod 9" by (subst digit_sum.simps) simp
    also have "\<dots> = (t div 10 + (r + t mod 10) + 9 * (t div 10)) mod 9" by (rule mod_mult_self2 [symmetric])
    also have "t div 10 + (r + t mod 10) + 9 * (t div 10) = t + r" using ten [of t] by linarith
    finally show ?thesis .
  qed
qed

lemma digit_sum_pos: "0 < t + r \<Longrightarrow> 0 < digit_sum t r"
proof (induction t r rule: digit_sum.induct)
  case (1 t r)
  show ?case
  proof (cases "t = 0")
    case True
    then show ?thesis using 1 by (subst digit_sum.simps) simp
  next
    case False
    then have "0 < t div 10 + (r + t mod 10)" using ten [of t] by linarith
    with 1 False show ?thesis by (subst digit_sum.simps) simp
  qed
qed

lemma pred_mod9:
  fixes a b :: nat
  assumes "0 < a" "0 < b" "a mod 9 = b mod 9"
  shows "(a - 1) mod 9 = (b - 1) mod 9"
proof -
  obtain c d where c: "a = Suc c" "b = Suc d" using assms(1,2) gr0_implies_Suc by blast
  then have "Suc c mod 9 = Suc d mod 9" using assms(3) by simp
  then show ?thesis unfolding c by (simp add: mod_Suc split: if_splits)
qed

lemma root_loop_value: "0 < n \<Longrightarrow> root_loop n = 1 + (n - 1) mod 9"
proof (induction n rule: root_loop.induct)
  case (1 n)
  show ?case
  proof (cases "10 \<le> n")
    case True
    have p: "0 < digit_sum n 0" using 1 by (simp add: digit_sum_pos)
    have "root_loop n = 1 + (digit_sum n 0 - 1) mod 9" using 1 True p by (subst root_loop.simps) simp
    moreover have "digit_sum n 0 mod 9 = n mod 9" using digit_sum_mod9 [of n 0] by simp
    then have "(digit_sum n 0 - 1) mod 9 = (n - 1) mod 9" using pred_mod9 [OF p] 1(2) by blast
    ultimately show ?thesis by simp
  next
    case False
    with 1 show ?thesis by (subst root_loop.simps) simp
  qed
qed

text \<open>
  The digital-root loop of \<open>find_digital_root\<close> ends and computes the digital root: for a
  positive number one more than its predecessor modulo nine.
\<close>

theorem digital_root:
  assumes "0 < sint num"
  shows "find_digital_root num = of_int (1 + (sint num - 1) mod 9)"
proof -
  have r: "root_loop (nat (sint num)) = 1 + (nat (sint num) - 1) mod 9"
    using assms by (intro root_loop_value) simp
  have e: "int (1 + (nat (sint num) - 1) mod 9) = 1 + (sint num - 1) mod 9"
    using assms by (simp add: zmod_int of_nat_diff)
  show ?thesis
  proof (cases "sint num < 10")
    case True
    then have "1 + (sint num - 1) mod 9 = sint num" using assms by simp
    then show ?thesis using True by (simp add: find_digital_root_def del: of_int_add)
  next
    case False
    then show ?thesis unfolding find_digital_root_def r
      using e by (metis of_int_of_nat_eq)
  qed
qed

theorem digital_root_witness: "find_digital_root 9875 = 2"
  using digital_root [of 9875] by simp

end
