(* ===== verification/Kbd.thy ===== *)
theory Kbd
  imports Prelude
begin

section \<open>The keyboard driver (kbd.c, kbd.h)\<close>

text \<open>
  Scan codes to characters: the shift state, the three key maps, and \<open>kbdgetc\<close> on one reading of
  the controller's status and data ports.
\<close>

definition SHIFT :: uint where "SHIFT = 1"
definition CTL :: uint where "CTL = 2"
definition ALT :: uint where "ALT = 4"
definition CAPSLOCK :: uint where "CAPSLOCK = 8"
definition NUMLOCK :: uint where "NUMLOCK = 16"
definition SCROLLLOCK :: uint where "SCROLLLOCK = 32"
definition E0ESC :: uint where "E0ESC = 64"

definition shiftcode :: "byte \<Rightarrow> uint" where
  "shiftcode d =
     (if d = 0x1D \<or> d = 0x9D then CTL else if d = 0x2A \<or> d = 0x36 then SHIFT
      else if d = 0x38 \<or> d = 0xB8 then ALT else 0)"

definition togglecode :: "byte \<Rightarrow> uint" where
  "togglecode d = (if d = 0x3A then CAPSLOCK else if d = 0x45 then NUMLOCK else if d = 0x46 then SCROLLLOCK else 0)"

text \<open>The keys beyond the main block, common to the three maps; \<open>enter\<close> and \<open>slash\<close> differ.\<close>

definition far_key :: "byte \<Rightarrow> byte \<Rightarrow> byte \<Rightarrow> byte" where
  "far_key enter slash d =
     (if d = 0x9C then enter else if d = 0xB5 then slash
      else if d = 0xC8 then 0xE2 else if d = 0xD0 then 0xE3
      else if d = 0xC9 then 0xE6 else if d = 0xD1 then 0xE7
      else if d = 0xCB then 0xE4 else if d = 0xCD then 0xE5
      else if d = 0x97 then 0xE0 else if d = 0xCF then 0xE1
      else if d = 0xD2 then 0xE8 else if d = 0xD3 then 0xE9 else 0)"

definition normal_keys :: "byte list" where
  "normal_keys = [0, 0x1B] @ str ''1234567890-='' @ [8, 9] @ str ''qwertyuiop[]'' @ [10, 0] @ str ''asdfghjkl;''
     @ [39, 96, 0, 92] @ str ''zxcvbnm,./'' @ [0, 42, 0, 32, 0, 0, 0, 0, 0, 0, 0, 0, 0, 0, 0, 0, 0]
     @ str ''789-456+1230.'' @ [0, 0, 0, 0]"

definition shift_keys :: "byte list" where
  "shift_keys = [0, 27] @ str ''!@#$%^&*()_+'' @ [8, 9] @ str ''QWERTYUIOP{}'' @ [10, 0] @ str ''ASDFGHJKL:''
     @ [34, 126, 0, 124] @ str ''ZXCVBNM<>?'' @ [0, 42, 0, 32, 0, 0, 0, 0, 0, 0, 0, 0, 0, 0, 0, 0, 0]
     @ str ''789-456+1230.'' @ [0, 0, 0, 0]"

definition control :: "byte list \<Rightarrow> byte list" where
  "control cs = map (\<lambda>c. c - 64) cs"

definition ctl_keys :: "byte list" where
  "ctl_keys = replicate 16 0 @ control (str ''QWERTYUIOP'') @ [0, 0, 13, 0] @ control (str ''ASDFGHJKL'')
     @ [0, 0, 0, 0] @ control ([92] @ str ''ZXCVBNM'') @ [0, 0] @ control (str ''/'') @ [0, 0]"

definition key_of :: "byte list \<Rightarrow> (byte \<Rightarrow> byte) \<Rightarrow> byte \<Rightarrow> byte" where
  "key_of near far d = (if unat d < length near then near ! unat d else far d)"

definition normalmap :: "byte \<Rightarrow> byte" where "normalmap = key_of normal_keys (far_key 10 47)"
definition shiftmap :: "byte \<Rightarrow> byte" where "shiftmap = key_of shift_keys (far_key 10 47)"
definition ctlmap :: "byte \<Rightarrow> byte" where "ctlmap = key_of ctl_keys (far_key 13 (47 - 64))"

definition charcode :: "uint \<Rightarrow> byte \<Rightarrow> byte" where
  "charcode sh = (if sh = 0 then normalmap else if sh = 1 then shiftmap else ctlmap)"

text \<open>
  \<open>kbdgetc\<close> on the status \<open>st\<close> and data \<open>data\<close> read from the ports and the old shift state; the
  result is the character, 0 for none, -1 when the controller has no data.
\<close>

definition kbdgetc :: "byte \<Rightarrow> byte \<Rightarrow> uint \<Rightarrow> int \<times> uint" where
  "kbdgetc st data shift =
     (if st AND 1 = 0 then (- 1, shift)
      else if data = 0xE0 then (0, shift OR E0ESC)
      else if data AND 0x80 \<noteq> 0 then
        let d = (if shift AND E0ESC \<noteq> 0 then data else data AND 0x7F)
        in (0, shift AND NOT (shiftcode d OR E0ESC))
      else
        let esc = shift AND E0ESC \<noteq> 0;
            d = (if esc then data OR 0x80 else data);
            shift = (if esc then shift AND NOT E0ESC else shift);
            shift = (shift OR shiftcode d) XOR togglecode d;
            c = charcode (shift AND (CTL OR SHIFT)) d
        in (if shift AND CAPSLOCK \<noteq> 0
            then if 97 \<le> c \<and> c \<le> 122 then uint (c - 32)
                 else if 65 \<le> c \<and> c \<le> 90 then uint (c + 32) else uint c
            else uint c, shift))"

lemma key_maps_size: "length normal_keys = 88" "length shift_keys = 88" "length ctl_keys = 56"
  by (simp_all add: normal_keys_def shift_keys_def ctl_keys_def control_def str_def)

end
