(* ===== verification/Console.thy ===== *)
theory Console
  imports Inode ProcDump Kbd
begin

section \<open>Console input and the console device (console.c)\<close>

text \<open>
  The input ring with its read, write and edit indices, the interrupt handler that edits lines,
  and the read and write functions of the console device.
\<close>

definition INPUT_BUF :: nat where "INPUT_BUF = 128"

record constate = istate +
  in_buf :: "byte list"
  in_r :: uint
  in_w :: uint
  in_e :: uint
  dev_console :: bool
  kbd_shift :: uint

definition ctrl :: "int \<Rightarrow> int" where "ctrl x = x - 64"

definition slot :: "uint \<Rightarrow> nat" where "slot i = unat i mod INPUT_BUF"

subsection \<open>Input\<close>

text \<open>
  ^U: drop characters back to the last newline or the start of the line. \<open>consputc\<close> leaves the
  indices alone, so the distance to the start shrinks in every round.
\<close>

function kill_line :: "'z constate_scheme \<Rightarrow> ('z constate_scheme, unit) outcome" where
  "kill_line s =
     (if in_e s \<noteq> in_w s \<and> in_buf s ! slot (in_e s - 1) \<noteq> 10
      then bnd (consputc BACKSPACE (s\<lparr>in_e := in_e s - 1\<rparr>)) (\<lambda>_ t.
             if in_e t - in_w t < in_e s - in_w s then kill_line t else Spin)
      else Ok () s)"
  by pat_completeness auto
termination
  by (relation "measure (\<lambda>s. unat (in_e s - in_w s))") (auto simp: word_less_nat_alt)

declare kill_line.simps [simp del]

definition store_char :: "int \<Rightarrow> 'z constate_scheme \<Rightarrow> ('z constate_scheme, unit) outcome" where
  "store_char c0 s =
     (if c0 \<noteq> 0 \<and> unat (in_e s - in_r s) < INPUT_BUF
      then let c = (if c0 = 13 then 10 else c0);
               s = s\<lparr>in_buf := (in_buf s)[slot (in_e s) := word_of_int c], in_e := in_e s + 1\<rparr>
           in bnd (consputc c s) (\<lambda>_ s.
                if c = 10 \<or> c = ctrl 68 \<or> in_e s = in_r s + of_nat INPUT_BUF
                then wakeup CInput (s\<lparr>in_w := in_e s\<rparr>) else Ok () s)
      else Ok () s)"

text \<open>The characters \<open>getc\<close> returns until it has none; the result says whether ^P was among them.\<close>

fun consoleintr_loop :: "int list \<Rightarrow> bool \<Rightarrow> 'z constate_scheme \<Rightarrow> ('z constate_scheme, bool) outcome" where
  "consoleintr_loop [] dump s = Ok dump s"
| "consoleintr_loop (c # cs) dump s =
     (if c = ctrl 80 then consoleintr_loop cs True s
      else if c = ctrl 85 then bnd (kill_line s) (\<lambda>_ s. consoleintr_loop cs dump s)
      else if c = ctrl 72 \<or> c = 127 then
        (if in_e s \<noteq> in_w s
         then bnd (consputc BACKSPACE (s\<lparr>in_e := in_e s - 1\<rparr>)) (\<lambda>_ s. consoleintr_loop cs dump s)
         else consoleintr_loop cs dump s)
      else bnd (store_char c s) (\<lambda>_ s. consoleintr_loop cs dump s))"

definition consoleintr :: "int list \<Rightarrow> 'z constate_scheme \<Rightarrow> ('z constate_scheme, unit) outcome" where
  "consoleintr cs s =
     bnd (lk_acquire LCons s) (\<lambda>_ s.
     bnd (consoleintr_loop cs False s) (\<lambda>dump s.
     bnd (lk_release LCons s) (\<lambda>_ s. if dump then procdump s else Ok () s)))"

text \<open>The keyboard interrupt drains the controller: \<open>ports\<close> are its successive status and data readings.\<close>

fun kbd_drain :: "(byte \<times> byte) list \<Rightarrow> uint \<Rightarrow> int list \<times> uint" where
  "kbd_drain [] sh = ([], sh)"
| "kbd_drain ((st, d) # rest) sh =
     (let (c, sh) = kbdgetc st d sh in
      if c < 0 then ([], sh) else let (cs, sh) = kbd_drain rest sh in (c # cs, sh))"

definition kbdintr :: "(byte \<times> byte) list \<Rightarrow> 'z constate_scheme \<Rightarrow> ('z constate_scheme, unit) outcome" where
  "kbdintr ports s =
     (let (cs, sh) = kbd_drain ports (kbd_shift s) in consoleintr cs (s\<lparr>kbd_shift := sh\<rparr>))"

subsection \<open>The device\<close>

text \<open>
  The loop of \<open>consoleread\<close> with \<open>n\<close> bytes still wanted, \<open>target\<close> asked for and \<open>got\<close> read so far,
  the console lock held. Sleeping switches away; \<open>consoleread_resume\<close> continues with the same
  locals. \<open>None\<close> is the return of -1 to a killed process.
\<close>

fun consoleread_loop ::
    "nat \<Rightarrow> nat \<Rightarrow> byte list \<Rightarrow> 'z constate_scheme \<Rightarrow> ('z constate_scheme, byte list option) outcome" where
  "consoleread_loop 0 target got s = Ok (Some got) s"
| "consoleread_loop (Suc n) target got s =
     (if in_r s = in_w s then
        (case myproc s of
           None \<Rightarrow> Fault
         | Some p \<Rightarrow> if killed (ptable s ! p) then Ok None s
                      else bnd (sleep CInput (Some LCons) s) (\<lambda>_ _. Fault))
      else let c = in_buf s ! slot (in_r s); s = s\<lparr>in_r := in_r s + 1\<rparr> in
        if sint c = ctrl 68
        then Ok (Some got) (if Suc n < target then s\<lparr>in_r := in_r s - 1\<rparr> else s)
        else if c = 10 then Ok (Some (got @ [c])) s
        else consoleread_loop n target (got @ [c]) s)"

definition consoleread_end ::
    "nat \<Rightarrow> byte list option \<Rightarrow> 'z constate_scheme \<Rightarrow> ('z constate_scheme, cint \<times> byte list) outcome" where
  "consoleread_end ip r s =
     bnd (lk_release LCons s) (\<lambda>_ s.
     bnd (ilock (Some ip) s) (\<lambda>_ s.
       (case r of None \<Rightarrow> Ok (- 1, []) s | Some got \<Rightarrow> Ok (of_nat (length got), got) s)))"

definition consoleread :: "nat \<Rightarrow> cint \<Rightarrow> 'z constate_scheme \<Rightarrow> ('z constate_scheme, cint \<times> byte list) outcome" where
  "consoleread ip n s =
     bnd (iunlock (Some ip) s) (\<lambda>_ s.
     bnd (lk_acquire LCons s) (\<lambda>_ s.
     bnd (consoleread_loop (nat (sint n)) (unat n) [] s) (\<lambda>r s. consoleread_end ip r s)))"

definition consoleread_resume ::
    "nat \<Rightarrow> nat \<Rightarrow> nat \<Rightarrow> byte list \<Rightarrow> 'z constate_scheme \<Rightarrow> ('z constate_scheme, cint \<times> byte list) outcome" where
  "consoleread_resume ip n target got s =
     bnd (sleep_resume LCons s) (\<lambda>_ s.
     bnd (consoleread_loop n target got s) (\<lambda>r s. consoleread_end ip r s))"

definition consolewrite :: "nat \<Rightarrow> byte list \<Rightarrow> 'z constate_scheme \<Rightarrow> ('z constate_scheme, cint) outcome" where
  "consolewrite ip buf s =
     bnd (iunlock (Some ip) s) (\<lambda>_ s.
     bnd (lk_acquire LCons s) (\<lambda>_ s.
     bnd (consputs (map uint buf) s) (\<lambda>_ s.
     bnd (lk_release LCons s) (\<lambda>_ s.
     bnd (ilock (Some ip) s) (\<lambda>_ s. Ok (of_nat (length buf)) s)))))"

definition consoleinit :: "'z constate_scheme \<Rightarrow> 'z constate_scheme" where
  "consoleinit s = s\<lparr>dev_console := True, cons_locking := True\<rparr>"

definition con0 :: constate where
  "con0 = istate.extend istate0 \<lparr>in_buf = replicate INPUT_BUF 0, in_r = 0, in_w = 0, in_e = 0,
     dev_console = True, kbd_shift = 0\<rparr>"

end
