(* ===== verification/Fs.thy ===== *)
theory Fs
  imports Console
begin

section \<open>File content, directories and path names (fs.c from readi on)\<close>

text \<open>
  Reading and writing an inode's bytes through its block map, directories as files of 16-byte
  entries, and the walk along a path name. Paths and names are byte lists without their
  terminator.
\<close>

definition DIRSIZ :: nat where "DIRSIZ = 14"
definition CONSOLE :: nat where "CONSOLE = 1"

subsection \<open>Reading and writing\<close>

text \<open>The loop of \<open>readi\<close> with \<open>left\<close> bytes still to read; every round reads at least one.\<close>

function readi_loop ::
    "nat \<Rightarrow> nat \<Rightarrow> nat \<Rightarrow> byte list \<Rightarrow> 'z constate_scheme \<Rightarrow> ('z constate_scheme, byte list) outcome" where
  "readi_loop i off left got s =
     (if left = 0 then Ok got s
      else bnd (bmap i (of_nat (off div BSIZE)) s) (\<lambda>a s.
           bnd (bread (idev (icache s ! i)) a s) (\<lambda>b s.
             let m = min left (BSIZE - off mod BSIZE);
                 d = take m (drop (off mod BSIZE) (bdata (bufs s ! b)))
             in bnd (brelse b s) (\<lambda>_ s. readi_loop i (off + m) (left - m) (got @ d) s))))"
  by pat_completeness auto
termination
  by (relation "measure (\<lambda>(i, off, left, got, s). left)") (auto simp: BSIZE_def)

declare readi_loop.simps [simp del]

definition is_console :: "inode \<Rightarrow> 'z constate_scheme \<Rightarrow> bool" where
  "is_console ip s \<longleftrightarrow> imajor ip = of_nat CONSOLE \<and> dev_console s"

definition readi :: "nat \<Rightarrow> uint \<Rightarrow> uint \<Rightarrow> 'z constate_scheme \<Rightarrow> ('z constate_scheme, cint \<times> byte list) outcome" where
  "readi i off n s =
     (let ip = icache s ! i in
      if itype ip = T_DEV then (if is_console ip s then consoleread i n s else Ok (- 1, []) s)
      else if off > isize ip \<or> off + n < off then Ok (- 1, []) s
      else let n = (if off + n > isize ip then isize ip - off else n) in
        bnd (readi_loop i (unat off) (unat n) [] s) (\<lambda>got s. Ok (n, got) s))"

definition splice :: "byte list \<Rightarrow> nat \<Rightarrow> byte list \<Rightarrow> byte list" where
  "splice d k xs = take k d @ xs @ drop (k + length xs) d"

function writei_loop ::
    "nat \<Rightarrow> nat \<Rightarrow> byte list \<Rightarrow> 'z constate_scheme \<Rightarrow> ('z constate_scheme, unit) outcome" where
  "writei_loop i off src s =
     (if src = [] then Ok () s
      else bnd (bmap i (of_nat (off div BSIZE)) s) (\<lambda>a s.
           bnd (bread (idev (icache s ! i)) a s) (\<lambda>b s.
             let m = min (length src) (BSIZE - off mod BSIZE) in
             bnd (log_write b (set_bdata b (splice (bdata (bufs s ! b)) (off mod BSIZE) (take m src)) s)) (\<lambda>_ s.
             bnd (brelse b s) (\<lambda>_ s. writei_loop i (off + m) (drop m src) s)))))"
  by pat_completeness auto
termination
  by (relation "measure (\<lambda>(i, off, src, s). length src)") (auto simp: BSIZE_def)

declare writei_loop.simps [simp del]

definition writei :: "nat \<Rightarrow> byte list \<Rightarrow> uint \<Rightarrow> 'z constate_scheme \<Rightarrow> ('z constate_scheme, cint) outcome" where
  "writei i src off s =
     (let ip = icache s ! i; n = of_nat (length src) in
      if itype ip = T_DEV then (if is_console ip s then consolewrite i src s else Ok (- 1) s)
      else if off > isize ip \<or> off + n < off then Ok (- 1) s
      else if off + n > of_nat (MAXFILE * BSIZE) then Ok (- 1) s
      else bnd (writei_loop i (unat off) src s) (\<lambda>_ s.
             bnd (if n > 0 \<and> off + n > isize (icache s ! i)
                  then iupdate i (upd_inode i (\<lambda>ip. ip\<lparr>isize := off + n\<rparr>) s)
                  else Ok () s) (\<lambda>_ s. Ok n s)))"

subsection \<open>Directories\<close>

text \<open>\<open>strncmp\<close> on two strings, whose bytes after the last are zero.\<close>

definition str_nth :: "byte list \<Rightarrow> nat \<Rightarrow> byte" where
  "str_nth s k = (if k < length s then s ! k else 0)"

fun namecmp_loop :: "byte list \<Rightarrow> byte list \<Rightarrow> nat \<Rightarrow> nat \<Rightarrow> int" where
  "namecmp_loop p q k 0 = 0"
| "namecmp_loop p q k (Suc n) =
     (if str_nth p k \<noteq> 0 \<and> str_nth p k = str_nth q k then namecmp_loop p q (Suc k) n
      else uint (str_nth p k) - uint (str_nth q k))"

definition namecmp :: "byte list \<Rightarrow> byte list \<Rightarrow> int" where
  "namecmp s t = namecmp_loop s t 0 DIRSIZ"

record dirent =
  de_inum :: ushort
  de_name :: "byte list"

definition get_dirent :: "byte list \<Rightarrow> dirent" where
  "get_dirent d = \<lparr>de_inum = rd16 d 0, de_name = take DIRSIZ (drop 2 d)\<rparr>"

definition put_dirent :: "dirent \<Rightarrow> byte list" where
  "put_dirent e = [ucast (de_inum e), ucast (drop_bit 8 (de_inum e))] @ de_name e"

text \<open>
  The scans of a directory over the offsets of its entries, counted from its size before the
  scan, which it does not change.
\<close>

fun dirlookup_loop ::
    "nat \<Rightarrow> byte list \<Rightarrow> nat list \<Rightarrow> 'z constate_scheme \<Rightarrow> ('z constate_scheme, (nat \<times> uint) option) outcome" where
  "dirlookup_loop dp name [] s = Ok None s"
| "dirlookup_loop dp name (off # offs) s =
     bnd (readi dp (of_nat off) 16 s) (\<lambda>r s.
       if fst r \<noteq> 16 then Panic ''dirlookup read''
       else let de = get_dirent (snd r) in
         if de_inum de = 0 then dirlookup_loop dp name offs s
         else if namecmp name (de_name de) = 0
         then bnd (iget (idev (icache s ! dp)) (ucast (de_inum de)) s) (\<lambda>ip s. Ok (Some (ip, of_nat off)) s)
         else dirlookup_loop dp name offs s)"

definition dir_offsets :: "uint \<Rightarrow> nat list" where
  "dir_offsets n = map (\<lambda>k. 16 * k) [0..<(unat n + 15) div 16]"

definition dirlookup ::
    "nat \<Rightarrow> byte list \<Rightarrow> 'z constate_scheme \<Rightarrow> ('z constate_scheme, (nat \<times> uint) option) outcome" where
  "dirlookup dp name s =
     (if itype (icache s ! dp) \<noteq> T_DIR then Panic ''dirlookup not DIR''
      else dirlookup_loop dp name (dir_offsets (isize (icache s ! dp))) s)"

text \<open>The offset of the first free entry, or the end of the directory.\<close>

fun dirlink_loop :: "nat \<Rightarrow> nat list \<Rightarrow> nat \<Rightarrow> 'z constate_scheme \<Rightarrow> ('z constate_scheme, nat) outcome" where
  "dirlink_loop dp [] end s = Ok end s"
| "dirlink_loop dp (off # offs) end s =
     bnd (readi dp (of_nat off) 16 s) (\<lambda>r s.
       if fst r \<noteq> 16 then Panic ''dirlink read''
       else if de_inum (get_dirent (snd r)) = 0 then Ok off s
       else dirlink_loop dp offs end s)"

definition dirlink :: "nat \<Rightarrow> byte list \<Rightarrow> uint \<Rightarrow> 'z constate_scheme \<Rightarrow> ('z constate_scheme, cint) outcome" where
  "dirlink dp name ino s =
     bnd (dirlookup dp name s) (\<lambda>r s.
       (case r of
          Some (ip, _) \<Rightarrow> bnd (iput ip s) (\<lambda>_ s. Ok (- 1) s)
        | None \<Rightarrow>
            let offs = dir_offsets (isize (icache s ! dp)) in
            bnd (dirlink_loop dp offs (16 * length offs) s) (\<lambda>off s.
            bnd (writei dp (put_dirent \<lparr>de_inum = ucast ino, de_name = take DIRSIZ (name @ replicate DIRSIZ 0)\<rparr>)
                   (of_nat off) s) (\<lambda>r s.
              if r \<noteq> 16 then Panic ''dirlink'' else Ok 0 s))))"

subsection \<open>Paths\<close>

text \<open>The rest of the path and its first element, cut to \<open>DIRSIZ\<close> bytes.\<close>

definition skipelem :: "byte list \<Rightarrow> (byte list \<times> byte list) option" where
  "skipelem path =
     (let s = dropWhile (\<lambda>c. c = 47) path in
      if s = [] then None
      else let elem = takeWhile (\<lambda>c. c \<noteq> 47) s; rest = dropWhile (\<lambda>c. c \<noteq> 47) s in
        Some (dropWhile (\<lambda>c. c = 47) rest, take DIRSIZ elem))"

lemma skipelem_shorter: "skipelem path = Some (rest, name) \<Longrightarrow> length rest < length path"
proof -
  assume a: "skipelem path = Some (rest, name)"
  define s where "s = dropWhile (\<lambda>c. c = 47) path"
  have s: "s \<noteq> []" "rest = dropWhile (\<lambda>c. c = 47) (dropWhile (\<lambda>c. c \<noteq> 47) s)"
    using a by (auto simp: skipelem_def s_def Let_def split: if_splits)
  have "hd s \<noteq> 47" using s(1) hd_dropWhile [of "\<lambda>c. c = 47" path] by (auto simp: s_def)
  then have "length (dropWhile (\<lambda>c. c \<noteq> 47) s) < length s"
    using s(1) length_dropWhile_le [of "\<lambda>c. c \<noteq> 47" "tl s"] by (cases s) auto
  moreover have "length s \<le> length path" unfolding s_def by (rule length_dropWhile_le)
  moreover have "length rest \<le> length (dropWhile (\<lambda>c. c \<noteq> 47) s)" unfolding s(2) by (rule length_dropWhile_le)
  ultimately show ?thesis by simp
qed

function namex_loop ::
    "nat \<Rightarrow> byte list \<Rightarrow> bool \<Rightarrow> byte list \<Rightarrow> 'z constate_scheme \<Rightarrow> ('z constate_scheme, (nat \<times> byte list) option) outcome" where
  "namex_loop ip path parent_only lastname s =
     (case skipelem path of
        None \<Rightarrow> if parent_only then bnd (iput ip s) (\<lambda>_ s. Ok None s) else Ok (Some (ip, lastname)) s
      | Some (rest, name) \<Rightarrow>
          bnd (ilock (Some ip) s) (\<lambda>_ s.
            if itype (icache s ! ip) \<noteq> T_DIR then bnd (iunlockput ip s) (\<lambda>_ s. Ok None s)
            else if parent_only \<and> rest = [] then bnd (iunlock (Some ip) s) (\<lambda>_ s. Ok (Some (ip, name)) s)
            else bnd (dirlookup ip name s) (\<lambda>r s.
              (case r of
                 None \<Rightarrow> bnd (iunlockput ip s) (\<lambda>_ s. Ok None s)
               | Some (next, _) \<Rightarrow> bnd (iunlockput ip s) (\<lambda>_ s. namex_loop next rest parent_only name s)))))"
  by pat_completeness auto
termination
  by (relation "measure (\<lambda>(ip, path, po, lastname, s). length path)") (auto dest: skipelem_shorter)

declare namex_loop.simps [simp del]

definition namex ::
    "byte list \<Rightarrow> bool \<Rightarrow> 'z constate_scheme \<Rightarrow> ('z constate_scheme, (nat \<times> byte list) option) outcome" where
  "namex path parent_only s =
     bnd (if path \<noteq> [] \<and> hd path = 47 then iget ROOTDEV ROOTINO s
          else case myproc s of
                 None \<Rightarrow> Fault
               | Some p \<Rightarrow> (case cwd (ptable s ! p) of None \<Rightarrow> Fault | Some i \<Rightarrow> idup i s)) (\<lambda>ip s.
       namex_loop ip path parent_only [] s)"

definition namei :: "byte list \<Rightarrow> 'z constate_scheme \<Rightarrow> ('z constate_scheme, nat option) outcome" where
  "namei path s = bnd (namex path False s) (\<lambda>r s. Ok (map_option fst r) s)"

definition nameiparent ::
    "byte list \<Rightarrow> 'z constate_scheme \<Rightarrow> ('z constate_scheme, (nat \<times> byte list) option) outcome" where
  "nameiparent path s = namex path True s"

end
