(* ===== verification/Pipe.thy ===== *)
theory Pipe
  imports Fs
begin

section \<open>Pipes (pipe.c)\<close>

text \<open>
  A pipe is a ring of 512 bytes with two counters that only grow, modulo the width of an unsigned
  int. It refines a bounded queue: what a writer appends, a reader takes from the front in the
  same order. A pipe is named by the address of its page. The allocation of a pipe is in \<open>File\<close>,
  with the file table it needs.
\<close>

definition PIPESIZE :: nat where "PIPESIZE = 512"

record pipe =
  pipe_data :: "byte list"
  nread :: uint
  nwrite :: uint
  readopen :: bool
  writeopen :: bool

record pipestate = constate +
  pipes :: "uint \<Rightarrow> pipe"

definition upd_pipe :: "uint \<Rightarrow> (pipe \<Rightarrow> pipe) \<Rightarrow> 'z pipestate_scheme \<Rightarrow> 'z pipestate_scheme" where
  "upd_pipe p f s = s\<lparr>pipes := (pipes s)(p := f (pipes s p))\<rparr>"

definition pipe_full :: "pipe \<Rightarrow> bool" where
  "pipe_full q \<longleftrightarrow> nwrite q = nread q + of_nat PIPESIZE"

definition put_byte :: "byte \<Rightarrow> pipe \<Rightarrow> pipe" where
  "put_byte c q = q\<lparr>pipe_data := (pipe_data q)[unat (nwrite q) mod PIPESIZE := c], nwrite := nwrite q + 1\<rparr>"

definition pipeclose :: "uint \<Rightarrow> bool \<Rightarrow> 'z pipestate_scheme \<Rightarrow> ('z pipestate_scheme, unit) outcome" where
  "pipeclose p writable s =
     bnd (lk_acquire (LPipe p) s) (\<lambda>_ s.
     bnd (if writable then wakeup (CPipeRead p) (upd_pipe p (\<lambda>q. q\<lparr>writeopen := False\<rparr>) s)
          else wakeup (CPipeWrite p) (upd_pipe p (\<lambda>q. q\<lparr>readopen := False\<rparr>) s)) (\<lambda>_ s.
       if \<not> readopen (pipes s p) \<and> \<not> writeopen (pipes s p)
       then bnd (lk_release (LPipe p) s) (\<lambda>_ s. kfree p s)
       else lk_release (LPipe p) s))"

text \<open>
  The loop of \<open>pipewrite\<close> over the bytes still to write, \<open>n\<close> asked for. A full pipe puts the writer
  to sleep; \<open>pipewrite_resume\<close> goes on with the bytes that are left.
\<close>

fun pipewrite_loop :: "uint \<Rightarrow> byte list \<Rightarrow> cint \<Rightarrow> 'z pipestate_scheme \<Rightarrow> ('z pipestate_scheme, cint) outcome" where
  "pipewrite_loop p [] n s =
     bnd (wakeup (CPipeRead p) s) (\<lambda>_ s. bnd (lk_release (LPipe p) s) (\<lambda>_ s. Ok n s))"
| "pipewrite_loop p (c # cs) n s =
     (if pipe_full (pipes s p) then
        (case myproc s of
           None \<Rightarrow> if \<not> readopen (pipes s p) then bnd (lk_release (LPipe p) s) (\<lambda>_ s. Ok (- 1) s) else Fault
         | Some me \<Rightarrow>
             if \<not> readopen (pipes s p) \<or> killed (ptable s ! me)
             then bnd (lk_release (LPipe p) s) (\<lambda>_ s. Ok (- 1) s)
             else bnd (wakeup (CPipeRead p) s) (\<lambda>_ s.
                  bnd (sleep (CPipeWrite p) (Some (LPipe p)) s) (\<lambda>_ _. Fault)))
      else pipewrite_loop p cs n (upd_pipe p (put_byte c) s))"

definition pipewrite :: "uint \<Rightarrow> byte list \<Rightarrow> 'z pipestate_scheme \<Rightarrow> ('z pipestate_scheme, cint) outcome" where
  "pipewrite p cs s =
     bnd (lk_acquire (LPipe p) s) (\<lambda>_ s. pipewrite_loop p cs (of_nat (length cs)) s)"

definition pipewrite_resume ::
    "uint \<Rightarrow> byte list \<Rightarrow> cint \<Rightarrow> 'z pipestate_scheme \<Rightarrow> ('z pipestate_scheme, cint) outcome" where
  "pipewrite_resume p cs n s = bnd (sleep_resume (LPipe p) s) (\<lambda>_ s. pipewrite_loop p cs n s)"

text \<open>The copying loop of \<open>piperead\<close>: up to \<open>n\<close> bytes, as many as there are.\<close>

fun pipe_take :: "nat \<Rightarrow> pipe \<Rightarrow> byte list \<times> pipe" where
  "pipe_take 0 q = ([], q)"
| "pipe_take (Suc n) q =
     (if nread q = nwrite q then ([], q)
      else let c = pipe_data q ! (unat (nread q) mod PIPESIZE);
               (cs, q') = pipe_take n (q\<lparr>nread := nread q + 1\<rparr>)
           in (c # cs, q'))"

definition piperead_loop :: "uint \<Rightarrow> cint \<Rightarrow> 'z pipestate_scheme \<Rightarrow> ('z pipestate_scheme, cint \<times> byte list) outcome" where
  "piperead_loop p n s =
     (if nread (pipes s p) = nwrite (pipes s p) \<and> writeopen (pipes s p) then
        (case myproc s of
           None \<Rightarrow> Fault
         | Some me \<Rightarrow>
             if killed (ptable s ! me) then bnd (lk_release (LPipe p) s) (\<lambda>_ s. Ok (- 1, []) s)
             else bnd (sleep (CPipeRead p) (Some (LPipe p)) s) (\<lambda>_ _. Fault))
      else let (cs, q) = pipe_take (nat (sint n)) (pipes s p) in
        bnd (wakeup (CPipeWrite p) (upd_pipe p (\<lambda>_. q) s)) (\<lambda>_ s.
        bnd (lk_release (LPipe p) s) (\<lambda>_ s. Ok (of_nat (length cs), cs) s)))"

definition piperead :: "uint \<Rightarrow> cint \<Rightarrow> 'z pipestate_scheme \<Rightarrow> ('z pipestate_scheme, cint \<times> byte list) outcome" where
  "piperead p n s = bnd (lk_acquire (LPipe p) s) (\<lambda>_ s. piperead_loop p n s)"

definition piperead_resume :: "uint \<Rightarrow> cint \<Rightarrow> 'z pipestate_scheme \<Rightarrow> ('z pipestate_scheme, cint \<times> byte list) outcome" where
  "piperead_resume p n s = bnd (sleep_resume (LPipe p) s) (\<lambda>_ s. piperead_loop p n s)"

subsection \<open>A pipe is a bounded queue\<close>

text \<open>
  The contract of a bounded queue of bytes: putting a byte appends it, taking gives a prefix. Its
  clients get the stream property: whatever the interleaving of puts and takes, what came out
  followed by what is still inside is what was inside followed by what went in.
\<close>

datatype 'a queue_op = Put 'a | Take nat

locale bounded_queue =
  fixes ok :: "'q \<Rightarrow> bool"
    and full :: "'q \<Rightarrow> bool"
    and put :: "'a \<Rightarrow> 'q \<Rightarrow> 'q"
    and get :: "nat \<Rightarrow> 'q \<Rightarrow> 'a list \<times> 'q"
    and items :: "'q \<Rightarrow> 'a list"
    and cap :: nat
  assumes put_ok: "ok q \<Longrightarrow> \<not> full q \<Longrightarrow> ok (put x q) \<and> items (put x q) = items q @ [x]"
    and get_ok: "ok q \<Longrightarrow> get n q = (xs, q') \<Longrightarrow> ok q' \<and> xs = take n (items q) \<and> items q' = drop n (items q)"
    and full_iff: "ok q \<Longrightarrow> full q \<longleftrightarrow> length (items q) = cap"
    and bounded: "ok q \<Longrightarrow> length (items q) \<le> cap"
begin

fun queue_run :: "'a queue_op list \<Rightarrow> 'q \<Rightarrow> 'a list \<times> 'a list \<times> 'q" where
  "queue_run [] q = ([], [], q)"
| "queue_run (Put x # ops) q =
     (if full q then queue_run ops q
      else case queue_run ops (put x q) of (ins, outs, q') \<Rightarrow> (x # ins, outs, q'))"
| "queue_run (Take n # ops) q =
     (case get n q of (xs, q1) \<Rightarrow> case queue_run ops q1 of (ins, outs, q') \<Rightarrow> (ins, xs @ outs, q'))"

lemma queue_stream:
  "ok q \<Longrightarrow> queue_run ops q = (ins, outs, q') \<Longrightarrow>
   ok q' \<and> items q @ ins = outs @ items q' \<and> length (items q') \<le> cap"
proof (induction ops q arbitrary: ins outs q' rule: queue_run.induct)
  case (2 x ops q)
  show ?case
  proof (cases "full q")
    case True
    with 2 show ?thesis by simp
  next
    case False
    obtain ins' where r: "queue_run ops (put x q) = (ins', outs, q')" and i: "ins = x # ins'"
      using 2(4) False by (auto split: prod.splits)
    from put_ok [OF 2(3) False, of x] have "ok (put x q)" "items (put x q) = items q @ [x]" by auto
    with 2(2) [OF False this(1) r] i show ?thesis by simp
  qed
next
  case (3 n ops q)
  obtain xs q1 where g: "get n q = (xs, q1)" by fastforce
  obtain outs' where r: "queue_run ops q1 = (ins, outs', q')" and o: "outs = xs @ outs'"
    using 3(3) g by (auto split: prod.splits)
  from get_ok [OF 3(2) g] have q1: "ok q1" "xs = take n (items q)" "items q1 = drop n (items q)" by auto
  from 3(1) [OF g [symmetric] q1(1) r] have ih: "ok q'" "items q1 @ ins = outs' @ items q'" "length (items q') \<le> cap"
    by auto
  have "items q = xs @ items q1" by (simp add: q1)
  with ih o show ?case by simp
qed (auto intro: bounded)

end

definition pipe_ok :: "pipe \<Rightarrow> bool" where
  "pipe_ok q \<longleftrightarrow> length (pipe_data q) = PIPESIZE \<and> unat (nwrite q - nread q) \<le> PIPESIZE"

definition pipe_queue :: "pipe \<Rightarrow> byte list" where
  "pipe_queue q =
     map (\<lambda>k. pipe_data q ! (unat (nread q + of_nat k) mod PIPESIZE)) [0..<unat (nwrite q - nread q)]"

lemma length_pipe_queue [simp]: "length (pipe_queue q) = unat (nwrite q - nread q)"
  by (simp add: pipe_queue_def)

text \<open>512 divides the modulus of the counters, so a counter that wraps stays in step with its slot.\<close>

lemma unat_add_mod512: "unat (a + b :: uint) mod 512 = (unat a + unat b) mod 512"
proof -
  have "(512::nat) dvd 4294967296" by simp
  then show ?thesis by (simp add: unat_word_ariths mod_mod_cancel)
qed

lemma pipe_full_iff: "pipe_full q \<longleftrightarrow> unat (nwrite q - nread q) = PIPESIZE"
proof -
  have "pipe_full q \<longleftrightarrow> nwrite q - nread q = of_nat PIPESIZE"
    by (auto simp: pipe_full_def algebra_simps)
  also have "\<dots> \<longleftrightarrow> unat (nwrite q - nread q) = unat (of_nat PIPESIZE :: uint)"
    by (simp only: word_unat_eq_iff)
  finally show ?thesis by (simp add: PIPESIZE_def)
qed

lemma put_byte_queue:
  assumes "pipe_ok q" "\<not> pipe_full q"
  shows "pipe_ok (put_byte c q) \<and> pipe_queue (put_byte c q) = pipe_queue q @ [c]"
proof -
  define n where "n = unat (nwrite q - nread q)"
  have n: "n < 512" and len: "length (pipe_data q) = 512"
    using assms by (auto simp: pipe_ok_def pipe_full_iff n_def PIPESIZE_def)
  have e: "nwrite q + 1 - nread q = (nwrite q - nread q) + 1" by simp
  have cnt: "unat (nwrite q + 1 - nread q) = Suc n"
    unfolding e using n by (subst unat_add32) (simp_all add: n_def)
  have w: "nwrite q = nread q + of_nat n" by (simp add: n_def)
  have slot: "unat (nwrite q) mod 512 = (unat (nread q) + n) mod 512"
    using n unat_add_mod512 [of "nread q" "of_nat n"] by (simp add: w [symmetric] unat_of_nat32)
  have other: "(unat (nread q) + n) mod 512 \<noteq> (unat (nread q) + k) mod 512" if "k < n" for k
  proof
    assume "(unat (nread q) + n) mod 512 = (unat (nread q) + k) mod 512"
    then have "n mod 512 = k mod 512" by (simp add: mod_add_cong nat_mod_eq_iff)
    with that n show False by simp
  qed
  have keep: "(pipe_data q)[unat (nwrite q) mod 512 := c] ! (unat (nread q + of_nat k) mod 512)
      = pipe_data q ! (unat (nread q + of_nat k) mod 512)" if "k < n" for k
  proof -
    have "unat (nread q + of_nat k) mod 512 = (unat (nread q) + k) mod 512"
      using that n unat_add_mod512 [of "nread q" "of_nat k"] by (simp add: unat_of_nat32)
    with other [OF that] slot show ?thesis by simp
  qed
  have new: "(pipe_data q)[unat (nwrite q) mod 512 := c] ! (unat (nread q + of_nat n) mod 512) = c"
    using len by (simp add: w [symmetric])
  have "pipe_queue (put_byte c q) = map (\<lambda>k. pipe_data q ! (unat (nread q + of_nat k) mod 512)) [0..<n] @ [c]"
    using keep new by (simp add: pipe_queue_def put_byte_def cnt PIPESIZE_def)
  moreover have "pipe_ok (put_byte c q)"
    using len n by (simp add: pipe_ok_def put_byte_def cnt PIPESIZE_def)
  ultimately show ?thesis by (simp add: pipe_queue_def n_def PIPESIZE_def)
qed

lemma pipe_queue_Cons:
  assumes "nread q \<noteq> nwrite q"
  shows "pipe_queue q = pipe_data q ! (unat (nread q) mod PIPESIZE) # pipe_queue (q\<lparr>nread := nread q + 1\<rparr>)"
    and "unat (nwrite q - nread q) = Suc (unat (nwrite q - (nread q + 1)))"
proof -
  have "nwrite q - nread q \<noteq> 0" using assms by simp
  then have pos: "0 < unat (nwrite q - nread q)" by (rule unat_gt_0 [THEN iffD2])
  have e: "nwrite q - (nread q + 1) = (nwrite q - nread q) - 1" by simp
  show n: "unat (nwrite q - nread q) = Suc (unat (nwrite q - (nread q + 1)))"
    unfolding e using pos by (subst unat_diff32) simp_all
  have up: "[0..<Suc m] = 0 # map Suc [0..<m]" for m by (simp add: map_Suc_upt upt_conv_Cons)
  show "pipe_queue q = pipe_data q ! (unat (nread q) mod PIPESIZE) # pipe_queue (q\<lparr>nread := nread q + 1\<rparr>)"
    by (simp add: pipe_queue_def n up comp_def add.assoc del: upt_Suc)
qed

lemma pipe_take_queue:
  "pipe_ok q \<Longrightarrow> pipe_take n q = (cs, q') \<Longrightarrow>
   pipe_ok q' \<and> cs = take n (pipe_queue q) \<and> pipe_queue q' = drop n (pipe_queue q)"
proof (induction n q arbitrary: cs rule: pipe_take.induct)
  case (2 n q)
  show ?case
  proof (cases "nread q = nwrite q")
    case True
    with 2 have "cs = []" "q' = q" by auto
    with True 2 show ?thesis by (simp add: pipe_queue_def)
  next
    case False
    let ?q = "q\<lparr>nread := nread q + 1\<rparr>"
    obtain cs' where t: "pipe_take n ?q = (cs', q')" and c: "cs = pipe_data q ! (unat (nread q) mod PIPESIZE) # cs'"
      using 2(3) False by (auto simp: Let_def split: prod.splits)
    have ok: "pipe_ok ?q" using 2(2) pipe_queue_Cons(2) [OF False] by (simp add: pipe_ok_def)
    from 2(1) [OF False HOL.refl ok t] c show ?thesis by (simp add: pipe_queue_Cons(1) [OF False])
  qed
qed simp

interpretation pq: bounded_queue pipe_ok pipe_full put_byte pipe_take pipe_queue PIPESIZE
  by unfold_locales
    (use put_byte_queue pipe_take_queue in \<open>blast+\<close>, simp_all add: pipe_full_iff, simp add: pipe_ok_def)

subsection \<open>Writers and readers\<close>

lemma pipes_frame [simp]:
  "pipes (upd_proc i f s) = pipes s" "pipes (upd_pipe p g s) = (pipes s)(p := g (pipes s p))"
  by (simp_all add: upd_proc_def upd_pipe_def)

text \<open>Pipe \<open>q'\<close> is pipe \<open>q\<close> after the first \<open>k\<close> bytes of \<open>cs\<close> went in.\<close>

definition pushed :: "nat \<Rightarrow> byte list \<Rightarrow> pipe \<Rightarrow> pipe \<Rightarrow> bool" where
  "pushed k cs q q' \<longleftrightarrow> k \<le> length cs \<and> nread q' = nread q \<and> pipe_ok q' \<and> pipe_queue q' = pipe_queue q @ take k cs"

definition blocked :: "byte list \<Rightarrow> pipe \<Rightarrow> pipe \<Rightarrow> bool" where
  "blocked cs q q' \<longleftrightarrow> (\<exists>k < length cs. pushed k cs q q' \<and> pipe_full q')"

lemma pushed_0: "pipe_ok q \<Longrightarrow> pushed 0 cs q q"
  by (simp add: pushed_def)

lemma pushed_Suc:
  assumes "pipe_ok q" "\<not> pipe_full q" "pushed k cs (put_byte c q) q'"
  shows "pushed (Suc k) (c # cs) q q'"
  using assms put_byte_queue [OF assms(1,2), of c] by (simp add: pushed_def) (simp add: put_byte_def)

lemma blocked_Suc:
  "pipe_ok q \<Longrightarrow> \<not> pipe_full q \<Longrightarrow> blocked cs (put_byte c q) q' \<Longrightarrow> blocked (c # cs) q q'"
  unfolding blocked_def by (metis Suc_less_eq length_Cons pushed_Suc)

lemma pushed_count:
  assumes "pushed k cs q q'" "pipe_ok q"
  shows "unat (nwrite q' - nwrite q) = k"
proof -
  have r: "nread q' = nread q" and ok: "pipe_ok q'" and k: "k \<le> length cs"
    and q: "pipe_queue q' = pipe_queue q @ take k cs"
    using assms by (auto simp: pushed_def)
  from arg_cong [OF q, of length] k
  have n: "unat (nwrite q' - nread q) = unat (nwrite q - nread q) + k" by (simp add: r)
  have "unat (nwrite q' - nwrite q) = unat ((nwrite q' - nread q) - (nwrite q - nread q))" by simp
  also have "\<dots> = k" using n by (subst unat_diff32) simp_all
  finally show ?thesis .
qed

lemma wp_pipewrite_loop:
  assumes "pipe_ok (pipes s p)"
  shows "wp (pipewrite_loop p cs n s)
    (\<lambda>r t. (r = n \<and> pushed (length cs) cs (pipes s p) (pipes t p)) \<or> (r = - 1 \<and> blocked cs (pipes s p) (pipes t p)))
    (\<lambda>t. blocked cs (pipes s p) (pipes t p))"
  using assms
proof (induction cs arbitrary: s)
  case Nil
  then show ?case by (simp add: wp_rules pushed_def)
next
  case (Cons c cs)
  show ?case
  proof (cases "pipe_full (pipes s p)")
    case True
    have "blocked (c # cs) (pipes s p) (pipes s p)"
      using True pushed_0 [OF Cons(2)] by (auto simp: blocked_def)
    with True show ?thesis by (auto simp: wp_rules split: option.splits intro!: wp_sleep)
  next
    case False
    from put_byte_queue [OF Cons(2) False] have ok: "pipe_ok (pipes (upd_pipe p (put_byte c) s) p)" by simp
    show ?thesis
      unfolding pipewrite_loop.simps if_not_P [OF False]
      by (rule wp_mono [OF Cons(1) [OF ok]])
        (use pushed_Suc [OF Cons(2) False] blocked_Suc [OF Cons(2) False] in auto)
  qed
qed

lemma wp_piperead_loop:
  assumes "pipe_ok (pipes s p)"
  shows "wp (piperead_loop p n s)
    (\<lambda>(r, bs) t. (r = - 1 \<and> bs = [] \<and> pipes t p = pipes s p)
       \<or> (r = of_nat (length bs) \<and> bs = take (nat (sint n)) (pipe_queue (pipes s p)) \<and> pipe_ok (pipes t p)
          \<and> pipe_queue (pipes t p) = drop (nat (sint n)) (pipe_queue (pipes s p))))
    (\<lambda>t. pipes t p = pipes s p \<and> pipe_queue (pipes s p) = [] \<and> writeopen (pipes s p))"
proof (cases "nread (pipes s p) = nwrite (pipes s p) \<and> writeopen (pipes s p)")
  case True
  then have "pipe_queue (pipes s p) = []" by (simp add: pipe_queue_def)
  with True show ?thesis
    by (auto simp: piperead_loop_def wp_rules split: option.splits intro!: wp_sleep)
next
  case False
  obtain cs q where t: "pipe_take (nat (sint n)) (pipes s p) = (cs, q)" by fastforce
  from pipe_take_queue [OF assms t] t show ?thesis
    unfolding piperead_loop_def if_not_P [OF False] by (simp add: wp_rules)
qed

text \<open>
  The history of a pipe: any interleaving of runs of \<open>pipewrite\<close> and \<open>piperead\<close>, each up to its
  return or to the switch in \<open>sleep\<close> (and on from there after a wakeup), with other steps between
  that leave the pipe alone. It records the bytes that went in and came out.
\<close>

inductive pipe_history :: "uint \<Rightarrow> 'z pipestate_scheme \<Rightarrow> byte list \<Rightarrow> byte list \<Rightarrow> 'z pipestate_scheme \<Rightarrow> bool"
  for p s where
  start: "pipe_history p s [] [] s"
| put: "pipe_history p s w r t \<Longrightarrow> pipewrite_loop p cs n t = Ok v u \<or> pipewrite_loop p cs n t = Swtch u \<Longrightarrow>
    pipe_history p s (w @ take (unat (nwrite (pipes u p) - nwrite (pipes t p))) cs) r u"
| get: "pipe_history p s w r t \<Longrightarrow> piperead_loop p n t = Ok (v, bs) u \<Longrightarrow> pipe_history p s w (r @ bs) u"
| get_sleep: "pipe_history p s w r t \<Longrightarrow> piperead_loop p n t = Swtch u \<Longrightarrow> pipe_history p s w r u"
| other: "pipe_history p s w r t \<Longrightarrow> pipes u p = pipes t p \<Longrightarrow> pipe_history p s w r u"

lemma pipe_history_stream:
  assumes "pipe_history p s w r t" "pipe_ok (pipes s p)"
  shows "pipe_ok (pipes t p) \<and> pipe_queue (pipes s p) @ w = r @ pipe_queue (pipes t p)"
  using assms
proof (induction rule: pipe_history.induct)
  case (put w r t cs n v u)
  have ok: "pipe_ok (pipes t p)" and ih: "pipe_queue (pipes s p) @ w = r @ pipe_queue (pipes t p)"
    using put by auto
  have "\<exists>k. pushed k cs (pipes t p) (pipes u p)"
    using put(2) wp_OkD [OF wp_pipewrite_loop [OF ok, of cs n], of v u]
      wp_SwtchD [OF wp_pipewrite_loop [OF ok, of cs n], of u]
    unfolding blocked_def by blast
  then obtain k where k: "pushed k cs (pipes t p) (pipes u p)" by blast
  with ih show ?case using pushed_count [OF k ok] by (simp add: pushed_def flip: append_assoc)
next
  case (get w r t n v bs u)
  have ok: "pipe_ok (pipes t p)" and ih: "pipe_queue (pipes s p) @ w = r @ pipe_queue (pipes t p)"
    using get by auto
  from wp_OkD [OF wp_piperead_loop [OF ok, of n] get(2)] ok
  have "pipe_ok (pipes u p) \<and> pipe_queue (pipes t p) = bs @ pipe_queue (pipes u p)" by auto
  with ih show ?case by simp
next
  case (get_sleep w r t n u)
  then have ok: "pipe_ok (pipes t p)" by simp
  from wp_SwtchD [OF wp_piperead_loop [OF ok, of n] get_sleep(2)] get_sleep show ?case by auto
qed simp_all

text \<open>
  C7. A pipe loses, duplicates and reorders nothing: after any history of writes and reads, with
  any sleeping in between and with counters that may wrap, what the readers got followed by what
  the pipe holds is what it held at the start followed by what the writers put in; and it never
  holds more than 512 bytes.
\<close>

theorem pipe_fifo:
  assumes "pipe_history p s w r t" "pipe_ok (pipes s p)"
  shows "pipe_queue (pipes s p) @ w = r @ pipe_queue (pipes t p) \<and> length (pipe_queue (pipes t p)) \<le> PIPESIZE"
  using pipe_history_stream [OF assms] by (simp add: pipe_ok_def)

definition pipe0 :: pipestate where
  "pipe0 = constate.extend con0 \<lparr>pipes = (\<lambda>_. \<lparr>pipe_data = replicate PIPESIZE 0, nread = 0xFFFFFFFF,
     nwrite = 0xFFFFFFFF, readopen = True, writeopen = True\<rparr>)\<rparr>"

lemma pipe0_simps [simp]:
  "held pipe0 = {}" "cpu_proc pipe0 = Some 0" "ptable pipe0 = [proc0\<lparr>pid := 4\<rparr>]"
  "pipes pipe0 p = \<lparr>pipe_data = replicate PIPESIZE 0, nread = 0xFFFFFFFF, nwrite = 0xFFFFFFFF,
     readopen = True, writeopen = True\<rparr>"
  by (simp_all add: pipe0_def con0_def istate0_def log0_def constate.defs istate.defs logstate.defs
      bstate.defs)

theorem pipe_fifo_witness:
  "\<exists>s t. pipe_history 4096 (s :: pipestate) [7, 8] [7] t \<and> pipe_queue (pipes s 4096) = []
     \<and> pipe_queue (pipes t 4096) = [8]"
proof -
  let ?s = "pipe0\<lparr>held := {LPipe 4096}\<rparr>"
  let ?q = "put_byte 8 (put_byte 7 (pipes pipe0 4096))"
  have ok: "pipe_ok (pipes ?s 4096)" and empty: "pipe_queue (pipes ?s 4096) = []"
    by (simp_all add: pipe_ok_def pipe_queue_def)
  obtain v u where u: "pipewrite_loop 4096 [7, 8] 2 ?s = Ok v u" and pu: "pipes u 4096 = ?q"
    by (simp add: pipe_full_def put_byte_def PIPESIZE_def upd_pipe_def wakeup_eq)
  have two: "unat (nwrite (pipes u 4096) - nwrite (pipes ?s 4096)) = 2"
    by (simp add: pu put_byte_def)
  have h1: "pipe_history 4096 ?s ([] @ take 2 [7, 8]) [] u"
    unfolding two [symmetric] by (rule pipe_history.put [OF pipe_history.start]) (rule disjI1 [OF u])
  let ?u = "u\<lparr>held := {LPipe 4096}\<rparr>"
  have h2: "pipe_history 4096 ?s [7, 8] [] ?u" by (rule pipe_history.other [OF h1 [simplified]]) simp
  have ne: "nread (pipes u 4096) \<noteq> nwrite (pipes u 4096)" by (simp add: pu put_byte_def)
  have pt: "pipe_take (Suc 0) (pipes u 4096) = ([7], ?q\<lparr>nread := 0\<rparr>)"
    by (simp add: pu put_byte_def PIPESIZE_def)
  obtain w t where t: "piperead_loop 4096 1 ?u = Ok (w, [7]) t"
    using ne pt by (simp add: piperead_loop_def wakeup_eq upd_pipe_def del: pipe_take.simps)
  have h3: "pipe_history 4096 ?s [7, 8] [7] t" using pipe_history.get [OF h2 t] by simp
  have "pipe_queue (pipes t 4096) = [8]" using pipe_fifo [OF h3 ok] empty by simp
  with h3 empty show ?thesis by blast
qed

end
