(* ===== verification/File.thy ===== *)
theory File
  imports Pipe
begin

section \<open>The file table (file.c; pipe.c: pipealloc)\<close>

text \<open>
  Open files with their reference counts: allocation, duplication and closing, and the dispatch of
  reads and writes to pipes and inodes. An open file is named by its index in the table.
\<close>

definition NFILE :: nat where "NFILE = 100"

datatype ftype = FD_NONE | FD_PIPE | FD_INODE

record ofile =
  f_type :: ftype
  f_ref :: cint
  f_readable :: bool
  f_writable :: bool
  f_pipe :: uint
  f_ip :: "nat option"
  f_off :: uint

record fstate = pipestate +
  ftable :: "ofile list"

definition upd_file :: "nat \<Rightarrow> (ofile \<Rightarrow> ofile) \<Rightarrow> 'z fstate_scheme \<Rightarrow> 'z fstate_scheme" where
  "upd_file i f s = s\<lparr>ftable := (ftable s)[i := f (ftable s ! i)]\<rparr>"

definition filealloc :: "'z fstate_scheme \<Rightarrow> ('z fstate_scheme, nat option) outcome" where
  "filealloc s =
     bnd (lk_acquire LFtable s) (\<lambda>_ s.
     (case find_idx (\<lambda>f. f_ref f = 0) (ftable s) of
        Some i \<Rightarrow> bnd (lk_release LFtable (upd_file i (\<lambda>f. f\<lparr>f_ref := 1\<rparr>) s)) (\<lambda>_ s. Ok (Some i) s)
      | None \<Rightarrow> bnd (lk_release LFtable s) (\<lambda>_ s. Ok None s)))"

definition filedup :: "nat \<Rightarrow> 'z fstate_scheme \<Rightarrow> ('z fstate_scheme, nat) outcome" where
  "filedup i s =
     bnd (lk_acquire LFtable s) (\<lambda>_ s.
       if f_ref (ftable s ! i) <s 1 then Panic ''filedup''
       else bnd (lk_release LFtable (upd_file i (\<lambda>f. f\<lparr>f_ref := f_ref f + 1\<rparr>) s)) (\<lambda>_ s. Ok i s))"

definition put_inode :: "nat option \<Rightarrow> 'z istate_scheme \<Rightarrow> ('z istate_scheme, unit) outcome" where
  "put_inode p s = (case p of None \<Rightarrow> Fault | Some i \<Rightarrow> iput i s)"

definition fileclose :: "nat \<Rightarrow> 'z fstate_scheme \<Rightarrow> ('z fstate_scheme, unit) outcome" where
  "fileclose i s =
     bnd (lk_acquire LFtable s) (\<lambda>_ s.
       if f_ref (ftable s ! i) <s 1 then Panic ''fileclose''
       else let s = upd_file i (\<lambda>f. f\<lparr>f_ref := f_ref f - 1\<rparr>) s in
         if 0 <s f_ref (ftable s ! i) then lk_release LFtable s
         else let ff = ftable s ! i in
           bnd (lk_release LFtable (upd_file i (\<lambda>f. f\<lparr>f_ref := 0, f_type := FD_NONE\<rparr>) s)) (\<lambda>_ s.
             (case f_type ff of
                FD_PIPE \<Rightarrow> pipeclose (f_pipe ff) (f_writable ff) s
              | FD_INODE \<Rightarrow> bnd (begin_op s) (\<lambda>_ s. bnd (put_inode (f_ip ff) s) (\<lambda>_ s. end_op s))
              | FD_NONE \<Rightarrow> Ok () s)))"

definition filestat :: "nat \<Rightarrow> 'z fstate_scheme \<Rightarrow> ('z fstate_scheme, stat option) outcome" where
  "filestat i s =
     (if f_type (ftable s ! i) = FD_INODE
      then bnd (ilock (f_ip (ftable s ! i)) s) (\<lambda>_ s.
           let st = map_option (\<lambda>ip. stati ip s) (f_ip (ftable s ! i)) in
           bnd (iunlock (f_ip (ftable s ! i)) s) (\<lambda>_ s. Ok st s))
      else Ok None s)"

text \<open>A failed read returns no bytes; \<open>ilock\<close> has panicked if the file had no inode.\<close>

definition fileread :: "nat \<Rightarrow> cint \<Rightarrow> 'z fstate_scheme \<Rightarrow> ('z fstate_scheme, cint \<times> byte list) outcome" where
  "fileread i n s =
     (let f = ftable s ! i in
      if \<not> f_readable f then Ok (- 1, []) s
      else (case f_type f of
          FD_PIPE \<Rightarrow> piperead (f_pipe f) n s
        | FD_INODE \<Rightarrow>
            bnd (ilock (f_ip f) s) (\<lambda>_ s.
            bnd (case f_ip f of None \<Rightarrow> Fault | Some ip \<Rightarrow> readi ip (f_off (ftable s ! i)) n s) (\<lambda>r s.
              let s = (if 0 <s fst r then upd_file i (\<lambda>f. f\<lparr>f_off := f_off f + fst r\<rparr>) s else s) in
              bnd (iunlock (f_ip f) s) (\<lambda>_ s. Ok r s)))
        | FD_NONE \<Rightarrow> Panic ''fileread''))"

definition max_write :: nat where
  "max_write = ((MAXOPBLOCKS - 1 - 1 - 2) div 2) * 512"

text \<open>
  The loop of \<open>filewrite\<close> over the bytes still to write; the result says whether all were written.
  Each round ends its own transaction.
\<close>

function filewrite_loop :: "nat \<Rightarrow> byte list \<Rightarrow> 'z fstate_scheme \<Rightarrow> ('z fstate_scheme, bool) outcome" where
  "filewrite_loop i src s =
     (if src = [] then Ok True s
      else let n1 = min (length src) max_write in
        bnd (begin_op s) (\<lambda>_ s.
        bnd (ilock (f_ip (ftable s ! i)) s) (\<lambda>_ s.
        bnd (case f_ip (ftable s ! i) of None \<Rightarrow> Fault
             | Some ip \<Rightarrow> writei ip (take n1 src) (f_off (ftable s ! i)) s) (\<lambda>r s.
          let s = (if 0 <s r then upd_file i (\<lambda>f. f\<lparr>f_off := f_off f + r\<rparr>) s else s) in
          bnd (iunlock (f_ip (ftable s ! i)) s) (\<lambda>_ s.
          bnd (end_op s) (\<lambda>_ s.
            if r <s 0 then Ok False s
            else if r \<noteq> of_nat n1 then Panic ''short filewrite''
            else filewrite_loop i (drop n1 src) s))))))"
  by pat_completeness auto
termination
  by (relation "measure (\<lambda>(i, src, s). length src)") (auto simp: max_write_def MAXOPBLOCKS_def)

declare filewrite_loop.simps [simp del]

definition filewrite :: "nat \<Rightarrow> byte list \<Rightarrow> 'z fstate_scheme \<Rightarrow> ('z fstate_scheme, cint) outcome" where
  "filewrite i src s =
     (let f = ftable s ! i in
      if \<not> f_writable f then Ok (- 1) s
      else (case f_type f of
          FD_PIPE \<Rightarrow> pipewrite (f_pipe f) src s
        | FD_INODE \<Rightarrow> bnd (filewrite_loop i src s) (\<lambda>ok s. Ok (if ok then of_nat (length src) else - 1) s)
        | FD_NONE \<Rightarrow> Panic ''filewrite''))"

subsection \<open>Opening a pipe\<close>

definition close_if :: "nat option \<Rightarrow> 'z fstate_scheme \<Rightarrow> ('z fstate_scheme, unit) outcome" where
  "close_if f s = (case f of None \<Rightarrow> Ok () s | Some i \<Rightarrow> fileclose i s)"

definition pipe_bad :: "nat option \<Rightarrow> nat option \<Rightarrow> 'z fstate_scheme \<Rightarrow> ('z fstate_scheme, (nat \<times> nat) option) outcome" where
  "pipe_bad f0 f1 s = bnd (close_if f0 s) (\<lambda>_ s. bnd (close_if f1 s) (\<lambda>_ s. Ok None s))"

definition pipealloc :: "'z fstate_scheme \<Rightarrow> ('z fstate_scheme, (nat \<times> nat) option) outcome" where
  "pipealloc s =
     bnd (filealloc s) (\<lambda>f0 s.
       (case f0 of
          None \<Rightarrow> pipe_bad None None s
        | Some i0 \<Rightarrow>
            bnd (filealloc s) (\<lambda>f1 s.
              (case f1 of
                 None \<Rightarrow> pipe_bad f0 None s
               | Some i1 \<Rightarrow>
                   bnd (kalloc s) (\<lambda>p s.
                     if p = 0 then pipe_bad f0 f1 s
                     else let s = upd_pipe p (\<lambda>q. q\<lparr>readopen := True, writeopen := True, nwrite := 0, nread := 0\<rparr>) s;
                              s = upd_file i0 (\<lambda>f. f\<lparr>f_type := FD_PIPE, f_readable := True, f_writable := False, f_pipe := p\<rparr>) s;
                              s = upd_file i1 (\<lambda>f. f\<lparr>f_type := FD_PIPE, f_readable := False, f_writable := True, f_pipe := p\<rparr>) s
                          in Ok (Some (i0, i1)) s)))))"

end
