(* ===== verification/Process.thy ===== *)
theory Process
  imports File
begin

section \<open>Process creation, exit and wait (proc.c)\<close>

text \<open>
  The life of a process: \<open>allocproc\<close>, \<open>userinit\<close>, \<open>growproc\<close>, \<open>fork\<close>, \<open>exit\<close>, \<open>wait\<close> and
  \<open>forkret\<close>. The trap frame and the context that the code keeps on the kernel stack of a process
  are fields of its table entry. The link addresses of \<open>forkret\<close> and \<open>trapret\<close>, the bytes of
  \<open>initcode\<close> and the successive readings of the clock chip are part of the state, as is the
  value \<open>junk\<close> a function of no result leaves in \<open>%eax\<close>; \<open>eois\<close> counts the interrupts acknowledged at
  the local APIC.
\<close>

definition NOFILE :: nat where "NOFILE = 16"
definition SEG_UCODE :: ushort where "SEG_UCODE = 3"
definition SEG_UDATA :: ushort where "SEG_UDATA = 4"
definition DPL_USER :: ushort where "DPL_USER = 3"

record kstate = fstate +
  forkret_first :: bool
  forkret_addr :: uint
  trapret_addr :: uint
  initcode :: "byte list"
  rtc :: "nat \<Rightarrow> uint \<Rightarrow> byte"
  rtc_reads :: nat
  junk :: cint
  eois :: nat

text \<open>\<open>safestrcpy\<close> between two arrays: the destination at address 0, the source at 4096.\<close>

definition array_mem :: "byte list \<Rightarrow> byte list \<Rightarrow> bmem" where
  "array_mem d t a =
     (if unat a < length d then d ! unat a
      else if 4096 \<le> unat a \<and> unat a - 4096 < length t then t ! (unat a - 4096) else 0)"

definition copy_name :: "byte list \<Rightarrow> byte list \<Rightarrow> byte list" where
  "copy_name d t =
     (let m = safestrcpy (array_mem d t) 0 4096 (of_nat (length d)) in map (\<lambda>i. m (of_nat i)) [0..<length d])"

definition allocproc :: "'z kstate_scheme \<Rightarrow> ('z kstate_scheme, nat option) outcome" where
  "allocproc s =
     bnd (lk_acquire LPtable s) (\<lambda>_ s.
     (case find_idx (\<lambda>p. pstate p = UNUSED) (ptable s) of
        None \<Rightarrow> bnd (lk_release LPtable s) (\<lambda>_ s. Ok None s)
      | Some i \<Rightarrow>
          let n = nextpid s;
              s = (upd_proc i (\<lambda>p. p\<lparr>pstate := EMBRYO, pid := n,
                     que_id := (if n = 2 then RR else LCFS), priority := PRIORITY_DEF,
                     priority_ratio := f1_0, creation_time_ratio := f1_0, executed_cycle := f0_1,
                     executed_cycle_ratio := f1_0, process_size_ratio := f1_0\<rparr>) s)\<lparr>nextpid := n + 1\<rparr>
          in bnd (lk_release LPtable s) (\<lambda>_ s.
             bnd (kalloc s) (\<lambda>k s.
               let s = upd_proc i (\<lambda>p. p\<lparr>kstack := k\<rparr>) s in
               if k = 0 then Ok None (upd_proc i (\<lambda>p. p\<lparr>pstate := UNUSED\<rparr>) s)
               else Ok (Some i) (upd_proc i (\<lambda>p. p\<lparr>ctx_ret := trapret_addr s,
                      pcontext := \<lparr>ctx_edi = 0, ctx_esi = 0, ctx_ebx = 0, ctx_ebp = 0,
                                    ctx_eip = forkret_addr s\<rparr>\<rparr>) s)))))"

definition user_tf :: trapframe where
  "user_tf =
     (let ds = push_bit 3 SEG_UDATA OR DPL_USER in
      \<lparr>tf_edi = 0, tf_esi = 0, tf_ebp = 0, tf_ebx = 0, tf_edx = 0, tf_ecx = 0, tf_eax = 0,
       tf_es = ds, tf_ds = ds, tf_trapno = 0, tf_err = 0, tf_eip = 0,
       tf_cs = push_bit 3 SEG_UCODE OR DPL_USER, tf_eflags = FL_IF, tf_esp = PGSIZE, tf_ss = ds\<rparr>)"

definition userinit :: "'z kstate_scheme \<Rightarrow> ('z kstate_scheme, unit) outcome" where
  "userinit s =
     bnd (allocproc s) (\<lambda>r s.
       let s = s\<lparr>initproc := r\<rparr> in
       bnd (setupkvm s) (\<lambda>d s.
         (case r of
            None \<Rightarrow> Fault
          | Some i \<Rightarrow>
              let s = upd_proc i (\<lambda>p. p\<lparr>pgdir := d\<rparr>) s in
              if d = 0 then Panic ''userinit: out of memory?''
              else bnd (inituvm d (initcode s) s) (\<lambda>_ s.
                   let s = upd_proc i (\<lambda>p. p\<lparr>sz := PGSIZE, tf := user_tf,
                             pname := copy_name (pname p) (str ''initcode'')\<rparr>) s in
                   bnd (namei (str ''/'') s) (\<lambda>ip s.
                   let s = upd_proc i (\<lambda>p. p\<lparr>cwd := ip\<rparr>) s in
                   bnd (lk_acquire LPtable s) (\<lambda>_ s.
                   bnd (lk_release LPtable (upd_proc i (\<lambda>p. p\<lparr>pstate := RUNNABLE, que_id := RR\<rparr>) s)) (\<lambda>_ s.
                     shared_memory_init (init_priority (str ''FUCK'') s))))))))"

definition growproc :: "cint \<Rightarrow> 'z kstate_scheme \<Rightarrow> ('z kstate_scheme, cint) outcome" where
  "growproc n s =
     (case myproc s of
        None \<Rightarrow> Fault
      | Some me \<Rightarrow>
          let q = ptable s ! me in
          bnd (if 0 <s n then bnd (allocuvm (pgdir q) (sz q) (sz q + n) s) (\<lambda>r s. Ok (r, r = 0) s)
               else if n <s 0 then bnd (deallocuvm (pgdir q) (sz q) (sz q + n) s) (\<lambda>r s. Ok (r, r = 0) s)
               else Ok (sz q, False) s) (\<lambda>(r, bad) s.
            if bad then Ok (- 1) s
            else bnd (switchuvm (Some me) (upd_proc me (\<lambda>p. p\<lparr>sz := r\<rparr>) s)) (\<lambda>_ s. Ok 0 s)))"

fun dup_files :: "nat \<Rightarrow> nat \<Rightarrow> nat list \<Rightarrow> 'z kstate_scheme \<Rightarrow> ('z kstate_scheme, unit) outcome" where
  "dup_files me np [] s = Ok () s"
| "dup_files me np (i # is) s =
     (case ofile (ptable s ! me) ! i of
        None \<Rightarrow> dup_files me np is s
      | Some f \<Rightarrow> bnd (filedup f s) (\<lambda>f s.
          dup_files me np is (upd_proc np (\<lambda>p. p\<lparr>ofile := (ofile p)[i := Some f]\<rparr>) s)))"

definition fork :: "'z kstate_scheme \<Rightarrow> ('z kstate_scheme, cint) outcome" where
  "fork s =
     bnd (allocproc s) (\<lambda>r s.
       (case r of
          None \<Rightarrow> Ok (- 1) s
        | Some np \<Rightarrow> (case myproc s of
            None \<Rightarrow> Fault
          | Some me \<Rightarrow>
              bnd (copyuvm (pgdir (ptable s ! me)) (sz (ptable s ! me)) s) (\<lambda>d s.
                let s = upd_proc np (\<lambda>p. p\<lparr>pgdir := d\<rparr>) s in
                if d = 0 then
                  bnd (kfree (kstack (ptable s ! np)) s) (\<lambda>_ s.
                    Ok (- 1) (upd_proc np (\<lambda>p. p\<lparr>kstack := 0, pstate := UNUSED\<rparr>) s))
                else
                  let q = ptable s ! me;
                      s = upd_proc np (\<lambda>p. p\<lparr>sz := sz q, parent := Some me, tf := (tf q)\<lparr>tf_eax := 0\<rparr>\<rparr>) s in
                  bnd (dup_files me np [0..<NOFILE] s) (\<lambda>_ s.
                  bnd (case cwd (ptable s ! me) of None \<Rightarrow> Fault | Some ip \<Rightarrow> idup ip s) (\<lambda>ip s.
                    let s = upd_proc np (\<lambda>p. p\<lparr>cwd := Some ip,
                              pname := copy_name (pname p) (pname (ptable s ! me))\<rparr>) s;
                        n = pid (ptable s ! np) in
                    bnd (lk_acquire LPtable s) (\<lambda>_ s.
                    let s = upd_proc np (\<lambda>p. p\<lparr>pstate := RUNNABLE\<rparr>) s in
                    bnd (lk_acquire LTicks s) (\<lambda>_ s.
                    let s = upd_proc np (\<lambda>p. p\<lparr>creation_time := ticks s, preemption_time := ticks s\<rparr>) s in
                    bnd (lk_release LTicks s) (\<lambda>_ s.
                    bnd (lk_release LPtable s) (\<lambda>_ s. Ok n s))))))))))"

subsection \<open>Exit\<close>

fun close_files :: "nat \<Rightarrow> nat list \<Rightarrow> 'z kstate_scheme \<Rightarrow> ('z kstate_scheme, unit) outcome" where
  "close_files me [] s = Ok () s"
| "close_files me (fd # fds) s =
     (case ofile (ptable s ! me) ! fd of
        None \<Rightarrow> close_files me fds s
      | Some f \<Rightarrow> bnd (fileclose f s) (\<lambda>_ s.
          close_files me fds (upd_proc me (\<lambda>p. p\<lparr>ofile := (ofile p)[fd := None]\<rparr>) s)))"

definition proc_chan :: "nat option \<Rightarrow> chan option" where
  "proc_chan p = map_option CProc p"

fun reparent :: "nat \<Rightarrow> nat list \<Rightarrow> 'z pcore_scheme \<Rightarrow> 'z pcore_scheme" where
  "reparent me [] s = s"
| "reparent me (i # is) s =
     (if parent (ptable s ! i) = Some me
      then let s = upd_proc i (\<lambda>p. p\<lparr>parent := initproc s\<rparr>) s in
           reparent me is (if pstate (ptable s ! i) = ZOMBIE then wakeup1 (proc_chan (initproc s)) s else s)
      else reparent me is s)"

text \<open>The end of \<open>exit\<close>, when the files and the directory are closed.\<close>

definition exit_finish :: "nat \<Rightarrow> 'z kstate_scheme \<Rightarrow> ('z kstate_scheme, unit) outcome" where
  "exit_finish me s =
     bnd (lk_acquire LPtable s) (\<lambda>_ s.
       let s = wakeup1 (proc_chan (parent (ptable s ! me))) s;
           s = reparent me [0..<length (ptable s)] s;
           s = upd_proc me (\<lambda>p. p\<lparr>pstate := ZOMBIE\<rparr>) s in
       bnd (sched s) (\<lambda>_ _. Panic ''zombie exit''))"

definition exit :: "'z kstate_scheme \<Rightarrow> ('z kstate_scheme, unit) outcome" where
  "exit s =
     (if myproc s = initproc s then Panic ''init exiting''
      else case myproc s of
        None \<Rightarrow> Fault
      | Some me \<Rightarrow>
          bnd (close_files me [0..<NOFILE] s) (\<lambda>_ s.
          bnd (begin_op s) (\<lambda>_ s.
          bnd (put_inode (cwd (ptable s ! me)) s) (\<lambda>_ s.
          bnd (end_op s) (\<lambda>_ s.
            exit_finish me (upd_proc me (\<lambda>p. p\<lparr>cwd := None\<rparr>) s))))))"

subsection \<open>Wait\<close>

definition reap :: "nat \<Rightarrow> 'z kstate_scheme \<Rightarrow> ('z kstate_scheme, cint) outcome" where
  "reap i s =
     (let n = pid (ptable s ! i) in
      bnd (kfree (kstack (ptable s ! i)) s) (\<lambda>_ s.
      let s = upd_proc i (\<lambda>p. p\<lparr>kstack := 0\<rparr>) s in
      bnd (freevm (pgdir (ptable s ! i)) s) (\<lambda>_ s.
      let s = upd_proc i (\<lambda>p. p\<lparr>pid := 0, parent := None, pname := (pname p)[0 := 0],
                killed := False, pstate := UNUSED\<rparr>) s in
      bnd (lk_release LPtable s) (\<lambda>_ s. Ok n s))))"

definition wait_loop :: "nat \<Rightarrow> 'z kstate_scheme \<Rightarrow> ('z kstate_scheme, cint) outcome" where
  "wait_loop me s =
     (case find_idx (\<lambda>p. parent p = Some me \<and> pstate p = ZOMBIE) (ptable s) of
        Some i \<Rightarrow> reap i s
      | None \<Rightarrow>
          if \<not> list_ex (\<lambda>p. parent p = Some me) (ptable s) \<or> killed (ptable s ! me)
          then bnd (lk_release LPtable s) (\<lambda>_ s. Ok (- 1) s)
          else bnd (sleep (CProc me) (Some LPtable) s) (\<lambda>_ _. Fault))"

definition wait :: "'z kstate_scheme \<Rightarrow> ('z kstate_scheme, cint) outcome" where
  "wait s =
     (case myproc s of
        None \<Rightarrow> Fault
      | Some me \<Rightarrow> bnd (lk_acquire LPtable s) (\<lambda>_ s. wait_loop me s))"

definition wait_resume :: "'z kstate_scheme \<Rightarrow> ('z kstate_scheme, cint) outcome" where
  "wait_resume s =
     (case myproc s of
        None \<Rightarrow> Fault
      | Some me \<Rightarrow> bnd (sleep_resume LPtable s) (\<lambda>_ s. wait_loop me s))"

definition forkret :: "'z kstate_scheme \<Rightarrow> ('z kstate_scheme, unit) outcome" where
  "forkret s =
     bnd (lk_release LPtable s) (\<lambda>_ s.
       if forkret_first s
       then bnd (iinit ROOTDEV (s\<lparr>forkret_first := False\<rparr>)) (\<lambda>_ s. initlog ROOTDEV s)
       else Ok () s)"

subsection \<open>An empty machine\<close>

text \<open>One process, no open files, for the examples.\<close>

definition ofile0 :: ofile where
  "ofile0 = \<lparr>f_type = FD_NONE, f_ref = 0, f_readable = False, f_writable = False, f_pipe = 0, f_ip = None, f_off = 0\<rparr>"

definition kstate0 :: kstate where
  "kstate0 = fstate.extend (pipestate.extend pipe0 \<lparr>ftable = replicate NFILE ofile0\<rparr>)
     \<lparr>forkret_first = False, forkret_addr = 0x80103000, trapret_addr = 0x80105000, initcode = [], rtc = (\<lambda>_ _. 0),
      rtc_reads = 0, junk = 0, eois = 0\<rparr>"

lemma kstate0_simps [simp]:
  "held kstate0 = {}" "cpu_proc kstate0 = Some 0" "ptable kstate0 = [proc0\<lparr>pid := 4\<rparr>]" "pmem kstate0 = (\<lambda>_. 0)"
  "ftable kstate0 = replicate NFILE ofile0"
  by (simp_all add: kstate0_def pipe0_def con0_def istate0_def log0_def bstate0_def km0_def fstate.defs pipestate.defs
      constate.defs istate.defs logstate.defs bstate.defs kmstate.defs slcore.defs slcore0_def pcore.defs pcore0_def)

end
