(* ===== verification/Syscall.thy ===== *)
theory Syscall
  imports Process
begin

section \<open>System call arguments (syscall.c)\<close>

text \<open>
  The kernel reads the arguments of a system call, and the memory they point to, through the page
  table of the running process. A user address is translated as the processor does it, from the
  directory in \<open>%cr3\<close>; a missing translation is a page fault in the kernel, \<open>Fault\<close>. The dispatch
  itself is in \<open>Trap\<close>.
\<close>

definition translate :: "uint \<Rightarrow> 'z kmstate_scheme \<Rightarrow> (uint \<times> uint) option" where
  "translate va s =
     (let pde = ld32 (pmem s) (P2V (cpu_cr3 s) + 4 * PDX va) in
      if pde AND PTE_P = 0 then None
      else let pte = ld32 (pmem s) (P2V (PTE_ADDR pde) + 4 * PTX va) in
        if pte AND PTE_P = 0 then None else Some (P2V (PTE_ADDR pte) + (va AND 0xFFF), pte))"

fun load_user :: "uint \<Rightarrow> nat \<Rightarrow> 'z kmstate_scheme \<Rightarrow> byte list option" where
  "load_user va 0 s = Some []"
| "load_user va (Suc n) s =
     (case translate va s of
        None \<Rightarrow> None
      | Some (ka, _) \<Rightarrow> map_option ((#) (pmem s ka)) (load_user (va + 1) n s))"

text \<open>Write protection holds in the kernel too: \<open>entry.S\<close> sets the \<open>WP\<close> bit of \<open>%cr0\<close>.\<close>

fun store_user :: "uint \<Rightarrow> byte list \<Rightarrow> 'z kmstate_scheme \<Rightarrow> ('z kmstate_scheme, unit) outcome" where
  "store_user va [] s = Ok () s"
| "store_user va (b # bs) s =
     (case translate va s of
        None \<Rightarrow> Fault
      | Some (ka, pte) \<Rightarrow>
          if pte AND PTE_W = 0 then Fault
          else store_user (va + 1) bs (s\<lparr>pmem := (pmem s)(ka := b)\<rparr>))"

definition bytes32 :: "uint \<Rightarrow> byte list" where
  "bytes32 w = [byte_of 0 w, byte_of 1 w, byte_of 2 w, byte_of 3 w]"

definition load_bytes :: "uint \<Rightarrow> nat \<Rightarrow> 'z kmstate_scheme \<Rightarrow> ('z kmstate_scheme, byte list) outcome" where
  "load_bytes va n s = (case load_user va n s of None \<Rightarrow> Fault | Some bs \<Rightarrow> Ok bs s)"

definition fetchint :: "uint \<Rightarrow> 'z kstate_scheme \<Rightarrow> ('z kstate_scheme, cint option) outcome" where
  "fetchint addr s =
     (case myproc s of
        None \<Rightarrow> Fault
      | Some me \<Rightarrow>
          if sz (ptable s ! me) \<le> addr \<or> sz (ptable s ! me) < addr + 4 then Ok None s
          else bnd (load_bytes addr 4 s) (\<lambda>bs s. Ok (Some (rd32 bs 0)) s))"

text \<open>
  The loop of \<open>fetchstr\<close> over the \<open>n\<close> addresses below the end of the process. The result holds
  the bytes of the string, without its terminator; the code returns their number.
\<close>

fun fetchstr_loop :: "uint \<Rightarrow> nat \<Rightarrow> byte list \<Rightarrow> 'z kstate_scheme \<Rightarrow> ('z kstate_scheme, byte list option) outcome" where
  "fetchstr_loop a 0 acc s = Ok None s"
| "fetchstr_loop a (Suc n) acc s =
     (case translate a s of
        None \<Rightarrow> Fault
      | Some (ka, _) \<Rightarrow>
          if pmem s ka = 0 then Ok (Some (rev acc)) s
          else fetchstr_loop (a + 1) n (pmem s ka # acc) s)"

definition fetchstr :: "uint \<Rightarrow> 'z kstate_scheme \<Rightarrow> ('z kstate_scheme, byte list option) outcome" where
  "fetchstr addr s =
     (case myproc s of
        None \<Rightarrow> Fault
      | Some me \<Rightarrow>
          if sz (ptable s ! me) \<le> addr then Ok None s
          else fetchstr_loop addr (unat (sz (ptable s ! me)) - unat addr) [] s)"

definition argint :: "cint \<Rightarrow> 'z kstate_scheme \<Rightarrow> ('z kstate_scheme, cint option) outcome" where
  "argint n s =
     (case myproc s of
        None \<Rightarrow> Fault
      | Some me \<Rightarrow> fetchint (tf_esp (tf (ptable s ! me)) + 4 + 4 * n) s)"

definition argptr :: "cint \<Rightarrow> cint \<Rightarrow> 'z kstate_scheme \<Rightarrow> ('z kstate_scheme, uint option) outcome" where
  "argptr n len s =
     (case myproc s of
        None \<Rightarrow> Fault
      | Some me \<Rightarrow>
          bnd (argint n s) (\<lambda>r s.
            (case r of
               None \<Rightarrow> Ok None s
             | Some i \<Rightarrow>
                 if len <s 0 \<or> sz (ptable s ! me) \<le> i \<or> sz (ptable s ! me) < i + len then Ok None s
                 else Ok (Some i) s)))"

definition argstr :: "cint \<Rightarrow> 'z kstate_scheme \<Rightarrow> ('z kstate_scheme, byte list option) outcome" where
  "argstr n s =
     bnd (argint n s) (\<lambda>r s. (case r of None \<Rightarrow> Ok None s | Some addr \<Rightarrow> fetchstr addr s))"

text \<open>Early returns of \<open>-1\<close> when an argument cannot be fetched.\<close>

definition arg :: "('s, 'a option) outcome \<Rightarrow> ('a \<Rightarrow> 's \<Rightarrow> ('s, cint) outcome) \<Rightarrow> ('s, cint) outcome" where
  "arg m k = bnd m (\<lambda>r s. (case r of None \<Rightarrow> Ok (- 1) s | Some a \<Rightarrow> k a s))"

subsection \<open>Arguments stay inside the process\<close>

text \<open>The size of a process is at most \<open>KERNBASE\<close>, which \<open>allocuvm\<close> enforces.\<close>

definition size_ok :: "proc \<Rightarrow> bool" where
  "size_ok p \<longleftrightarrow> sz p \<le> KERNBASE"

lemma no_wrap:
  fixes a b z :: uint
  assumes "z \<le> KERNBASE" "a < z" "a + b \<le> z" "unat b < 2147483648"
  shows "unat a + unat b \<le> unat z"
proof -
  have "unat z \<le> 2147483648" using assms(1) by (simp add: KERNBASE_def word_le_nat_alt)
  moreover have "unat a < unat z" using assms(2) by (simp add: word_less_nat_alt)
  ultimately have "unat (a + b) = unat a + unat b" using assms(4) by (intro unat_add32) simp
  then show ?thesis using assms(3) by (simp add: word_le_nat_alt)
qed

lemma nonneg_small: "\<not> len <s 0 \<Longrightarrow> unat (len :: cint) < 2147483648"
  using sint_range32 [of len] uint_sint_nonneg [of len]
  by (simp add: word_sless_alt unat_eq_nat_uint)

lemma byte_of_join:
  fixes a b c d :: byte
  defines "w \<equiv> ucast a OR push_bit 8 (ucast b) OR push_bit 16 (ucast c) OR push_bit 24 (ucast d) :: uint"
  shows "byte_of 0 w = a" "byte_of 1 w = b" "byte_of 2 w = c" "byte_of 3 w = d"
  unfolding w_def byte_of_def by (rule bit_word_eqI, auto simp: bit_simps dest: bit_imp_le_length)+

lemma length_load_user: "load_user va n s = Some bs \<Longrightarrow> length bs = n"
  by (induction n arbitrary: va bs) (auto split: option.splits)

lemma bytes32_rd32: "length bs = 4 \<Longrightarrow> bytes32 (rd32 bs 0) = bs"
  using byte_of_join [of "bs ! 0" "bs ! 1" "bs ! 2" "bs ! 3"]
  by (intro nth_equalityI) (auto simp: bytes32_def rd32_def less_Suc_eq numeral_eq_Suc)

lemma fetchint_inside:
  assumes "fetchint a s = Ok (Some v) t" "myproc s = Some me" "size_ok (ptable s ! me)"
  shows "t = s \<and> unat a + 4 \<le> unat (sz (ptable s ! me)) \<and> load_user a 4 s = Some (bytes32 v)"
proof -
  from assms(1,2) obtain bs where i: "\<not> sz (ptable s ! me) \<le> a" "\<not> sz (ptable s ! me) < a + 4"
    and l: "load_user a 4 s = Some bs" "v = rd32 bs 0" "t = s"
    by (auto simp: fetchint_def load_bytes_def outcome_iff split: if_splits option.splits)
  have "unat a + unat (4 :: uint) \<le> unat (sz (ptable s ! me))"
    by (rule no_wrap) (use assms(3) i in \<open>simp_all add: size_ok_def not_le not_less\<close>)
  with l length_load_user [OF l(1)] show ?thesis by (simp add: bytes32_rd32)
qed

text \<open>
  C15. System call arguments lie inside the calling process: when \<open>argptr\<close> accepts a pointer, the
  whole block of the requested size is below the size of the process, computed without
  wrap-around; when \<open>argint\<close> returns a number, it is the one whose four bytes are at the argument's
  place on the user stack, all below the size of the process. Neither changes the state.
\<close>

theorem arguments_inside_process:
  assumes "myproc s = Some me" "size_ok (ptable s ! me)"
    "argptr n len s = Ok (Some p) t" "argint k s = Ok (Some v) u"
  shows "t = s \<and> unat p + unat len \<le> unat (sz (ptable s ! me)) \<and> unat p < unat (sz (ptable s ! me))
    \<and> u = s \<and> unat (tf_esp (tf (ptable s ! me)) + 4 + 4 * k) + 4 \<le> unat (sz (ptable s ! me))
    \<and> load_user (tf_esp (tf (ptable s ! me)) + 4 + 4 * k) 4 s = Some (bytes32 v)"
proof -
  from assms(1,3) obtain s1 where "argint n s = Ok (Some p) s1" and t: "t = s1"
    and i: "\<not> len <s 0" "\<not> sz (ptable s ! me) \<le> p" "\<not> sz (ptable s ! me) < p + len"
    by (auto simp: argptr_def outcome_iff argint_def fetchint_def load_bytes_def split: if_splits option.splits)
  then have "fetchint (tf_esp (tf (ptable s ! me)) + 4 + 4 * n) s = Ok (Some p) s1"
    using assms(1) by (simp add: argint_def)
  then have "t = s" using fetchint_inside [OF _ assms(1,2)] t by blast
  moreover have "unat p + unat len \<le> unat (sz (ptable s ! me))"
    by (rule no_wrap) (use assms(2) i nonneg_small [OF i(1)] in \<open>simp_all add: size_ok_def not_le not_less\<close>)
  moreover have "unat p < unat (sz (ptable s ! me))" using i(2) by (simp add: word_le_nat_alt)
  moreover have "fetchint (tf_esp (tf (ptable s ! me)) + 4 + 4 * k) s = Ok (Some v) u"
    using assms(1,4) by (simp add: argint_def)
  note fetchint_inside [OF this assms(1,2)]
  ultimately show ?thesis by blast
qed

subsection \<open>Strings\<close>

text \<open>The byte a process sees at an address, and a process whose memory is all mapped.\<close>

definition user_byte :: "'z kmstate_scheme \<Rightarrow> uint \<Rightarrow> byte" where
  "user_byte s a = (case translate a s of Some (ka, _) \<Rightarrow> pmem s ka | None \<Rightarrow> 0)"

definition mapped_below :: "uint \<Rightarrow> 'z kmstate_scheme \<Rightarrow> bool" where
  "mapped_below z s \<longleftrightarrow> (\<forall>a < z. translate a s \<noteq> None)"

definition user_bytes :: "'z kmstate_scheme \<Rightarrow> uint \<Rightarrow> nat \<Rightarrow> byte list" where
  "user_bytes s a n = map (\<lambda>k. user_byte s (a + of_nat k)) [0..<n]"

lemma user_bytes_Suc: "user_bytes s a (Suc n) = user_byte s a # user_bytes s (a + 1) n"
  by (simp add: user_bytes_def map_upt_Suc add.assoc del: upt_Suc)

lemma fetchstr_loop_eq:
  assumes "\<And>k. k < n \<Longrightarrow> translate (a + of_nat k) s \<noteq> None"
  shows "fetchstr_loop a n acc s = Ok (if 0 \<in> set (user_bytes s a n)
     then Some (rev acc @ takeWhile (\<lambda>b. b \<noteq> 0) (user_bytes s a n)) else None) s"
  using assms
proof (induction n arbitrary: a acc)
  case 0
  then show ?case by (simp add: user_bytes_def)
next
  case (Suc n)
  from Suc.prems [of 0] obtain ka pte where t: "translate a s = Some (ka, pte)" by auto
  have "translate (a + 1 + of_nat k) s \<noteq> None" if "k < n" for k
    using Suc.prems [of "Suc k"] that by (simp add: add.assoc)
  from Suc.IH [OF this] show ?case by (auto simp: t user_bytes_Suc user_byte_def [of s a])
qed

text \<open>
  C16. For every address below the size of a process whose memory is mapped, \<open>fetchstr\<close> returns: the
  bytes from the address up to the first zero byte if there is one before the end of the process,
  and an error if there is none. It never reads beyond the end of the process.
\<close>

theorem fetchstr_spec:
  assumes "myproc s = Some me" "mapped_below (sz (ptable s ! me)) s"
  shows "fetchstr a s = (let n = unat (sz (ptable s ! me)) - unat a; bs = user_bytes s a n in
    Ok (if 0 \<in> set bs then Some (takeWhile (\<lambda>b. b \<noteq> 0) bs) else None) s)"
proof (cases "sz (ptable s ! me) \<le> a")
  case True
  then have "unat (sz (ptable s ! me)) - unat a = 0" by (simp add: word_le_nat_alt)
  with True assms(1) show ?thesis by (simp add: fetchstr_def user_bytes_def Let_def)
next
  case False
  let ?n = "unat (sz (ptable s ! me)) - unat a"
  have "translate (a + of_nat k) s \<noteq> None" if "k < ?n" for k
  proof -
    have "unat a + k < 4294967296" using that unat_range32 [of "sz (ptable s ! me)"] by linarith
    then have "unat (a + of_nat k) = unat a + k" by (simp add: unat_add32 unat_of_nat32)
    then have "a + of_nat k < sz (ptable s ! me)" using that by (simp add: word_less_nat_alt)
    with assms(2) show ?thesis by (simp add: mapped_below_def)
  qed
  from fetchstr_loop_eq [where acc = "[]", OF this] False assms(1) show ?thesis by (simp add: fetchstr_def Let_def)
qed

subsection \<open>A process with one page\<close>

text \<open>
  Page directory, page table and page at the physical addresses 0x1000, 0x2000 and 0x3000. The
  second word of the page, the first argument, is 16, where the string \<open>hi\<close> is.
\<close>

definition user_mem :: bmem where
  "user_mem = (st32 (st32 (st32 (\<lambda>_. 0) 0x80001000 0x2007) 0x80002000 0x3007) 0x80003004 16)
     (0x80003010 := 0x68, 0x80003011 := 0x69)"

definition user0 :: kstate where
  "user0 = kstate0\<lparr>ptable := [proc0\<lparr>pid := 4, sz := 4096\<rparr>], cpu_cr3 := 0x1000, pmem := user_mem\<rparr>"

lemma low_page:
  assumes "a < (4096 :: uint)"
  shows "drop_bit 12 a = 0" "drop_bit 22 a = 0"
proof -
  have "a < 4194304" using assms by (rule less_trans) simp
  with assms show "drop_bit 12 a = 0" "drop_bit 22 a = 0" by (simp_all add: drop_bit_eq_div div_word_less)
qed

lemma translate_user0: "a < 4096 \<Longrightarrow> translate a user0 = Some (0x80003000 + (a AND 0xFFF), 0x3007)"
  by (simp add: translate_def user0_def user_mem_def PDX_def PTX_def low_page P2V_def KERNBASE_def ld32_def st32_def byte_of_def
      PTE_P_def PTE_ADDR_def Let_def)

lemma user0_simps [simp]:
  "myproc user0 = Some 0" "sz (ptable user0 ! 0) = 4096" "tf_esp (tf (ptable user0 ! 0)) = 0" "pmem user0 = user_mem"
  by (simp_all add: user0_def myproc_def proc0_def tf0_def)

lemma user0_arg: "argint 0 user0 = Ok (Some 16) user0"
proof -
  have "load_user 4 (Suc (Suc (Suc (Suc 0)))) user0 = Some [16, 0, 0, 0]"
    by (simp only: load_user.simps translate_user0 option.case prod.case)
      (simp add: translate_user0 user_mem_def st32_def byte_of_def)
  moreover have "4 = Suc (Suc (Suc (Suc 0)))" by simp
  ultimately have "load_user 4 4 user0 = Some [16, 0, 0, 0]" by metis
  then show ?thesis by (simp add: argint_def fetchint_def load_bytes_def rd32_def)
qed

theorem arguments_inside_process_witness:
  "argptr 0 2 user0 = Ok (Some 16) user0 \<and> argint 0 user0 = Ok (Some 16) user0
    \<and> unat (16 :: uint) + unat (2 :: cint) \<le> unat (sz (ptable user0 ! 0))"
proof -
  have p: "argptr 0 2 user0 = Ok (Some 16) user0" by (simp add: argptr_def user0_arg word_sless_alt)
  have "size_ok (ptable user0 ! 0)" by (simp add: size_ok_def KERNBASE_def)
  from arguments_inside_process [OF _ this p user0_arg] p show ?thesis by (simp add: user0_arg)
qed

lemma user_bytes_take: "n \<le> m \<Longrightarrow> user_bytes s a m = user_bytes s a n @ user_bytes s (a + of_nat n) (m - n)"
  by (rule nth_equalityI) (auto simp: user_bytes_def nth_append of_nat_diff not_less)

theorem fetchstr_spec_witness: "fetchstr 16 user0 = Ok (Some [0x68, 0x69]) user0"
proof -
  have b: "user_byte user0 a = user_mem (0x80003000 + (a AND 0xFFF))" if "a < 4096" for a
    using translate_user0 [OF that] by (simp add: user_byte_def)
  have "user_bytes user0 16 (4096 - 16) = user_bytes user0 16 3 @ user_bytes user0 (16 + of_nat 3) (4096 - 16 - 3)"
    by (rule user_bytes_take) simp
  moreover have "user_bytes user0 16 3 = [0x68, 0x69, 0]"
    by (simp add: numeral_3_eq_3 user_bytes_Suc user_bytes_def [of _ _ 0] b user_mem_def st32_def)
  moreover have "mapped_below (sz (ptable user0 ! 0)) user0" by (simp add: mapped_below_def translate_user0)
  note fetchstr_spec [OF _ this, of 16]
  ultimately show ?thesis by (simp add: Let_def)
qed

end
