(* ===== verification/Lapic.thy ===== *)
theory Lapic
  imports Syscall
begin

section \<open>The real-time clock (lapic.c: cmostime)\<close>

text \<open>
  \<open>cmostime\<close> reads the clock chip until two readings agree. The chip answers the \<open>k\<close>-th read of
  register \<open>r\<close> with \<open>rtc k r\<close>, so that it may tick between reads; a chip that never shows the
  same time twice keeps the loop going, which is \<open>None\<close>.
\<close>

definition CMOS_STATA :: uint where "CMOS_STATA = 0x0a"
definition CMOS_STATB :: uint where "CMOS_STATB = 0x0b"
definition CMOS_UIP :: uint where "CMOS_UIP = 128"

record rtcdate =
  second :: uint
  minute :: uint
  hour :: uint
  day :: uint
  month :: uint
  year :: uint

definition cmos_read :: "(nat \<Rightarrow> uint \<Rightarrow> byte) \<Rightarrow> nat \<Rightarrow> uint \<Rightarrow> uint" where
  "cmos_read chip k reg = ucast (chip k reg)"

definition fill_rtcdate :: "(nat \<Rightarrow> uint \<Rightarrow> byte) \<Rightarrow> nat \<Rightarrow> rtcdate" where
  "fill_rtcdate chip k =
     \<lparr>second = cmos_read chip k 0, minute = cmos_read chip (k + 1) 2, hour = cmos_read chip (k + 2) 4,
      day = cmos_read chip (k + 3) 7, month = cmos_read chip (k + 4) 8, year = cmos_read chip (k + 5) 9\<rparr>"

partial_function (option) cmos_loop :: "(nat \<Rightarrow> uint \<Rightarrow> byte) \<Rightarrow> nat \<Rightarrow> (rtcdate \<times> nat) option" where
  "cmos_loop chip k =
     (let t1 = fill_rtcdate chip k in
      if cmos_read chip (k + 6) CMOS_STATA AND CMOS_UIP \<noteq> 0 then cmos_loop chip (k + 7)
      else let t2 = fill_rtcdate chip (k + 7) in
        if t1 = t2 then Some (t1, k + 13) else cmos_loop chip (k + 13))"

definition conv :: "uint \<Rightarrow> uint" where
  "conv x = drop_bit 4 x * 10 + (x AND 0xf)"

definition cmostime :: "(nat \<Rightarrow> uint \<Rightarrow> byte) \<Rightarrow> nat \<Rightarrow> (rtcdate \<times> nat) option" where
  "cmostime chip k =
     (let bcd = (cmos_read chip k CMOS_STATB AND 4 = 0) in
      map_option (\<lambda>(t, k).
        let t = (if bcd then \<lparr>second = conv (second t), minute = conv (minute t), hour = conv (hour t),
                              day = conv (day t), month = conv (month t), year = conv (year t)\<rparr>
                 else t)
        in (t\<lparr>year := year t + 2000\<rparr>, k)) (cmos_loop chip (k + 1)))"

definition date_bytes :: "rtcdate \<Rightarrow> byte list" where
  "date_bytes t = concat (map bytes32 [second t, minute t, hour t, day t, month t, year t])"

end
