(* ===== verification/Sysproc.thy ===== *)
theory Sysproc
  imports Lapic
begin

section \<open>Process system calls (sysproc.c)\<close>

text \<open>
  One definition per handler of \<open>sysproc.c\<close>. A process is named by its index in the table, so
  the pointer one past the table that \<open>find_proc\<close> returns for an unknown pid is a \<open>Fault\<close> when
  it is followed.
\<close>

definition sys_fork :: "'z kstate_scheme \<Rightarrow> ('z kstate_scheme, cint) outcome" where
  "sys_fork s = fork s"

definition sys_exit :: "'z kstate_scheme \<Rightarrow> ('z kstate_scheme, cint) outcome" where
  "sys_exit s = bnd (exit s) (\<lambda>_ s. Ok 0 s)"

definition sys_wait :: "'z kstate_scheme \<Rightarrow> ('z kstate_scheme, cint) outcome" where
  "sys_wait s = wait s"

definition sys_kill :: "'z kstate_scheme \<Rightarrow> ('z kstate_scheme, cint) outcome" where
  "sys_kill s = arg (argint 0 s) (\<lambda>n s. kill n s)"

definition sys_getpid :: "'z kstate_scheme \<Rightarrow> ('z kstate_scheme, cint) outcome" where
  "sys_getpid s = bnd (deref (myproc s) s) (\<lambda>p s. Ok (pid p) s)"

definition sys_sbrk :: "'z kstate_scheme \<Rightarrow> ('z kstate_scheme, cint) outcome" where
  "sys_sbrk s =
     arg (argint 0 s) (\<lambda>n s.
     bnd (deref (myproc s) s) (\<lambda>p s.
     bnd (growproc n s) (\<lambda>r s. if r <s 0 then Ok (- 1) s else Ok (sz p) s)))"

text \<open>\<open>ticks - ticks0 < n\<close> compares as unsigned, as \<open>ticks\<close> is.\<close>

definition sleep_loop :: "uint \<Rightarrow> cint \<Rightarrow> 'z kstate_scheme \<Rightarrow> ('z kstate_scheme, cint) outcome" where
  "sleep_loop ticks0 n s =
     (if ticks s - ticks0 < n then
        bnd (deref (myproc s) s) (\<lambda>p s.
          if killed p then bnd (lk_release LTicks s) (\<lambda>_ s. Ok (- 1) s)
          else bnd (sleep CTicks (Some LTicks) s) (\<lambda>_ _. Fault))
      else bnd (lk_release LTicks s) (\<lambda>_ s. Ok 0 s))"

definition sys_sleep :: "'z kstate_scheme \<Rightarrow> ('z kstate_scheme, cint) outcome" where
  "sys_sleep s =
     arg (argint 0 s) (\<lambda>n s. bnd (lk_acquire LTicks s) (\<lambda>_ s. sleep_loop (ticks s) n s))"

definition sys_sleep_resume :: "uint \<Rightarrow> cint \<Rightarrow> 'z kstate_scheme \<Rightarrow> ('z kstate_scheme, cint) outcome" where
  "sys_sleep_resume ticks0 n s = bnd (sleep_resume LTicks s) (\<lambda>_ s. sleep_loop ticks0 n s)"

definition sys_uptime :: "'z kstate_scheme \<Rightarrow> ('z kstate_scheme, cint) outcome" where
  "sys_uptime s =
     bnd (lk_acquire LTicks s) (\<lambda>_ s. let xticks = ticks s in
     bnd (lk_release LTicks s) (\<lambda>_ s. Ok xticks s))"

definition sys_find_digital_root :: "'z kstate_scheme \<Rightarrow> ('z kstate_scheme, cint) outcome" where
  "sys_find_digital_root s =
     bnd (deref (myproc s) s) (\<lambda>p s. Ok (find_digital_root (tf_ebx (tf p))) s)"

definition sys_get_uncle_count :: "'z kstate_scheme \<Rightarrow> ('z kstate_scheme, cint) outcome" where
  "sys_get_uncle_count s =
     arg (argint 0 s) (\<lambda>n s.
     bnd (find_proc n s) (\<lambda>i s.
     bnd (deref (Some i) s) (\<lambda>p s.
     bnd (deref (parent p) s) (\<lambda>q s.
     bnd (count_child (parent q) s) (\<lambda>c s. Ok (c - 1) s)))))"

definition sys_get_process_lifetime :: "'z kstate_scheme \<Rightarrow> ('z kstate_scheme, cint) outcome" where
  "sys_get_process_lifetime s =
     arg (argint 0 s) (\<lambda>n s.
     bnd (find_proc n s) (\<lambda>i s.
     bnd (deref (Some i) s) (\<lambda>p s. Ok (ticks s - creation_time p) s)))"

text \<open>
  When the pointer is bad the handler only says so and then writes through an uninitialised
  pointer. It returns nothing, so its caller takes what is left in \<open>%eax\<close>.
\<close>

definition sys_set_date :: "'z kstate_scheme \<Rightarrow> ('z kstate_scheme, cint) outcome" where
  "sys_set_date s =
     bnd (argptr 0 24 s) (\<lambda>r s.
       (case r of
          None \<Rightarrow> bnd (cprintf (str ''Kernel: sys_set_date() has a problem.'' @ [10]) [] s) (\<lambda>_ _. Fault)
        | Some p \<Rightarrow>
            (case cmostime (rtc s) (rtc_reads s) of
               None \<Rightarrow> Spin
             | Some (t, k) \<Rightarrow>
                 bnd (store_user p (date_bytes t) (s\<lparr>rtc_reads := k\<rparr>)) (\<lambda>_ s. Ok (junk s) s))))"

definition sys_get_pid :: "'z kstate_scheme \<Rightarrow> ('z kstate_scheme, cint) outcome" where
  "sys_get_pid s = bnd (deref (myproc s) s) (\<lambda>p s. Ok (pid p) s)"

definition sys_get_parent :: "'z kstate_scheme \<Rightarrow> ('z kstate_scheme, cint) outcome" where
  "sys_get_parent s =
     bnd (deref (myproc s) s) (\<lambda>p s. bnd (deref (parent p) s) (\<lambda>q s. Ok (pid q) s))"

definition sys_change_queue :: "'z kstate_scheme \<Rightarrow> ('z kstate_scheme, cint) outcome" where
  "sys_change_queue s =
     arg (argint 0 s) (\<lambda>n s.
     arg (argint 1 s) (\<lambda>q s.
     bnd (cprintf (str ''%d'' @ [10]) [AInt q] s) (\<lambda>_ s.
     bnd (find_proc n s) (\<lambda>i s.
       if length (ptable s) \<le> i then Fault
       else Ok 0 (upd_proc i (\<lambda>p. p\<lparr>que_id := q\<rparr>) s)))))"

definition f_of_cint :: "cint \<Rightarrow> f32" where
  "f_of_cint n = f_of_int (sint n)"

definition sys_bjf_validation_process :: "'z kstate_scheme \<Rightarrow> ('z kstate_scheme, cint) outcome" where
  "sys_bjf_validation_process s =
     arg (argint 0 s) (\<lambda>n s. arg (argint 1 s) (\<lambda>pr s. arg (argint 2 s) (\<lambda>cr s.
     arg (argint 3 s) (\<lambda>er s. arg (argint 4 s) (\<lambda>sr s.
     bnd (find_proc n s) (\<lambda>i s.
       if length (ptable s) \<le> i then Fault
       else Ok 0 (upd_proc i (\<lambda>p. p\<lparr>priority_ratio := f_of_cint pr, creation_time_ratio := f_of_cint cr,
                    executed_cycle_ratio := f_of_cint er, process_size_ratio := f_of_cint sr\<rparr>) s)))))))"

definition sys_bjf_validation_system :: "'z kstate_scheme \<Rightarrow> ('z kstate_scheme, cint) outcome" where
  "sys_bjf_validation_system s =
     arg (argint 0 s) (\<lambda>pr s. arg (argint 1 s) (\<lambda>cr s.
     arg (argint 2 s) (\<lambda>er s. arg (argint 3 s) (\<lambda>sr s.
     bnd (reset_bjf_attributes (f_of_cint pr) (f_of_cint cr) (f_of_cint er) (f_of_cint sr) s) (\<lambda>_ s.
       Ok 0 s)))))"

text \<open>The byte of its buffer that \<open>print_name\<close> leaves uninitialised is taken from \<open>junk\<close>.\<close>

definition sys_print_info :: "'z kstate_scheme \<Rightarrow> ('z kstate_scheme, cint) outcome" where
  "sys_print_info s = bnd (print_bitches (ucast (junk s)) s) (\<lambda>_ s. Ok 0 s)"

definition sys_print_lopck_que :: "'z kstate_scheme \<Rightarrow> ('z kstate_scheme, cint) outcome" where
  "sys_print_lopck_que s = Ok 0 s"

definition sys_plock_test :: "'z kstate_scheme \<Rightarrow> ('z kstate_scheme, cint) outcome" where
  "sys_plock_test s = bnd (siktir s) (\<lambda>_ s. Ok 0 s)"

definition sys_open_shm :: "'z kstate_scheme \<Rightarrow> ('z kstate_scheme, cint) outcome" where
  "sys_open_shm s = arg (argint 0 s) (\<lambda>i s. open_shared_memory i s)"

definition sys_Aquire :: "'z kstate_scheme \<Rightarrow> ('z kstate_scheme, cint) outcome" where
  "sys_Aquire s = bnd (lk_acquire LUser s) (\<lambda>_ s. Ok 0 s)"

definition sys_R :: "'z kstate_scheme \<Rightarrow> ('z kstate_scheme, cint) outcome" where
  "sys_R s = bnd (lk_release LUser s) (\<lambda>_ s. Ok 0 s)"

definition sys_C :: "'z kstate_scheme \<Rightarrow> ('z kstate_scheme, cint) outcome" where
  "sys_C s = arg (argint 0 s) (\<lambda>i s. bnd (close_shm i s) (\<lambda>_ s. Ok 0 s))"

end
