(* ===== verification/Exec.thy ===== *)
theory Exec
  imports Syscall
begin

section \<open>Program loading (exec.c; vm.c: loaduvm)\<close>

text \<open>
  \<open>exec\<close> builds a new address space from an ELF file, pushes the arguments on its stack and only
  then gives up the old one. The path and the arguments are the bytes of the user's strings.
\<close>

definition ELF_MAGIC :: uint where "ELF_MAGIC = 0x464C457F"
definition ELF_PROG_LOAD :: uint where "ELF_PROG_LOAD = 1"
definition MAXARG :: nat where "MAXARG = 32"

record elfhdr =
  eh_magic :: uint
  eh_entry :: uint
  eh_phoff :: uint
  eh_phnum :: ushort

record proghdr =
  ph_type :: uint
  ph_off :: uint
  ph_vaddr :: uint
  ph_filesz :: uint
  ph_memsz :: uint

definition get_elfhdr :: "byte list \<Rightarrow> elfhdr" where
  "get_elfhdr bs =
     \<lparr>eh_magic = rd32 bs 0, eh_entry = rd32 bs 24, eh_phoff = rd32 bs 28, eh_phnum = rd16 bs 44\<rparr>"

definition get_proghdr :: "byte list \<Rightarrow> proghdr" where
  "get_proghdr bs =
     \<lparr>ph_type = rd32 bs 0, ph_off = rd32 bs 4, ph_vaddr = rd32 bs 8, ph_filesz = rd32 bs 16,
      ph_memsz = rd32 bs 20\<rparr>"

text \<open>The loop of \<open>loaduvm\<close>, with \<open>n\<close> pages to go at offset \<open>i\<close> of a segment of \<open>len\<close> bytes.\<close>

fun loaduvm_loop ::
    "nat \<Rightarrow> uint \<Rightarrow> uint \<Rightarrow> uint \<Rightarrow> nat \<Rightarrow> uint \<Rightarrow> uint \<Rightarrow> 'z constate_scheme \<Rightarrow> ('z constate_scheme, cint) outcome" where
  "loaduvm_loop 0 i pd addr ip off len s = Ok 0 s"
| "loaduvm_loop (Suc k) i pd addr ip off len s =
     bnd (walkpgdir pd (addr + i) False s) (\<lambda>pte s.
       if pte = 0 then Panic ''loaduvm: address should exist''
       else let pa = PTE_ADDR (ld32 (pmem s) pte);
                n = (if len - i < PGSIZE then len - i else PGSIZE) in
         bnd (readi ip (off + i) n s) (\<lambda>r s.
           let s = s\<lparr>pmem := copy_in (P2V pa) (snd r) (pmem s)\<rparr> in
           if fst r \<noteq> n then Ok (- 1) s else loaduvm_loop k (i + PGSIZE) pd addr ip off len s))"

text \<open>With a length in the last page of the address space \<open>i\<close> wraps to 0 and the loop starts over.\<close>

definition loaduvm ::
    "uint \<Rightarrow> uint \<Rightarrow> nat \<Rightarrow> uint \<Rightarrow> uint \<Rightarrow> 'z constate_scheme \<Rightarrow> ('z constate_scheme, cint) outcome" where
  "loaduvm pd addr ip off len s =
     (if addr mod PGSIZE \<noteq> 0 then Panic ''loaduvm: addr must be page aligned''
      else bnd (loaduvm_loop ((unat len + 4095) div 4096) 0 pd addr ip off len s) (\<lambda>r s.
        if r = 0 \<and> 0xFFFFF000 < len then Spin else Ok r s))"

subsection \<open>Loading the segments\<close>

text \<open>The segments, in \<open>n\<close> headers from offset \<open>off\<close>: the new size, or \<open>None\<close> at \<open>goto bad\<close>.\<close>

fun load_segments ::
    "nat \<Rightarrow> uint \<Rightarrow> uint \<Rightarrow> nat \<Rightarrow> uint \<Rightarrow> 'z constate_scheme \<Rightarrow> ('z constate_scheme, uint option) outcome" where
  "load_segments 0 off pd ip n s = Ok (Some n) s"
| "load_segments (Suc k) off pd ip n s =
     bnd (readi ip off 32 s) (\<lambda>r s.
       if fst r \<noteq> 32 then Ok None s
       else let ph = get_proghdr (snd r) in
         if ph_type ph \<noteq> ELF_PROG_LOAD then load_segments k (off + 32) pd ip n s
         else if ph_memsz ph < ph_filesz ph then Ok None s
         else if ph_vaddr ph + ph_memsz ph < ph_vaddr ph then Ok None s
         else bnd (allocuvm pd n (ph_vaddr ph + ph_memsz ph) s) (\<lambda>n s.
           if n = 0 then Ok None s
           else if ph_vaddr ph mod PGSIZE \<noteq> 0 then Ok None s
           else bnd (loaduvm pd (ph_vaddr ph) ip (ph_off ph) (ph_filesz ph) s) (\<lambda>r s.
             if r <s 0 then Ok None s else load_segments k (off + 32) pd ip n s)))"

subsection \<open>The arguments\<close>

text \<open>Pushing the strings: the stack pointer and the addresses pushed, in order.\<close>

fun push_args ::
    "uint \<Rightarrow> byte list list \<Rightarrow> uint \<Rightarrow> uint list \<Rightarrow> 'z kmstate_scheme \<Rightarrow> ('z kmstate_scheme, (uint \<times> uint list) option) outcome" where
  "push_args pd [] sp ps s = Ok (Some (sp, ps)) s"
| "push_args pd (a # as) sp ps s =
     (if MAXARG \<le> length ps then Ok None s
      else let sp = (sp - (of_nat (length a) + 1)) AND NOT 3 in
        bnd (copyout pd sp (a @ [0]) s) (\<lambda>r s.
          if r <s 0 then Ok None s else push_args pd as sp (ps @ [sp]) s))"

definition ustack :: "uint \<Rightarrow> uint list \<Rightarrow> uint list" where
  "ustack sp ps =
     (let argc = of_nat (length ps) in [0xffffffff, argc, sp - (argc + 1) * 4] @ ps @ [0])"

text \<open>The part of a path after its last slash.\<close>

definition base_name :: "byte list \<Rightarrow> byte list" where
  "base_name path = rev (takeWhile (\<lambda>c. c \<noteq> 47) (rev path))"

definition exec_bad :: "uint \<Rightarrow> nat option \<Rightarrow> 'z constate_scheme \<Rightarrow> ('z constate_scheme, cint) outcome" where
  "exec_bad pd ip s =
     bnd (if pd \<noteq> 0 then freevm pd s else Ok () s) (\<lambda>_ s.
       (case ip of
          None \<Rightarrow> Ok (- 1) s
        | Some i \<Rightarrow> bnd (iunlockput i s) (\<lambda>_ s. bnd (end_op s) (\<lambda>_ s. Ok (- 1) s))))"

text \<open>The stack and the switch to the new image, once the file is closed.\<close>

definition exec_image ::
    "nat \<Rightarrow> byte list \<Rightarrow> byte list list \<Rightarrow> elfhdr \<Rightarrow> uint \<Rightarrow> uint \<Rightarrow> 'z kstate_scheme \<Rightarrow> ('z kstate_scheme, cint) outcome" where
  "exec_image me path argv eh pd n s =
     (let n = PGROUNDUP n in
      bnd (allocuvm pd n (n + 2 * PGSIZE) s) (\<lambda>n s.
        if n = 0 then exec_bad pd None s
        else bnd (clearpteu pd (n - 2 * PGSIZE) s) (\<lambda>_ s.
             bnd (push_args pd argv n [] s) (\<lambda>r s.
               (case r of
                  None \<Rightarrow> exec_bad pd None s
                | Some (sp, ps) \<Rightarrow>
                    let us = ustack sp ps; sp = sp - of_nat (length us) * 4 in
                    bnd (copyout pd sp (concat (map bytes32 us)) s) (\<lambda>r s.
                      if r <s 0 then exec_bad pd None s
                      else let old = pgdir (ptable s ! me);
                               s = upd_proc me (\<lambda>p. p\<lparr>pname := copy_name (pname p) (base_name path), pgdir := pd,
                                     sz := n, tf := (tf p)\<lparr>tf_eip := eh_entry eh, tf_esp := sp\<rparr>\<rparr>) s in
                        bnd (switchuvm (Some me) s) (\<lambda>_ s.
                        bnd (freevm old s) (\<lambda>_ s. Ok 0 s))))))))"

definition exec :: "byte list \<Rightarrow> byte list list \<Rightarrow> 'z kstate_scheme \<Rightarrow> ('z kstate_scheme, cint) outcome" where
  "exec path argv s =
     bnd (begin_op s) (\<lambda>_ s.
     bnd (namei path s) (\<lambda>r s.
       (case r of
          None \<Rightarrow> bnd (end_op s) (\<lambda>_ s. bnd (cprintf (str ''exec: fail'' @ [10]) [] s) (\<lambda>_ s. Ok (- 1) s))
        | Some ip \<Rightarrow>
            bnd (ilock (Some ip) s) (\<lambda>_ s.
            bnd (readi ip 0 52 s) (\<lambda>r s.
              let eh = get_elfhdr (snd r) in
              if fst r \<noteq> 52 then exec_bad 0 (Some ip) s
              else if eh_magic eh \<noteq> ELF_MAGIC then exec_bad 0 (Some ip) s
              else bnd (setupkvm s) (\<lambda>pd s.
                if pd = 0 then exec_bad 0 (Some ip) s
                else bnd (load_segments (unat (eh_phnum eh)) (eh_phoff eh) pd ip 0 s) (\<lambda>r s.
                  (case r of
                     None \<Rightarrow> exec_bad pd (Some ip) s
                   | Some n \<Rightarrow>
                       bnd (iunlockput ip s) (\<lambda>_ s.
                       bnd (end_op s) (\<lambda>_ s.
                         (case myproc s of None \<Rightarrow> Fault | Some me \<Rightarrow> exec_image me path argv eh pd n s)))))))))))"

end
