(* ===== verification/Fcntl.thy ===== *)
theory Fcntl
  imports Prelude
begin

section \<open>Modes of open (fcntl.h)\<close>

text \<open>The flags that the file system calls and the shell pass to each other.\<close>

definition O_RDONLY :: cint where "O_RDONLY = 0x000"
definition O_WRONLY :: cint where "O_WRONLY = 0x001"
definition O_RDWR :: cint where "O_RDWR = 0x002"
definition O_CREATE :: cint where "O_CREATE = 0x200"

end
