(* ===== verification/Sysfile.thy ===== *)
theory Sysfile
  imports Exec Fcntl
begin

section \<open>File system calls (sysfile.c)\<close>

text \<open>
  The handlers of \<open>sysfile.c\<close>: they check the arguments, which come from user code, and call into
  \<open>file.c\<close>, \<open>fs.c\<close> and \<open>exec.c\<close>. \<open>None\<close> stands for the null pointer and for \<open>-1\<close> in the helpers.
\<close>

definition argfd :: "cint \<Rightarrow> 'z kstate_scheme \<Rightarrow> ('z kstate_scheme, (nat \<times> nat) option) outcome" where
  "argfd n s =
     bnd (argint n s) (\<lambda>r s.
       (case r of
          None \<Rightarrow> Ok None s
        | Some fd \<Rightarrow>
            if fd <s 0 \<or> int NOFILE \<le> sint fd then Ok None s
            else bnd (deref (myproc s) s) (\<lambda>p s.
              Ok (map_option (\<lambda>f. (unat fd, f)) (ofile p ! unat fd)) s)))"

definition fdalloc :: "nat \<Rightarrow> 'z kstate_scheme \<Rightarrow> ('z kstate_scheme, nat option) outcome" where
  "fdalloc f s =
     (case myproc s of
        None \<Rightarrow> Fault
      | Some me \<Rightarrow>
          (case find_idx (\<lambda>x. x = None) (ofile (ptable s ! me)) of
             None \<Rightarrow> Ok None s
           | Some fd \<Rightarrow> Ok (Some fd) (upd_proc me (\<lambda>p. p\<lparr>ofile := (ofile p)[fd := Some f]\<rparr>) s)))"

definition clear_fd :: "nat \<Rightarrow> 'z kstate_scheme \<Rightarrow> ('z kstate_scheme, unit) outcome" where
  "clear_fd fd s =
     (case myproc s of
        None \<Rightarrow> Fault
      | Some me \<Rightarrow> Ok () (upd_proc me (\<lambda>p. p\<lparr>ofile := (ofile p)[fd := None]\<rparr>) s))"

definition sys_dup :: "'z kstate_scheme \<Rightarrow> ('z kstate_scheme, cint) outcome" where
  "sys_dup s =
     arg (argfd 0 s) (\<lambda>(_, f) s.
     arg (fdalloc f s) (\<lambda>fd s.
     bnd (filedup f s) (\<lambda>_ s. Ok (of_nat fd) s)))"

definition sys_read :: "'z kstate_scheme \<Rightarrow> ('z kstate_scheme, cint) outcome" where
  "sys_read s =
     arg (argfd 0 s) (\<lambda>(_, f) s.
     arg (argint 2 s) (\<lambda>n s.
     arg (argptr 1 n s) (\<lambda>p s.
     bnd (fileread f n s) (\<lambda>r s.
     bnd (store_user p (snd r) s) (\<lambda>_ s. Ok (fst r) s)))))"

definition sys_write :: "'z kstate_scheme \<Rightarrow> ('z kstate_scheme, cint) outcome" where
  "sys_write s =
     arg (argfd 0 s) (\<lambda>(_, f) s.
     arg (argint 2 s) (\<lambda>n s.
     arg (argptr 1 n s) (\<lambda>p s.
     bnd (load_bytes p (unat n) s) (\<lambda>src s. filewrite f src s))))"

definition sys_close :: "'z kstate_scheme \<Rightarrow> ('z kstate_scheme, cint) outcome" where
  "sys_close s =
     arg (argfd 0 s) (\<lambda>(fd, f) s.
     bnd (clear_fd fd s) (\<lambda>_ s.
     bnd (fileclose f s) (\<lambda>_ s. Ok 0 s)))"

text \<open>The fields of \<open>struct stat\<close> at their offsets; the padding between them is not written.\<close>

definition put_stat :: "uint \<Rightarrow> stat \<Rightarrow> 'z kmstate_scheme \<Rightarrow> ('z kmstate_scheme, unit) outcome" where
  "put_stat p st s =
     bnd (store_user p [ucast (st_type st), ucast (drop_bit 8 (st_type st))] s) (\<lambda>_ s.
     bnd (store_user (p + 4) (bytes32 (st_dev st)) s) (\<lambda>_ s.
     bnd (store_user (p + 8) (bytes32 (st_ino st)) s) (\<lambda>_ s.
     bnd (store_user (p + 12) [ucast (st_nlink st), ucast (drop_bit 8 (st_nlink st))] s) (\<lambda>_ s.
       store_user (p + 16) (bytes32 (st_size st)) s))))"

definition sys_fstat :: "'z kstate_scheme \<Rightarrow> ('z kstate_scheme, cint) outcome" where
  "sys_fstat s =
     arg (argfd 0 s) (\<lambda>(_, f) s.
     arg (argptr 1 20 s) (\<lambda>p s.
     arg (filestat f s) (\<lambda>st s.
     bnd (put_stat p st s) (\<lambda>_ s. Ok 0 s))))"

subsection \<open>Links\<close>

definition add_nlink :: "nat \<Rightarrow> ushort \<Rightarrow> 'z istate_scheme \<Rightarrow> ('z istate_scheme, unit) outcome" where
  "add_nlink i d s = iupdate i (upd_inode i (\<lambda>ip. ip\<lparr>inlink := inlink ip + d\<rparr>) s)"

definition end_fail :: "'z istate_scheme \<Rightarrow> ('z istate_scheme, cint) outcome" where
  "end_fail s = bnd (end_op s) (\<lambda>_ s. Ok (- 1) s)"

definition put_fail :: "nat \<Rightarrow> 'z istate_scheme \<Rightarrow> ('z istate_scheme, cint) outcome" where
  "put_fail i s = bnd (iunlockput i s) (\<lambda>_ s. end_fail s)"

definition link_bad :: "nat \<Rightarrow> 'z istate_scheme \<Rightarrow> ('z istate_scheme, cint) outcome" where
  "link_bad ip s = bnd (ilock (Some ip) s) (\<lambda>_ s. bnd (add_nlink ip (- 1) s) (\<lambda>_ s. put_fail ip s))"

definition sys_link :: "'z kstate_scheme \<Rightarrow> ('z kstate_scheme, cint) outcome" where
  "sys_link s =
     arg (argstr 0 s) (\<lambda>old s.
     arg (argstr 1 s) (\<lambda>new s.
     bnd (begin_op s) (\<lambda>_ s.
     bnd (namei old s) (\<lambda>r s.
       (case r of
          None \<Rightarrow> end_fail s
        | Some ip \<Rightarrow>
            bnd (ilock (Some ip) s) (\<lambda>_ s.
              if itype (icache s ! ip) = T_DIR then put_fail ip s
              else bnd (add_nlink ip 1 s) (\<lambda>_ s.
                   bnd (iunlock (Some ip) s) (\<lambda>_ s.
                   bnd (nameiparent new s) (\<lambda>r s.
                     (case r of
                        None \<Rightarrow> link_bad ip s
                      | Some (dp, name) \<Rightarrow>
                          bnd (ilock (Some dp) s) (\<lambda>_ s.
                          bnd (if idev (icache s ! dp) \<noteq> idev (icache s ! ip) then Ok True s
                               else bnd (dirlink dp name (inum (icache s ! ip)) s) (\<lambda>r s. Ok (r <s 0) s)) (\<lambda>bad s.
                            if bad then bnd (iunlockput dp s) (\<lambda>_ s. link_bad ip s)
                            else bnd (iunlockput dp s) (\<lambda>_ s.
                                 bnd (iput ip s) (\<lambda>_ s.
                                 bnd (end_op s) (\<lambda>_ s. Ok 0 s)))))))))))))))"

fun isdirempty_loop :: "nat \<Rightarrow> nat list \<Rightarrow> 'z constate_scheme \<Rightarrow> ('z constate_scheme, bool) outcome" where
  "isdirempty_loop dp [] s = Ok True s"
| "isdirempty_loop dp (off # offs) s =
     bnd (readi dp (of_nat off) 16 s) (\<lambda>r s.
       if fst r \<noteq> 16 then Panic ''isdirempty: readi''
       else if de_inum (get_dirent (snd r)) \<noteq> 0 then Ok False s
       else isdirempty_loop dp offs s)"

definition isdirempty :: "nat \<Rightarrow> 'z constate_scheme \<Rightarrow> ('z constate_scheme, bool) outcome" where
  "isdirempty dp s = isdirempty_loop dp (drop 2 (dir_offsets (isize (icache s ! dp)))) s"

definition unlink_entry ::
    "nat \<Rightarrow> nat \<Rightarrow> uint \<Rightarrow> 'z constate_scheme \<Rightarrow> ('z constate_scheme, cint) outcome" where
  "unlink_entry dp ip off s =
     bnd (writei dp (replicate 16 0) off s) (\<lambda>r s.
       if r \<noteq> 16 then Panic ''unlink: writei''
       else bnd (if itype (icache s ! ip) = T_DIR then add_nlink dp (- 1) s else Ok () s) (\<lambda>_ s.
            bnd (iunlockput dp s) (\<lambda>_ s.
            bnd (add_nlink ip (- 1) s) (\<lambda>_ s.
            bnd (iunlockput ip s) (\<lambda>_ s.
            bnd (end_op s) (\<lambda>_ s. Ok 0 s))))))"

definition sys_unlink :: "'z kstate_scheme \<Rightarrow> ('z kstate_scheme, cint) outcome" where
  "sys_unlink s =
     arg (argstr 0 s) (\<lambda>path s.
     bnd (begin_op s) (\<lambda>_ s.
     bnd (nameiparent path s) (\<lambda>r s.
       (case r of
          None \<Rightarrow> end_fail s
        | Some (dp, name) \<Rightarrow>
            bnd (ilock (Some dp) s) (\<lambda>_ s.
              if namecmp name (str ''.'') = 0 \<or> namecmp name (str ''..'') = 0 then put_fail dp s
              else bnd (dirlookup dp name s) (\<lambda>r s.
                (case r of
                   None \<Rightarrow> put_fail dp s
                 | Some (ip, off) \<Rightarrow>
                     bnd (ilock (Some ip) s) (\<lambda>_ s.
                       if inlink (icache s ! ip) <s 1 then Panic ''unlink: nlink < 1''
                       else bnd (if itype (icache s ! ip) = T_DIR then isdirempty ip s else Ok True s) (\<lambda>empty s.
                         if \<not> empty then bnd (iunlockput ip s) (\<lambda>_ s. put_fail dp s)
                         else unlink_entry dp ip off s)))))))))"

subsection \<open>Creating and opening\<close>

definition create_dots :: "nat \<Rightarrow> nat \<Rightarrow> 'z constate_scheme \<Rightarrow> ('z constate_scheme, unit) outcome" where
  "create_dots dp ip s =
     bnd (add_nlink dp 1 s) (\<lambda>_ s.
     bnd (dirlink ip (str ''.'') (inum (icache s ! ip)) s) (\<lambda>r s.
       if r <s 0 then Panic ''create dots''
       else bnd (dirlink ip (str ''..'') (inum (icache s ! dp)) s) (\<lambda>r s.
         if r <s 0 then Panic ''create dots'' else Ok () s)))"

definition create ::
    "byte list \<Rightarrow> ushort \<Rightarrow> ushort \<Rightarrow> ushort \<Rightarrow> 'z constate_scheme \<Rightarrow> ('z constate_scheme, nat option) outcome" where
  "create path ty major minor s =
     bnd (nameiparent path s) (\<lambda>r s.
       (case r of
          None \<Rightarrow> Ok None s
        | Some (dp, name) \<Rightarrow>
            bnd (ilock (Some dp) s) (\<lambda>_ s.
            bnd (dirlookup dp name s) (\<lambda>r s.
              (case r of
                 Some (ip, _) \<Rightarrow>
                   bnd (iunlockput dp s) (\<lambda>_ s.
                   bnd (ilock (Some ip) s) (\<lambda>_ s.
                     if ty = T_FILE \<and> itype (icache s ! ip) = T_FILE then Ok (Some ip) s
                     else bnd (iunlockput ip s) (\<lambda>_ s. Ok None s)))
               | None \<Rightarrow>
                   bnd (ialloc (idev (icache s ! dp)) ty s) (\<lambda>ip s.
                   bnd (ilock (Some ip) s) (\<lambda>_ s.
                   bnd (iupdate ip (upd_inode ip (\<lambda>i. i\<lparr>imajor := major, iminor := minor, inlink := 1\<rparr>) s)) (\<lambda>_ s.
                   bnd (if ty = T_DIR then create_dots dp ip s else Ok () s) (\<lambda>_ s.
                   bnd (dirlink dp name (inum (icache s ! ip)) s) (\<lambda>r s.
                     if r <s 0 then Panic ''create: dirlink''
                     else bnd (iunlockput dp s) (\<lambda>_ s. Ok (Some ip) s)))))))))))"

text \<open>The second half of \<open>sys_open\<close>: a file and a descriptor for the locked inode \<open>ip\<close>.\<close>

definition open_fd ::
    "nat \<Rightarrow> bool \<Rightarrow> bool \<Rightarrow> 'z kstate_scheme \<Rightarrow> ('z kstate_scheme, (nat \<times> nat) option) outcome" where
  "open_fd ip rd wr s =
     bnd (filealloc s) (\<lambda>r s.
       (case r of
          None \<Rightarrow> bnd (put_fail ip s) (\<lambda>_ s. Ok None s)
        | Some f \<Rightarrow>
            bnd (fdalloc f s) (\<lambda>r s.
              (case r of
                 None \<Rightarrow> bnd (fileclose f s) (\<lambda>_ s. bnd (put_fail ip s) (\<lambda>_ s. Ok None s))
               | Some fd \<Rightarrow>
                   bnd (iunlock (Some ip) s) (\<lambda>_ s.
                   bnd (end_op s) (\<lambda>_ s.
                     Ok (Some (fd, f)) (upd_file f (\<lambda>x. x\<lparr>f_type := FD_INODE, f_ip := Some ip, f_off := 0,
                       f_readable := rd, f_writable := wr\<rparr>) s)))))))"

definition open_inode :: "byte list \<Rightarrow> cint \<Rightarrow> 'z constate_scheme \<Rightarrow> ('z constate_scheme, nat option) outcome" where
  "open_inode path omode s =
     (if omode AND O_CREATE \<noteq> 0 then
        bnd (create path T_FILE 0 0 s) (\<lambda>r s.
          (case r of None \<Rightarrow> bnd (end_op s) (\<lambda>_ s. Ok None s) | Some ip \<Rightarrow> Ok (Some ip) s))
      else
        bnd (namei path s) (\<lambda>r s.
          (case r of
             None \<Rightarrow> bnd (end_op s) (\<lambda>_ s. Ok None s)
           | Some ip \<Rightarrow>
               bnd (ilock (Some ip) s) (\<lambda>_ s.
                 if itype (icache s ! ip) = T_DIR \<and> omode \<noteq> O_RDONLY
                 then bnd (put_fail ip s) (\<lambda>_ s. Ok None s)
                 else Ok (Some ip) s))))"

definition sys_open :: "'z kstate_scheme \<Rightarrow> ('z kstate_scheme, cint) outcome" where
  "sys_open s =
     arg (argstr 0 s) (\<lambda>path s.
     arg (argint 1 s) (\<lambda>omode s.
     bnd (begin_op s) (\<lambda>_ s.
     arg (open_inode path omode s) (\<lambda>ip s.
     arg (open_fd ip (omode AND O_WRONLY = 0) (omode AND O_WRONLY \<noteq> 0 \<or> omode AND O_RDWR \<noteq> 0) s) (\<lambda>(fd, _) s.
       Ok (of_nat fd) s)))))"

text \<open>\<open>sys_mkdir\<close> and \<open>sys_mknod\<close> open the transaction before they look at their arguments.\<close>

definition or_end :: "('z istate_scheme, 'a option) outcome \<Rightarrow> ('a \<Rightarrow> 'z istate_scheme \<Rightarrow> ('z istate_scheme, cint) outcome)
    \<Rightarrow> ('z istate_scheme, cint) outcome" where
  "or_end m k = bnd m (\<lambda>r s. (case r of None \<Rightarrow> end_fail s | Some a \<Rightarrow> k a s))"

definition sys_mkdir :: "'z kstate_scheme \<Rightarrow> ('z kstate_scheme, cint) outcome" where
  "sys_mkdir s =
     bnd (begin_op s) (\<lambda>_ s.
     or_end (argstr 0 s) (\<lambda>path s.
     or_end (create path T_DIR 0 0 s) (\<lambda>ip s.
     bnd (iunlockput ip s) (\<lambda>_ s. bnd (end_op s) (\<lambda>_ s. Ok 0 s)))))"

definition sys_mknod :: "'z kstate_scheme \<Rightarrow> ('z kstate_scheme, cint) outcome" where
  "sys_mknod s =
     bnd (begin_op s) (\<lambda>_ s.
     or_end (argstr 0 s) (\<lambda>path s.
     or_end (argint 1 s) (\<lambda>major s.
     or_end (argint 2 s) (\<lambda>minor s.
     or_end (create path T_DEV (ucast major) (ucast minor) s) (\<lambda>ip s.
     bnd (iunlockput ip s) (\<lambda>_ s. bnd (end_op s) (\<lambda>_ s. Ok 0 s)))))))"

definition sys_chdir :: "'z kstate_scheme \<Rightarrow> ('z kstate_scheme, cint) outcome" where
  "sys_chdir s =
     bnd (begin_op s) (\<lambda>_ s.
     or_end (argstr 0 s) (\<lambda>path s.
     or_end (namei path s) (\<lambda>ip s.
     bnd (ilock (Some ip) s) (\<lambda>_ s.
       if itype (icache s ! ip) \<noteq> T_DIR then put_fail ip s
       else bnd (iunlock (Some ip) s) (\<lambda>_ s.
            (case myproc s of
               None \<Rightarrow> Fault
             | Some me \<Rightarrow>
                 bnd (put_inode (cwd (ptable s ! me)) s) (\<lambda>_ s.
                 bnd (end_op s) (\<lambda>_ s. Ok 0 (upd_proc me (\<lambda>p. p\<lparr>cwd := Some ip\<rparr>) s)))))))))"

subsection \<open>Exec and pipe\<close>

fun fetch_argv :: "nat \<Rightarrow> uint \<Rightarrow> byte list list \<Rightarrow> 'z kstate_scheme \<Rightarrow> ('z kstate_scheme, byte list list option) outcome" where
  "fetch_argv 0 uargv acc s = Ok None s"
| "fetch_argv (Suc n) uargv acc s =
     bnd (fetchint uargv s) (\<lambda>r s.
       (case r of
          None \<Rightarrow> Ok None s
        | Some uarg \<Rightarrow>
            if uarg = 0 then Ok (Some (rev acc)) s
            else bnd (fetchstr uarg s) (\<lambda>r s.
              (case r of None \<Rightarrow> Ok None s | Some a \<Rightarrow> fetch_argv n (uargv + 4) (a # acc) s))))"

definition sys_exec :: "'z kstate_scheme \<Rightarrow> ('z kstate_scheme, cint) outcome" where
  "sys_exec s =
     arg (argstr 0 s) (\<lambda>path s.
     arg (argint 1 s) (\<lambda>uargv s.
     arg (fetch_argv MAXARG uargv [] s) (\<lambda>argv s. exec path argv s)))"

definition pipe_fail :: "nat \<Rightarrow> nat \<Rightarrow> 'z kstate_scheme \<Rightarrow> ('z kstate_scheme, cint) outcome" where
  "pipe_fail rfile wfile s = bnd (fileclose rfile s) (\<lambda>_ s. bnd (fileclose wfile s) (\<lambda>_ s. Ok (- 1) s))"

definition sys_pipe :: "'z kstate_scheme \<Rightarrow> ('z kstate_scheme, cint) outcome" where
  "sys_pipe s =
     arg (argptr 0 8 s) (\<lambda>p s.
     arg (pipealloc s) (\<lambda>(rfile, wfile) s.
     bnd (fdalloc rfile s) (\<lambda>r s.
       (case r of
          None \<Rightarrow> pipe_fail rfile wfile s
        | Some fd0 \<Rightarrow>
            bnd (fdalloc wfile s) (\<lambda>r s.
              (case r of
                 None \<Rightarrow> bnd (clear_fd fd0 s) (\<lambda>_ s. pipe_fail rfile wfile s)
               | Some fd1 \<Rightarrow>
                   bnd (store_user p (bytes32 (of_nat fd0)) s) (\<lambda>_ s.
                   bnd (store_user (p + 4) (bytes32 (of_nat fd1)) s) (\<lambda>_ s. Ok 0 s))))))))"

subsection \<open>Copying a file\<close>

definition my_argfd :: "nat \<Rightarrow> 'z kstate_scheme \<Rightarrow> ('z kstate_scheme, nat option) outcome" where
  "my_argfd fd s =
     (if NOFILE \<le> fd then bnd (cprintf (str ''%d'' @ [10]) [AInt (of_nat fd)] s) (\<lambda>_ s. Ok None s)
      else bnd (deref (myproc s) s) (\<lambda>p s. Ok (ofile p ! fd) s))"

text \<open>
  Neither \<open>O_RDONLY & O_CREATE\<close> nor \<open>O_WRONLY & O_CREATE\<close> has a bit set, so both files are looked
  up and never created; the check on a source directory compares a constant with itself, and the
  one on a target directory compares the address of the name with 0. A source that cannot be read
  gives \<open>-1\<close>, and so does the write of \<open>-1\<close> bytes after it, which the handler takes for success.
\<close>

definition copy_inode ::
    "byte list \<Rightarrow> bool \<Rightarrow> bool \<Rightarrow> 'z constate_scheme \<Rightarrow> ('z constate_scheme, nat option) outcome" where
  "copy_inode path create_it refuse_dir s =
     (if create_it then
        bnd (create path T_FILE 0 0 s) (\<lambda>r s.
          (case r of None \<Rightarrow> bnd (end_op s) (\<lambda>_ s. Ok None s) | Some ip \<Rightarrow> Ok (Some ip) s))
      else
        bnd (namei path s) (\<lambda>r s.
          (case r of
             None \<Rightarrow> bnd (end_op s) (\<lambda>_ s. Ok None s)
           | Some ip \<Rightarrow>
               bnd (ilock (Some ip) s) (\<lambda>_ s.
                 if itype (icache s ! ip) = T_DIR \<and> refuse_dir
                 then bnd (put_fail ip s) (\<lambda>_ s. Ok None s) else Ok (Some ip) s))))"

definition sys_copy_file :: "'z kstate_scheme \<Rightarrow> ('z kstate_scheme, cint) outcome" where
  "sys_copy_file s =
     arg (argstr 0 s) (\<lambda>src s.
     arg (argint 1 s) (\<lambda>dest_addr s.
     arg (fetchstr dest_addr s) (\<lambda>dest s.
     bnd (begin_op s) (\<lambda>_ s.
     arg (copy_inode src (O_RDONLY AND O_CREATE \<noteq> 0) (O_RDONLY \<noteq> O_RDONLY) s) (\<lambda>ip s.
     arg (open_fd ip (O_RDONLY AND O_WRONLY = 0)
            (O_RDONLY AND O_WRONLY \<noteq> 0 \<or> O_RDONLY AND O_RDWR \<noteq> 0) s) (\<lambda>(fd, _) s.
     arg (my_argfd fd s) (\<lambda>f s.
     bnd (fileread f 4096 s) (\<lambda>r s.
     bnd (begin_op s) (\<lambda>_ s.
     arg (copy_inode dest (O_WRONLY AND O_CREATE \<noteq> 0) (dest_addr \<noteq> 0) s) (\<lambda>ip2 s.
     arg (open_fd ip2 (O_WRONLY AND O_WRONLY = 0)
            (O_WRONLY AND O_WRONLY \<noteq> 0 \<or> O_WRONLY AND O_RDWR \<noteq> 0) s) (\<lambda>(fd2, _) s.
     arg (my_argfd fd2 s) (\<lambda>f2 s.
     bnd (if fst r <s 0 then Ok (- 1) s else filewrite f2 (snd r) s) (\<lambda>w s.
       Ok (if w \<noteq> fst r then - 1 else 0) s)))))))))))))"

end
