(* ===== verification/Segments.thy ===== *)
theory Segments
  imports Process
begin

section \<open>Descriptor tables (mmu.h, seginit of vm.c, tvinit of trap.c)\<close>

text \<open>
  Segment descriptors and interrupt gates with the widths of their bit fields, the tables the kernel
  builds from them, and their layout in memory as the processor reads it. User code can enter the
  kernel only through the system call gate.
\<close>

definition SEG_KCODE :: nat where "SEG_KCODE = 1"
definition SEG_KDATA :: nat where "SEG_KDATA = 2"
definition SEG_TSS :: nat where "SEG_TSS = 5"
definition NSEGS :: nat where "NSEGS = 6"
definition STA_X :: "4 word" where "STA_X = 8"
definition STA_W :: "4 word" where "STA_W = 2"
definition STA_R :: "4 word" where "STA_R = 2"
definition STS_T32A :: "4 word" where "STS_T32A = 9"
definition STS_IG32 :: "4 word" where "STS_IG32 = 0xE"
definition STS_TG32 :: "4 word" where "STS_TG32 = 0xF"

definition T_SYSCALL :: uint where "T_SYSCALL = 64"
definition T_IRQ0 :: uint where "T_IRQ0 = 32"
definition IRQ_TIMER :: uint where "IRQ_TIMER = 0"
definition IRQ_KBD :: uint where "IRQ_KBD = 1"
definition IRQ_COM1 :: uint where "IRQ_COM1 = 4"
definition IRQ_IDE :: uint where "IRQ_IDE = 14"
definition IRQ_SPURIOUS :: uint where "IRQ_SPURIOUS = 31"

subsection \<open>Segments\<close>

record segdesc =
  lim_15_0 :: "16 word"
  base_15_0 :: "16 word"
  base_23_16 :: "8 word"
  seg_type :: "4 word"
  seg_s :: "1 word"
  seg_dpl :: "2 word"
  seg_p :: "1 word"
  lim_19_16 :: "4 word"
  seg_avl :: "1 word"
  seg_rsv1 :: "1 word"
  seg_db :: "1 word"
  seg_g :: "1 word"
  base_31_24 :: "8 word"

definition SEG :: "4 word \<Rightarrow> uint \<Rightarrow> uint \<Rightarrow> 2 word \<Rightarrow> segdesc" where
  "SEG ty b lm d =
     \<lparr>lim_15_0 = ucast (drop_bit 12 lm AND 0xffff), base_15_0 = ucast (b AND 0xffff),
      base_23_16 = ucast (drop_bit 16 b AND 0xff), seg_type = ty, seg_s = 1, seg_dpl = d, seg_p = 1,
      lim_19_16 = ucast (drop_bit 28 lm), seg_avl = 0, seg_rsv1 = 0, seg_db = 1, seg_g = 1,
      base_31_24 = ucast (drop_bit 24 b)\<rparr>"

definition SEG16 :: "4 word \<Rightarrow> uint \<Rightarrow> uint \<Rightarrow> 2 word \<Rightarrow> segdesc" where
  "SEG16 ty b lm d =
     \<lparr>lim_15_0 = ucast (lm AND 0xffff), base_15_0 = ucast (b AND 0xffff),
      base_23_16 = ucast (drop_bit 16 b AND 0xff), seg_type = ty, seg_s = 1, seg_dpl = d, seg_p = 1,
      lim_19_16 = ucast (drop_bit 16 lm), seg_avl = 0, seg_rsv1 = 0, seg_db = 1, seg_g = 0,
      base_31_24 = ucast (drop_bit 24 b)\<rparr>"

text \<open>The table of one processor; \<open>seginit\<close> leaves the null and the task entries alone.\<close>

definition seginit :: "segdesc list \<Rightarrow> segdesc list" where
  "seginit gdt = gdt[SEG_KCODE := SEG (STA_X OR STA_R) 0 0xffffffff 0,
                     SEG_KDATA := SEG STA_W 0 0xffffffff 0,
                     unat SEG_UCODE := SEG (STA_X OR STA_R) 0 0xffffffff (ucast DPL_USER),
                     unat SEG_UDATA := SEG STA_W 0 0xffffffff (ucast DPL_USER)]"

text \<open>The task descriptor that \<open>switchuvm\<close> installs for the task state of \<open>104\<close> bytes at \<open>ts\<close>.\<close>

definition set_tss :: "uint \<Rightarrow> segdesc list \<Rightarrow> segdesc list" where
  "set_tss ts gdt = gdt[SEG_TSS := (SEG16 STS_T32A ts (104 - 1) 0)\<lparr>seg_s := 0\<rparr>]"

definition seg_bits :: "segdesc \<Rightarrow> 64 word" where
  "seg_bits d = ucast (lim_15_0 d) OR push_bit 16 (ucast (base_15_0 d)) OR push_bit 32 (ucast (base_23_16 d))
     OR push_bit 40 (ucast (seg_type d)) OR push_bit 44 (ucast (seg_s d)) OR push_bit 45 (ucast (seg_dpl d))
     OR push_bit 47 (ucast (seg_p d)) OR push_bit 48 (ucast (lim_19_16 d)) OR push_bit 52 (ucast (seg_avl d))
     OR push_bit 53 (ucast (seg_rsv1 d)) OR push_bit 54 (ucast (seg_db d)) OR push_bit 55 (ucast (seg_g d))
     OR push_bit 56 (ucast (base_31_24 d))"

subsection \<open>Gates\<close>

record gatedesc =
  off_15_0 :: "16 word"
  gate_cs :: "16 word"
  gate_args :: "5 word"
  gate_rsv1 :: "3 word"
  gate_type :: "4 word"
  gate_s :: "1 word"
  gate_dpl :: "2 word"
  gate_p :: "1 word"
  off_31_16 :: "16 word"

definition SETGATE :: "bool \<Rightarrow> 16 word \<Rightarrow> uint \<Rightarrow> 2 word \<Rightarrow> gatedesc" where
  "SETGATE istrap sel off d =
     \<lparr>off_15_0 = ucast (off AND 0xffff), gate_cs = sel, gate_args = 0, gate_rsv1 = 0,
      gate_type = (if istrap then STS_TG32 else STS_IG32), gate_s = 0, gate_dpl = d, gate_p = 1,
      off_31_16 = ucast (drop_bit 16 off)\<rparr>"

definition tvinit :: "(nat \<Rightarrow> uint) \<Rightarrow> gatedesc list" where
  "tvinit vectors =
     (map (\<lambda>i. SETGATE False (push_bit 3 (of_nat SEG_KCODE)) (vectors i) 0) [0..<256])
       [unat T_SYSCALL := SETGATE True (push_bit 3 (of_nat SEG_KCODE)) (vectors (unat T_SYSCALL)) (ucast DPL_USER)]"

definition gate_bits :: "gatedesc \<Rightarrow> 64 word" where
  "gate_bits d = ucast (off_15_0 d) OR push_bit 16 (ucast (gate_cs d)) OR push_bit 32 (ucast (gate_args d))
     OR push_bit 37 (ucast (gate_rsv1 d)) OR push_bit 40 (ucast (gate_type d)) OR push_bit 44 (ucast (gate_s d))
     OR push_bit 45 (ucast (gate_dpl d)) OR push_bit 47 (ucast (gate_p d)) OR push_bit 48 (ucast (off_31_16 d))"

subsection \<open>How the processor reads a descriptor\<close>

definition hw_type :: "64 word \<Rightarrow> 4 word" where "hw_type w = ucast (drop_bit 40 w)"
definition hw_application :: "64 word \<Rightarrow> bool" where "hw_application w = bit w 44"
definition hw_dpl :: "64 word \<Rightarrow> 2 word" where "hw_dpl w = ucast (drop_bit 45 w)"
definition hw_present :: "64 word \<Rightarrow> bool" where "hw_present w = bit w 47"

definition hw_32bit :: "64 word \<Rightarrow> bool" where "hw_32bit w = bit w 54"

definition hw_gate_offset :: "64 word \<Rightarrow> uint" where
  "hw_gate_offset w = ucast (take_bit 16 w OR push_bit 16 (drop_bit 48 w))"

definition hw_gate_selector :: "64 word \<Rightarrow> 16 word" where
  "hw_gate_selector w = ucast (drop_bit 16 w)"

definition hw_base :: "64 word \<Rightarrow> uint" where
  "hw_base w = ucast (take_bit 24 (drop_bit 16 w) OR push_bit 24 (drop_bit 56 w))"

text \<open>The last valid offset; with the granularity bit the limit counts pages.\<close>

definition hw_limit :: "64 word \<Rightarrow> uint" where
  "hw_limit w = (let n = ucast (take_bit 16 w OR push_bit 16 (take_bit 4 (drop_bit 48 w)))
                 in if bit w 55 then push_bit 12 n OR 0xfff else n)"

lemma bit_beyond: "LENGTH('a::len) \<le> m \<Longrightarrow> bit (f :: 'a word) m \<longleftrightarrow> False"
  by (auto dest: bit_imp_le_length)

lemma one_bit: "x = 1 \<longleftrightarrow> bit x 0" for x :: "1 word"
  by (auto intro!: bit_word_eqI)

lemmas hw_defs = hw_type_def hw_application_def hw_dpl_def hw_present_def hw_gate_offset_def hw_gate_selector_def

lemma gate_read:
  "hw_type (gate_bits g) = gate_type g" "hw_application (gate_bits g) \<longleftrightarrow> gate_s g = 1"
  "hw_dpl (gate_bits g) = gate_dpl g" "hw_present (gate_bits g) \<longleftrightarrow> gate_p g = 1"
  "hw_gate_selector (gate_bits g) = gate_cs g"
  "hw_gate_offset (gate_bits g) = ucast (off_15_0 g) OR push_bit 16 (ucast (off_31_16 g))"
proof -
  show "hw_type (gate_bits g) = gate_type g" "hw_dpl (gate_bits g) = gate_dpl g"
    "hw_gate_selector (gate_bits g) = gate_cs g"
    by (rule bit_word_eqI, simp add: hw_defs gate_bits_def bit_simps bit_beyond)+
  show "hw_application (gate_bits g) \<longleftrightarrow> gate_s g = 1" "hw_present (gate_bits g) \<longleftrightarrow> gate_p g = 1"
    by (simp_all add: one_bit hw_defs gate_bits_def bit_simps bit_beyond)
  show "hw_gate_offset (gate_bits g) = ucast (off_15_0 g) OR push_bit 16 (ucast (off_31_16 g))"
  proof (rule bit_word_eqI)
    fix n assume n: "n < LENGTH(32)"
    then have "n - 16 < 32" "n - 16 < 64" by simp_all
    with n show "bit (hw_gate_offset (gate_bits g)) n = bit (ucast (off_15_0 g) OR push_bit 16 (ucast (off_31_16 g)) :: uint) n"
      by (cases "n < 16") (simp_all add: hw_defs gate_bits_def bit_simps bit_beyond)
  qed
qed

lemma halves_join: "ucast (ucast (x AND 0xffff) :: 16 word) OR push_bit 16 (ucast (ucast (drop_bit 16 x) :: 16 word)) = (x :: uint)"
proof (rule bit_word_eqI)
  fix n assume n: "n < LENGTH(32)"
  have "x AND 0xffff = take_bit 16 x" by (simp add: take_bit_eq_mask mask_eq_exp_minus_1)
  moreover have "n \<ge> 16 \<Longrightarrow> n - 16 < 16" using n by simp
  ultimately show "bit (ucast (ucast (x AND 0xffff) :: 16 word) OR push_bit 16 (ucast (ucast (drop_bit 16 x) :: 16 word)) :: uint) n = bit x n"
    using n by (cases "n < 16") (simp_all add: bit_simps)
qed

lemma tvinit_nth:
  "i < 256 \<Longrightarrow> tvinit vectors ! i =
     (if i = 64 then SETGATE True 8 (vectors 64) 3 else SETGATE False 8 (vectors i) 0)"
  by (simp add: tvinit_def T_SYSCALL_def SEG_KCODE_def DPL_USER_def)

text \<open>
  C17. Every entry of the interrupt table, read as the processor reads it, is a present gate into
  the kernel's code segment at the address of its vector; only entry 64, the system call, has
  privilege level 3, so it is the only one a user program can enter with an \<open>int\<close> instruction, and
  it is also the only one that leaves interrupts enabled.
\<close>

theorem interrupt_table_protected:
  assumes "i < 256"
  shows "let g = gate_bits (tvinit vectors ! i) in
    hw_present g \<and> \<not> hw_application g \<and> hw_gate_selector g = push_bit 3 1 \<and> hw_gate_offset g = vectors i
    \<and> (hw_dpl g = 3 \<longleftrightarrow> i = 64) \<and> (hw_dpl g = 0 \<longleftrightarrow> i \<noteq> 64)
    \<and> hw_type g = (if i = 64 then STS_TG32 else STS_IG32)"
  using assms by (simp add: Let_def tvinit_nth gate_read SETGATE_def halves_join)

theorem interrupt_table_protected_witness:
  "hw_dpl (gate_bits (tvinit (\<lambda>i. 0x80105000 + of_nat i) ! 14)) = 0
   \<and> hw_gate_offset (gate_bits (tvinit (\<lambda>i. 0x80105000 + of_nat i) ! 14)) = 0x8010500E"
  using interrupt_table_protected [of 14 "\<lambda>i. 0x80105000 + of_nat i"] by (simp add: Let_def)

subsection \<open>The segment table\<close>

lemma seg_read:
  "hw_type (seg_bits d) = seg_type d" "hw_application (seg_bits d) \<longleftrightarrow> seg_s d = 1"
  "hw_dpl (seg_bits d) = seg_dpl d" "hw_present (seg_bits d) \<longleftrightarrow> seg_p d = 1" "hw_32bit (seg_bits d) \<longleftrightarrow> seg_db d = 1"
  "hw_base (seg_bits d) = ucast (base_15_0 d) OR push_bit 16 (ucast (base_23_16 d)) OR push_bit 24 (ucast (base_31_24 d))"
  "hw_limit (seg_bits d) =
     (let n = ucast (lim_15_0 d) OR push_bit 16 (ucast (lim_19_16 d)) in if seg_g d = 1 then push_bit 12 n OR 0xfff else n)"
proof -
  show "hw_type (seg_bits d) = seg_type d" "hw_dpl (seg_bits d) = seg_dpl d"
    by (rule bit_word_eqI, simp add: hw_defs seg_bits_def bit_simps bit_beyond)+
  show "hw_application (seg_bits d) \<longleftrightarrow> seg_s d = 1" "hw_present (seg_bits d) \<longleftrightarrow> seg_p d = 1" "hw_32bit (seg_bits d) \<longleftrightarrow> seg_db d = 1"
    by (simp_all add: one_bit hw_defs hw_32bit_def seg_bits_def bit_simps bit_beyond)
  show "hw_base (seg_bits d) = ucast (base_15_0 d) OR push_bit 16 (ucast (base_23_16 d)) OR push_bit 24 (ucast (base_31_24 d))"
  proof (rule bit_word_eqI)
    fix n assume n: "n < LENGTH(32)"
    then consider "n < 16" | "16 \<le> n" "n < 24" | "24 \<le> n" "n - 24 < 8" by force
    then show "bit (hw_base (seg_bits d)) n =
        bit (ucast (base_15_0 d) OR push_bit 16 (ucast (base_23_16 d)) OR push_bit 24 (ucast (base_31_24 d)) :: uint) n"
      using n by cases (auto simp: hw_base_def seg_bits_def bit_simps bit_beyond)
  qed
  have g: "bit (seg_bits d) 55 \<longleftrightarrow> seg_g d = 1" by (simp add: one_bit seg_bits_def bit_simps bit_beyond)
  have "(ucast (take_bit 16 (seg_bits d) OR push_bit 16 (take_bit 4 (drop_bit 48 (seg_bits d)))) :: uint)
      = ucast (lim_15_0 d) OR push_bit 16 (ucast (lim_19_16 d))"
  proof (rule bit_word_eqI)
    fix n assume n: "n < LENGTH(32)"
    then consider "n < 16" | "16 \<le> n" "n - 16 < 4" | "20 \<le> n" by force
    then show "bit (ucast (take_bit 16 (seg_bits d) OR push_bit 16 (take_bit 4 (drop_bit 48 (seg_bits d)))) :: uint) n
        = bit (ucast (lim_15_0 d) OR push_bit 16 (ucast (lim_19_16 d)) :: uint) n"
      using n by cases (auto simp: seg_bits_def bit_simps bit_beyond)
  qed
  then show "hw_limit (seg_bits d) =
     (let n = ucast (lim_15_0 d) OR push_bit 16 (ucast (lim_19_16 d)) in if seg_g d = 1 then push_bit 12 n OR 0xfff else n)"
    by (simp add: hw_limit_def g)
qed

lemma and_ffff: "x AND 0xffff = take_bit 16 x" and and_ff: "x AND 0xff = take_bit 8 x" for x :: uint
  by (simp_all add: take_bit_eq_mask mask_eq_exp_minus_1)

lemma base_join:
  "ucast (ucast (b AND 0xffff) :: 16 word) OR push_bit 16 (ucast (ucast (drop_bit 16 b AND 0xff) :: 8 word))
     OR push_bit 24 (ucast (ucast (drop_bit 24 b) :: 8 word)) = (b :: uint)"
proof (rule bit_word_eqI)
  fix n assume n: "n < LENGTH(32)"
  then consider "n < 16" | "16 \<le> n" "n - 16 < 8" | "24 \<le> n" "n - 24 < 8" by force
  then show "bit (ucast (ucast (b AND 0xffff) :: 16 word) OR push_bit 16 (ucast (ucast (drop_bit 16 b AND 0xff) :: 8 word))
     OR push_bit 24 (ucast (ucast (drop_bit 24 b) :: 8 word)) :: uint) n = bit b n"
    using n by cases (auto simp: and_ffff and_ff bit_simps)
qed

lemma limit_pages:
  "push_bit 12 (ucast (ucast (drop_bit 12 lm AND 0xffff) :: 16 word) OR push_bit 16 (ucast (ucast (drop_bit 28 lm) :: 4 word))) OR 0xfff
     = (lm :: uint) OR 0xfff"
proof (rule bit_word_eqI)
  fix n assume n: "n < LENGTH(32)"
  have m: "(0xfff :: uint) = mask 12" by (simp add: mask_eq_exp_minus_1)
  from n consider "n < 12" | "12 \<le> n" "n - 12 < 16" | "28 \<le> n" "n - 12 - 16 < 4" by force
  then show "bit (push_bit 12 (ucast (ucast (drop_bit 12 lm AND 0xffff) :: 16 word)
      OR push_bit 16 (ucast (ucast (drop_bit 28 lm) :: 4 word))) OR 0xfff :: uint) n = bit (lm OR 0xfff) n"
    unfolding m using n by cases (auto simp: and_ffff bit_simps)
qed

lemma limit_bytes:
  "ucast (ucast (lm AND 0xffff) :: 16 word) OR push_bit 16 (ucast (ucast (drop_bit 16 lm) :: 4 word)) = take_bit 20 (lm :: uint)"
proof (rule bit_word_eqI)
  fix n assume n: "n < LENGTH(32)"
  then consider "n < 16" | "16 \<le> n" "n - 16 < 4" | "20 \<le> n" by force
  then show "bit (ucast (ucast (lm AND 0xffff) :: 16 word) OR push_bit 16 (ucast (ucast (drop_bit 16 lm) :: 4 word)) :: uint) n
      = bit (take_bit 20 lm) n"
    using n by cases (auto simp: and_ffff bit_simps)
qed

lemma SEG_read:
  "hw_present (seg_bits (SEG ty b lm d))" "hw_application (seg_bits (SEG ty b lm d))" "hw_32bit (seg_bits (SEG ty b lm d))"
  "hw_base (seg_bits (SEG ty b lm d)) = b" "hw_limit (seg_bits (SEG ty b lm d)) = lm OR 0xfff"
  "hw_dpl (seg_bits (SEG ty b lm d)) = d" "hw_type (seg_bits (SEG ty b lm d)) = ty"
  by (simp_all only: seg_read) (simp_all add: SEG_def base_join limit_pages [simplified] Let_def)

lemma SEG16_read:
  "hw_present (seg_bits ((SEG16 ty b lm d)\<lparr>seg_s := 0\<rparr>))" "\<not> hw_application (seg_bits ((SEG16 ty b lm d)\<lparr>seg_s := 0\<rparr>))"
  "hw_base (seg_bits ((SEG16 ty b lm d)\<lparr>seg_s := 0\<rparr>)) = b" "hw_limit (seg_bits ((SEG16 ty b lm d)\<lparr>seg_s := 0\<rparr>)) = take_bit 20 lm"
  "hw_dpl (seg_bits ((SEG16 ty b lm d)\<lparr>seg_s := 0\<rparr>)) = d" "hw_type (seg_bits ((SEG16 ty b lm d)\<lparr>seg_s := 0\<rparr>)) = ty"
  by (simp_all only: seg_read) (simp_all add: SEG16_def base_join limit_bytes Let_def)

text \<open>
  C35. Segment descriptors mean what their macro says: for every type, base, limit and privilege level the
  eight bytes of \<open>SEG\<close>, read as the processor reads them, are a present 32-bit application
  segment with just that type, base and level, whose last valid offset is the limit rounded up to
  the end of its page. So the four segments of \<open>seginit\<close> cover the whole address space, code before data and
  kernel level before user level; the task descriptor of \<open>switchuvm\<close> is a system segment of
  104 bytes at the task state; and the null descriptor stays.
\<close>

theorem segment_table_read:
  assumes "length gdt = NSEGS"
  shows "(\<forall>ty b lm d. let w = seg_bits (SEG ty b lm d) in
        hw_present w \<and> hw_application w \<and> hw_32bit w \<and> hw_base w = b \<and> hw_limit w = lm OR 0xfff \<and> hw_dpl w = d \<and> hw_type w = ty)
    \<and> (let tab = set_tss ts (seginit gdt) in
        length tab = NSEGS \<and> tab ! 0 = gdt ! 0
        \<and> (\<forall>k \<in> {1, 2, 3, 4}. let w = seg_bits (tab ! k) in
             hw_present w \<and> hw_application w \<and> hw_32bit w \<and> hw_base w = 0 \<and> hw_limit w = 0xffffffff
             \<and> hw_dpl w = (if k \<le> 2 then 0 else 3) \<and> hw_type w = (if odd k then STA_X OR STA_R else STA_W))
        \<and> (let w = seg_bits (tab ! 5) in
             hw_present w \<and> \<not> hw_application w \<and> hw_base w = ts \<and> hw_limit w = 103 \<and> hw_dpl w = 0 \<and> hw_type w = STS_T32A))"
proof -
  have tab: "set_tss ts (seginit gdt) ! 1 = SEG (STA_X OR STA_R) 0 0xffffffff 0" "set_tss ts (seginit gdt) ! 2 = SEG STA_W 0 0xffffffff 0"
    "set_tss ts (seginit gdt) ! 3 = SEG (STA_X OR STA_R) 0 0xffffffff 3" "set_tss ts (seginit gdt) ! 4 = SEG STA_W 0 0xffffffff 3"
    "set_tss ts (seginit gdt) ! 5 = (SEG16 STS_T32A ts 103 0)\<lparr>seg_s := 0\<rparr>" "set_tss ts (seginit gdt) ! 0 = gdt ! 0"
    "length (set_tss ts (seginit gdt)) = NSEGS"
    using assms by (simp_all add: NSEGS_def set_tss_def seginit_def SEG_KCODE_def SEG_KDATA_def SEG_UCODE_def SEG_UDATA_def
        SEG_TSS_def DPL_USER_def)
  show ?thesis unfolding Let_def ball_simps tab SEG_read SEG16_read by (simp add: take_bit_eq_mod SEG_read SEG16_read)
qed

theorem segment_table_read_witness:
  "let tab = set_tss 0x80112000 (seginit (replicate 6 (SEG 0 0 0 0))) in
     map (\<lambda>k. hw_dpl (seg_bits (tab ! k))) [1, 2, 3, 4] = [0, 0, 3, 3] \<and> hw_base (seg_bits (tab ! 5)) = 0x80112000"
proof -
  have "length (replicate 6 (SEG 0 0 0 0)) = NSEGS" by (simp add: NSEGS_def)
  from segment_table_read [OF this, of "0x80112000"] show ?thesis by (simp add: Let_def)
qed

end
