(* ===== verification/Trap.thy ===== *)
theory Trap
  imports Sysproc Sysfile Segments
begin

section \<open>System call dispatch and traps (syscall.c, trap.c)\<close>

text \<open>
  The table of handlers, \<open>syscall\<close> and \<open>trap\<close>, on the boot processor. What the devices hold when
  an interrupt is taken is an argument: the readings of the keyboard controller, the characters
  waiting in the serial port and the faulting address in \<open>%cr2\<close>. The disk of the kernel state is the
  memory disk of memide.c, whose \<open>ideintr\<close> does nothing; the handler of ide.c is in the theory Ide.
\<close>

definition syscalls :: "('z kstate_scheme \<Rightarrow> ('z kstate_scheme, cint) outcome) option list" where
  "syscalls =
     [None, Some sys_fork, Some sys_exit, Some sys_wait, Some sys_pipe, Some sys_read, Some sys_kill,
      Some sys_exec, Some sys_fstat, Some sys_chdir, Some sys_dup, Some sys_getpid, Some sys_sbrk,
      Some sys_sleep, Some sys_uptime, Some sys_open, Some sys_write, Some sys_mknod, Some sys_unlink,
      Some sys_link, Some sys_mkdir, Some sys_close, Some sys_copy_file, Some sys_get_uncle_count,
      Some sys_get_process_lifetime, Some sys_set_date, Some sys_get_pid, Some sys_find_digital_root,
      Some sys_get_parent, Some sys_change_queue, Some sys_bjf_validation_process,
      Some sys_bjf_validation_system, Some sys_print_info, Some sys_print_lopck_que,
      Some sys_plock_test, Some sys_open_shm, Some sys_Aquire, Some sys_R, Some sys_C]"

definition set_eax :: "nat \<Rightarrow> cint \<Rightarrow> 'z pcore_scheme \<Rightarrow> 'z pcore_scheme" where
  "set_eax me v s = upd_proc me (\<lambda>p. p\<lparr>tf := (tf p)\<lparr>tf_eax := v\<rparr>\<rparr>) s"

definition syscall :: "'z kstate_scheme \<Rightarrow> ('z kstate_scheme, unit) outcome" where
  "syscall s =
     (case myproc s of
        None \<Rightarrow> Fault
      | Some me \<Rightarrow>
          let num = tf_eax (tf (ptable s ! me)) in
          (case if 0 <s num \<and> unat num < length (syscalls :: ('z kstate_scheme \<Rightarrow> _) option list)
                then syscalls ! unat num else None of
             Some h \<Rightarrow> bnd (h s) (\<lambda>r s. Ok () (set_eax me r s))
           | None \<Rightarrow>
               bnd (cprintf (str ''%d %s: unknown sys call %d'' @ [10])
                      [AInt (pid (ptable s ! me)), AStr (Some (takeWhile (\<lambda>c. c \<noteq> 0) (pname (ptable s ! me)))), AInt num] s)
                 (\<lambda>_ s. Ok () (set_eax me (- 1) s))))"

definition uartintr :: "byte list \<Rightarrow> 'z constate_scheme \<Rightarrow> ('z constate_scheme, unit) outcome" where
  "uartintr bytes s = consoleintr (if uart s then map uint bytes else []) s"

definition is_killed :: "'z pcore_scheme \<Rightarrow> bool" where
  "is_killed s = (case myproc s of None \<Rightarrow> False | Some me \<Rightarrow> killed (ptable s ! me))"

definition timer_tick :: "'z pcore_scheme \<Rightarrow> ('z pcore_scheme, unit) outcome" where
  "timer_tick s =
     bnd (lk_acquire LTicks s) (\<lambda>_ s.
     bnd (wakeup CTicks (s\<lparr>ticks := ticks s + 1\<rparr>)) (\<lambda>_ s.
     bnd (lk_release LTicks s) (\<lambda>_ s. Ok () (aging s))))"

text \<open>
  \<open>lapiceoi\<close> once \<open>lapicinit\<close> has mapped the local APIC: one write to its end-of-interrupt register.
  The kernel state counts these writes; the registers themselves are in the theory Apic.
\<close>

definition acknowledge :: "'z kstate_scheme \<Rightarrow> ('z kstate_scheme, unit) outcome" where
  "acknowledge s = Ok () (s\<lparr>eois := eois s + 1\<rparr>)"

text \<open>The \<open>ideintr\<close> of memide.c.\<close>

definition mem_ideintr :: "'z kstate_scheme \<Rightarrow> ('z kstate_scheme, unit) outcome" where
  "mem_ideintr s = Ok () s"

text \<open>The \<open>switch\<close> of \<open>trap\<close>.\<close>

definition trap_case ::
    "uint \<Rightarrow> (byte \<times> byte) list \<Rightarrow> byte list \<Rightarrow> trapframe \<Rightarrow> 'z kstate_scheme \<Rightarrow> ('z kstate_scheme, unit) outcome" where
  "trap_case cr2 ports bytes fr s =
     (let no = tf_trapno fr in
      if no = T_IRQ0 + IRQ_TIMER then bnd (timer_tick s) (\<lambda>_ s. acknowledge s)
      else if no = T_IRQ0 + IRQ_IDE then bnd (mem_ideintr s) (\<lambda>_ s. acknowledge s)
      else if no = T_IRQ0 + IRQ_IDE + 1 then Ok () s
      else if no = T_IRQ0 + IRQ_KBD then bnd (kbdintr ports s) (\<lambda>_ s. acknowledge s)
      else if no = T_IRQ0 + IRQ_COM1 then bnd (uartintr bytes s) (\<lambda>_ s. acknowledge s)
      else if no = T_IRQ0 + 7 \<or> no = T_IRQ0 + IRQ_SPURIOUS then
        bnd (cprintf (str ''cpu%d: spurious interrupt at %x:%x'' @ [10]) [AInt 0, AInt (ucast (tf_cs fr)), AInt (tf_eip fr)] s)
          (\<lambda>_ s. acknowledge s)
      else case (if tf_cs fr AND 3 = 0 then None else myproc s) of
             None \<Rightarrow>
               bnd (cprintf (str ''unexpected trap %d from cpu %d eip %x (cr2=0x%x)'' @ [10])
                      [AInt no, AInt 0, AInt (tf_eip fr), AInt cr2] s) (\<lambda>_ _. Panic ''trap'')
           | Some me \<Rightarrow>
               bnd (cprintf (str ''pid %d %s: trap %d err %d on cpu %d eip 0x%x addr 0x%x--kill proc'' @ [10])
                      [AInt (pid (ptable s ! me)), AStr (Some (takeWhile (\<lambda>c. c \<noteq> 0) (pname (ptable s ! me)))),
                       AInt no, AInt (tf_err fr), AInt 0, AInt (tf_eip fr), AInt cr2] s)
                 (\<lambda>_ s. Ok () (upd_proc me (\<lambda>p. p\<lparr>killed := True\<rparr>) s)))"

definition exit_if_killed :: "trapframe \<Rightarrow> 'z kstate_scheme \<Rightarrow> ('z kstate_scheme, unit) outcome" where
  "exit_if_killed fr s = (if is_killed s \<and> tf_cs fr AND 3 = DPL_USER then exit s else Ok () s)"

definition trap ::
    "uint \<Rightarrow> (byte \<times> byte) list \<Rightarrow> byte list \<Rightarrow> trapframe \<Rightarrow> 'z kstate_scheme \<Rightarrow> ('z kstate_scheme, unit) outcome" where
  "trap cr2 ports bytes fr s =
     (if tf_trapno fr = T_SYSCALL then
        (case myproc s of
           None \<Rightarrow> Fault
         | Some me \<Rightarrow>
             bnd (if killed (ptable s ! me) then exit s else Ok () s) (\<lambda>_ s.
             bnd (syscall (upd_proc me (\<lambda>p. p\<lparr>tf := fr\<rparr>) s)) (\<lambda>_ s.
               if is_killed s then exit s else Ok () s)))
      else
        bnd (trap_case cr2 ports bytes fr s) (\<lambda>_ s.
        bnd (exit_if_killed fr s) (\<lambda>_ s.
        bnd (case myproc s of
               None \<Rightarrow> Ok () s
             | Some me \<Rightarrow> if pstate (ptable s ! me) = RUNNING \<and> tf_trapno fr = T_IRQ0 + IRQ_TIMER
                         then yield s else Ok () s) (\<lambda>_ s.
          exit_if_killed fr s))))"

text \<open>The end of \<open>trap\<close> after the clock tick made the process yield and it runs again.\<close>

definition trap_resume :: "trapframe \<Rightarrow> 'z kstate_scheme \<Rightarrow> ('z kstate_scheme, unit) outcome" where
  "trap_resume fr s = bnd (yield_resume s) (\<lambda>_ s. exit_if_killed fr s)"

end
