(* ===== verification/Cache.thy ===== *)
theory Cache
  imports Bio
begin

section \<open>The buffer cache as a view of the disk\<close>

text \<open>
  What the buffer cache promises its clients: one buffer per block, buffers that agree with the
  disk unless they are marked dirty, and dirty buffers that are never recycled. A client then sees
  the cache as a map from blocks to contents, \<open>view\<close>, on top of the disk. The laws are for a
  process that works alone on the cache, as a commit and a recovery do.
\<close>

subsection \<open>Sleep locks of an uncontended buffer\<close>

lemma acquiresleep_free:
  assumes "held s = {}" "cpu_proc s = Some p" "sl_locked (slocks s i) = 0"
  shows "acquiresleep i s =
    Ok () (s\<lparr>slocks := (slocks s)(i := (slocks s i)\<lparr>sl_locked := 1, sl_pid := pid (ptable s ! p)\<rparr>)\<rparr>)"
  using assms by (simp add: acquiresleep_def acquiresleep_loop_def myproc_def upd_sleep_def)

lemma holdingsleep_mine:
  assumes "held s = {}" "cpu_proc s = Some p" "sl_locked (slocks s i) \<noteq> 0"
    "sl_pid (slocks s i) = pid (ptable s ! p)"
  shows "holdingsleep i s = Ok True s"
  using assms by (simp add: holdingsleep_def myproc_def)

lemma releasesleep_mine:
  assumes "held s = {}"
  shows "releasesleep i s = Ok () (s\<lparr>ptable := map (wake_one (Some (CSleep i))) (ptable s),
    slocks := (slocks s)(i := (slocks s i)\<lparr>sl_locked := 0, sl_pid := 0\<rparr>)\<rparr>)"
  using assms by (simp add: releasesleep_def wakeup_eq upd_sleep_def)

lemma pid_wake_one [simp]: "pid (wake_one ch q) = pid q"
  by (simp add: wake_one_def)

subsection \<open>The invariant\<close>

definition caches :: "uint \<Rightarrow> buf \<Rightarrow> bool" where
  "caches bn b \<longleftrightarrow> bdev b = 1 \<and> bblockno b = bn"

definition dirty :: "'z bstate_scheme \<Rightarrow> nat set" where
  "dirty s = {i. i < length (bufs s) \<and> bflags (bufs s ! i) = 6}"

definition dirty_blocks :: "'z bstate_scheme \<Rightarrow> uint set" where
  "dirty_blocks s = (\<lambda>i. bblockno (bufs s ! i)) ` dirty s"

definition view :: "'z bstate_scheme \<Rightarrow> uint \<Rightarrow> byte list" where
  "view s bn =
     (case find_idx (\<lambda>b. caches bn b \<and> bflags b = 6) (bufs s) of
        Some i \<Rightarrow> bdata (bufs s ! i) | None \<Rightarrow> disk s (unat bn))"

definition buf_ok :: "'z bstate_scheme \<Rightarrow> buf \<Rightarrow> bool" where
  "buf_ok s b \<longleftrightarrow> bflags b \<in> {0, 2, 6} \<and> (bflags b = 6 \<longrightarrow> bdev b = 1)
     \<and> (bdev b = 1 \<and> bflags b = 2 \<longrightarrow> bdata b = disk s (unat (bblockno b)))"

definition lone :: "'z pcore_scheme \<Rightarrow> bool" where
  "lone s \<longleftrightarrow> held s = {} \<and> cpu_proc s \<noteq> None \<and> the (cpu_proc s) < length (ptable s)"

definition one_each :: "buf list \<Rightarrow> bool" where
  "one_each bs \<longleftrightarrow> (\<forall>i < length bs. \<forall>j < length bs. \<forall>bn. caches bn (bs ! i) \<longrightarrow> caches bn (bs ! j) \<longrightarrow> i = j)"

definition lock_ok :: "nat set \<Rightarrow> 'z bstate_scheme \<Rightarrow> nat \<Rightarrow> bool" where
  "lock_ok H s i \<longleftrightarrow>
     (if i \<in> H then brefcnt (bufs s ! i) = 1 \<and> bflags (bufs s ! i) \<noteq> 0 \<and> sl_locked (slocks s (SBuf i)) \<noteq> 0
                   \<and> sl_pid (slocks s (SBuf i)) = pid (ptable s ! the (cpu_proc s))
      else brefcnt (bufs s ! i) = 0 \<and> sl_locked (slocks s (SBuf i)) = 0)"

text \<open>The process holds exactly the buffers in \<open>H\<close>, and nobody else holds any.\<close>

definition cache_ok :: "nat set \<Rightarrow> 'z bstate_scheme \<Rightarrow> bool" where
  "cache_ok H s \<longleftrightarrow> lone s \<and> distinct (lru s) \<and> set (lru s) = {..<length (bufs s)} \<and> H \<subseteq> {..<length (bufs s)}
     \<and> one_each (bufs s) \<and> (\<forall>i < length (bufs s). buf_ok s (bufs s ! i) \<and> lock_ok H s i)"

text \<open>What the operations may touch.\<close>

definition cframe :: "'z bstate_scheme \<Rightarrow> 'z bstate_scheme \<Rightarrow> bool" where
  "cframe s t \<longleftrightarrow> (\<exists>P L B R D W. t = s\<lparr>ptable := P, slocks := L, bufs := B, lru := R, disk := D, dwrites := W\<rparr>
     \<and> map pid P = map pid (ptable s) \<and> length B = length (bufs s))"

lemma cframe_refl: "cframe s s"
  unfolding cframe_def by (rule exI [of _ "ptable s"], rule exI [of _ "slocks s"], rule exI [of _ "bufs s"],
    rule exI [of _ "lru s"], rule exI [of _ "disk s"], rule exI [of _ "dwrites s"]) simp

lemma cframe_trans:
  assumes "cframe s t" "cframe t u"
  shows "cframe s u"
proof -
  obtain P L B R D W where t: "t = s\<lparr>ptable := P, slocks := L, bufs := B, lru := R, disk := D, dwrites := W\<rparr>"
    and "map pid P = map pid (ptable s)" "length B = length (bufs s)"
    using assms(1) unfolding cframe_def by blast
  moreover obtain P' L' B' R' D' W' where
    u: "u = t\<lparr>ptable := P', slocks := L', bufs := B', lru := R', disk := D', dwrites := W'\<rparr>"
    and "map pid P' = map pid (ptable t)" "length B' = length (bufs t)"
    using assms(2) unfolding cframe_def by blast
  moreover have "u = s\<lparr>ptable := P', slocks := L', bufs := B', lru := R', disk := D', dwrites := W'\<rparr>"
    by (simp add: t u)
  ultimately show ?thesis unfolding cframe_def by (intro exI conjI) (assumption, simp_all)
qed

lemma cframe_simps:
  assumes "cframe s t"
  shows "held t = held s" "cpu_proc t = cpu_proc s" "disksize t = disksize s"
    "length (bufs t) = length (bufs s)" "map pid (ptable t) = map pid (ptable s)"
    "length (ptable t) = length (ptable s)"
  using assms by (auto simp: cframe_def dest: map_eq_imp_length_eq)

subsection \<open>The view\<close>

lemma cache_okD:
  assumes "cache_ok H s"
  shows "lone s" "one_each (bufs s)" "i < length (bufs s) \<Longrightarrow> buf_ok s (bufs s ! i)"
    "i < length (bufs s) \<Longrightarrow> lock_ok H s i" "set (lru s) = {..<length (bufs s)}" "distinct (lru s)"
    "i \<in> H \<Longrightarrow> i < length (bufs s)"
  using assms by (auto simp: cache_ok_def)

lemma one_eachD:
  "one_each bs \<Longrightarrow> i < length bs \<Longrightarrow> j < length bs \<Longrightarrow> caches bn (bs ! i) \<Longrightarrow> caches bn (bs ! j) \<Longrightarrow> i = j"
  by (simp add: one_each_def)

lemma dirty_caches:
  "cache_ok H s \<Longrightarrow> i \<in> dirty s \<Longrightarrow> i < length (bufs s) \<and> bflags (bufs s ! i) = 6 \<and> caches (bblockno (bufs s ! i)) (bufs s ! i)"
  using cache_okD(3) [of H s i] by (auto simp: dirty_def caches_def buf_ok_def)

lemma dirty_blocksE:
  assumes "cache_ok H s" "bn \<in> dirty_blocks s"
  obtains j where "j \<in> dirty s" "j < length (bufs s)" "bflags (bufs s ! j) = 6" "caches bn (bufs s ! j)"
proof -
  from assms(2) obtain j where j: "j \<in> dirty s" "bn = bblockno (bufs s ! j)" by (auto simp: dirty_blocks_def)
  with dirty_caches [OF assms(1) j(1)] show thesis by (intro that [of j]) simp_all
qed

lemma clean_block:
  assumes "cache_ok H s" "i < length (bufs s)" "caches bn (bufs s ! i)" "bflags (bufs s ! i) \<noteq> 6"
  shows "bn \<notin> dirty_blocks s"
proof
  assume "bn \<in> dirty_blocks s"
  then obtain j where j: "j < length (bufs s)" "bflags (bufs s ! j) = 6" "caches bn (bufs s ! j)"
    by (rule dirty_blocksE [OF assms(1)])
  have "j = i" by (rule one_eachD [OF cache_okD(2) [OF assms(1)] j(1) assms(2) j(3) assms(3)])
  with j(2) assms(4) show False by simp
qed

lemma view_dirty:
  assumes "cache_ok H s" "i \<in> dirty s"
  shows "view s (bblockno (bufs s ! i)) = bdata (bufs s ! i)"
proof -
  let ?P = "\<lambda>b. caches (bblockno (bufs s ! i)) b \<and> bflags b = 6"
  have i: "i < length (bufs s)" "?P (bufs s ! i)" using dirty_caches [OF assms] by auto
  from find_idx_ex [of i "bufs s" ?P, OF i] obtain j where j: "find_idx ?P (bufs s) = Some j" by (elim exE conjE)
  from find_idx_SomeD [OF j] have k: "j < length (bufs s)" "?P (bufs s ! j)" by simp_all
  have "j = i"
    by (rule one_eachD [OF cache_okD(2) [OF assms(1)] k(1) i(1) conjunct1 [OF k(2)] conjunct1 [OF i(2)]])
  with j show ?thesis by (simp add: view_def)
qed

lemma view_clean:
  assumes "x \<notin> dirty_blocks s"
  shows "view s x = disk s (unat x)"
proof -
  have "find_idx (\<lambda>b. caches x b \<and> bflags b = 6) (bufs s) = None"
    using assms by (auto simp: find_idx_None dirty_blocks_def dirty_def caches_def in_set_conv_nth)
  then show ?thesis by (simp add: view_def)
qed

lemma view_cached:
  assumes "cache_ok H s" "i < length (bufs s)" "caches x (bufs s ! i)" "bflags (bufs s ! i) \<noteq> 0"
  shows "view s x = bdata (bufs s ! i)"
proof (cases "bflags (bufs s ! i) = 6")
  case True
  then have "i \<in> dirty s" using assms by (simp add: dirty_def)
  from view_dirty [OF assms(1) this] assms(3) show ?thesis by (simp add: caches_def)
next
  case False
  have "x \<notin> dirty_blocks s"
  proof
    assume "x \<in> dirty_blocks s"
    then obtain j where "j \<in> dirty s" "bblockno (bufs s ! j) = x" by (auto simp: dirty_blocks_def)
    with dirty_caches [OF assms(1), of j] one_eachD [OF cache_okD(2) [OF assms(1)], of i j x] assms False
    show False by auto
  qed
  moreover have "bdata (bufs s ! i) = disk s (unat x)"
    using cache_okD(3) [OF assms(1,2)] assms(3,4) False by (auto simp: buf_ok_def caches_def)
  ultimately show ?thesis by (simp add: view_clean)
qed

lemma view_cong:
  assumes "cache_ok H s" "cache_ok K t" "dirty t = dirty s" "disk t = disk s"
    and same: "\<And>i. i \<in> dirty s \<Longrightarrow> bblockno (bufs t ! i) = bblockno (bufs s ! i) \<and> bdata (bufs t ! i) = bdata (bufs s ! i)"
  shows "view t = view s" "dirty_blocks t = dirty_blocks s"
proof -
  show b: "dirty_blocks t = dirty_blocks s"
    unfolding dirty_blocks_def assms(3) using same by (intro image_cong) auto
  show "view t = view s"
  proof
    fix x
    show "view t x = view s x"
    proof (cases "x \<in> dirty_blocks s")
      case True
      then obtain i where i: "i \<in> dirty s" "x = bblockno (bufs s ! i)" by (auto simp: dirty_blocks_def)
      with view_dirty [OF assms(1) i(1)] view_dirty [OF assms(2), of i] same [OF i(1)] assms(3)
      show ?thesis by simp
    next
      case False
      with b assms(4) show ?thesis by (simp add: view_clean)
    qed
  qed
qed

subsection \<open>Reading a block\<close>

definition bread_post :: "nat set \<Rightarrow> uint \<Rightarrow> 'z bstate_scheme \<Rightarrow> nat \<Rightarrow> 'z bstate_scheme \<Rightarrow> bool" where
  "bread_post H bn s i t \<longleftrightarrow> cframe s t \<and> cache_ok (insert i H) t \<and> i \<notin> H \<and> caches bn (bufs t ! i)
     \<and> bdata (bufs t ! i) = view s bn \<and> view t = view s \<and> disk t = disk s \<and> dwrites t = dwrites s
     \<and> dirty t = dirty s \<and> dirty_blocks t = dirty_blocks s \<and> (\<forall>j \<in> H. bufs t ! j = bufs s ! j)"

text \<open>Buffer \<open>i\<close> taken as \<open>b\<close>, with its lock.\<close>

definition grab :: "nat \<Rightarrow> buf \<Rightarrow> 'z bstate_scheme \<Rightarrow> 'z bstate_scheme" where
  "grab i b s = s\<lparr>slocks := (slocks s)(SBuf i := (slocks s (SBuf i))\<lparr>sl_locked := 1,
     sl_pid := pid (ptable s ! the (cpu_proc s))\<rparr>), bufs := (bufs s)[i := b]\<rparr>"

lemma grab_simps [simp]:
  "held (grab i b s) = held s" "cpu_proc (grab i b s) = cpu_proc s" "ptable (grab i b s) = ptable s"
  "bufs (grab i b s) = (bufs s)[i := b]" "lru (grab i b s) = lru s" "disk (grab i b s) = disk s"
  "dwrites (grab i b s) = dwrites s" "disksize (grab i b s) = disksize s"
  by (simp_all add: grab_def)

lemma cframe_grab: "cframe s (grab i b s)"
proof -
  have "grab i b s = s\<lparr>ptable := ptable s, slocks := slocks (grab i b s), bufs := (bufs s)[i := b], lru := lru s,
      disk := disk s, dwrites := dwrites s\<rparr>"
    by (simp add: grab_def)
  then show ?thesis unfolding cframe_def by (intro exI conjI) (assumption, simp_all)
qed

lemma bread_post_grab:
  assumes ok: "cache_ok H s" and i: "i < length (bufs s)" "i \<notin> H"
    and b: "caches bn b" "brefcnt b = 1" "bflags b = 2 \<or> bflags b = 6" "bdata b = view s bn"
    and alone: "\<And>j. j < length (bufs s) \<Longrightarrow> caches bn (bufs s ! j) \<Longrightarrow> j = i"
    and clean: "bflags b = 2 \<Longrightarrow> bflags (bufs s ! i) \<noteq> 6 \<and> bn \<notin> dirty_blocks s"
    and kept: "bflags b = 6 \<Longrightarrow> bflags (bufs s ! i) = 6 \<and> caches bn (bufs s ! i)"
  shows "bread_post H bn s i (grab i b s)"
proof -
  let ?t = "grab i b s"
  have d: "dirty ?t = dirty s" using i b clean kept by (auto simp: dirty_def nth_list_update_if split: if_splits)
  have one: "one_each (bufs ?t)"
    unfolding one_each_def
  proof (intro allI impI)
    fix j k x assume a: "j < length (bufs ?t)" "k < length (bufs ?t)" "caches x (bufs ?t ! j)" "caches x (bufs ?t ! k)"
    have x: "x = bn" if "j = i \<or> k = i" using that a i b(1) by (auto simp: caches_def)
    show "j = k"
    proof (cases "j = i \<or> k = i")
      case True
      with x have "x = bn" by simp
      with a alone [of j] alone [of k] show ?thesis by (auto simp: nth_list_update_if split: if_splits)
    next
      case False
      with a one_eachD [OF cache_okD(2) [OF ok], of j k x] show ?thesis by simp
    qed
  qed
  have bok: "buf_ok ?t (bufs ?t ! j)" if "j < length (bufs ?t)" for j
  proof (cases "j = i")
    case True
    have "bdata b = disk s (unat bn)" if "bflags b = 2" using clean [OF that] b(4) by (simp add: view_clean)
    with True i b(1,3) show ?thesis by (auto simp: buf_ok_def caches_def)
  next
    case False
    with that cache_okD(3) [OF ok, of j] show ?thesis by (simp add: buf_ok_def)
  qed
  have lok: "lock_ok (insert i H) ?t j" if "j < length (bufs ?t)" for j
  proof (cases "j = i")
    case True
    with i b show ?thesis by (auto simp: lock_ok_def grab_def)
  next
    case False
    with that cache_okD(4) [OF ok, of j] show ?thesis by (simp add: lock_ok_def grab_def)
  qed
  have okt: "cache_ok (insert i H) ?t"
    using ok i one bok lok by (simp add: cache_ok_def lone_def)
  have same: "bblockno (bufs ?t ! j) = bblockno (bufs s ! j) \<and> bdata (bufs ?t ! j) = bdata (bufs s ! j)"
    if "j \<in> dirty s" for j
  proof (cases "j = i")
    case True
    then have f: "bflags (bufs s ! i) = 6" using that by (simp add: dirty_def)
    with clean b(3) have "bflags b = 6" by auto
    from kept [OF this] have "caches bn (bufs s ! i)" by simp
    with True i b view_cached [OF ok i(1) this] f show ?thesis by (simp add: caches_def)
  qed (simp add: nth_list_update_if)
  have "bufs ?t ! j = bufs s ! j" if "j \<in> H" for j using that i by (auto simp: nth_list_update_if)
  with view_cong [OF ok okt d _ same] okt d cframe_grab i b show ?thesis
    by (simp add: bread_post_def)
qed

lemma loneD:
  assumes "lone s"
  shows "held s = {}" "cpu_proc s = Some (the (cpu_proc s))" "the (cpu_proc s) < length (ptable s)"
  using assms by (auto simp: lone_def)

lemma lone_grab [simp]: "lone (grab i b s) = lone s"
  by (simp add: lone_def)

lemma take_buf:
  assumes "lone s" "sl_locked (slocks s (SBuf i)) = 0"
  shows "bnd (lk_release LBcache (upd_buf i f (s\<lparr>held := {LBcache}\<rparr>)))
      (\<lambda>_ s. bnd (acquiresleep (SBuf i) s) (\<lambda>_ s. Ok i s)) = Ok i (grab i (f (bufs s ! i)) s)"
proof -
  have "lk_release LBcache (upd_buf i f (s\<lparr>held := {LBcache}\<rparr>)) = Ok () (upd_buf i f s)"
    using loneD(1) [OF assms(1)] by (simp add: upd_buf_def)
  moreover have "acquiresleep (SBuf i) (upd_buf i f s) = Ok () (grab i (f (bufs s ! i)) s)"
    using acquiresleep_free [of "upd_buf i f s" "the (cpu_proc s)" "SBuf i"] loneD [OF assms(1)] assms(2)
    by (simp add: upd_buf_def grab_def)
  ultimately show ?thesis by simp
qed

lemma find_SomeD: "find P xs = Some i \<Longrightarrow> i \<in> set xs \<and> P i"
  by (induction xs) (auto split: if_splits)

lemma find_ex: "i \<in> set xs \<Longrightarrow> P i \<Longrightarrow> \<exists>j. find P xs = Some j"
  by (induction xs) auto

lemma find_unique:
  assumes "i \<in> set xs" "P i" "\<And>j. j \<in> set xs \<Longrightarrow> P j \<Longrightarrow> j = i"
  shows "find P xs = Some i"
proof -
  from find_ex [of i xs P, OF assms(1,2)] obtain j where j: "find P xs = Some j" ..
  from find_SomeD [OF j] assms(3) [of j] have "j = i" by blast
  with j show ?thesis by (simp only:)
qed

lemma find_none: "(\<And>j. j \<in> set xs \<Longrightarrow> \<not> P j) \<Longrightarrow> find P xs = None"
  by (induction xs) auto

lemma bget_cached:
  assumes ok: "cache_ok H s" and i: "i < length (bufs s)" "i \<notin> H" "caches bn (bufs s ! i)"
  shows "bget 1 bn s = Ok i (grab i ((bufs s ! i)\<lparr>brefcnt := 1\<rparr>) s)"
proof -
  have l: "lone s" and lk: "brefcnt (bufs s ! i) = 0" "sl_locked (slocks s (SBuf i)) = 0"
    using cache_okD(1,4) [OF ok] i by (auto simp: lock_ok_def)
  have f: "find (\<lambda>i. bdev (bufs s ! i) = 1 \<and> bblockno (bufs s ! i) = bn) (lru s) = Some i"
    by (rule find_unique) (use i one_eachD [OF cache_okD(2) [OF ok]] cache_okD(5) [OF ok] in \<open>auto simp: caches_def\<close>)
  show ?thesis
    using take_buf [OF l lk(2), of "\<lambda>b. b\<lparr>brefcnt := brefcnt b + 1\<rparr>"] loneD(1) [OF l] f lk(1)
    by (simp add: bget_def del: bnd.simps) simp
qed

lemma bget_recycle:
  assumes ok: "cache_ok H s" and none: "\<And>j. j < length (bufs s) \<Longrightarrow> \<not> caches bn (bufs s ! j)"
    and room: "\<exists>i < length (bufs s). i \<notin> H \<and> bflags (bufs s ! i) \<noteq> 6"
  obtains i where "i < length (bufs s)" "i \<notin> H" "bflags (bufs s ! i) \<noteq> 6"
    "bget 1 bn s = Ok i (grab i ((bufs s ! i)\<lparr>bdev := 1, bblockno := bn, bflags := 0, brefcnt := 1\<rparr>) s)"
proof -
  let ?P = "\<lambda>i. brefcnt (bufs s ! i) = 0 \<and> bflags (bufs s ! i) AND B_DIRTY = 0"
  have l: "lone s" using cache_okD(1) [OF ok] .
  have f1: "find (\<lambda>i. bdev (bufs s ! i) = 1 \<and> bblockno (bufs s ! i) = bn) (lru s) = None"
    by (rule find_none) (use none cache_okD(5) [OF ok] in \<open>simp add: caches_def\<close>)
  obtain k where k: "k < length (bufs s)" "k \<notin> H" "bflags (bufs s ! k) \<noteq> 6" using room by blast
  have kf: "bflags (bufs s ! k) = 0 \<or> bflags (bufs s ! k) = 2"
    using cache_okD(3) [OF ok k(1)] k(3) unfolding buf_ok_def by blast
  have "k \<in> set (rev (lru s))" using cache_okD(5) [OF ok] k(1) by simp
  moreover have "?P k" using cache_okD(4) [OF ok k(1)] k(2) kf by (elim disjE) (simp_all add: lock_ok_def B_DIRTY_def)
  ultimately have "k \<in> set (rev (lru s))" "?P k" .
  from find_ex [of k "rev (lru s)" ?P, OF this] obtain i where f2: "find ?P (rev (lru s)) = Some i" ..
  from find_SomeD [OF f2] have i: "i < length (bufs s)" "brefcnt (bufs s ! i) = 0" "bflags (bufs s ! i) AND 4 = 0"
    using cache_okD(5) [OF ok] by (auto simp: B_DIRTY_def)
  have n: "i \<notin> H" and lk: "sl_locked (slocks s (SBuf i)) = 0"
    using cache_okD(4) [OF ok i(1)] i(2) by (auto simp: lock_ok_def split: if_splits)
  have c: "bflags (bufs s ! i) \<noteq> 6" using i(3) by auto
  have "bget 1 bn s = Ok i (grab i ((bufs s ! i)\<lparr>bdev := 1, bblockno := bn, bflags := 0, brefcnt := 1\<rparr>) s)"
    using take_buf [OF l lk, of "\<lambda>b. b\<lparr>bdev := 1, bblockno := bn, bflags := 0, brefcnt := 1\<rparr>"] loneD(1) [OF l] f1 f2
    by (simp add: bget_def del: bnd.simps) simp
  with i(1) n c show thesis by (rule that)
qed

lemma iderw_read:
  assumes "lone s" "i < length (bufs s)" "caches bn b" "bflags b = 0" "bn < disksize s"
  shows "iderw i (grab i b s) = Ok () (grab i (b\<lparr>bdata := disk s (unat bn), bflags := 2\<rparr>) s)"
proof -
  have "holdingsleep (SBuf i) (grab i b s) = Ok True (grab i b s)"
    using loneD [OF assms(1)] by (intro holdingsleep_mine [of _ "the (cpu_proc s)"]) (simp_all add: grab_def)
  moreover have "upd_buf i (\<lambda>b. b\<lparr>bdata := disk s (unat bn), bflags := bflags b OR 2\<rparr>) (grab i b s)
      = grab i (b\<lparr>bdata := disk s (unat bn), bflags := 2\<rparr>) s"
    using assms by (simp add: upd_buf_def grab_def)
  ultimately show ?thesis using assms
    by (simp add: iderw_def caches_def B_VALID_def B_DIRTY_def Let_def linorder_not_le)
qed

lemma bread_ok:
  assumes ok: "cache_ok H s" and bn: "bn < disksize s" and fresh: "\<And>j. j \<in> H \<Longrightarrow> \<not> caches bn (bufs s ! j)"
    and room: "bn \<in> dirty_blocks s \<or> (\<exists>i < length (bufs s). i \<notin> H \<and> bflags (bufs s ! i) \<noteq> 6)"
  obtains i t where "bread 1 bn s = Ok i t" "bread_post H bn s i t"
proof (cases "\<exists>i < length (bufs s). caches bn (bufs s ! i)")
  case True
  then obtain i where i: "i < length (bufs s)" "caches bn (bufs s ! i)" by blast
  then have n: "i \<notin> H" using fresh by blast
  have alone: "j = i" if "j < length (bufs s)" "caches bn (bufs s ! j)" for j
    using one_eachD [OF cache_okD(2) [OF ok]] that i by blast
  let ?b = "(bufs s ! i)\<lparr>brefcnt := 1\<rparr>"
  note g = bget_cached [OF ok i(1) n i(2)]
  have bok: "buf_ok s (bufs s ! i)" using cache_okD(3) [OF ok i(1)] .
  show thesis
  proof (cases "bflags (bufs s ! i) = 0")
    case True
    then have nd: "bn \<notin> dirty_blocks s"
      using clean_block [OF ok i] by simp
    have "bread 1 bn s = Ok i (grab i (?b\<lparr>bdata := disk s (unat bn), bflags := 2\<rparr>) s)"
      using iderw_read [OF cache_okD(1) [OF ok] i(1), of bn ?b] g i True bn
      by (simp add: bread_def caches_def)
    moreover have "bread_post H bn s i (grab i (?b\<lparr>bdata := disk s (unat bn), bflags := 2\<rparr>) s)"
      by (rule bread_post_grab [OF ok i(1) n _ _ _ _ alone])
        (use i(2) True nd view_clean [OF nd] in \<open>simp_all add: caches_def\<close>)
    ultimately show thesis by (rule that)
  next
    case False
    then have f: "bflags (bufs s ! i) = 2 \<or> bflags (bufs s ! i) = 6" using bok by (auto simp: buf_ok_def)
    have "bread 1 bn s = Ok i (grab i ?b s)"
      using g i f by (auto simp: bread_def B_VALID_def)
    moreover have "bread_post H bn s i (grab i ?b s)"
    proof (rule bread_post_grab [OF ok i(1) n _ _ _ _ alone])
      show "bdata ?b = view s bn" using view_cached [OF ok i False] by simp
      show "bflags (bufs s ! i) \<noteq> 6 \<and> bn \<notin> dirty_blocks s" if "bflags ?b = 2"
        using that clean_block [OF ok i] by simp
    qed (use i(2) f in \<open>simp_all add: caches_def\<close>)
    ultimately show thesis by (rule that)
  qed
next
  case False
  then have none: "\<And>j. j < length (bufs s) \<Longrightarrow> \<not> caches bn (bufs s ! j)" by blast
  have nd: "bn \<notin> dirty_blocks s" using none by (blast elim: dirty_blocksE [OF ok])
  with room have r: "\<exists>i < length (bufs s). i \<notin> H \<and> bflags (bufs s ! i) \<noteq> 6" by simp
  obtain i where i: "i < length (bufs s)" "i \<notin> H" "bflags (bufs s ! i) \<noteq> 6"
    and g: "bget 1 bn s = Ok i (grab i ((bufs s ! i)\<lparr>bdev := 1, bblockno := bn, bflags := 0, brefcnt := 1\<rparr>) s)"
    by (rule bget_recycle [OF ok none r])
  let ?b = "(bufs s ! i)\<lparr>bdev := 1, bblockno := bn, bflags := 0, brefcnt := 1\<rparr>"
  have "bread 1 bn s = Ok i (grab i (?b\<lparr>bdata := disk s (unat bn), bflags := 2\<rparr>) s)"
    using iderw_read [OF cache_okD(1) [OF ok] i(1), of bn ?b] g i bn
    by (simp add: bread_def caches_def)
  moreover have "bread_post H bn s i (grab i (?b\<lparr>bdata := disk s (unat bn), bflags := 2\<rparr>) s)"
    by (rule bread_post_grab [OF ok i(1,2)]) (use i none nd view_clean [OF nd] in \<open>auto simp: caches_def\<close>)
  ultimately show thesis by (rule that)
qed

subsection \<open>Writing and releasing a block\<close>

text \<open>Filling a held buffer with \<open>d\<close> and writing it through to the disk.\<close>

definition bwrite_post :: "nat set \<Rightarrow> uint \<Rightarrow> byte list \<Rightarrow> nat \<Rightarrow> 'z bstate_scheme \<Rightarrow> 'z bstate_scheme \<Rightarrow> bool" where
  "bwrite_post H bn d i s t \<longleftrightarrow> cframe s t \<and> cache_ok H t \<and> disk t = (disk s)(unat bn := d)
     \<and> dwrites t = dwrites s @ [(unat bn, d)] \<and> view t = (view s)(bn := d) \<and> dirty t = dirty s - {i}
     \<and> dirty_blocks t = dirty_blocks s - {bn} \<and> (\<forall>j \<in> H. j \<noteq> i \<longrightarrow> bufs t ! j = bufs s ! j)
     \<and> caches bn (bufs t ! i)"

lemma holdingsleep_held:
  assumes "cache_ok H s" "i \<in> H" "held t = held s" "cpu_proc t = cpu_proc s" "ptable t = ptable s" "slocks t = slocks s"
  shows "holdingsleep (SBuf i) t = Ok True t"
proof -
  have "i < length (bufs s)" using cache_okD(7) [OF assms(1,2)] .
  from cache_okD(4) [OF assms(1) this] assms(2) loneD [OF cache_okD(1) [OF assms(1)]] show ?thesis
    by (intro holdingsleep_mine [of _ "the (cpu_proc s)"]) (simp_all add: lock_ok_def assms(3-6))
qed

definition written :: "nat \<Rightarrow> uint \<Rightarrow> byte list \<Rightarrow> 'z bstate_scheme \<Rightarrow> 'z bstate_scheme" where
  "written i bn d s = s\<lparr>bufs := (bufs s)[i := (bufs s ! i)\<lparr>bdata := d, bflags := 2\<rparr>],
     disk := (disk s)(unat bn := d), dwrites := dwrites s @ [(unat bn, d)]\<rparr>"

lemma bwrite_eq:
  assumes "cache_ok H s" "i \<in> H" "caches bn (bufs s ! i)" "bn < disksize s"
  shows "bwrite i (upd_buf i (\<lambda>b. b\<lparr>bdata := d\<rparr>) s) = Ok () (written i bn d s)"
proof -
  have i: "i < length (bufs s)" using cache_okD(7) [OF assms(1,2)] .
  have f: "bflags (bufs s ! i) = 2 \<or> bflags (bufs s ! i) = 6"
    using cache_okD(3,4) [OF assms(1) i] assms(2) by (auto simp: buf_ok_def lock_ok_def)
  let ?s1 = "upd_buf i (\<lambda>b. b\<lparr>bdata := d\<rparr>) s"
  have h1: "holdingsleep (SBuf i) ?s1 = Ok True ?s1"
    by (rule holdingsleep_held [OF assms(1,2)]) (simp_all add: upd_buf_def)
  let ?s2 = "upd_buf i (\<lambda>b. b\<lparr>bflags := bflags b OR B_DIRTY\<rparr>) ?s1"
  have h2: "holdingsleep (SBuf i) ?s2 = Ok True ?s2" by (rule holdingsleep_held [OF assms(1,2)]) (simp_all add: upd_buf_def)
  have s2: "?s2 = s\<lparr>bufs := (bufs s)[i := (bufs s ! i)\<lparr>bdata := d, bflags := 6\<rparr>]\<rparr>"
    using f i by (auto simp: upd_buf_def B_DIRTY_def)
  have "iderw i ?s2 = Ok () (written i bn d s)"
    using h2 i assms(3,4) unfolding iderw_def s2
    by (simp add: caches_def B_VALID_def B_DIRTY_def Let_def upd_buf_def written_def linorder_not_le)
  then show ?thesis using h1 by (simp add: bwrite_def)
qed

lemma bwrite_ok:
  assumes ok: "cache_ok H s" and i: "i \<in> H" and c: "caches bn (bufs s ! i)" and bn: "bn < disksize s"
  obtains t where "bwrite i (upd_buf i (\<lambda>b. b\<lparr>bdata := d\<rparr>) s) = Ok () t" "bwrite_post H bn d i s t"
proof -
  let ?t = "written i bn d s"
  have il: "i < length (bufs s)" using cache_okD(7) [OF ok i] .
  have bt: "bufs ?t ! j = (if j = i then (bufs s ! i)\<lparr>bdata := d, bflags := 2\<rparr> else bufs s ! j)" for j
    using il by (simp add: written_def nth_list_update_if)
  have len: "length (bufs ?t) = length (bufs s)" by (simp add: written_def)
  have same: "held ?t = held s" "cpu_proc ?t = cpu_proc s" "ptable ?t = ptable s" "lru ?t = lru s" "slocks ?t = slocks s"
    "disk ?t = (disk s)(unat bn := d)" "dwrites ?t = dwrites s @ [(unat bn, d)]"
    by (simp_all add: written_def)
  have cs: "caches x (bufs ?t ! j) = caches x (bufs s ! j)" for x j by (simp add: bt caches_def)
  have bok: "buf_ok ?t (bufs ?t ! j)" if "j < length (bufs s)" for j
  proof (cases "j = i")
    case True
    then show ?thesis using c by (simp add: bt buf_ok_def same caches_def)
  next
    case False
    have "bblockno (bufs s ! j) \<noteq> bn" if "bdev (bufs s ! j) = 1"
      using one_eachD [OF cache_okD(2) [OF ok] \<open>j < length (bufs s)\<close> il _ c] that False by (auto simp: caches_def)
    then have "unat (bblockno (bufs s ! j)) \<noteq> unat bn" if "bdev (bufs s ! j) = 1"
      using that by (simp add: word_unat_eq_iff)
    with False that cache_okD(3) [OF ok, of j] show ?thesis by (simp add: bt buf_ok_def same)
  qed
  have lok: "lock_ok H ?t j" if "j < length (bufs s)" for j
    using cache_okD(4) [OF ok that] i by (cases "j = i") (simp_all add: bt lock_ok_def same)
  have okt: "cache_ok H ?t"
    using ok bok lok by (simp add: cache_ok_def lone_def one_each_def len same cs)
  have d: "dirty ?t = dirty s - {i}" by (auto simp: dirty_def bt len)
  have in_d: "j \<in> dirty s \<Longrightarrow> bblockno (bufs s ! j) = bn \<longleftrightarrow> j = i" for j
    using dirty_caches [OF ok, of j] one_eachD [OF cache_okD(2) [OF ok], of j i bn] il c by (auto simp: caches_def)
  have db: "dirty_blocks ?t = dirty_blocks s - {bn}"
    unfolding dirty_blocks_def d using in_d by (auto simp: bt)
  have v: "view ?t = (view s)(bn := d)"
  proof
    fix x
    show "view ?t x = ((view s)(bn := d)) x"
    proof (cases "x \<in> dirty_blocks ?t")
      case True
      then obtain j where j: "j \<in> dirty ?t" "x = bblockno (bufs ?t ! j)" by (auto simp: dirty_blocks_def)
      with d have "j \<noteq> i" "j \<in> dirty s" "x = bblockno (bufs s ! j)" by (auto simp: bt)
      with view_dirty [OF okt j(1)] view_dirty [OF ok, of j] j in_d [of j] show ?thesis by (simp add: bt)
    next
      case False
      have "x = bn \<or> (x \<notin> dirty_blocks s \<and> unat x \<noteq> unat bn)" using False db by (auto simp: word_unat_eq_iff)
      with view_clean [OF False] show ?thesis by (auto simp: same view_clean)
    qed
  qed
  have fr: "cframe s ?t"
  proof -
    have "?t = s\<lparr>ptable := ptable s, slocks := slocks s, bufs := bufs ?t, lru := lru s, disk := disk ?t, dwrites := dwrites ?t\<rparr>"
      by (simp add: written_def)
    then show ?thesis unfolding cframe_def by (intro exI conjI) (assumption, simp_all add: len)
  qed
  have "bwrite_post H bn d i s ?t"
    using fr okt d db v c by (simp add: bwrite_post_def same bt caches_def)
  with bwrite_eq [OF ok i c bn] show thesis by (rule that)
qed

definition brelse_post :: "nat set \<Rightarrow> nat \<Rightarrow> 'z bstate_scheme \<Rightarrow> 'z bstate_scheme \<Rightarrow> bool" where
  "brelse_post H i s t \<longleftrightarrow> cframe s t \<and> cache_ok (H - {i}) t \<and> disk t = disk s \<and> dwrites t = dwrites s
     \<and> view t = view s \<and> dirty t = dirty s \<and> dirty_blocks t = dirty_blocks s
     \<and> (\<forall>j \<in> H. j \<noteq> i \<longrightarrow> bufs t ! j = bufs s ! j)"

definition released :: "nat \<Rightarrow> 'z bstate_scheme \<Rightarrow> 'z bstate_scheme" where
  "released i s = s\<lparr>ptable := map (wake_one (Some (CSleep (SBuf i)))) (ptable s),
     slocks := (slocks s)(SBuf i := (slocks s (SBuf i))\<lparr>sl_locked := 0, sl_pid := 0\<rparr>),
     bufs := (bufs s)[i := (bufs s ! i)\<lparr>brefcnt := 0\<rparr>], lru := i # removeAll i (lru s)\<rparr>"

lemma brelse_eq:
  assumes "cache_ok H s" "i \<in> H"
  shows "brelse i s = Ok () (released i s)"
proof -
  have i: "i < length (bufs s)" using cache_okD(7) [OF assms] .
  have r: "brefcnt (bufs s ! i) = 1" using cache_okD(4) [OF assms(1) i] assms(2) by (simp add: lock_ok_def)
  have h: "held s = {}" using loneD(1) [OF cache_okD(1) [OF assms(1)]] .
  have "holdingsleep (SBuf i) s = Ok True s" by (rule holdingsleep_held [OF assms]) simp_all
  moreover have "releasesleep (SBuf i) s = Ok () (s\<lparr>ptable := map (wake_one (Some (CSleep (SBuf i)))) (ptable s),
      slocks := (slocks s)(SBuf i := (slocks s (SBuf i))\<lparr>sl_locked := 0, sl_pid := 0\<rparr>)\<rparr>)"
    by (rule releasesleep_mine [OF h])
  ultimately show ?thesis
    using i r h by (simp add: brelse_def Let_def upd_buf_def released_def)
qed

lemma brelse_ok:
  assumes ok: "cache_ok H s" and i: "i \<in> H"
  obtains t where "brelse i s = Ok () t" "brelse_post H i s t"
proof -
  let ?t = "released i s"
  have il: "i < length (bufs s)" using cache_okD(7) [OF ok i] .
  have bt: "bufs ?t ! j = (if j = i then (bufs s ! i)\<lparr>brefcnt := 0\<rparr> else bufs s ! j)" for j
    using il by (simp add: released_def nth_list_update_if)
  have len: "length (bufs ?t) = length (bufs s)" by (simp add: released_def)
  have me: "pid (ptable ?t ! the (cpu_proc s)) = pid (ptable s ! the (cpu_proc s))"
    using loneD(3) [OF cache_okD(1) [OF ok]] by (simp add: released_def)
  have same: "held ?t = held s" "cpu_proc ?t = cpu_proc s" "length (ptable ?t) = length (ptable s)"
    "map pid (ptable ?t) = map pid (ptable s)" "lru ?t = i # removeAll i (lru s)" "disk ?t = disk s" "dwrites ?t = dwrites s"
    "slocks ?t l = (if l = SBuf i then (slocks s (SBuf i))\<lparr>sl_locked := 0, sl_pid := 0\<rparr> else slocks s l)" for l
    by (simp_all add: released_def)
  have cs: "caches x (bufs ?t ! j) = caches x (bufs s ! j)" for x j by (simp add: bt caches_def)
  have bok: "buf_ok ?t (bufs ?t ! j)" if "j < length (bufs s)" for j
    using cache_okD(3) [OF ok that] by (cases "j = i") (simp_all add: bt buf_ok_def same)
  have lok: "lock_ok (H - {i}) ?t j" if "j < length (bufs s)" for j
    using cache_okD(4) [OF ok that] by (cases "j = i") (simp_all add: bt lock_ok_def same me)
  have okt: "cache_ok (H - {i}) ?t"
    using ok bok lok il by (auto simp: cache_ok_def lone_def one_each_def len same cs distinct_removeAll)
  have d: "dirty ?t = dirty s" by (auto simp: dirty_def bt len)
  have fr: "cframe s ?t"
  proof -
    have "?t = s\<lparr>ptable := ptable ?t, slocks := slocks ?t, bufs := bufs ?t, lru := lru ?t, disk := disk s, dwrites := dwrites s\<rparr>"
      by (simp add: released_def)
    then show ?thesis unfolding cframe_def by (intro exI conjI) (assumption, simp_all add: len same)
  qed
  have "view ?t = view s" "dirty_blocks ?t = dirty_blocks s"
    by (rule view_cong [OF ok okt d same(6)]; simp add: bt)+
  with fr okt d have "brelse_post H i s ?t" by (simp add: brelse_post_def same bt)
  with brelse_eq [OF ok i] show thesis by (rule that)
qed

text \<open>
  C8. Write a block, read it back: on an idle cache with a buffer to spare, \<open>bread\<close> returns the block's
  current contents; filling its buffer and \<open>bwrite\<close> put the new bytes on disk; and after \<open>brelse\<close> a
  second \<open>bread\<close> returns exactly those bytes, while every other block reads as before.
\<close>

theorem buffer_read_back:
  assumes ok: "cache_ok {} s" and bn: "bn < disksize s" and room: "\<exists>i < length (bufs s). bflags (bufs s ! i) \<noteq> 6"
  shows "\<exists>i s1 s2 t j u. bread 1 bn s = Ok i s1 \<and> bdata (bufs s1 ! i) = view s bn
    \<and> bwrite i (upd_buf i (\<lambda>b. b\<lparr>bdata := d\<rparr>) s1) = Ok () s2 \<and> disk s2 (unat bn) = d
    \<and> brelse i s2 = Ok () t \<and> view t = (view s)(bn := d)
    \<and> bread 1 bn t = Ok j u \<and> bdata (bufs u ! j) = d"
proof -
  obtain i s1 where b: "bread 1 bn s = Ok i s1" and p1: "bread_post {} bn s i s1"
    by (rule bread_ok [OF ok bn]) (use room in auto)
  note q1 = p1 [unfolded bread_post_def]
  have f1: "cframe s s1" and ok1: "cache_ok {i} s1" and c1: "caches bn (bufs s1 ! i)" using q1 by simp_all
  have bn1: "bn < disksize s1" using bn cframe_simps(3) [OF f1] by simp
  obtain s2 where w: "bwrite i (upd_buf i (\<lambda>b. b\<lparr>bdata := d\<rparr>) s1) = Ok () s2" and p2: "bwrite_post {i} bn d i s1 s2"
    by (rule bwrite_ok [OF ok1 _ c1 bn1]) simp_all
  note q2 = p2 [unfolded bwrite_post_def]
  have ok2: "cache_ok {i} s2" and f2: "cframe s1 s2" using q2 by simp_all
  obtain t where r: "brelse i s2 = Ok () t" and p3: "brelse_post {i} i s2 t"
    by (rule brelse_ok [OF ok2, of i]) simp_all
  note q3 = p3 [unfolded brelse_post_def]
  have ok3: "cache_ok {} t" and f3: "cframe s2 t" using q3 by simp_all
  have bn3: "bn < disksize t" using bn1 cframe_simps(3) [OF f2] cframe_simps(3) [OF f3] by simp
  have il: "i < length (bufs t)"
    using cache_okD(7) [OF ok2, of i] cframe_simps(4) [OF f3] by simp
  have "i \<notin> dirty t" using q2 q3 by simp
  with il have room3: "\<exists>k < length (bufs t). k \<notin> {} \<and> bflags (bufs t ! k) \<noteq> 6" by (auto simp: dirty_def)
  have v: "view t = (view s)(bn := d)" using q1 q2 q3 by simp
  obtain j u where b2: "bread 1 bn t = Ok j u" and p4: "bread_post {} bn t j u"
    by (rule bread_ok [OF ok3 bn3 _ disjI2 [OF room3]]) simp
  have "bdata (bufs u ! j) = d" using p4 v by (simp add: bread_post_def)
  moreover have "disk s2 (unat bn) = d" using q2 by simp
  moreover have "bdata (bufs s1 ! i) = view s bn" using q1 by simp
  ultimately show ?thesis using b w r b2 v by blast
qed

lemma bstate0_ok: "cache_ok {} bstate0"
  unfolding cache_ok_def
proof (intro conjI)
  show "one_each (bufs bstate0)" by (auto simp: one_each_def caches_def buf0_def NBUF_def)
  show "\<forall>i < length (bufs bstate0). buf_ok bstate0 (bufs bstate0 ! i) \<and> lock_ok {} bstate0 i"
    by (auto simp: buf_ok_def lock_ok_def buf0_def NBUF_def)
qed (auto simp: lone_def NBUF_def)

theorem buffer_read_back_witness:
  "cache_ok {} bstate0 \<and> (\<exists>i s1 s2. bread 1 7 bstate0 = Ok i s1
     \<and> bwrite i (upd_buf i (\<lambda>b. b\<lparr>bdata := [1, 2, 3]\<rparr>) s1) = Ok () s2 \<and> disk s2 7 = [1, 2, 3])"
proof -
  have "\<exists>i < length (bufs bstate0). bflags (bufs bstate0 ! i) \<noteq> 6"
    by (rule exI [of _ 0]) (simp add: NBUF_def buf0_def)
  from buffer_read_back [OF bstate0_ok _ this, of 7 "[1, 2, 3]"] bstate0_ok show ?thesis by auto
qed

end
