(* ===== verification/Crash.thy ===== *)
theory Crash
  imports Cache Log
begin

section \<open>Crash safety of the log\<close>

text \<open>
  A commit changes the contents of the disk atomically. What matters after a crash is the disk as
  recovery will leave it, \<open>logical\<close>; every disk write of a commit keeps it, except the write of
  the header, which takes it from the old contents to the new ones. Every disk write of a recovery
  keeps it, so that recovery may crash and be started again.
\<close>

subsection \<open>Disks\<close>

type_synonym blocks = "nat \<Rightarrow> byte list"

definition apply_writes :: "(nat \<times> byte list) list \<Rightarrow> blocks \<Rightarrow> blocks" where
  "apply_writes ws d = fold (\<lambda>(b, x) d. d(b := x)) ws d"

lemma apply_writes_simps [simp]:
  "apply_writes [] d = d" "apply_writes ((b, x) # ws) d = apply_writes ws (d(b := x))"
  "apply_writes (ws @ vs) d = apply_writes vs (apply_writes ws d)"
  by (simp_all add: apply_writes_def)

lemma apply_writes_other: "b \<notin> fst ` set ws \<Longrightarrow> apply_writes ws d b = d b"
  by (induction ws arbitrary: d) auto

lemma apply_writes_map:
  "apply_writes (map (\<lambda>k. (f k, g (f k))) ks) d b = (if b \<in> f ` set ks then g b else d b)"
  by (induction ks arbitrary: d) auto

lemma apply_writes_inj:
  "inj_on f (set ks) \<Longrightarrow> k \<in> set ks \<Longrightarrow> distinct ks \<Longrightarrow> apply_writes (map (\<lambda>k. (f k, g k)) ks) d (f k) = g k"
proof (induction ks arbitrary: d)
  case (Cons a ks)
  show ?case
  proof (cases "k = a")
    case True
    then have "f k \<notin> fst ` set (map (\<lambda>k. (f k, g k)) ks)" using Cons(2,4) by (auto simp: inj_on_def)
    with True show ?thesis by (simp add: apply_writes_other)
  next
    case False
    with Cons show ?thesis by simp
  qed
qed simp

text \<open>The header of the log and the disk recovery makes of it; \<open>ls\<close> is the block of the header.\<close>

definition hdr_n :: "byte list \<Rightarrow> nat" where
  "hdr_n d = nat (sint (rd32 d 0))"

definition hdr_entry :: "byte list \<Rightarrow> nat \<Rightarrow> uint" where
  "hdr_entry d k = rd32 d (4 + 4 * k)"

definition logical :: "nat \<Rightarrow> blocks \<Rightarrow> blocks" where
  "logical ls d =
     apply_writes (map (\<lambda>k. (unat (hdr_entry (d ls) k), d (ls + 1 + k))) [0..<hdr_n (d ls)]) d"

definition home :: "nat \<Rightarrow> nat \<Rightarrow> bool" where
  "home ls b \<longleftrightarrow> \<not> (ls \<le> b \<and> b < ls + LOGSIZE)"

definition same_home :: "nat \<Rightarrow> blocks \<Rightarrow> blocks \<Rightarrow> bool" where
  "same_home ls d e \<longleftrightarrow> (\<forall>b. home ls b \<longrightarrow> d b = e b)"

subsection \<open>The writes of a commit\<close>

text \<open>
  Log copies of the blocks \<open>h 0, \<dots>, h (n - 1)\<close> with contents \<open>v\<close>, the header, the blocks at home, the
  cleared header.
\<close>

definition log_part :: "nat \<Rightarrow> nat \<Rightarrow> (nat \<Rightarrow> nat) \<Rightarrow> blocks \<Rightarrow> (nat \<times> byte list) list" where
  "log_part ls n h v = map (\<lambda>k. (ls + 1 + k, v (h k))) [0..<n]"

definition home_part :: "nat \<Rightarrow> (nat \<Rightarrow> nat) \<Rightarrow> blocks \<Rightarrow> (nat \<times> byte list) list" where
  "home_part n h v = map (\<lambda>k. (h k, v (h k))) [0..<n]"

definition commit_writes ::
    "nat \<Rightarrow> nat \<Rightarrow> (nat \<Rightarrow> nat) \<Rightarrow> blocks \<Rightarrow> byte list \<Rightarrow> byte list \<Rightarrow> (nat \<times> byte list) list" where
  "commit_writes ls n h v h1 h0 = log_part ls n h v @ [(ls, h1)] @ home_part n h v @ [(ls, h0)]"

text \<open>The contents after the commit.\<close>

definition overlay :: "nat \<Rightarrow> (nat \<Rightarrow> nat) \<Rightarrow> blocks \<Rightarrow> blocks \<Rightarrow> blocks" where
  "overlay n h v d b = (if b \<in> h ` {..<n} then v b else d b)"

lemma logical_clear: "hdr_n (d ls) = 0 \<Longrightarrow> logical ls d = d"
  by (simp add: logical_def)

text \<open>With the header in place, whatever part of the home blocks is written.\<close>

lemma logical_set:
  assumes n: "hdr_n (d ls) = n" and e: "\<And>k. k < n \<Longrightarrow> unat (hdr_entry (d ls) k) = h k"
    and l: "\<And>k. k < n \<Longrightarrow> d (ls + 1 + k) = v (h k)"
  shows "logical ls d = overlay n h v d"
proof -
  have "map (\<lambda>k. (unat (hdr_entry (d ls) k), d (ls + 1 + k))) [0..<n] = map (\<lambda>k. (h k, v (h k))) [0..<n]"
    using e l by simp
  then show ?thesis
    by (auto simp: logical_def n overlay_def apply_writes_map atLeast0LessThan simp del: map_eq_conv)
qed

lemma log_part_other: "b \<le> ls \<or> ls + n < b \<Longrightarrow> apply_writes (take k (log_part ls n h v)) d b = d b"
  by (rule apply_writes_other) (auto simp: log_part_def dest!: in_set_takeD)

lemma log_part_at: "k < n \<Longrightarrow> apply_writes (log_part ls n h v) d (ls + 1 + k) = v (h k)"
  unfolding log_part_def by (rule apply_writes_inj) (auto simp: inj_on_def)

lemma home_part_take:
  "apply_writes (take m (home_part n h v)) d b = (if b \<in> h ` {..<min m n} then v b else d b)"
  by (simp add: home_part_def take_map apply_writes_map atLeast0LessThan min_def)

lemma commit_writes_atomic:
  assumes clear: "hdr_n (d ls) = 0" and n: "n < LOGSIZE" and hm: "\<And>k. k < n \<Longrightarrow> home ls (h k)"
    and h1: "hdr_n h1 = n" "\<And>k. k < n \<Longrightarrow> unat (hdr_entry h1 k) = h k" and h0: "hdr_n h0 = 0"
  shows "same_home ls (logical ls (apply_writes (take m (commit_writes ls n h v h1 h0)) d)) d
       \<or> same_home ls (logical ls (apply_writes (take m (commit_writes ls n h v h1 h0)) d)) (overlay n h v d)"
    and "same_home ls (apply_writes (commit_writes ls n h v h1 h0) d) (overlay n h v d)"
    and "hdr_n (apply_writes (commit_writes ls n h v h1 h0) d ls) = 0"
proof -
  let ?W = "commit_writes ls n h v h1 h0"
  let ?L = "apply_writes (log_part ls n h v) d"
  have len: "length (log_part ls n h v) = n" "length (home_part n h v) = n"
    by (simp_all add: log_part_def home_part_def)
  have nhome: "ls \<notin> h ` {..<n}" "k < n \<Longrightarrow> ls + 1 + k \<notin> h ` {..<n}" for k
    using hm n by (force simp: home_def)+
  have away: "apply_writes (take j (log_part ls n h v)) d b = d b" if "home ls b" for j b
    using that n by (intro log_part_other) (auto simp: home_def)
  have awayL: "?L b = d b" if "home ls b" for b using away [OF that, of n] len by simp
  let ?D = "\<lambda>j. apply_writes (take j (home_part n h v)) (?L(ls := h1))"
  have D: "?D j b = (if b \<in> h ` {..<min j n} then v b else (?L(ls := h1)) b)" for j b by (rule home_part_take)
  have Dls: "?D j ls = h1" for j using nhome(1) by (subst D) auto
  have Dlog: "?D j (ls + 1 + k) = v (h k)" if "k < n" for j k
    using nhome(2) [OF that] that log_part_at [OF that, of ls h v d] by (subst D) auto
  have mid: "same_home ls (logical ls (?D j)) (overlay n h v d)" for j
  proof -
    have "logical ls (?D j) = overlay n h v (?D j)"
      by (rule logical_set) (simp_all add: Dls h1 Dlog [simplified])
    moreover have "overlay n h v (?D j) b = overlay n h v d b" if "home ls b" for b
      using that awayL [OF that] by (auto simp: overlay_def D home_def LOGSIZE_def)
    ultimately show ?thesis by (simp add: same_home_def LOGSIZE_def)
  qed
  have full: "apply_writes ?W d = (?D n)(ls := h0)"
    using len by (simp add: commit_writes_def)
  show fin: "same_home ls (apply_writes ?W d) (overlay n h v d)"
    unfolding same_home_def full using awayL by (auto simp: D overlay_def home_def LOGSIZE_def)
  show hz: "hdr_n (apply_writes ?W d ls) = 0" by (simp add: full h0)
  consider "m \<le> n" | "n < m" "m \<le> 2 * n + 1" | "2 * n + 1 < m" by linarith
  then show "same_home ls (logical ls (apply_writes (take m ?W) d)) d
       \<or> same_home ls (logical ls (apply_writes (take m ?W) d)) (overlay n h v d)"
  proof cases
    case 1
    then have t: "take m ?W = take m (log_part ls n h v)" by (simp add: commit_writes_def len)
    have "hdr_n (apply_writes (take m ?W) d ls) = 0"
      unfolding t using clear by (subst log_part_other) simp_all
    from logical_clear [of "apply_writes (take m ?W) d" ls, OF this] away show ?thesis
      by (simp add: same_home_def t)
  next
    case 2
    define j where "j = m - n - 1"
    with 2 have "m = n + 1 + j" "j \<le> n" by simp_all
    then have "take m ?W = log_part ls n h v @ [(ls, h1)] @ take j (home_part n h v)"
      by (simp add: commit_writes_def len)
    with mid [of j] show ?thesis by simp
  next
    case 3
    then have "take m ?W = ?W" by (simp add: commit_writes_def len)
    with fin logical_clear [of "apply_writes ?W d" ls, OF hz] show ?thesis by simp
  qed
qed

subsection \<open>Copying one block to another\<close>

definition clean :: "'z bstate_scheme \<Rightarrow> nat set" where
  "clean s = {..<length (bufs s)} - dirty s"

definition copy_post :: "uint \<Rightarrow> uint \<Rightarrow> 'z bstate_scheme \<Rightarrow> 'z bstate_scheme \<Rightarrow> bool" where
  "copy_post a b s t \<longleftrightarrow> cframe s t \<and> cache_ok {} t \<and> disk t = (disk s)(unat a := view s b)
     \<and> dwrites t = dwrites s @ [(unat a, view s b)] \<and> view t = (view s)(a := view s b)
     \<and> dirty t \<subseteq> dirty s \<and> (a \<in> dirty_blocks s \<longrightarrow> dirty t \<subset> dirty s) \<and> dirty_blocks t = dirty_blocks s - {a}"

lemma clean_iff: "i \<in> clean s \<longleftrightarrow> i < length (bufs s) \<and> bflags (bufs s ! i) \<noteq> 6"
  by (auto simp: clean_def dirty_def)

lemma caches_unique: "caches a b \<Longrightarrow> caches c b \<Longrightarrow> a = c"
  by (simp add: caches_def)

text \<open>The two reads of a copy; \<open>x\<close> and \<open>y\<close> are the buffers of the blocks \<open>a\<close> and \<open>b\<close>.\<close>

lemma read_two:
  assumes ok: "cache_ok {} s" and ab: "a \<noteq> b" "a < disksize s" "b < disksize s"
    and ra: "a \<in> dirty_blocks s \<or> clean s \<noteq> {}" and rb: "b \<in> dirty_blocks s \<or> (\<exists>i \<in> clean s. \<exists>j \<in> clean s. i \<noteq> j)"
  obtains x y s1 t where "bread 1 a s = Ok x s1" "bread 1 b s1 = Ok y t" "cframe s s1" "x \<noteq> y"
    "cframe s t" "cache_ok {x, y} t" "caches a (bufs t ! x)" "caches b (bufs t ! y)"
    "bdata (bufs t ! x) = view s a" "bdata (bufs t ! y) = view s b"
    "view t = view s" "disk t = disk s" "dwrites t = dwrites s" "dirty t = dirty s" "dirty_blocks t = dirty_blocks s"
proof -
  have ra': "a \<in> dirty_blocks s \<or> (\<exists>i < length (bufs s). i \<notin> {} \<and> bflags (bufs s ! i) \<noteq> 6)"
    using ra unfolding ex_in_conv [symmetric] clean_iff by blast
  obtain x s1 where x: "bread 1 a s = Ok x s1" and p1: "bread_post {} a s x s1"
    by (rule bread_ok [OF ok ab(2) _ ra']) simp
  have f1: "cframe s s1" and ok1: "cache_ok {x} s1" and c1: "caches a (bufs s1 ! x)" "bdata (bufs s1 ! x) = view s a"
    and e1: "view s1 = view s" "disk s1 = disk s" "dwrites s1 = dwrites s" "dirty s1 = dirty s" "dirty_blocks s1 = dirty_blocks s"
    using p1 by (auto simp: bread_post_def)
  have b1: "b < disksize s1" using ab(3) cframe_simps(3) [OF f1] by simp
  have cl: "clean s1 = clean s" using e1(4) cframe_simps(4) [OF f1] by (simp add: clean_def)
  have "b \<in> dirty_blocks s1 \<or> (\<exists>i \<in> clean s1. i \<notin> {x})" unfolding e1(5) cl using rb by (metis singletonD)
  then have room: "b \<in> dirty_blocks s1 \<or> (\<exists>i < length (bufs s1). i \<notin> {x} \<and> bflags (bufs s1 ! i) \<noteq> 6)"
    unfolding Bex_def clean_iff by blast
  have fresh: "\<not> caches b (bufs s1 ! j)" if "j \<in> {x}" for j
    using that c1(1) ab(1) caches_unique by auto
  obtain y t where y: "bread 1 b s1 = Ok y t" and p2: "bread_post {x} b s1 y t"
    by (rule bread_ok [OF ok1 b1 fresh room])
  have f2: "cframe s1 t" and ok2: "cache_ok {y, x} t" and c2: "caches b (bufs t ! y)" "bdata (bufs t ! y) = view s1 b"
    and n: "y \<noteq> x" and bx: "bufs t ! x = bufs s1 ! x"
    and e2: "view t = view s1" "disk t = disk s1" "dwrites t = dwrites s1" "dirty t = dirty s1" "dirty_blocks t = dirty_blocks s1"
    using p2 by (auto simp: bread_post_def)
  show thesis
    by (rule that [OF x y f1]) (use n cframe_trans [OF f1 f2] ok2 c1 c2 bx e1 e2 in \<open>simp_all add: insert_commute\<close>)
qed

text \<open>Writing through \<open>x\<close> what \<open>y\<close> holds, and the two releases.\<close>

lemma write_release:
  assumes ok: "cache_ok {x, y} s" and n: "x \<noteq> y" and c: "caches a (bufs s ! x)" "a < disksize s"
  obtains s1 s2 t where "bwrite x (set_bdata x (bdata (bufs s ! y)) s) = Ok () s1" "brelse y s1 = Ok () s2"
    "brelse x s2 = Ok () t" "cframe s t" "cache_ok {} t" "disk t = (disk s)(unat a := bdata (bufs s ! y))"
    "dwrites t = dwrites s @ [(unat a, bdata (bufs s ! y))]" "view t = (view s)(a := bdata (bufs s ! y))"
    "dirty t \<subseteq> dirty s" "a \<in> dirty_blocks s \<longrightarrow> dirty t \<subset> dirty s" "dirty_blocks t = dirty_blocks s - {a}"
proof -
  let ?d = "bdata (bufs s ! y)"
  obtain s1 where w: "bwrite x (upd_buf x (\<lambda>b. b\<lparr>bdata := ?d\<rparr>) s) = Ok () s1" and p1: "bwrite_post {x, y} a ?d x s s1"
    by (rule bwrite_ok [OF ok _ c]) simp_all
  have ok1: "cache_ok {x, y} s1" using p1 by (simp add: bwrite_post_def)
  obtain s2 where r1: "brelse y s1 = Ok () s2" and p2: "brelse_post {x, y} y s1 s2"
    by (rule brelse_ok [OF ok1, of y]) simp_all
  have ok2: "cache_ok {x} s2" using p2 n by (simp add: brelse_post_def insert_Diff_if)
  obtain t where r2: "brelse x s2 = Ok () t" and p3: "brelse_post {x} x s2 t"
    by (rule brelse_ok [OF ok2, of x]) simp_all
  note q = p1 [unfolded bwrite_post_def] p2 [unfolded brelse_post_def] p3 [unfolded brelse_post_def]
  have f: "cframe s t"
    by (rule cframe_trans [OF conjunct1 [OF q(1)] cframe_trans [OF conjunct1 [OF q(2)] conjunct1 [OF q(3)]]])
  have ok3: "cache_ok {} t" using q(3) by simp
  have dt: "dirty t = dirty s - {x}" using q by simp
  have "dirty t \<subset> dirty s" if a: "a \<in> dirty_blocks s"
  proof -
    obtain j where j: "j \<in> dirty s" "j < length (bufs s)" "caches a (bufs s ! j)" by (rule dirty_blocksE [OF ok a])
    have "x < length (bufs s)" using cache_okD(7) [OF ok] by simp
    then have "j = x" by (rule one_eachD [OF cache_okD(2) [OF ok] j(2) _ j(3) c(1)])
    with j(1) dt show ?thesis by blast
  qed
  with q dt show thesis
    by (intro that [OF w [folded set_bdata_def] r1 r2 f ok3]) simp_all
qed

lemma cframe_log:
  assumes "cframe s t"
  shows "log_start t = log_start s" "log_dev t = log_dev s" "lh_n t = lh_n s" "lh_block t = lh_block s"
    "log_size t = log_size s" "log_outstanding t = log_outstanding s" "log_committing t = log_committing s"
  using assms by (auto simp: cframe_def)

lemma write_log_step:
  assumes ok: "cache_ok {} s" and dev: "log_dev s = 1"
    and ab: "log_start s + of_nat k + 1 \<noteq> lh_block s ! k" "log_start s + of_nat k + 1 < disksize s" "lh_block s ! k < disksize s"
    and ra: "clean s \<noteq> {}" and rb: "lh_block s ! k \<in> dirty_blocks s"
  obtains t where "write_log_loop (k # ts) s = write_log_loop ts t"
    "copy_post (log_start s + of_nat k + 1) (lh_block s ! k) s t"
proof -
  let ?a = "log_start s + of_nat k + 1" and ?b = "lh_block s ! k"
  obtain x y s1 s2 where r: "bread 1 ?a s = Ok x s1" "bread 1 ?b s1 = Ok y s2" and f1: "cframe s s1" and n: "x \<noteq> y"
    and f2: "cframe s s2" and ok2: "cache_ok {x, y} s2" and c: "caches ?a (bufs s2 ! x)" "caches ?b (bufs s2 ! y)"
    and bd: "bdata (bufs s2 ! x) = view s ?a" "bdata (bufs s2 ! y) = view s ?b"
    and e: "view s2 = view s" "disk s2 = disk s" "dwrites s2 = dwrites s" "dirty s2 = dirty s" "dirty_blocks s2 = dirty_blocks s"
    by (rule read_two [OF ok ab disjI2 [OF ra] disjI1 [OF rb]])
  have a2: "?a < disksize s2" using ab(2) cframe_simps(3) [OF f2] by simp
  obtain s3 s4 t where w: "bwrite x (set_bdata x (bdata (bufs s2 ! y)) s2) = Ok () s3" "brelse y s3 = Ok () s4"
    "brelse x s4 = Ok () t" and f3: "cframe s2 t" and ok3: "cache_ok {} t"
    and p: "disk t = (disk s2)(unat ?a := bdata (bufs s2 ! y))"
    "dwrites t = dwrites s2 @ [(unat ?a, bdata (bufs s2 ! y))]" "view t = (view s2)(?a := bdata (bufs s2 ! y))"
    "dirty t \<subseteq> dirty s2" "?a \<in> dirty_blocks s2 \<longrightarrow> dirty t \<subset> dirty s2" "dirty_blocks t = dirty_blocks s2 - {?a}"
    by (rule write_release [OF ok2 n c(1) a2])
  have "write_log_loop (k # ts) s = write_log_loop ts t"
    using r w cframe_log [OF f1] by (simp add: dev)
  moreover have "copy_post ?a ?b s t"
    using cframe_trans [OF f2 f3] ok3 p by (simp add: copy_post_def e bd)
  ultimately show thesis by (rule that)
qed

lemma install_step:
  assumes ok: "cache_ok {} s" and dev: "log_dev s = 1"
    and ab: "log_start s + of_nat k + 1 \<noteq> lh_block s ! k" "log_start s + of_nat k + 1 < disksize s" "lh_block s ! k < disksize s"
    and ra: "clean s \<noteq> {}" and rb: "lh_block s ! k \<in> dirty_blocks s \<or> (\<exists>i \<in> clean s. \<exists>j \<in> clean s. i \<noteq> j)"
  obtains t where "install_loop (k # ts) s = install_loop ts t"
    "copy_post (lh_block s ! k) (log_start s + of_nat k + 1) s t"
proof -
  let ?a = "log_start s + of_nat k + 1" and ?b = "lh_block s ! k"
  obtain x y s1 s2 where r: "bread 1 ?a s = Ok x s1" "bread 1 ?b s1 = Ok y s2" and f1: "cframe s s1" and n: "x \<noteq> y"
    and f2: "cframe s s2" and ok2: "cache_ok {x, y} s2" and c: "caches ?a (bufs s2 ! x)" "caches ?b (bufs s2 ! y)"
    and bd: "bdata (bufs s2 ! x) = view s ?a" "bdata (bufs s2 ! y) = view s ?b"
    and e: "view s2 = view s" "disk s2 = disk s" "dwrites s2 = dwrites s" "dirty s2 = dirty s" "dirty_blocks s2 = dirty_blocks s"
    by (rule read_two [OF ok ab disjI2 [OF ra] rb])
  have b2: "?b < disksize s2" using ab(3) cframe_simps(3) [OF f2] by simp
  have ok2': "cache_ok {y, x} s2" using ok2 by (simp add: insert_commute)
  obtain s3 s4 t where w: "bwrite y (set_bdata y (bdata (bufs s2 ! x)) s2) = Ok () s3" "brelse x s3 = Ok () s4"
    "brelse y s4 = Ok () t" and f3: "cframe s2 t" and ok3: "cache_ok {} t"
    and p: "disk t = (disk s2)(unat ?b := bdata (bufs s2 ! x))"
    "dwrites t = dwrites s2 @ [(unat ?b, bdata (bufs s2 ! x))]" "view t = (view s2)(?b := bdata (bufs s2 ! x))"
    "dirty t \<subseteq> dirty s2" "?b \<in> dirty_blocks s2 \<longrightarrow> dirty t \<subset> dirty s2" "dirty_blocks t = dirty_blocks s2 - {?b}"
    by (rule write_release [OF ok2' not_sym [OF n] c(2) b2])
  have "install_loop (k # ts) s = install_loop ts t"
    using r w cframe_log [OF f1] by (simp add: dev)
  moreover have "copy_post ?b ?a s t"
    using cframe_trans [OF f2 f3] ok3 p by (simp add: copy_post_def e bd)
  ultimately show thesis by (rule that)
qed

subsection \<open>The loops\<close>

text \<open>
  The log, a header and the \<open>LOGSIZE - 1\<close> copies the image has room for, lies on the disk, and the
  blocks it logs lie outside it.
\<close>

definition log_region :: "nat \<Rightarrow> 'z logstate_scheme \<Rightarrow> bool" where
  "log_region n s \<longleftrightarrow> log_dev s = 1 \<and> n < LOGSIZE \<and> unat (log_start s) + LOGSIZE \<le> unat (disksize s)
     \<and> (\<forall>k < n. lh_block s ! k < disksize s \<and> home (unat (log_start s)) (unat (lh_block s ! k)))"

lemma log_region_cframe: "cframe s t \<Longrightarrow> log_region n t = log_region n s"
  by (simp add: log_region_def cframe_log cframe_simps)

lemma log_block:
  assumes "log_region n s" "k < n"
  shows "unat (log_start s + of_nat k + 1) = unat (log_start s) + 1 + k"
    "log_start s + of_nat k + 1 < disksize s" "log_start s + of_nat k + 1 \<noteq> lh_block s ! k" "lh_block s ! k < disksize s"
proof -
  have l: "n < LOGSIZE" "unat (log_start s) + LOGSIZE \<le> unat (disksize s)" and h: "home (unat (log_start s)) (unat (lh_block s ! k))"
    and d: "lh_block s ! k < disksize s"
    using assms by (auto simp: log_region_def)
  have r: "unat (log_start s) + (k + 1) < 4294967296" using l assms(2) unat_range32 [of "disksize s"] by linarith
  have e: "log_start s + of_nat k + 1 = log_start s + of_nat (Suc k)" by (simp add: algebra_simps)
  have k: "unat (of_nat (Suc k) :: uint) = Suc k" by (rule unat_of_nat32) (use r in linarith)
  have "unat (log_start s + of_nat (Suc k)) = unat (log_start s) + unat (of_nat (Suc k) :: uint)"
    by (rule unat_add32) (use r k in linarith)
  then show u: "unat (log_start s + of_nat k + 1) = unat (log_start s) + 1 + k"
    unfolding e k by simp
  show "log_start s + of_nat k + 1 < disksize s" unfolding word_less_nat_alt u using l assms(2) by linarith
  show "log_start s + of_nat k + 1 \<noteq> lh_block s ! k"
  proof
    assume "log_start s + of_nat k + 1 = lh_block s ! k"
    then have "unat (lh_block s ! k) = unat (log_start s) + 1 + k" using u by simp
    with h l assms(2) show False by (simp add: home_def)
  qed
  show "lh_block s ! k < disksize s" by (rule d)
qed

definition log_writes :: "nat list \<Rightarrow> 'z logstate_scheme \<Rightarrow> (nat \<times> byte list) list" where
  "log_writes ts s = map (\<lambda>k. (unat (log_start s) + 1 + k, view s (lh_block s ! k))) ts"

lemma write_log_loop_ok:
  assumes "cache_ok {} s" "log_region n s" "clean s \<noteq> {}" "set ts \<subseteq> {..<n}" "\<forall>k < n. lh_block s ! k \<in> dirty_blocks s"
  shows "\<exists>t. write_log_loop ts s = Ok () t \<and> cframe s t \<and> cache_ok {} t \<and> clean t \<noteq> {}
    \<and> dwrites t = dwrites s @ log_writes ts s \<and> disk t = apply_writes (log_writes ts s) (disk s)
    \<and> (\<forall>k < n. lh_block s ! k \<in> dirty_blocks t) \<and> dirty_blocks t \<subseteq> dirty_blocks s
    \<and> (\<forall>x. home (unat (log_start s)) (unat x) \<longrightarrow> view t x = view s x)"
  using assms
proof (induction ts arbitrary: s)
  case Nil
  then show ?case by (simp add: log_writes_def cframe_refl)
next
  case (Cons k ts)
  have k: "k < n" and ts: "set ts \<subseteq> {..<n}" using Cons(5) by auto
  note lb = log_block [OF Cons(3) k]
  have dev: "log_dev s = 1" using Cons(3) by (simp add: log_region_def)
  let ?a = "log_start s + of_nat k + 1"
  obtain u where u: "write_log_loop (k # ts) s = write_log_loop ts u" and p: "copy_post ?a (lh_block s ! k) s u"
    by (rule write_log_step [OF Cons(2) dev lb(3,2,4) Cons(4)]) (use Cons(6) k in auto)
  have f: "cframe s u" and ok: "cache_ok {} u" and dk: "disk u = (disk s)(unat ?a := view s (lh_block s ! k))"
    and dw: "dwrites u = dwrites s @ [(unat ?a, view s (lh_block s ! k))]"
    and v: "view u = (view s)(?a := view s (lh_block s ! k))" and d: "dirty u \<subseteq> dirty s" "dirty_blocks u = dirty_blocks s - {?a}"
    using p by (auto simp: copy_post_def)
  note fl = cframe_log [OF f]
  have nh: "?a \<noteq> x" if "home (unat (log_start s)) (unat x)" for x
  proof
    assume "?a = x"
    then have "unat x = unat (log_start s) + 1 + k" using lb(1) by simp
    with that k Cons(3) show False by (simp add: home_def log_region_def)
  qed
  have hb: "home (unat (log_start s)) (unat (lh_block s ! j))" if "j < n" for j
    using Cons(3) that by (simp add: log_region_def)
  have cl: "clean u \<noteq> {}"
    using Cons(4) d(1) cframe_simps(4) [OF f] by (auto simp: clean_def)
  have du: "\<forall>j < n. lh_block u ! j \<in> dirty_blocks u"
  proof (intro allI impI)
    fix j assume "j < n"
    with Cons(6) not_sym [OF nh [OF hb [OF this]]] show "lh_block u ! j \<in> dirty_blocks u" by (simp add: d(2) fl)
  qed
  have ru: "log_region n u" using Cons(3) log_region_cframe [OF f] by simp
  obtain t where t: "write_log_loop ts u = Ok () t" "cframe u t" "cache_ok {} t" "clean t \<noteq> {}"
    "dwrites t = dwrites u @ log_writes ts u" "disk t = apply_writes (log_writes ts u) (disk u)"
    "\<forall>j < n. lh_block u ! j \<in> dirty_blocks t" "dirty_blocks t \<subseteq> dirty_blocks u"
    "\<forall>x. home (unat (log_start u)) (unat x) \<longrightarrow> view t x = view u x"
    using Cons(1) [OF ok ru cl ts du] by blast
  have vw: "view u x = view s x" if "home (unat (log_start s)) (unat x)" for x using nh [OF that] by (simp add: v)
  have lw: "log_writes ts u = log_writes ts s"
    unfolding log_writes_def fl using vw hb ts by (intro map_cong) auto
  have lc: "log_writes (k # ts) s = (unat ?a, view s (lh_block s ! k)) # log_writes ts s"
    by (simp add: log_writes_def lb(1))
  show ?case
    by (intro exI [of _ t] conjI) (use t u f dw dk lw lc d vw cframe_trans [OF f t(2)] in \<open>simp_all add: fl\<close>, blast)
qed

definition two_clean :: "'z bstate_scheme \<Rightarrow> bool" where
  "two_clean s \<longleftrightarrow> (\<exists>i \<in> clean s. \<exists>j \<in> clean s. i \<noteq> j)"

lemma clean_grows:
  assumes "copy_post a b s t"
  shows "clean s \<subseteq> clean t"
proof -
  have f: "cframe s t" and d: "dirty t \<subseteq> dirty s" using assms by (auto simp: copy_post_def)
  show ?thesis using d cframe_simps(4) [OF f] by (auto simp: clean_def)
qed

text \<open>Installing a dirty block frees its buffer for recycling.\<close>

lemma two_clean_after:
  assumes p: "copy_post a b s t" and c: "clean s \<noteq> {}" and r: "a \<in> dirty_blocks s \<or> two_clean s"
  shows "two_clean t"
proof (cases "a \<in> dirty_blocks s")
  case True
  then have "dirty t \<subset> dirty s" using p by (simp add: copy_post_def)
  then obtain i where i: "i \<in> dirty s" "i \<notin> dirty t" by blast
  have f: "cframe s t" using p by (simp add: copy_post_def)
  obtain c where "c \<in> clean s" using c by blast
  then have "c \<in> clean t" "c \<noteq> i" using clean_grows [OF p] i by (auto simp: clean_def)
  moreover have "i \<in> clean t" using i cframe_simps(4) [OF f] by (simp add: clean_def dirty_def)
  ultimately show ?thesis unfolding two_clean_def by (intro bexI)
next
  case False
  with r have "two_clean s" by simp
  with clean_grows [OF p] show ?thesis unfolding two_clean_def by (elim bexE) (intro bexI, assumption, erule (1) subsetD, erule (1) subsetD)
qed

definition install_writes :: "nat list \<Rightarrow> 'z logstate_scheme \<Rightarrow> (nat \<times> byte list) list" where
  "install_writes ts s = map (\<lambda>k. (unat (lh_block s ! k), view s (log_start s + of_nat k + 1))) ts"

lemma install_loop_ok:
  assumes "cache_ok {} s" "log_region n s" "clean s \<noteq> {}" "set ts \<subseteq> {..<n}"
    "two_clean s \<or> (\<forall>k \<in> set ts. lh_block s ! k \<in> dirty_blocks s)"
  shows "\<exists>t. install_loop ts s = Ok () t \<and> cframe s t \<and> cache_ok {} t \<and> clean t \<noteq> {}
    \<and> dwrites t = dwrites s @ install_writes ts s \<and> disk t = apply_writes (install_writes ts s) (disk s)
    \<and> dirty_blocks t = dirty_blocks s - (\<lambda>k. lh_block s ! k) ` set ts"
  using assms
proof (induction ts arbitrary: s)
  case Nil
  then show ?case by (simp add: install_writes_def cframe_refl)
next
  case (Cons k ts)
  have k: "k < n" and ts: "set ts \<subseteq> {..<n}" using Cons(5) by auto
  note lb = log_block [OF Cons(3) k]
  have dev: "log_dev s = 1" using Cons(3) by (simp add: log_region_def)
  let ?a = "log_start s + of_nat k + 1"
  have room: "lh_block s ! k \<in> dirty_blocks s \<or> two_clean s" using Cons(6) by auto
  obtain u where u: "install_loop (k # ts) s = install_loop ts u" and p: "copy_post (lh_block s ! k) ?a s u"
    by (rule install_step [OF Cons(2) dev lb(3,2,4) Cons(4) room [unfolded two_clean_def]])
  have f: "cframe s u" and ok: "cache_ok {} u" and dk: "disk u = (disk s)(unat (lh_block s ! k) := view s ?a)"
    and dw: "dwrites u = dwrites s @ [(unat (lh_block s ! k), view s ?a)]"
    and v: "view u = (view s)(lh_block s ! k := view s ?a)" and d: "dirty_blocks u = dirty_blocks s - {lh_block s ! k}"
    using p by (auto simp: copy_post_def)
  note fl = cframe_log [OF f]
  have two: "two_clean u" by (rule two_clean_after [OF p Cons(4) room])
  have cl: "clean u \<noteq> {}" using two by (auto simp: two_clean_def)
  have ru: "log_region n u" using Cons(3) log_region_cframe [OF f] by simp
  obtain t where t: "install_loop ts u = Ok () t" "cframe u t" "cache_ok {} t" "clean t \<noteq> {}"
    "dwrites t = dwrites u @ install_writes ts u" "disk t = apply_writes (install_writes ts u) (disk u)"
    "dirty_blocks t = dirty_blocks u - (\<lambda>k. lh_block u ! k) ` set ts"
    using Cons(1) [OF ok ru cl ts disjI1 [OF two]] by blast
  have vl: "view u (log_start s + of_nat j + 1) = view s (log_start s + of_nat j + 1)" if "j < n" for j
  proof -
    have "unat (log_start s + of_nat j + 1) = unat (log_start s) + 1 + j" by (rule log_block(1) [OF Cons(3) that])
    moreover have "home (unat (log_start s)) (unat (lh_block s ! k))" "n < LOGSIZE"
      using Cons(3) k by (auto simp: log_region_def)
    ultimately have "log_start s + of_nat j + 1 \<noteq> lh_block s ! k" using that by (auto simp: home_def)
    then show ?thesis by (simp add: v)
  qed
  have iw: "install_writes ts u = install_writes ts s"
    unfolding install_writes_def fl using vl ts by (intro map_cong) auto
  have ic: "install_writes (k # ts) s = (unat (lh_block s ! k), view s ?a) # install_writes ts s"
    by (simp add: install_writes_def)
  have db: "dirty_blocks t = dirty_blocks s - (\<lambda>k. lh_block s ! k) ` set (k # ts)"
    unfolding t(7) fl d by auto
  show ?case
    by (intro exI [of _ t] conjI) (use t(1-6) u dw dk iw ic db cframe_trans [OF f t(2)] in \<open>simp_all add: fl\<close>)
qed

subsection \<open>The header\<close>

lemma length_put_entries [simp]: "length (put_entries ks bl d) = length d"
  by (induction ks arbitrary: d) simp_all

lemma put_entries_rd:
  "4 + 4 * j + 4 \<le> length d \<Longrightarrow>
   rd32 (put_entries ks bl d) (4 + 4 * j) = (if j \<in> set ks then bl ! j else rd32 d (4 + 4 * j))"
proof (induction ks arbitrary: d)
  case (Cons k ks)
  have "rd32 (wr32 d (4 + 4 * k) (bl ! k)) (4 + 4 * j) = (if j = k then bl ! j else rd32 d (4 + 4 * j))"
    using Cons(2) rd32_wr32 [of "4 + 4 * j" d "bl ! j"] rd32_wr32_other [of "4 + 4 * k" "4 + 4 * j" d "bl ! k"]
    by (cases "j = k") (simp_all, linarith)
  with Cons show ?case by simp
qed simp

lemma put_entries_rd0: "rd32 (put_entries ks bl d) 0 = rd32 d 0"
proof (induction ks arbitrary: d)
  case (Cons k ks)
  then show ?case using rd32_wr32_other [of "4 + 4 * k" 0 d "bl ! k"] by simp
qed simp

definition hdr_bytes :: "cint \<Rightarrow> cint list \<Rightarrow> byte list \<Rightarrow> byte list" where
  "hdr_bytes n bl d = put_entries [0..<nat (sint n)] bl (wr32 d 0 n)"

lemma hdr_bytes_rd:
  assumes "length d = BSIZE"
  shows "length (hdr_bytes n bl d) = BSIZE" "hdr_n (hdr_bytes n bl d) = nat (sint n)"
    "k < nat (sint n) \<Longrightarrow> k < LOGSIZE \<Longrightarrow> hdr_entry (hdr_bytes n bl d) k = bl ! k"
  using assms by (simp_all add: hdr_bytes_def hdr_n_def hdr_entry_def put_entries_rd0 put_entries_rd BSIZE_def LOGSIZE_def)

lemma lh_n_frame [simp]:
  "cache_ok H (s\<lparr>lh_n := x\<rparr>) = cache_ok H s" "view (s\<lparr>lh_n := x\<rparr>) = view s" "dirty (s\<lparr>lh_n := x\<rparr>) = dirty s"
  "dirty_blocks (s\<lparr>lh_n := x\<rparr>) = dirty_blocks s" "clean (s\<lparr>lh_n := x\<rparr>) = clean s"
  "log_region n (s\<lparr>lh_n := x\<rparr>) = log_region n s"
  by (simp_all add: cache_ok_def lone_def lock_ok_def buf_ok_def view_def [abs_def] dirty_def dirty_blocks_def clean_def
      log_region_def cong: option.case_cong)

lemma cframe_lh_n:
  assumes "cframe s t"
  shows "cframe (s\<lparr>lh_n := x\<rparr>) (t\<lparr>lh_n := x\<rparr>)"
proof -
  obtain P L B R D W where t: "t = s\<lparr>ptable := P, slocks := L, bufs := B, lru := R, disk := D, dwrites := W\<rparr>"
    and e: "map pid P = map pid (ptable s)" "length B = length (bufs s)"
    using assms unfolding cframe_def by blast
  have "t\<lparr>lh_n := x\<rparr> = (s\<lparr>lh_n := x\<rparr>)\<lparr>ptable := P, slocks := L, bufs := B, lru := R, disk := D, dwrites := W\<rparr>"
    by (simp add: t)
  with e show ?thesis unfolding cframe_def by (intro exI conjI) (assumption, simp_all)
qed

lemma write_head_ok:
  assumes ok: "cache_ok {} s" and reg: "log_region n s" and cl: "clean s \<noteq> {}"
    and nd: "log_start s \<notin> dirty_blocks s"
  shows "\<exists>t. write_head s = Ok () t \<and> cframe s t \<and> cache_ok {} t
    \<and> dwrites t = dwrites s @ [(unat (log_start s), hdr_bytes (lh_n s) (lh_block s) (disk s (unat (log_start s))))]
    \<and> disk t = (disk s)(unat (log_start s) := hdr_bytes (lh_n s) (lh_block s) (disk s (unat (log_start s))))
    \<and> dirty t \<subseteq> dirty s \<and> dirty_blocks t = dirty_blocks s"
proof -
  have dev: "log_dev s = 1" and ls: "log_start s < disksize s"
    using reg by (auto simp: log_region_def word_less_nat_alt)
  have room: "log_start s \<in> dirty_blocks s \<or> (\<exists>i < length (bufs s). i \<notin> {} \<and> bflags (bufs s ! i) \<noteq> 6)"
    using cl unfolding ex_in_conv [symmetric] clean_iff by blast
  obtain i s1 where r: "bread 1 (log_start s) s = Ok i s1" and p1: "bread_post {} (log_start s) s i s1"
    by (rule bread_ok [OF ok ls _ room]) simp
  note q1 = p1 [unfolded bread_post_def]
  have f1: "cframe s s1" using q1 by simp
  have ok1: "cache_ok {i} s1" and c1: "caches (log_start s) (bufs s1 ! i)" using q1 by simp_all
  have bd: "bdata (bufs s1 ! i) = disk s (unat (log_start s))" using q1 view_clean [OF nd] by simp
  have ls1: "log_start s < disksize s1" using ls cframe_simps(3) [OF f1] by simp
  let ?h = "hdr_bytes (lh_n s) (lh_block s) (disk s (unat (log_start s)))"
  obtain s2 where w: "bwrite i (upd_buf i (\<lambda>b. b\<lparr>bdata := ?h\<rparr>) s1) = Ok () s2"
    and p2: "bwrite_post {i} (log_start s) ?h i s1 s2"
    by (rule bwrite_ok [OF ok1 _ c1 ls1]) simp_all
  note q2 = p2 [unfolded bwrite_post_def]
  have ok2: "cache_ok {i} s2" using q2 by simp
  obtain t where rl: "brelse i s2 = Ok () t" and p3: "brelse_post {i} i s2 t"
    by (rule brelse_ok [OF ok2, of i]) simp_all
  note q3 = p3 [unfolded brelse_post_def]
  have "write_head s = Ok () t"
    using r w rl cframe_log [OF f1] by (simp add: write_head_def dev set_bdata_def bd entries_def hdr_bytes_def)
  moreover have "cframe s t" using f1 q2 q3 cframe_trans by metis
  ultimately show ?thesis using q1 q2 q3 nd by (intro exI [of _ t]) auto
qed

subsection \<open>Commit\<close>

text \<open>
  What holds when the last operation of a transaction calls \<open>commit\<close>: the dirty buffers are those
  of the logged blocks, at least one buffer is left to work with, and the header on disk is clear.
\<close>

definition commit_ready :: "'z logstate_scheme \<Rightarrow> bool" where
  "commit_ready s \<longleftrightarrow> cache_ok {} s \<and> 0 < sint (lh_n s) \<and> log_region (nat (sint (lh_n s))) s \<and> clean s \<noteq> {}
     \<and> dirty_blocks s = (\<lambda>k. lh_block s ! k) ` {..<nat (sint (lh_n s))}
     \<and> hdr_n (disk s (unat (log_start s))) = 0 \<and> length (disk s (unat (log_start s))) = BSIZE"

definition home_of :: "'z logstate_scheme \<Rightarrow> nat \<Rightarrow> nat" where
  "home_of s k = unat (lh_block s ! k)"

definition view_at :: "'z bstate_scheme \<Rightarrow> blocks" where
  "view_at s b = view s (of_nat b)"

definition header1 :: "'z logstate_scheme \<Rightarrow> byte list" where
  "header1 s = hdr_bytes (lh_n s) (lh_block s) (disk s (unat (log_start s)))"

definition header0 :: "'z logstate_scheme \<Rightarrow> byte list" where
  "header0 s = hdr_bytes 0 (lh_block s) (header1 s)"

definition writes_of_commit :: "'z logstate_scheme \<Rightarrow> (nat \<times> byte list) list" where
  "writes_of_commit s =
     commit_writes (unat (log_start s)) (nat (sint (lh_n s))) (home_of s) (view_at s) (header1 s) (header0 s)"

lemma dirty_home:
  assumes "log_region n s" "x \<in> (\<lambda>k. lh_block s ! k) ` {..<n}"
  shows "home (unat (log_start s)) (unat x)"
  using assms by (auto simp: log_region_def)

lemma log_block_not_home: "\<not> home ls ls" "Suc k < LOGSIZE \<Longrightarrow> \<not> home ls (ls + 1 + k)"
  by (simp_all add: home_def LOGSIZE_def)

lemma log_part_view: "log_writes [0..<n] s = log_part (unat (log_start s)) n (home_of s) (view_at s)"
  by (simp add: log_writes_def log_part_def home_of_def view_at_def)

lemma commit_ok:
  assumes "commit_ready s"
  shows "\<exists>t. commit s = Ok () t \<and> cframe (s\<lparr>lh_n := 0\<rparr>) t \<and> cache_ok {} t \<and> dirty_blocks t = {}
    \<and> dwrites t = dwrites s @ writes_of_commit s \<and> disk t = apply_writes (writes_of_commit s) (disk s)"
proof -
  let ?n = "nat (sint (lh_n s))" and ?ls = "unat (log_start s)"
  have ok: "cache_ok {} s" and pos: "0 < sint (lh_n s)" and reg: "log_region ?n s" and cl: "clean s \<noteq> {}"
    and db: "dirty_blocks s = (\<lambda>k. lh_block s ! k) ` {..<?n}"
    using assms by (auto simp: commit_ready_def)
  have pos': "0 <s lh_n s" using pos by (simp add: word_sless_alt)
  have nle: "?n < LOGSIZE" using reg by (simp add: log_region_def)
  have nd: "x \<notin> dirty_blocks s" if "\<not> home ?ls (unat x)" for x
    using that dirty_home [OF reg] by (auto simp: db)
  have ts: "set [0..<?n] \<subseteq> {..<?n}" by auto
  have din: "\<forall>k < ?n. lh_block s ! k \<in> dirty_blocks s" using db by auto
  obtain s1 where w1: "write_log_loop [0..<?n] s = Ok () s1" and f1: "cframe s s1" and ok1: "cache_ok {} s1" and cl1: "clean s1 \<noteq> {}"
    and dw1: "dwrites s1 = dwrites s @ log_writes [0..<?n] s" and dk1: "disk s1 = apply_writes (log_writes [0..<?n] s) (disk s)"
    and db1: "\<forall>k < ?n. lh_block s ! k \<in> dirty_blocks s1" "dirty_blocks s1 \<subseteq> dirty_blocks s"
    using write_log_loop_ok [OF ok reg cl ts din] by blast
  note l1 = cframe_log [OF f1]
  have reg1: "log_region ?n s1" using reg log_region_cframe [OF f1] by simp
  have nd1: "log_start s1 \<notin> dirty_blocks s1" using nd [of "log_start s"] db1(2) log_block_not_home(1) by (auto simp: l1)
  have same1: "disk s1 ?ls = disk s ?ls"
    unfolding dk1 log_part_view using log_part_other [of ?ls ?ls ?n ?n "home_of s" "view_at s" "disk s"]
    by (simp add: log_part_def)
  obtain s2 where w2: "write_head s1 = Ok () s2" and f2: "cframe s1 s2" and ok2: "cache_ok {} s2"
    and dw2: "dwrites s2 = dwrites s1 @ [(?ls, header1 s)]" and dk2: "disk s2 = (disk s1)(?ls := header1 s)"
    and d2: "dirty s2 \<subseteq> dirty s1" "dirty_blocks s2 = dirty_blocks s1"
    using write_head_ok [OF ok1 reg1 cl1 nd1] by (auto simp: l1 same1 header1_def)
  note l2 = cframe_log [OF f2]
  have reg2: "log_region ?n s2" using reg1 log_region_cframe [OF f2] by simp
  have cl2: "clean s2 \<noteq> {}" using cl1 d2(1) cframe_simps(4) [OF f2] by (auto simp: clean_def)
  have in2: "\<forall>k \<in> set [0..<?n]. lh_block s2 ! k \<in> dirty_blocks s2" using db1(1) by (simp add: l1 l2 d2)
  obtain s3 where w3: "install_loop [0..<?n] s2 = Ok () s3" and f3: "cframe s2 s3" and ok3: "cache_ok {} s3" and cl3: "clean s3 \<noteq> {}"
    and dw3: "dwrites s3 = dwrites s2 @ install_writes [0..<?n] s2" and dk3: "disk s3 = apply_writes (install_writes [0..<?n] s2) (disk s2)"
    and db3: "dirty_blocks s3 = dirty_blocks s2 - (\<lambda>k. lh_block s2 ! k) ` set [0..<?n]"
    using install_loop_ok [OF ok2 reg2 cl2 ts disjI2 [OF in2]] by blast
  note l3 = cframe_log [OF f3]
  have e3: "dirty_blocks s3 = {}" using db3 db db1(2) d2(2) by (auto simp: l1 l2)
  have iw: "install_writes [0..<?n] s2 = home_part ?n (home_of s) (view_at s)"
  proof -
    have "view s2 (log_start s + of_nat k + 1) = view s (lh_block s ! k)" if "k < ?n" for k
    proof -
      have u: "unat (log_start s + of_nat k + 1) = ?ls + 1 + k" by (rule log_block(1) [OF reg that])
      have "\<not> home ?ls (?ls + 1 + k)" using that nle by (intro log_block_not_home) simp
      then have "log_start s + of_nat k + 1 \<notin> dirty_blocks s2"
        using nd [of "log_start s + of_nat k + 1"] u db1(2) d2(2) by auto
      then have "view s2 (log_start s + of_nat k + 1) = disk s2 (?ls + 1 + k)" by (simp add: view_clean u)
      also have "\<dots> = view s (lh_block s ! k)"
        using log_part_at [OF that, of ?ls "home_of s" "view_at s" "disk s"]
        by (simp add: dk2 dk1 log_part_view view_at_def home_of_def)
      finally show ?thesis .
    qed
    then show ?thesis by (simp add: install_writes_def home_part_def home_of_def view_at_def l1 l2)
  qed
  let ?s3 = "s3\<lparr>lh_n := 0\<rparr>"
  have reg3: "log_region ?n ?s3" using reg2 log_region_cframe [OF f3] by simp
  have ls3: "disk s3 ?ls = header1 s"
  proof -
    have "?ls \<notin> home_of s ` {..<?n}" using dirty_home [OF reg] log_block_not_home(1) by (force simp: home_of_def)
    then show ?thesis using home_part_take [of ?n ?n "home_of s" "view_at s" "disk s2" ?ls]
      by (simp add: dk3 iw dk2 home_part_def)
  qed
  obtain t where w4: "write_head ?s3 = Ok () t" and f4: "cframe ?s3 t" and ok4: "cache_ok {} t"
    and dw4: "dwrites t = dwrites s3 @ [(?ls, header0 s)]" and dk4: "disk t = (disk s3)(?ls := header0 s)"
    and d4: "dirty_blocks t = {}"
    using write_head_ok [of ?s3 ?n] ok3 reg3 cl3 e3 by (auto simp: l1 l2 l3 ls3 header0_def)
  have "entries s = [0..<?n]" "entries s2 = [0..<?n]" by (simp_all add: entries_def l1 l2)
  then have "commit s = Ok () t"
    using pos' w1 w2 w3 w4 by (simp add: commit_def write_log_def install_trans_def)
  moreover have "cframe (s\<lparr>lh_n := 0\<rparr>) t"
  proof -
    have "cframe s s3" by (rule cframe_trans [OF f1 cframe_trans [OF f2 f3]])
    then have "cframe (s\<lparr>lh_n := 0\<rparr>) ?s3" by (rule cframe_lh_n)
    then show ?thesis by (rule cframe_trans [OF _ f4])
  qed
  moreover have "dwrites t = dwrites s @ writes_of_commit s"
    by (simp add: dw4 dw3 dw2 dw1 iw log_part_view writes_of_commit_def commit_writes_def)
  moreover have "disk t = apply_writes (writes_of_commit s) (disk s)"
    by (simp add: dk4 dk3 dk2 dk1 iw log_part_view writes_of_commit_def commit_writes_def)
  ultimately show ?thesis using ok4 d4 by blast
qed

text \<open>The contents a commit installs.\<close>

definition committed :: "'z logstate_scheme \<Rightarrow> blocks" where
  "committed s = overlay (nat (sint (lh_n s))) (home_of s) (view_at s) (disk s)"

lemma commit_all_or_none:
  assumes "commit_ready s"
  shows "same_home (unat (log_start s)) (logical (unat (log_start s)) (apply_writes (take m (writes_of_commit s)) (disk s))) (disk s)
      \<or> same_home (unat (log_start s)) (logical (unat (log_start s)) (apply_writes (take m (writes_of_commit s)) (disk s))) (committed s)"
    "same_home (unat (log_start s)) (apply_writes (writes_of_commit s) (disk s)) (committed s)"
    "hdr_n (apply_writes (writes_of_commit s) (disk s) (unat (log_start s))) = 0"
proof -
  let ?n = "nat (sint (lh_n s))" and ?ls = "unat (log_start s)"
  have reg: "log_region ?n s" and len: "length (disk s ?ls) = BSIZE" and z: "hdr_n (disk s ?ls) = 0"
    using assms by (auto simp: commit_ready_def)
  have hm: "home ?ls (home_of s k)" if "k < ?n" for k using reg that by (auto simp: log_region_def home_of_def)
  have n: "?n < LOGSIZE" using reg by (simp add: log_region_def)
  have h1: "length (header1 s) = BSIZE" "hdr_n (header1 s) = ?n" "k < ?n \<Longrightarrow> unat (hdr_entry (header1 s) k) = home_of s k" for k
    using n by (simp_all add: header1_def hdr_bytes_rd [OF len] home_of_def)
  have h0: "hdr_n (header0 s) = 0" by (simp add: header0_def hdr_bytes_rd [OF h1(1)])
  note all = commit_writes_atomic [where v = "view_at s" and d = "disk s" and ls = ?ls and h = "home_of s", OF z n hm h1(2,3) h0,
      folded writes_of_commit_def committed_def]
  show "same_home ?ls (logical ?ls (apply_writes (take m (writes_of_commit s)) (disk s))) (disk s)
      \<or> same_home ?ls (logical ?ls (apply_writes (take m (writes_of_commit s)) (disk s))) (committed s)"
    "same_home ?ls (apply_writes (writes_of_commit s) (disk s)) (committed s)"
    "hdr_n (apply_writes (writes_of_commit s) (disk s) ?ls) = 0"
    by (rule all; assumption?)+
qed

text \<open>
  C1. A commit is atomic with respect to crashes: it returns, and whatever prefix of its disk
  writes is done when the machine stops, recovery from that disk gives every home block its old
  contents or gives every one its new contents, those of the transaction; when it has returned
  the home blocks are the new ones and the log is empty.
\<close>

theorem log_commit_atomic:
  assumes "commit_ready s"
  shows "\<exists>t ws. commit s = Ok () t \<and> dwrites t = dwrites s @ ws \<and> disk t = apply_writes ws (disk s)
    \<and> (let ls = unat (log_start s); new = committed s in
        (\<forall>m. same_home ls (logical ls (apply_writes (take m ws) (disk s))) (disk s)
           \<or> same_home ls (logical ls (apply_writes (take m ws) (disk s))) new)
        \<and> same_home ls (disk t) new \<and> hdr_n (disk t ls) = 0)"
proof -
  obtain t where t: "commit s = Ok () t" "dwrites t = dwrites s @ writes_of_commit s"
    "disk t = apply_writes (writes_of_commit s) (disk s)"
    using commit_ok [OF assms] by blast
  show ?thesis
    unfolding Let_def
    by (intro exI [of _ t] exI [of _ "writes_of_commit s"] conjI allI) (use t commit_all_or_none [OF assms] in simp_all)
qed

text \<open>A transaction of one block.\<close>

definition logged_buf :: buf where
  "logged_buf = \<lparr>bflags = 6, bdev = 1, bblockno = 100, brefcnt = 0, bdata = replicate BSIZE 7\<rparr>"

definition log1 :: logstate where
  "log1 = log0\<lparr>bufs := logged_buf # replicate 29 buf0, lh_n := 1, lh_block := 100 # replicate 29 0\<rparr>"

lemma log0_simps [simp]:
  "held log0 = {}" "cpu_proc log0 = Some 0" "ptable log0 = [proc0\<lparr>pid := 4\<rparr>]"
  "slocks log0 = (\<lambda>_. \<lparr>sl_locked = 0, sl_name = [], sl_pid = 0\<rparr>)" "bufs log0 = replicate NBUF buf0" "lru log0 = rev [0..<NBUF]"
  "disk log0 = (\<lambda>_. replicate BSIZE 0)" "disksize log0 = 1000" "dwrites log0 = []" "log_start log0 = 2" "log_dev log0 = 1"
  "lh_n log0 = 0" "lh_block log0 = replicate LOGSIZE 0"
  by (simp_all add: log0_def bstate0_def km0_def bstate.defs kmstate.defs slcore.defs slcore0_def pcore.defs pcore0_def)

lemma log1_bufs: "bufs log1 ! i = (if i = 0 then logged_buf else buf0)" if "i < 30"
  using that by (simp add: log1_def nth_Cons')

lemma hdr_n_zero [simp]: "hdr_n (replicate BSIZE 0) = 0"
  by (simp add: hdr_n_def rd32_def BSIZE_def)

lemma log1_ready: "commit_ready log1"
proof -
  have len: "length (bufs log1) = 30" by (simp add: log1_def)
  have d: "dirty log1 = {0}" by (auto simp: dirty_def len log1_bufs logged_buf_def buf0_def split: if_splits)
  have ok: "cache_ok {} log1"
    unfolding cache_ok_def
  proof (intro conjI)
    show "one_each (bufs log1)" by (auto simp: one_each_def len log1_bufs caches_def buf0_def split: if_splits)
    show "\<forall>i < length (bufs log1). buf_ok log1 (bufs log1 ! i) \<and> lock_ok {} log1 i"
      by (auto simp: len log1_bufs buf_ok_def lock_ok_def logged_buf_def buf0_def) (simp_all add: log1_def)
  qed (auto simp: lone_def log1_def NBUF_def)
  have "1 \<in> clean log1" using d len by (simp add: clean_def)
  then have "clean log1 \<noteq> {}" by blast
  moreover have f: "lh_n log1 = 1" "log_dev log1 = 1" "log_start log1 = 2" "disksize log1 = 1000" "lh_block log1 ! 0 = 100"
    "disk log1 = (\<lambda>_. replicate BSIZE 0)"
    by (simp_all add: log1_def)
  moreover have "log_region 1 log1" by (simp add: log_region_def f LOGSIZE_def home_def)
  moreover have "dirty_blocks log1 = (\<lambda>k. lh_block log1 ! k) ` {..<1}"
    by (simp add: dirty_blocks_def d log1_bufs logged_buf_def f lessThan_Suc)
  ultimately show ?thesis using ok by (simp add: commit_ready_def)
qed

theorem log_commit_atomic_witness:
  "commit_ready log1 \<and> (\<exists>t. commit log1 = Ok () t \<and> disk t 100 = replicate BSIZE 7)"
proof -
  obtain t ws where t: "commit log1 = Ok () t" "same_home 2 (disk t) (overlay 1 (home_of log1) (view_at log1) (disk log1))"
    using log_commit_atomic [OF log1_ready] by (auto simp: Let_def committed_def log1_def)
  have "view log1 100 = replicate BSIZE 7"
    by (simp add: view_def log1_def logged_buf_def caches_def)
  then have "overlay 1 (home_of log1) (view_at log1) (disk log1) 100 = replicate BSIZE 7"
    by (simp add: overlay_def home_of_def view_at_def log1_def)
  with t have "disk t 100 = replicate BSIZE 7" by (simp add: same_home_def home_def LOGSIZE_def)
  with t log1_ready show ?thesis by blast
qed

subsection \<open>Recovery\<close>

lemma apply_writes_again: "apply_writes ws (apply_writes (take m ws) d) = apply_writes ws d"
proof
  fix b
  have base: "b \<in> fst ` set vs \<Longrightarrow> apply_writes vs e b = apply_writes vs d b" for vs and e d :: blocks
  proof (induction vs arbitrary: e d)
    case (Cons v vs)
    obtain c x where v: "v = (c, x)" by fastforce
    show ?case
    proof (cases "b \<in> fst ` set vs")
      case True
      then show ?thesis using Cons(1) by (simp add: v)
    next
      case False
      with Cons(2) show ?thesis by (simp add: v apply_writes_other)
    qed
  qed simp
  show "apply_writes ws (apply_writes (take m ws) d) b = apply_writes ws d b"
  proof (cases "b \<in> fst ` set ws")
    case True
    then show ?thesis by (rule base)
  next
    case False
    then have "b \<notin> fst ` set (take m ws)" by (auto dest: in_set_takeD)
    with False show ?thesis by (simp add: apply_writes_other)
  qed
qed

text \<open>A machine that has just come up with nothing in its cache, on a disk with a readable header.\<close>

definition recover_ready :: "'z logstate_scheme \<Rightarrow> bool" where
  "recover_ready s \<longleftrightarrow> cache_ok {} s \<and> dirty s = {} \<and> two_clean s \<and> log_dev s = 1
     \<and> unat (log_start s) + LOGSIZE \<le> unat (disksize s) \<and> length (lh_block s) = LOGSIZE
     \<and> (let h = disk s (unat (log_start s)) in length h = BSIZE \<and> hdr_n h < LOGSIZE
         \<and> (\<forall>k < hdr_n h. hdr_entry h k < disksize s \<and> home (unat (log_start s)) (unat (hdr_entry h k))))"

definition install_list :: "nat \<Rightarrow> blocks \<Rightarrow> (nat \<times> byte list) list" where
  "install_list ls d = map (\<lambda>k. (unat (hdr_entry (d ls) k), d (ls + 1 + k))) [0..<hdr_n (d ls)]"

lemma logical_install: "logical ls d = apply_writes (install_list ls d) d"
  by (simp add: logical_def install_list_def)

lemma lh_block_frame [simp]:
  "cache_ok H (s\<lparr>lh_n := x, lh_block := y\<rparr>) = cache_ok H s" "view (s\<lparr>lh_n := x, lh_block := y\<rparr>) = view s"
  "dirty (s\<lparr>lh_n := x, lh_block := y\<rparr>) = dirty s" "clean (s\<lparr>lh_n := x, lh_block := y\<rparr>) = clean s"
  "dirty_blocks (s\<lparr>lh_n := x, lh_block := y\<rparr>) = dirty_blocks s"
  by (simp_all add: cache_ok_def lone_def lock_ok_def buf_ok_def view_def [abs_def] dirty_def dirty_blocks_def clean_def
      cong: option.case_cong)

lemma cframe_lh_block:
  assumes "cframe s t"
  shows "cframe (s\<lparr>lh_n := x, lh_block := y\<rparr>) (t\<lparr>lh_n := x, lh_block := y\<rparr>)"
proof -
  obtain P L B R D W where t: "t = s\<lparr>ptable := P, slocks := L, bufs := B, lru := R, disk := D, dwrites := W\<rparr>"
    and e: "map pid P = map pid (ptable s)" "length B = length (bufs s)"
    using assms unfolding cframe_def by blast
  have "t\<lparr>lh_n := x, lh_block := y\<rparr>
      = (s\<lparr>lh_n := x, lh_block := y\<rparr>)\<lparr>ptable := P, slocks := L, bufs := B, lru := R, disk := D, dwrites := W\<rparr>"
    by (simp add: t)
  with e show ?thesis unfolding cframe_def by (intro exI conjI) (assumption, simp_all)
qed

definition loaded_head :: "'z logstate_scheme \<Rightarrow> 'z logstate_scheme" where
  "loaded_head s =
     (let h = disk s (unat (log_start s)) in
      s\<lparr>lh_n := rd32 h 0, lh_block := map (hdr_entry h) [0..<hdr_n h] @ drop (hdr_n h) (lh_block s)\<rparr>)"

lemma read_head_ok:
  assumes "recover_ready s"
  shows "\<exists>t. read_head s = Ok () t \<and> cframe (loaded_head s) t \<and> cache_ok {} t \<and> dirty t = {} \<and> disk t = disk s
    \<and> dwrites t = dwrites s"
proof -
  let ?h = "disk s (unat (log_start s))"
  have ok: "cache_ok {} s" and d: "dirty s = {}" and two: "two_clean s" and dev: "log_dev s = 1"
    and r: "unat (log_start s) + LOGSIZE \<le> unat (disksize s)" and n: "hdr_n ?h < LOGSIZE"
    using assms by (auto simp: recover_ready_def Let_def)
  have ls: "log_start s < disksize s" using r by (simp add: word_less_nat_alt LOGSIZE_def)
  have nd: "log_start s \<notin> dirty_blocks s" using d by (simp add: dirty_blocks_def)
  have "clean s \<noteq> {}" using two by (auto simp: two_clean_def)
  then have room: "log_start s \<in> dirty_blocks s \<or> (\<exists>i < length (bufs s). i \<notin> {} \<and> bflags (bufs s ! i) \<noteq> 6)"
    unfolding ex_in_conv [symmetric] clean_iff by blast
  obtain i s1 where b: "bread 1 (log_start s) s = Ok i s1" and p1: "bread_post {} (log_start s) s i s1"
    by (rule bread_ok [OF ok ls _ room]) simp
  note q1 = p1 [unfolded bread_post_def]
  have f1: "cframe s s1" and ok1: "cache_ok {i} s1" and bd: "bdata (bufs s1 ! i) = ?h"
    using q1 view_clean [OF nd] by simp_all
  let ?s2 = "s1\<lparr>lh_n := rd32 ?h 0, lh_block := map (hdr_entry ?h) [0..<hdr_n ?h] @ drop (hdr_n ?h) (lh_block s1)\<rparr>"
  have f2: "cframe (loaded_head s) ?s2"
    using cframe_lh_block [OF f1] by (simp add: loaded_head_def Let_def cframe_log [OF f1])
  have ok2: "cache_ok {i} ?s2" using ok1 by simp
  obtain t where rl: "brelse i ?s2 = Ok () t" and p3: "brelse_post {i} i ?s2 t"
    by (rule brelse_ok [OF ok2, of i]) simp_all
  note q3 = p3 [unfolded brelse_post_def]
  have "\<not> LOGSIZE < hdr_n ?h" using n by simp
  then have "read_head s = Ok () t"
    using b rl by (simp add: read_head_def dev bd Let_def hdr_n_def [symmetric] hdr_entry_def [symmetric, abs_def])
  moreover have "cframe (loaded_head s) t" using cframe_trans [OF f2] q3 by simp
  ultimately show ?thesis using q1 q3 d by (intro exI [of _ t]) simp
qed

lemma recover_ok:
  assumes rdy: "recover_ready s"
  shows "\<exists>t h. recover_from_log s = Ok () t \<and> cache_ok {} t \<and> length h = BSIZE \<and> hdr_n h = 0
    \<and> dwrites t = dwrites s @ install_list (unat (log_start s)) (disk s) @ [(unat (log_start s), h)]
    \<and> disk t = apply_writes (install_list (unat (log_start s)) (disk s) @ [(unat (log_start s), h)]) (disk s)"
proof -
  let ?ls = "unat (log_start s)"
  let ?h = "disk s ?ls"
  let ?n = "hdr_n ?h"
  have two: "two_clean s" and d: "dirty s = {}" and dev: "log_dev s = 1" and r: "?ls + LOGSIZE \<le> unat (disksize s)"
    and n: "?n < LOGSIZE" and len: "length ?h = BSIZE" and bl: "length (lh_block s) = LOGSIZE"
    and e: "\<And>k. k < ?n \<Longrightarrow> hdr_entry ?h k < disksize s \<and> home ?ls (unat (hdr_entry ?h k))"
    using rdy by (auto simp: recover_ready_def Let_def)
  obtain s1 where r1: "read_head s = Ok () s1" and f1: "cframe (loaded_head s) s1" and ok1: "cache_ok {} s1"
    and d1: "dirty s1 = {}" and k1: "disk s1 = disk s" "dwrites s1 = dwrites s"
    using read_head_ok [OF rdy] by blast
  have l1: "log_start s1 = log_start s" "log_dev s1 = 1" "lh_n s1 = rd32 ?h 0" "disksize s1 = disksize s"
    "lh_block s1 = map (hdr_entry ?h) [0..<?n] @ drop ?n (lh_block s)" "length (bufs s1) = length (bufs s)"
    using cframe_log [OF f1] cframe_simps [OF f1] dev by (simp_all add: loaded_head_def Let_def)
  have en: "lh_block s1 ! k = hdr_entry ?h k" if "k < ?n" for k using that by (simp add: l1 nth_append)
  have reg1: "log_region ?n s1" using r n e en by (simp add: log_region_def l1)
  have two1: "two_clean s1" using two d d1 by (simp add: two_clean_def clean_def l1)
  have cl1: "clean s1 \<noteq> {}" using two1 by (auto simp: two_clean_def)
  have ts: "set [0..<?n] \<subseteq> {..<?n}" by auto
  obtain s2 where w2: "install_loop [0..<?n] s1 = Ok () s2" and f2: "cframe s1 s2" and ok2: "cache_ok {} s2" and cl2: "clean s2 \<noteq> {}"
    and dw2: "dwrites s2 = dwrites s1 @ install_writes [0..<?n] s1" and dk2: "disk s2 = apply_writes (install_writes [0..<?n] s1) (disk s1)"
    and db2: "dirty_blocks s2 = dirty_blocks s1 - (\<lambda>k. lh_block s1 ! k) ` set [0..<?n]"
    using install_loop_ok [OF ok1 reg1 cl1 ts disjI1 [OF two1]] by blast
  have none1: "dirty_blocks s1 = {}" using d1 by (simp add: dirty_blocks_def)
  have none2: "dirty_blocks s2 = {}" using db2 none1 by simp
  have iw: "install_writes [0..<?n] s1 = install_list ?ls (disk s)"
  proof -
    have "view s1 (log_start s + of_nat k + 1) = disk s (?ls + 1 + k)" if "k < ?n" for k
      using log_block(1) [OF reg1 that] view_clean [of "log_start s + of_nat k + 1" s1] none1 by (simp add: l1(1) k1)
    then show ?thesis by (simp add: install_writes_def install_list_def l1(1) en)
  qed
  have ls2: "disk s2 ?ls = ?h"
  proof -
    have "?ls \<notin> fst ` set (install_list ?ls (disk s))"
      using e log_block_not_home(1) [of ?ls] by (force simp: install_list_def)
    then show ?thesis by (simp add: dk2 iw k1 apply_writes_other)
  qed
  let ?s2 = "s2\<lparr>lh_n := 0\<rparr>"
  have reg2: "log_region ?n ?s2" using reg1 log_region_cframe [OF f2] by simp
  note l2 = cframe_log [OF f2]
  define hz where "hz = hdr_bytes 0 (lh_block s2) ?h"
  have hz: "length hz = BSIZE" "hdr_n hz = 0" unfolding hz_def using hdr_bytes_rd(1,2) [OF len] by simp_all
  obtain t where w3: "write_head ?s2 = Ok () t" and ok3: "cache_ok {} t"
    and dw3: "dwrites t = dwrites s2 @ [(?ls, hz)]" and dk3: "disk t = (disk s2)(?ls := hz)"
    using write_head_ok [of ?s2 ?n] ok2 reg2 cl2 none2 by (auto simp: l2 l1 ls2 hz_def)
  have "entries s1 = [0..<?n]" by (simp add: entries_def l1 hdr_n_def)
  then have "recover_from_log s = Ok () t"
    using r1 w2 w3 by (simp add: recover_from_log_def install_trans_def)
  moreover have "dwrites t = dwrites s @ install_list ?ls (disk s) @ [(?ls, hz)]" by (simp add: dw3 dw2 k1 iw)
  moreover have "disk t = apply_writes (install_list ?ls (disk s) @ [(?ls, hz)]) (disk s)" by (simp add: dk3 dk2 k1 iw)
  ultimately show ?thesis using ok3 hz by blast
qed

lemma logical_prefix:
  assumes n: "hdr_n (d ls) < LOGSIZE" and e: "\<And>k. k < hdr_n (d ls) \<Longrightarrow> home ls (unat (hdr_entry (d ls) k))"
  shows "logical ls (apply_writes (take m (install_list ls d)) d) = logical ls d"
proof -
  let ?e = "apply_writes (take m (install_list ls d)) d"
  have keep: "?e b = d b" if "\<not> home ls b" for b
  proof (rule apply_writes_other)
    show "b \<notin> fst ` set (take m (install_list ls d))"
      using e that by (auto simp: install_list_def dest!: in_set_takeD)
  qed
  have "?e ls = d ls" by (rule keep) (rule log_block_not_home)
  moreover have "?e (ls + 1 + k) = d (ls + 1 + k)" if "k < hdr_n (d ls)" for k
    by (rule keep, rule log_block_not_home) (use that n in simp)
  ultimately have "install_list ls ?e = install_list ls d" by (simp add: install_list_def)
  then show ?thesis by (simp add: logical_install apply_writes_again)
qed

text \<open>
  C2. Recovery returns and leaves every home block as the log says, with the log empty; and it may
  itself be interrupted: after any prefix of its disk writes the disk still means the same, so the
  next recovery comes to the same contents.
\<close>

theorem recovery_idempotent:
  assumes "recover_ready s"
  shows "\<exists>t ws. recover_from_log s = Ok () t \<and> dwrites t = dwrites s @ ws \<and> disk t = apply_writes ws (disk s)
    \<and> (let ls = unat (log_start s) in same_home ls (disk t) (logical ls (disk s)) \<and> hdr_n (disk t ls) = 0
        \<and> (\<forall>m. same_home ls (logical ls (apply_writes (take m ws) (disk s))) (logical ls (disk s))))"
proof -
  let ?ls = "unat (log_start s)"
  let ?L = "install_list ?ls (disk s)"
  obtain t h where t: "recover_from_log s = Ok () t" "dwrites t = dwrites s @ ?L @ [(?ls, h)]"
    "disk t = apply_writes (?L @ [(?ls, h)]) (disk s)" and h: "hdr_n h = 0"
    using recover_ok [OF assms] by blast
  have n: "hdr_n (disk s ?ls) < LOGSIZE"
    and e: "\<And>k. k < hdr_n (disk s ?ls) \<Longrightarrow> home ?ls (unat (hdr_entry (disk s ?ls) k))"
    using assms by (auto simp: recover_ready_def Let_def)
  have fin: "same_home ?ls (disk t) (logical ?ls (disk s))"
    using log_block_not_home(1) [of ?ls] by (auto simp: t logical_install same_home_def)
  have hz: "hdr_n (disk t ?ls) = 0" by (simp add: t h)
  have "same_home ?ls (logical ?ls (apply_writes (take m (?L @ [(?ls, h)])) (disk s))) (logical ?ls (disk s))" for m
  proof (cases "m \<le> length ?L")
    case True
    then show ?thesis using logical_prefix [of "disk s" ?ls m, OF n e] by (simp add: same_home_def)
  next
    case False
    then have "take m (?L @ [(?ls, h)]) = ?L @ [(?ls, h)]" by simp
    with fin logical_clear [of "disk t" ?ls, OF hz] show ?thesis by (simp add: t(3))
  qed
  with t fin hz show ?thesis unfolding Let_def by blast
qed

theorem recovery_idempotent_witness:
  "recover_ready log0 \<and> (\<exists>t. recover_from_log log0 = Ok () t \<and> same_home 2 (disk t) (logical 2 (disk log0)))"
proof -
  have len: "length (bufs log0) = 30" by (simp add: NBUF_def)
  have b: "bufs log0 ! i = buf0" if "i < 30" for i using that by (simp add: NBUF_def)
  have d: "dirty log0 = {}" by (auto simp: dirty_def NBUF_def buf0_def)
  have ok: "cache_ok {} log0"
    unfolding cache_ok_def
  proof (intro conjI)
    show "one_each (bufs log0)" by (auto simp: one_each_def len b caches_def buf0_def)
    show "\<forall>i < length (bufs log0). buf_ok log0 (bufs log0 ! i) \<and> lock_ok {} log0 i"
      by (auto simp: len b buf_ok_def lock_ok_def buf0_def)
  qed (auto simp: lone_def NBUF_def)
  have "two_clean log0" unfolding two_clean_def using d len by (intro bexI [of _ 0] bexI [of _ 1]) (simp_all add: clean_def)
  with ok d have r: "recover_ready log0" by (simp add: recover_ready_def LOGSIZE_def BSIZE_def [symmetric])
  with recovery_idempotent [OF r] show ?thesis by (auto simp: Let_def)
qed

end
