(* ===== verification/Txn.thy ===== *)
theory Txn
  imports Crash Inode
begin

section \<open>Block updates inside a transaction\<close>

text \<open>
  What file-system code sees of the buffer cache and the log between \<open>begin_op\<close> and \<open>end_op\<close>: a map
  from blocks to contents that \<open>bread\<close> reads and \<open>log_write\<close> updates, while the disk itself stays as
  it is until the commit. On top of it, \<open>balloc\<close> finds a block the bitmap says is free.
\<close>

subsection \<open>Runs that end, unless a resource is lacking\<close>

text \<open>
  The panics of a file-system operation that has run out of buffers, of log space or of disk
  blocks. \<open>ends m Q\<close>: \<open>m\<close> returns with \<open>Q\<close>, or panics for one of these reasons; it does not switch
  away, spin, fault or panic for any other reason.
\<close>

definition lack :: "string set" where
  "lack = {''bget: no buffers'', ''too big a transaction'', ''balloc: out of blocks''}"

definition ends :: "('s, 'a) outcome \<Rightarrow> ('a \<Rightarrow> 's \<Rightarrow> bool) \<Rightarrow> bool" where
  "ends m Q \<longleftrightarrow> (case m of Ok a s \<Rightarrow> Q a s | Panic e \<Rightarrow> e \<in> lack | _ \<Rightarrow> False)"

lemma ends_iff [simp]:
  "ends (Ok a s) Q = Q a s" "ends (Panic e) Q = (e \<in> lack)" "\<not> ends (Swtch s) Q" "\<not> ends Spin Q" "\<not> ends Fault Q"
  by (simp_all add: ends_def)

lemma ends_bnd [simp]: "ends (bnd m f) Q \<longleftrightarrow> ends m (\<lambda>a s. ends (f a s) Q)"
  by (cases m) auto

lemma ends_mono: "ends m P \<Longrightarrow> (\<And>a s. P a s \<Longrightarrow> Q a s) \<Longrightarrow> ends m Q"
  by (cases m) auto

lemma ends_OkD: "ends m Q \<Longrightarrow> m = Ok a s \<Longrightarrow> Q a s"
  by simp

lemma sint_add32:
  fixes a b :: cint
  assumes "- 2147483648 \<le> sint a + sint b" "sint a + sint b < 2147483648"
  shows "sint (a + b) = sint a + sint b"
  using assms by (simp add: sint_word_ariths signed_take_bit_int_eq_self)

lemma sint_sub32:
  fixes a b :: cint
  assumes "- 2147483648 \<le> sint a - sint b" "sint a - sint b < 2147483648"
  shows "sint (a - b) = sint a - sint b"
  using assms by (simp add: sint_word_ariths signed_take_bit_int_eq_self)

subsection \<open>The three operations\<close>

text \<open>What they may touch: the tables of the cache and the header of the log in memory, not the disk.\<close>

definition tframe :: "'z logstate_scheme \<Rightarrow> 'z logstate_scheme \<Rightarrow> bool" where
  "tframe s t \<longleftrightarrow> (\<exists>P L B R n l. t = s\<lparr>ptable := P, slocks := L, bufs := B, lru := R, lh_n := n, lh_block := l\<rparr>
     \<and> map pid P = map pid (ptable s) \<and> length B = length (bufs s))"

lemma tframe_trans:
  assumes "tframe s t" "tframe t u"
  shows "tframe s u"
proof -
  obtain P L B R n l where t: "t = s\<lparr>ptable := P, slocks := L, bufs := B, lru := R, lh_n := n, lh_block := l\<rparr>"
    and "map pid P = map pid (ptable s)" "length B = length (bufs s)"
    using assms(1) unfolding tframe_def by blast
  moreover obtain P' L' B' R' n' l' where
    u: "u = t\<lparr>ptable := P', slocks := L', bufs := B', lru := R', lh_n := n', lh_block := l'\<rparr>"
    and "map pid P' = map pid (ptable t)" "length B' = length (bufs t)"
    using assms(2) unfolding tframe_def by blast
  moreover have "u = s\<lparr>ptable := P', slocks := L', bufs := B', lru := R', lh_n := n', lh_block := l'\<rparr>"
    by (simp add: t u)
  ultimately show ?thesis unfolding tframe_def by (intro exI conjI) (assumption, simp_all)
qed

lemma tframe_cframe:
  assumes "cframe s t" "disk t = disk s" "dwrites t = dwrites s"
  shows "tframe s t"
proof -
  obtain P L B R D W where t: "t = s\<lparr>ptable := P, slocks := L, bufs := B, lru := R, disk := D, dwrites := W\<rparr>"
    and e: "map pid P = map pid (ptable s)" "length B = length (bufs s)"
    using assms(1) unfolding cframe_def by blast
  have "t = s\<lparr>ptable := P, slocks := L, bufs := B, lru := R, lh_n := lh_n s, lh_block := lh_block s\<rparr>"
    using assms(2,3) by (simp add: t)
  with e show ?thesis unfolding tframe_def by (intro exI conjI) (assumption, simp_all)
qed

lemma tframe_simps:
  assumes "tframe s t"
  shows "held t = held s" "cpu_proc t = cpu_proc s" "disksize t = disksize s" "disk t = disk s" "dwrites t = dwrites s"
    "length (bufs t) = length (bufs s)" "log_start t = log_start s" "log_dev t = log_dev s" "log_size t = log_size s"
    "log_outstanding t = log_outstanding s" "log_committing t = log_committing s"
  using assms by (auto simp: tframe_def)

lemma tframe_istate:
  assumes "tframe s t"
  shows "icache t = icache s" "sb t = sb s"
  using assms by (auto simp: tframe_def)

text \<open>Inside a transaction: the logged blocks are the dirty ones, and the log has not overflowed.\<close>

definition txn :: "'z logstate_scheme \<Rightarrow> bool" where
  "txn s \<longleftrightarrow> 1 \<le> sint (log_outstanding s) \<and> 1 \<le> sint (log_size s) \<and> sint (log_size s) \<le> int LOGSIZE \<and> 0 \<le> sint (lh_n s)
     \<and> length (lh_block s) = LOGSIZE \<and> log_region (nat (sint (lh_n s))) s
     \<and> dirty_blocks s = (\<lambda>k. lh_block s ! k) ` {..<nat (sint (lh_n s))}"

text \<open>A block an operation may log: on the disk and outside the log.\<close>

definition loggable :: "'z logstate_scheme \<Rightarrow> uint \<Rightarrow> bool" where
  "loggable s bn \<longleftrightarrow> bn < disksize s \<and> home (unat (log_start s)) (unat bn)"

definition free_of :: "nat set \<Rightarrow> 'z bstate_scheme \<Rightarrow> uint \<Rightarrow> bool" where
  "free_of H s bn \<longleftrightarrow> (\<forall>j \<in> H. \<not> caches bn (bufs s ! j))"

lemma bget_no_buffer:
  assumes ok: "cache_ok H s" and none: "\<And>j. j < length (bufs s) \<Longrightarrow> \<not> caches bn (bufs s ! j)"
    and full: "\<And>i. i < length (bufs s) \<Longrightarrow> i \<notin> H \<Longrightarrow> bflags (bufs s ! i) = 6"
  shows "bget 1 bn s = Panic ''bget: no buffers''"
proof -
  have f1: "find (\<lambda>i. bdev (bufs s ! i) = 1 \<and> bblockno (bufs s ! i) = bn) (lru s) = None"
    by (rule find_none) (use none cache_okD(5) [OF ok] in \<open>simp add: caches_def\<close>)
  have f2: "find (\<lambda>i. brefcnt (bufs s ! i) = 0 \<and> bflags (bufs s ! i) AND B_DIRTY = 0) (rev (lru s)) = None"
  proof (rule find_none)
    fix j assume "j \<in> set (rev (lru s))"
    then have j: "j < length (bufs s)" using cache_okD(5) [OF ok] by simp
    show "\<not> (brefcnt (bufs s ! j) = 0 \<and> bflags (bufs s ! j) AND B_DIRTY = 0)"
    proof (cases "j \<in> H")
      case True
      with cache_okD(4) [OF ok j] show ?thesis by (simp add: lock_ok_def)
    next
      case False
      with full [OF j] show ?thesis by (simp add: B_DIRTY_def)
    qed
  qed
  show ?thesis using loneD(1) [OF cache_okD(1) [OF ok]] f1 f2 by (simp add: bget_def)
qed

lemma bread_ends:
  assumes ok: "cache_ok H s" and bn: "bn < disksize s" and fresh: "free_of H s bn"
  shows "ends (bread 1 bn s) (bread_post H bn s)"
proof (cases "(\<exists>j < length (bufs s). caches bn (bufs s ! j)) \<or> (\<exists>i < length (bufs s). i \<notin> H \<and> bflags (bufs s ! i) \<noteq> 6)")
  case True
  have fr: "\<And>j. j \<in> H \<Longrightarrow> \<not> caches bn (bufs s ! j)" using fresh by (simp add: free_of_def)
  have "bn \<in> dirty_blocks s \<or> (\<exists>i < length (bufs s). i \<notin> H \<and> bflags (bufs s ! i) \<noteq> 6)"
  proof (cases "\<exists>i < length (bufs s). i \<notin> H \<and> bflags (bufs s ! i) \<noteq> 6")
    case False
    with True obtain j where j: "j < length (bufs s)" "caches bn (bufs s ! j)" by blast
    with fr have "j \<notin> H" by blast
    with False j have "j \<in> dirty s" by (auto simp: dirty_def)
    with j(2) have "bn \<in> dirty_blocks s" by (force simp: dirty_blocks_def caches_def)
    then show ?thesis ..
  qed blast
  from bread_ok [OF ok bn fr this] obtain i t where "bread 1 bn s = Ok i t" "bread_post H bn s i t" by blast
  then show ?thesis by simp
next
  case False
  then have "bget 1 bn s = Panic ''bget: no buffers''" by (intro bget_no_buffer [OF ok]) blast+
  then show ?thesis by (simp add: bread_def lack_def)
qed

lemma brelse_ends: "cache_ok H s \<Longrightarrow> i \<in> H \<Longrightarrow> ends (brelse i s) (\<lambda>_. brelse_post H i s)"
  using brelse_ok [of H s i] by (metis ends_iff(1))

text \<open>A held buffer filled with \<open>d\<close> and logged.\<close>

definition lw_post :: "nat set \<Rightarrow> uint \<Rightarrow> byte list \<Rightarrow> nat \<Rightarrow> 'z logstate_scheme \<Rightarrow> 'z logstate_scheme \<Rightarrow> bool" where
  "lw_post H bn d i s t \<longleftrightarrow> tframe s t \<and> cache_ok H t \<and> txn t \<and> view t = (view s)(bn := d)
     \<and> caches bn (bufs t ! i) \<and> bdata (bufs t ! i) = d \<and> (\<forall>j \<in> H. j \<noteq> i \<longrightarrow> bufs t ! j = bufs s ! j)"

definition logged :: "nat \<Rightarrow> byte list \<Rightarrow> cint \<Rightarrow> cint list \<Rightarrow> 'z logstate_scheme \<Rightarrow> 'z logstate_scheme" where
  "logged i d n l s = s\<lparr>bufs := (bufs s)[i := (bufs s ! i)\<lparr>bdata := d, bflags := 6\<rparr>], lh_n := n, lh_block := l\<rparr>"

lemma logged_cache:
  assumes ok: "cache_ok H s" and i: "i \<in> H" and c: "caches bn (bufs s ! i)"
  shows "cache_ok H (logged i d n l s)" "view (logged i d n l s) = (view s)(bn := d)"
    "dirty_blocks (logged i d n l s) = insert bn (dirty_blocks s)"
proof -
  let ?t = "logged i d n l s"
  have il: "i < length (bufs s)" using cache_okD(7) [OF ok i] .
  have bt: "bufs ?t ! j = (if j = i then (bufs s ! i)\<lparr>bdata := d, bflags := 6\<rparr> else bufs s ! j)" for j
    using il by (simp add: logged_def nth_list_update_if)
  have len: "length (bufs ?t) = length (bufs s)" by (simp add: logged_def)
  have same: "held ?t = held s" "cpu_proc ?t = cpu_proc s" "ptable ?t = ptable s" "lru ?t = lru s" "slocks ?t = slocks s"
    "disk ?t = disk s" by (simp_all add: logged_def)
  have cs: "caches x (bufs ?t ! j) = caches x (bufs s ! j)" for x j by (simp add: bt caches_def)
  have bok: "buf_ok ?t (bufs ?t ! j)" if "j < length (bufs s)" for j
    using cache_okD(3) [OF ok that] c by (cases "j = i") (simp_all add: bt buf_ok_def same caches_def)
  have lok: "lock_ok H ?t j" if "j < length (bufs s)" for j
    using cache_okD(4) [OF ok that] i by (cases "j = i") (simp_all add: bt lock_ok_def same)
  show okt: "cache_ok H ?t"
    using ok bok lok by (simp add: cache_ok_def lone_def one_each_def len same cs)
  have dt: "dirty ?t = insert i (dirty s)" using il by (auto simp: dirty_def bt len)
  have bno: "bblockno (bufs ?t ! j) = bblockno (bufs s ! j)" for j by (simp add: bt)
  show db: "dirty_blocks ?t = insert bn (dirty_blocks s)"
    unfolding dirty_blocks_def dt bno using c by (simp add: caches_def)
  show "view ?t = (view s)(bn := d)"
  proof
    fix x
    show "view ?t x = ((view s)(bn := d)) x"
    proof (cases "x = bn")
      case True
      have "i \<in> dirty ?t" by (simp add: dt)
      from view_dirty [OF okt this] True c show ?thesis by (simp add: bno bt caches_def)
    next
      case ne: False
      show ?thesis
      proof (cases "x \<in> dirty_blocks s")
        case True
        then obtain j where j: "j \<in> dirty s" "bflags (bufs s ! j) = 6" "caches x (bufs s ! j)" by (rule dirty_blocksE [OF ok])
        have n: "j \<noteq> i" using j(3) c ne caches_unique by blast
        have "j \<in> dirty ?t" using j(1) by (simp add: dt)
        from view_dirty [OF okt this] view_dirty [OF ok j(1)] j(3) n ne show ?thesis by (simp add: bno bt caches_def)
      next
        case False
        then have "x \<notin> dirty_blocks ?t" using ne by (simp add: db)
        with False ne show ?thesis by (simp add: view_clean same)
      qed
    qed
  qed
qed

lemma log_write_eq:
  assumes ok: "cache_ok H s" and i: "i \<in> H" and c: "caches bn (bufs s ! i)" and tx: "txn s"
    and fits: "sint (lh_n s) < sint (log_size s) - 1"
  shows "log_write i (set_bdata i d s) = (let n = nat (sint (lh_n s)) in
     case find_idx (\<lambda>x. x = bn) (take n (lh_block s)) of
       Some k \<Rightarrow> Ok () (logged i d (lh_n s) ((lh_block s)[k := bn]) s)
     | None \<Rightarrow> Ok () (logged i d (lh_n s + 1) ((lh_block s)[n := bn]) s))"
proof -
  have il: "i < length (bufs s)" using cache_okD(7) [OF ok i] .
  have fl: "bflags (bufs s ! i) = 2 \<or> bflags (bufs s ! i) = 6"
    using cache_okD(3,4) [OF ok il] i by (auto simp: buf_ok_def lock_ok_def)
  have h: "held s = {}" using loneD(1) [OF cache_okD(1) [OF ok]] .
  have bno: "bblockno (bufs s ! i) = bn" using c by (simp add: caches_def)
  have sz: "sint (log_size s - 1) = sint (log_size s) - 1"
    using sint_sub32 [of "log_size s" 1] tx sint_range32 [of "log_size s"] by (simp add: txn_def)
  have g1: "\<not> of_nat LOGSIZE \<le>s lh_n s" "\<not> log_size s - 1 \<le>s lh_n s" "\<not> log_outstanding s <s 1"
    using fits tx sz by (auto simp: txn_def LOGSIZE_def word_sle_eq word_sless_alt)
  have fl: "bflags (bufs s ! i) OR B_DIRTY = 6" using fl by (auto simp: B_DIRTY_def)
  show ?thesis
  proof (cases "find_idx (\<lambda>x. x = bn) (take (nat (sint (lh_n s))) (lh_block s))")
    case None
    with g1 h il bno fl show ?thesis
      by (auto simp: log_write_def set_bdata_def upd_buf_def Let_def logged_def intro: logstate.equality)
  next
    case (Some k)
    moreover from this have "k < nat (sint (lh_n s))" by (auto dest: find_idx_SomeD)
    ultimately show ?thesis using g1 h il bno fl
      by (auto simp: log_write_def set_bdata_def upd_buf_def Let_def logged_def intro: logstate.equality)
  qed
qed

lemma log_write_full:
  assumes "\<not> sint (lh_n s) < sint (log_size s) - 1" "txn s"
  shows "log_write i (set_bdata i d s) = Panic ''too big a transaction''"
proof -
  have "sint (log_size s - 1) = sint (log_size s) - 1"
    using sint_sub32 [of "log_size s" 1] assms(2) sint_range32 [of "log_size s"] by (simp add: txn_def)
  then show ?thesis using assms(1) by (simp add: log_write_def set_bdata_def upd_buf_def word_sle_eq)
qed

lemma tframe_logged: "tframe s (logged i d n l s)"
proof -
  have "logged i d n l s = s\<lparr>ptable := ptable s, slocks := slocks s, bufs := (bufs s)[i := (bufs s ! i)\<lparr>bdata := d, bflags := 6\<rparr>],
      lru := lru s, lh_n := n, lh_block := l\<rparr>"
    by (simp add: logged_def)
  then show ?thesis unfolding tframe_def by (intro exI conjI) (assumption, simp_all)
qed

lemma logged_txn:
  assumes tx: "txn s" and bn: "loggable s bn" and db: "dirty_blocks (logged i d m l s) = insert bn (dirty_blocks s)"
    and l: "length l = LOGSIZE" and m: "0 \<le> sint m" "nat (sint m) < LOGSIZE"
    and im: "(\<lambda>k. l ! k) ` {..<nat (sint m)} = insert bn ((\<lambda>k. lh_block s ! k) ` {..<nat (sint (lh_n s))})"
  shows "txn (logged i d m l s)"
proof -
  have reg: "log_region (nat (sint (lh_n s))) s" using tx by (simp add: txn_def)
  have "l ! k < disksize s \<and> home (unat (log_start s)) (unat (l ! k))" if "k < nat (sint m)" for k
  proof -
    have "l ! k \<in> insert bn ((\<lambda>k. lh_block s ! k) ` {..<nat (sint (lh_n s))})" using that im by blast
    then show ?thesis using bn reg by (auto simp: loggable_def log_region_def)
  qed
  then have "log_region (nat (sint m)) (logged i d m l s)" using reg m by (simp add: log_region_def logged_def)
  with tx l m im db show ?thesis by (simp add: txn_def logged_def)
qed

lemma log_write_ends:
  assumes ok: "cache_ok H s" and i: "i \<in> H" and c: "caches bn (bufs s ! i)" and tx: "txn s" and bn: "loggable s bn"
  shows "ends (log_write i (set_bdata i d s)) (\<lambda>_. lw_post H bn d i s)"
proof (cases "sint (lh_n s) < sint (log_size s) - 1")
  case False
  then show ?thesis using log_write_full [OF False tx] by (simp add: lack_def)
next
  case True
  let ?n = "nat (sint (lh_n s))"
  have il: "i < length (bufs s)" using cache_okD(7) [OF ok i] .
  have n: "Suc ?n < LOGSIZE" "length (lh_block s) = LOGSIZE" "0 \<le> sint (lh_n s)" using tx True by (auto simp: txn_def)
  have post: "lw_post H bn d i s (logged i d m l s)" if "txn (logged i d m l s)" for m l
    using logged_cache [OF ok i c, of d m l] tframe_logged [of s i d m l] that il c by (simp add: lw_post_def logged_def caches_def)
  show ?thesis
  proof (cases "find_idx (\<lambda>x. x = bn) (take ?n (lh_block s))")
    case None
    have s1: "sint (lh_n s + 1) = sint (lh_n s) + 1" using sint_add32 [of "lh_n s" 1] n by (simp add: LOGSIZE_def)
    have im: "(\<lambda>k. (lh_block s)[?n := bn] ! k) ` {..<Suc ?n} = insert bn ((\<lambda>k. lh_block s ! k) ` {..<?n})"
      using n by (auto simp: lessThan_Suc nth_list_update_if)
    have "txn (logged i d (lh_n s + 1) ((lh_block s)[?n := bn]) s)"
    proof (rule logged_txn [OF tx bn logged_cache(3) [OF ok i c]])
      have e: "nat (sint (lh_n s + 1)) = Suc ?n" using s1 n(3) by simp
      show "(!) ((lh_block s)[?n := bn]) ` {..<nat (sint (lh_n s + 1))} = insert bn ((!) (lh_block s) ` {..<?n})"
        unfolding e by (rule im)
      show "nat (sint (lh_n s + 1)) < LOGSIZE" unfolding e by (rule n(1))
    qed (use n s1 in simp_all)
    from post [OF this] None log_write_eq [OF ok i c tx True] show ?thesis by (simp add: Let_def)
  next
    case (Some k)
    then have k: "k < ?n" "lh_block s ! k = bn" using n by (auto dest: find_idx_SomeD)
    have e: "(lh_block s)[k := bn] = lh_block s" using k(2) by (metis list_update_id)
    have "txn (logged i d (lh_n s) (lh_block s) s)"
      by (rule logged_txn [OF tx bn logged_cache(3) [OF ok i c]]) (use n k in \<open>auto intro: rev_image_eqI\<close>)
    from post [OF this] Some log_write_eq [OF ok i c tx True] e show ?thesis by (simp add: Let_def)
  qed
qed

subsection \<open>Steps of an operation\<close>

text \<open>An operation that leaves the buffers in \<open>H\<close>, held by its caller, as they are.\<close>

definition fs_step :: "nat set \<Rightarrow> 'z logstate_scheme \<Rightarrow> 'z logstate_scheme \<Rightarrow> bool" where
  "fs_step H s t \<longleftrightarrow> tframe s t \<and> cache_ok H t \<and> txn t \<and> (\<forall>j \<in> H. bufs t ! j = bufs s ! j)"

lemma fs_step_trans: "fs_step H s t \<Longrightarrow> fs_step H t u \<Longrightarrow> fs_step H s u"
  by (auto simp: fs_step_def intro: tframe_trans)

lemma txn_frame:
  assumes "cframe s t" "dirty_blocks t = dirty_blocks s"
  shows "txn t = txn s"
  using assms by (simp add: txn_def cframe_log log_region_cframe)

lemma fs_step_frame:
  assumes "fs_step H s t"
  shows "cache_ok H t" "txn t" "loggable t bn = loggable s bn" "free_of H t bn = free_of H s bn" "disksize t = disksize s"
    "disk t = disk s"
  using assms by (auto simp: fs_step_def loggable_def free_of_def tframe_simps)

text \<open>
  After a \<open>bread\<close> that took \<open>s\<close> to \<open>s1\<close>: change the block, log it and let it go; or only let it go,
  which leaves everything as it was.
\<close>

definition fs_peek :: "nat set \<Rightarrow> 'z logstate_scheme \<Rightarrow> 'z logstate_scheme \<Rightarrow> bool" where
  "fs_peek H s t \<longleftrightarrow> tframe s t \<and> cache_ok H t \<and> view t = view s \<and> txn t = txn s \<and> (\<forall>j \<in> H. bufs t ! j = bufs s ! j)"

lemma bread_postD:
  assumes "bread_post H bn s i s1"
  shows "tframe s s1" "txn s1 = txn s" "cache_ok (insert i H) s1" "i \<notin> H" "caches bn (bufs s1 ! i)"
    "bdata (bufs s1 ! i) = view s bn" "view s1 = view s" "\<forall>j \<in> H. bufs s1 ! j = bufs s ! j"
  using assms by (auto simp: bread_post_def txn_frame intro: tframe_cframe)

lemma release_ends:
  assumes "bread_post H bn s i s1"
  shows "ends (brelse i s1) (\<lambda>_. fs_peek H s)"
proof (rule ends_mono [OF brelse_ends [OF bread_postD(3) [OF assms]]])
  fix t assume p: "brelse_post (insert i H) i s1 t"
  have "tframe s1 t" "txn t = txn s1" using p by (auto simp: brelse_post_def txn_frame intro: tframe_cframe)
  with p bread_postD [OF assms] show "fs_peek H s t"
    using tframe_trans [of s s1 t] by (auto simp: fs_peek_def brelse_post_def)
qed simp

lemma log_release_ends:
  assumes p1: "bread_post H bn s i s1" and tx: "txn s" and bn: "loggable s bn"
  shows "ends (bnd (log_write i (set_bdata i d s1)) (\<lambda>_ s. brelse i s)) (\<lambda>_ t. fs_step H s t \<and> view t = (view s)(bn := d))"
proof -
  note b = bread_postD [OF p1]
  have x1: "txn s1" and l1: "loggable s1 bn" using bn tx b(2) by (simp_all add: loggable_def tframe_simps [OF b(1)])
  show ?thesis
  proof (simp only: ends_bnd, rule ends_mono [OF log_write_ends [OF b(3) _ b(5) x1 l1]])
    fix s2 assume "lw_post (insert i H) bn d i s1 s2"
    then have p2: "tframe s1 s2" "cache_ok (insert i H) s2" "txn s2" "view s2 = (view s)(bn := d)"
      "\<forall>j \<in> H. bufs s2 ! j = bufs s ! j" using b(4,7,8) by (auto simp: lw_post_def)
    show "ends (brelse i s2) (\<lambda>_ t. fs_step H s t \<and> view t = (view s)(bn := d))"
    proof (rule ends_mono [OF brelse_ends [OF p2(2)]])
      fix t assume p3: "brelse_post (insert i H) i s2 t"
      have "tframe s2 t" "txn t" "\<forall>j \<in> H. bufs t ! j = bufs s ! j" "cache_ok H t" "view t = view s2"
        using p3 p2 b(4) by (auto simp: brelse_post_def txn_frame intro: tframe_cframe)
      then show "fs_step H s t \<and> view t = (view s)(bn := d)"
        using tframe_trans [OF b(1) tframe_trans [OF p2(1)]] p2(4) by (simp add: fs_step_def)
    qed simp
  qed simp
qed

lemma modify_block:
  assumes ok: "cache_ok H s" and tx: "txn s" and bn: "loggable s bn" and fr: "free_of H s bn"
  shows "ends (bnd (bread 1 bn s) (\<lambda>i s. bnd (log_write i (set_bdata i (f (bdata (bufs s ! i))) s)) (\<lambda>_ s. brelse i s)))
    (\<lambda>_ t. fs_step H s t \<and> view t = (view s)(bn := f (view s bn)))"
proof -
  have b: "bn < disksize s" using bn by (simp add: loggable_def)
  show ?thesis
  proof (subst ends_bnd, rule ends_mono [OF bread_ends [OF ok b fr]])
    fix i s1 assume p: "bread_post H bn s i s1"
    from log_release_ends [OF p tx bn, of "f (view s bn)"] bread_postD(6) [OF p]
    show "ends (bnd (log_write i (set_bdata i (f (bdata (bufs s1 ! i))) s1)) (\<lambda>_ s. brelse i s))
        (\<lambda>_ t. fs_step H s t \<and> view t = (view s)(bn := f (view s bn)))" by simp
  qed
qed

subsection \<open>The bitmap\<close>

definition data_start :: "superblock \<Rightarrow> nat" where
  "data_start b = unat (sb_bmapstart b) + unat (sb_size b) div BPB + 1"

definition data_block :: "superblock \<Rightarrow> uint \<Rightarrow> bool" where
  "data_block b x \<longleftrightarrow> data_start b \<le> unat x \<and> x < sb_size b"

definition used :: "superblock \<Rightarrow> (uint \<Rightarrow> byte list) \<Rightarrow> uint \<Rightarrow> bool" where
  "used b v x \<longleftrightarrow> \<not> bit_free (v (BBLOCK x b)) (unat x mod BPB)"

text \<open>
  The regions of the disk in the order of mkfs.c, and a bitmap in which every block before the
  data is marked as used.
\<close>

definition layout_ok :: "nat \<Rightarrow> uint \<Rightarrow> superblock \<Rightarrow> bool" where
  "layout_ok ls n b \<longleftrightarrow> ls + LOGSIZE \<le> unat (sb_inodestart b) \<and> unat (sb_inodestart b) + unat (sb_ninodes b) div IPB < unat (sb_bmapstart b)
     \<and> data_start b \<le> unat (sb_size b) \<and> sb_size b \<le> n"

definition view_ok :: "superblock \<Rightarrow> (uint \<Rightarrow> byte list) \<Rightarrow> bool" where
  "view_ok b v \<longleftrightarrow> (\<forall>x. length (v x) = BSIZE) \<and> (\<forall>x < sb_size b. \<not> used b v x \<longrightarrow> data_start b \<le> unat x)"

definition set_bit_in :: "nat \<Rightarrow> byte list \<Rightarrow> byte list" where
  "set_bit_in k d = d[k div 8 := d ! (k div 8) OR bit_of k]"

lemma bit_free_bit: "bit_free d k \<longleftrightarrow> \<not> bit (d ! (k div 8)) (k mod 8)"
  by (simp add: bit_free_def bit_of_def push_bit_of_1 and_exp_eq_0_iff_not_bit)

lemma bit_free_set:
  assumes "length d = BSIZE" "k < BPB" "j < BPB"
  shows "bit_free (set_bit_in k d) j \<longleftrightarrow> bit_free d j \<and> j \<noteq> k"
proof -
  have l: "k div 8 < length d" "j div 8 < length d" using assms by (auto simp: BPB_def BSIZE_def)
  have e: "j = k \<longleftrightarrow> j div 8 = k div 8 \<and> j mod 8 = k mod 8"
    by (metis div_mult_mod_eq)
  show ?thesis
    using l by (cases "j div 8 = k div 8") (auto simp: bit_free_bit set_bit_in_def bit_of_def bit_simps e nth_list_update)
qed

lemma length_set_bit_in [simp]: "length (set_bit_in k d) = length d"
  by (simp add: set_bit_in_def)

lemma BBLOCK_unat:
  assumes "data_start b \<le> unat (sb_size b)" "x < sb_size b"
  shows "unat (BBLOCK x b) = unat x div BPB + unat (sb_bmapstart b)"
proof -
  have x: "unat x < unat (sb_size b)" using assms(2) by (simp add: word_less_nat_alt)
  have "unat x div BPB \<le> unat (sb_size b) div BPB" by (rule div_le_mono) (use x in simp)
  then have "unat x div BPB + unat (sb_bmapstart b) < 4294967296"
    using assms(1) unat_range32 [of "sb_size b"] by (simp add: data_start_def)
  moreover have "unat (x div of_nat BPB) = unat x div BPB"
    by (simp add: BPB_def BSIZE_def unat_div)
  ultimately show ?thesis unfolding BBLOCK_def by (simp add: unat_add32)
qed

text \<open>The bitmap lies between the log and the data.\<close>

lemma BBLOCK_region:
  assumes "layout_ok ls n b" "x < sb_size b"
  shows "ls + LOGSIZE \<le> unat (BBLOCK x b)" "unat (BBLOCK x b) < data_start b" "BBLOCK x b < n" "home ls (unat (BBLOCK x b))"
    "\<not> data_block b (BBLOCK x b)"
proof -
  have l: "data_start b \<le> unat (sb_size b)" "ls + LOGSIZE \<le> unat (sb_bmapstart b)" "unat (sb_size b) \<le> unat n"
    using assms(1) by (auto simp: layout_ok_def word_le_nat_alt)
  note u = BBLOCK_unat [OF l(1) assms(2)]
  have "unat x div BPB \<le> unat (sb_size b) div BPB" by (rule div_le_mono) (use assms(2) in \<open>simp add: word_less_nat_alt\<close>)
  then show s: "unat (BBLOCK x b) < data_start b" by (simp add: u data_start_def)
  show r: "ls + LOGSIZE \<le> unat (BBLOCK x b)" using l(2) by (simp add: u)
  show "BBLOCK x b < n" using s l by (simp add: word_less_nat_alt)
  show "home ls (unat (BBLOCK x b))" using r by (simp add: home_def)
  show "\<not> data_block b (BBLOCK x b)" using s by (simp add: data_block_def)
qed

lemma data_region:
  assumes "layout_ok ls n b" "data_block b x"
  shows "x < n" "home ls (unat x)" "x < sb_size b" "x \<noteq> 0"
proof -
  have l: "ls + LOGSIZE \<le> data_start b" "sb_size b \<le> n" using assms(1) by (auto simp: layout_ok_def data_start_def)
  have x: "data_start b \<le> unat x" "x < sb_size b" using assms(2) by (auto simp: data_block_def)
  show "x < n" using x(2) l(2) by simp
  show "x < sb_size b" by (rule x)
  show "home ls (unat x)" using l(1) x(1) by (simp add: home_def)
  show "x \<noteq> 0" using x(1) by (auto simp: data_start_def)
qed

lemma BBLOCK_same:
  assumes "layout_ok ls n b" "x < sb_size b" "y < sb_size b"
  shows "BBLOCK x b = BBLOCK y b \<longleftrightarrow> unat x div BPB = unat y div BPB"
  using BBLOCK_unat [of b x] BBLOCK_unat [of b y] assms by (auto simp: layout_ok_def word_unat_eq_iff)

text \<open>The contents after block \<open>x\<close> has been allocated.\<close>

definition alloc_view :: "superblock \<Rightarrow> uint \<Rightarrow> (uint \<Rightarrow> byte list) \<Rightarrow> uint \<Rightarrow> byte list" where
  "alloc_view b x v = v(BBLOCK x b := set_bit_in (unat x mod BPB) (v (BBLOCK x b)), x := replicate BSIZE 0)"

lemma used_alloc:
  assumes l: "layout_ok ls n b" and v: "view_ok b v" and x: "data_block b x" and y: "y < sb_size b"
  shows "used b (alloc_view b x v) y \<longleftrightarrow> y = x \<or> used b v y"
proof -
  have xs: "x < sb_size b" using x by (simp add: data_block_def)
  have "BBLOCK y b \<noteq> x" using BBLOCK_region(5) [OF l y] x by auto
  moreover have "y = x \<longleftrightarrow> unat y div BPB = unat x div BPB \<and> unat y mod BPB = unat x mod BPB"
    by (metis div_mult_mod_eq word_unat_eq_iff)
  moreover have "unat y mod BPB < BPB" "unat x mod BPB < BPB" by (simp_all add: BPB_def BSIZE_def)
  moreover have "length (v (BBLOCK x b)) = BSIZE" using v by (simp add: view_ok_def)
  ultimately show ?thesis
    using BBLOCK_same [OF l y xs] bit_free_set [of "v (BBLOCK x b)" "unat x mod BPB" "unat y mod BPB"]
    by (auto simp: used_def alloc_view_def)
qed

lemma view_ok_alloc:
  assumes "layout_ok ls n b" "view_ok b v" "data_block b x"
  shows "view_ok b (alloc_view b x v)"
proof -
  have "length (alloc_view b x v y) = BSIZE" for y using assms(2) by (simp add: alloc_view_def view_ok_def)
  moreover have "data_start b \<le> unat y" if "y < sb_size b" "\<not> used b (alloc_view b x v) y" for y
    using assms(2) that used_alloc [OF assms that(1)] by (simp add: view_ok_def)
  ultimately show ?thesis unfolding view_ok_def by blast
qed

lemma alloc_view_other:
  assumes "layout_ok ls n b" "data_block b x" "data_block b y" "y \<noteq> x"
  shows "alloc_view b x v y = v y"
  using BBLOCK_region(5) [OF assms(1) data_region(3) [OF assms(1,2)]] assms(3,4) by (auto simp: alloc_view_def)

lemma alloc_view_same [simp]: "alloc_view b x v x = replicate BSIZE 0"
  by (simp add: alloc_view_def)

subsection \<open>Allocation of a block\<close>

text \<open>
  The disk and the bitmap are in order, and the buffers \<open>H\<close> that the caller holds are those of
  allocated data blocks.
\<close>

definition fs_ok :: "nat set \<Rightarrow> 'z istate_scheme \<Rightarrow> bool" where
  "fs_ok H s \<longleftrightarrow> cache_ok H s \<and> txn s \<and> layout_ok (unat (log_start s)) (disksize s) (sb s) \<and> view_ok (sb s) (view s)
     \<and> (\<forall>j \<in> H. \<exists>x. caches x (bufs s ! j) \<and> data_block (sb s) x \<and> used (sb s) (view s) x)"

lemma fs_okD:
  assumes "fs_ok H s"
  shows "cache_ok H s" "txn s" "layout_ok (unat (log_start s)) (disksize s) (sb s)" "view_ok (sb s) (view s)"
  using assms by (simp_all add: fs_ok_def)

lemma fs_ok_free:
  assumes "fs_ok H s" "\<not> (data_block (sb s) x \<and> used (sb s) (view s) x)"
  shows "free_of H s x"
  unfolding free_of_def
proof (intro ballI notI)
  fix j assume j: "j \<in> H" "caches x (bufs s ! j)"
  then obtain y where "caches y (bufs s ! j)" "data_block (sb s) y" "used (sb s) (view s) y" using assms(1) by (auto simp: fs_ok_def)
  with j(2) assms(2) caches_unique show False by blast
qed

lemma fs_ok_loggable:
  assumes "fs_ok H s"
  shows "x < sb_size (sb s) \<Longrightarrow> loggable s (BBLOCK x (sb s))" "data_block (sb s) x \<Longrightarrow> loggable s x"
  using BBLOCK_region [OF fs_okD(3) [OF assms]] data_region [OF fs_okD(3) [OF assms]] by (auto simp: loggable_def)

lemma fs_ok_peek:
  assumes "fs_ok H s" "fs_peek H s t"
  shows "fs_ok H t" "sb t = sb s"
proof -
  have f: "tframe s t" using assms(2) by (simp add: fs_peek_def)
  show "sb t = sb s" by (rule tframe_istate(2) [OF f])
  with assms show "fs_ok H t" by (simp add: fs_ok_def fs_peek_def tframe_simps [OF f])
qed

lemma fs_step_peek: "fs_peek H s t \<Longrightarrow> fs_step H t u \<Longrightarrow> fs_step H s u"
  by (auto simp: fs_step_def fs_peek_def intro: tframe_trans)

lemma fs_ok_alloc:
  assumes ok: "fs_ok H s" and st: "fs_step H s t" and x: "data_block (sb s) x" "view t = alloc_view (sb s) x (view s)"
  shows "fs_ok H t"
proof -
  have f: "tframe s t" "cache_ok H t" "txn t" "\<forall>j \<in> H. bufs t ! j = bufs s ! j" using st by (simp_all add: fs_step_def)
  have s: "sb t = sb s" by (rule tframe_istate(2) [OF f(1)])
  note lay = fs_okD(3) [OF ok]
  have u: "used (sb s) (view t) y" if "data_block (sb s) y" "used (sb s) (view s) y" for y
    using used_alloc [OF lay fs_okD(4) [OF ok] x(1)] that data_region(3) [OF lay that(1)] by (simp add: x(2))
  have "\<exists>y. caches y (bufs t ! j) \<and> data_block (sb t) y \<and> used (sb t) (view t) y" if "j \<in> H" for j
    using ok f(4) that u unfolding fs_ok_def s by metis
  with f(2,3) s lay view_ok_alloc [OF lay fs_okD(4) [OF ok] x(1)] show ?thesis
    by (simp add: fs_ok_def tframe_simps [OF f(1)] x(2))
qed

definition balloc_post :: "nat set \<Rightarrow> 'z istate_scheme \<Rightarrow> uint \<Rightarrow> 'z istate_scheme \<Rightarrow> bool" where
  "balloc_post H s x t \<longleftrightarrow> fs_step H s t \<and> fs_ok H t \<and> data_block (sb s) x \<and> \<not> used (sb s) (view s) x
     \<and> view t = alloc_view (sb s) x (view s)"

lemma bzero_ends:
  assumes "cache_ok H s" "txn s" "loggable s x" "free_of H s x"
  shows "ends (bzero 1 x s) (\<lambda>_ t. fs_step H s t \<and> view t = (view s)(x := replicate BSIZE 0))"
  using modify_block [OF assms, of "\<lambda>_. replicate BSIZE 0"] by (simp add: bzero_def)

text \<open>Bit \<open>k\<close> of the bitmap block for the blocks from \<open>b\<close> on.\<close>

lemma bitmap_index:
  assumes "layout_ok ls n sp" "b mod BPB = 0" "k < min BPB (unat (sb_size sp) - b)"
  shows "unat (of_nat (b + k) :: uint) = b + k" "of_nat (b + k) < sb_size sp" "of_nat b < sb_size sp"
    "(b + k) mod BPB = k" "BBLOCK (of_nat (b + k)) sp = BBLOCK (of_nat b) sp"
proof -
  have r: "b + k < unat (sb_size sp)" "k < BPB" using assms(3) by auto
  show u: "unat (of_nat (b + k) :: uint) = b + k" by (rule unat_of_nat32) (use r unat_range32 [of "sb_size sp"] in linarith)
  have ub: "unat (of_nat b :: uint) = b" by (rule unat_of_nat32) (use r unat_range32 [of "sb_size sp"] in linarith)
  show l: "of_nat (b + k) < sb_size sp" unfolding word_less_nat_alt u by (rule r)
  show lb: "of_nat b < sb_size sp" unfolding word_less_nat_alt ub using r by simp
  show "(b + k) mod BPB = k" using assms(2) r(2) by (auto simp: mod_add_eq [symmetric])
  have "(b + k) div BPB = b div BPB" using assms(2) r(2) by (auto simp: mod_eq_0_iff_dvd)
  then show "BBLOCK (of_nat (b + k)) sp = BBLOCK (of_nat b) sp"
    unfolding BBLOCK_same [OF assms(1) l lb] u ub .
qed

lemma balloc_loop_ends:
  assumes "fs_ok H s" "\<And>b. b \<in> set bs \<Longrightarrow> b mod BPB = 0 \<and> b < unat (sb_size (sb s))"
  shows "ends (balloc_loop 1 bs s) (balloc_post H s)"
  using assms
proof (induction bs arbitrary: s)
  case Nil
  then show ?case by (simp add: lack_def)
next
  case (Cons b bs)
  let ?sb = "sb s" and ?bn = "BBLOCK (of_nat b) (sb s)"
  note ok = Cons.prems(1) and lay = fs_okD(3) [OF Cons.prems(1)]
  have b: "b mod BPB = 0" "b < unat (sb_size ?sb)" using Cons.prems(2) by auto
  have "0 < min BPB (unat (sb_size ?sb) - b)" using b by (simp add: BPB_def BSIZE_def)
  from bitmap_index [OF lay b(1) this] have bs: "of_nat b < sb_size ?sb" by simp
  have bl: "loggable s ?bn" "free_of H s ?bn"
    using fs_ok_loggable [OF ok] bs fs_ok_free [OF ok] BBLOCK_region(5) [OF lay bs] by blast+
  show ?case
    unfolding balloc_loop.simps
  proof (subst ends_bnd, rule ends_mono [OF bread_ends [OF fs_okD(1) [OF ok] _ bl(2)]])
    show "?bn < disksize s" using bl by (simp add: loggable_def)
    fix i s1 assume p: "bread_post H ?bn s i s1"
    have sb1: "sb s1 = ?sb" by (rule tframe_istate(2) [OF bread_postD(1) [OF p]])
    let ?F = "find (bit_free (view s ?bn)) [0..<min BPB (unat (sb_size ?sb) - b)]"
    show "ends (let d = bdata (bufs s1 ! i) in
       (case find (bit_free d) [0..<min BPB (unat (sb_size (sb s1)) - b)] of
          None \<Rightarrow> bnd (brelse i s1) (\<lambda>_ s. balloc_loop 1 bs s)
        | Some bi \<Rightarrow>
            bnd (log_write i (set_bdata i (d[bi div 8 := d ! (bi div 8) OR bit_of bi]) s1)) (\<lambda>_ s.
            bnd (brelse i s) (\<lambda>_ s.
            bnd (bzero 1 (of_nat (b + bi)) s) (\<lambda>_ s. Ok (of_nat (b + bi)) s))))) (balloc_post H s)"
    proof (cases ?F)
      case None
      have "ends (bnd (brelse i s1) (\<lambda>_ s. balloc_loop 1 bs s)) (balloc_post H s)"
      proof (subst ends_bnd, rule ends_mono [OF release_ends [OF p]])
        fix t assume pk: "fs_peek H s t"
        have "ends (balloc_loop 1 bs t) (balloc_post H t)"
          by (rule Cons.IH) (use fs_ok_peek [OF ok pk] Cons.prems(2) in simp_all)
        then show "ends (balloc_loop 1 bs t) (balloc_post H s)"
          by (rule ends_mono) (use fs_ok_peek [OF ok pk] pk in \<open>auto simp: balloc_post_def fs_peek_def intro: fs_step_peek [OF pk]\<close>)
      qed
      with None show ?thesis by (simp add: bread_postD(6) [OF p] sb1 Let_def)
    next
      case (Some k)
      from find_SomeD [OF Some] have k: "k < min BPB (unat (sb_size ?sb) - b)" "bit_free (view s ?bn) k" by auto
      note ix = bitmap_index [OF lay b(1) k(1)]
      let ?x = "of_nat (b + k) :: uint"
      have nu: "\<not> used ?sb (view s) ?x" unfolding used_def ix(1,4,5) using k(2) by simp
      then have dx: "data_block ?sb ?x" using fs_okD(4) [OF ok] ix(2) by (auto simp: view_ok_def data_block_def)
      have "ends (bnd (bnd (log_write i (set_bdata i (set_bit_in k (view s ?bn)) s1)) (\<lambda>_ s. brelse i s))
          (\<lambda>_ s. bnd (bzero 1 ?x s) (\<lambda>_ s. Ok ?x s))) (balloc_post H s)"
      proof (subst ends_bnd, rule ends_mono [OF log_release_ends [OF p fs_okD(2) [OF ok] bl(1)]])
        fix t assume t: "fs_step H s t \<and> view t = (view s)(?bn := set_bit_in k (view s ?bn))"
        note ft = fs_step_frame [OF conjunct1 [OF t]]
        have lx: "loggable t ?x" "free_of H t ?x"
          using fs_ok_loggable(2) [OF ok dx] fs_ok_free [OF ok] nu by (simp_all add: ft(3,4))
        show "ends (bnd (bzero 1 ?x t) (\<lambda>_ s. Ok ?x s)) (balloc_post H s)"
        proof (subst ends_bnd, rule ends_mono [OF bzero_ends [OF ft(1,2) lx]])
          fix u assume u: "fs_step H t u \<and> view u = (view t)(?x := replicate BSIZE 0)"
          have st: "fs_step H s u" using fs_step_trans t u by blast
          have v: "view u = alloc_view ?sb ?x (view s)"
            unfolding alloc_view_def ix(1,4,5) using t u by simp
          show "ends (Ok ?x u) (balloc_post H s)"
            using st v dx nu fs_ok_alloc [OF ok st dx v] by (simp add: balloc_post_def)
        qed
      qed
      with Some show ?thesis by (simp add: bread_postD(6) [OF p] sb1 bnd_assoc set_bit_in_def Let_def)
    qed
  qed
qed

lemma balloc_ends:
  assumes "fs_ok H s"
  shows "ends (balloc 1 s) (balloc_post H s)"
  unfolding balloc_def
proof (rule balloc_loop_ends [OF assms])
  fix b assume "b \<in> set (map (\<lambda>k. k * BPB) [0..<(unat (sb_size (sb s)) + BPB - 1) div BPB])"
  then obtain k where k: "b = k * BPB" "k < (unat (sb_size (sb s)) + BPB - 1) div BPB" unfolding set_map set_upt by fastforce
  have "k * BPB < unat (sb_size (sb s))" using k(2) by (simp add: BPB_def BSIZE_def)
  with k(1) show "b mod BPB = 0 \<and> b < unat (sb_size (sb s))" by simp
qed

end
