(* ===== verification/FileData.thy ===== *)
theory FileData
  imports Txn Fs
begin

section \<open>Files as arrays of bytes\<close>

text \<open>
  The content of a file is what its block map and the blocks say. \<open>bmap\<close> may allocate blocks but
  does not change it; \<open>writei\<close> changes the bytes it is given and no others, of this file or of any
  other; \<open>readi\<close> returns them; and together with the commit of the log a write happens as a whole
  or not at all.
\<close>

subsection \<open>The abstract file\<close>

type_synonym bview = "uint \<Rightarrow> byte list"

text \<open>The disk block of block \<open>n\<close> of the file with block map \<open>a\<close>, zero when there is none.\<close>

definition blk :: "bview \<Rightarrow> uint list \<Rightarrow> nat \<Rightarrow> uint" where
  "blk v a n = (if n < NDIRECT then a ! n else if a ! NDIRECT = 0 then 0 else rd32 (v (a ! NDIRECT)) (4 * (n - NDIRECT)))"

definition fbyte :: "bview \<Rightarrow> uint list \<Rightarrow> nat \<Rightarrow> byte" where
  "fbyte v a k = (if blk v a (k div BSIZE) = 0 then 0 else v (blk v a (k div BSIZE)) ! (k mod BSIZE))"

definition blocks_of :: "bview \<Rightarrow> uint list \<Rightarrow> uint set" where
  "blocks_of v a = insert (a ! NDIRECT) (blk v a ` {..<MAXFILE}) - {0}"

text \<open>The blocks of a file are allocated data blocks, each used once.\<close>

definition file_ok :: "superblock \<Rightarrow> bview \<Rightarrow> uint list \<Rightarrow> bool" where
  "file_ok b v a \<longleftrightarrow> length a = NDIRECT + 1 \<and> (\<forall>x \<in> blocks_of v a. data_block b x \<and> used b v x)
     \<and> (\<forall>m < MAXFILE. \<forall>n < MAXFILE. blk v a m \<noteq> 0 \<longrightarrow> blk v a m = blk v a n \<longrightarrow> m = n)
     \<and> (\<forall>n < MAXFILE. blk v a n \<noteq> 0 \<longrightarrow> blk v a n \<noteq> a ! NDIRECT)"

text \<open>A block that an operation on this file has no business with.\<close>

definition foreign :: "superblock \<Rightarrow> bview \<Rightarrow> uint list \<Rightarrow> uint \<Rightarrow> bool" where
  "foreign b v a y \<longleftrightarrow> (\<forall>x < sb_size b. y \<noteq> BBLOCK x b) \<and> (data_block b y \<longrightarrow> used b v y) \<and> y \<notin> blocks_of v a"

text \<open>
  What an operation on the file does to the disk: the file keeps its blocks and may get others,
  from the free ones; blocks it has no business with stay. When it also keeps the content, the
  file \<open>grows\<close>.
\<close>

definition reaches :: "superblock \<Rightarrow> bview \<Rightarrow> uint list \<Rightarrow> bview \<Rightarrow> uint list \<Rightarrow> bool" where
  "reaches b v a v' a' \<longleftrightarrow> file_ok b v' a' \<and> (\<forall>m < MAXFILE. blk v a m \<noteq> 0 \<longrightarrow> blk v' a' m = blk v a m)
     \<and> (\<forall>y. foreign b v a y \<longrightarrow> v' y = v y) \<and> (\<forall>y. data_block b y \<longrightarrow> used b v y \<longrightarrow> used b v' y)
     \<and> blocks_of v' a' \<subseteq> blocks_of v a \<union> {y. data_block b y \<and> \<not> used b v y}"

definition grows :: "superblock \<Rightarrow> bview \<Rightarrow> uint list \<Rightarrow> bview \<Rightarrow> uint list \<Rightarrow> bool" where
  "grows b v a v' a' \<longleftrightarrow> reaches b v a v' a' \<and> (\<forall>k < MAXFILE * BSIZE. fbyte v' a' k = fbyte v a k)"

lemma NDIRECT_less [simp]: "NDIRECT < MAXFILE" "0 < BSIZE"
  by (simp_all add: MAXFILE_def NINDIRECT_def BSIZE_def)

lemma blocks_ofI: "n < MAXFILE \<Longrightarrow> blk v a n \<noteq> 0 \<Longrightarrow> blk v a n \<in> blocks_of v a" "a ! NDIRECT \<noteq> 0 \<Longrightarrow> a ! NDIRECT \<in> blocks_of v a"
  by (auto simp: blocks_of_def)

lemma file_okD:
  assumes "file_ok b v a"
  shows "length a = NDIRECT + 1" "x \<in> blocks_of v a \<Longrightarrow> data_block b x \<and> used b v x"
    "m < MAXFILE \<Longrightarrow> n < MAXFILE \<Longrightarrow> blk v a m \<noteq> 0 \<Longrightarrow> blk v a m = blk v a n \<Longrightarrow> m = n"
    "n < MAXFILE \<Longrightarrow> blk v a n \<noteq> 0 \<Longrightarrow> blk v a n \<noteq> a ! NDIRECT"
  using assms by (auto simp: file_ok_def)

lemma fblock: "k < MAXFILE * BSIZE \<Longrightarrow> k div BSIZE < MAXFILE"
  by (simp add: less_mult_imp_div_less)

lemma reaches_refl: "file_ok b v a \<Longrightarrow> reaches b v a v a"
  by (auto simp: reaches_def)

lemma grows_refl: "file_ok b v a \<Longrightarrow> grows b v a v a"
  by (simp add: grows_def reaches_refl)

lemma foreign_reaches:
  assumes "reaches b v a v' a'" "foreign b v a y"
  shows "foreign b v' a' y"
  using assms by (auto simp: reaches_def foreign_def)

lemma reaches_trans:
  assumes "reaches b v a v' a'" "reaches b v' a' v'' a''"
  shows "reaches b v a v'' a''"
proof -
  have "foreign b v a y \<Longrightarrow> v'' y = v y" for y
    using assms foreign_reaches [OF assms(1), of y] unfolding reaches_def by metis
  moreover have "m < MAXFILE \<Longrightarrow> blk v a m \<noteq> 0 \<Longrightarrow> blk v'' a'' m = blk v a m" for m
    using assms unfolding reaches_def by metis
  ultimately show ?thesis using assms unfolding reaches_def by (auto 4 3)
qed

lemma grows_trans: "grows b v a v' a' \<Longrightarrow> grows b v' a' v'' a'' \<Longrightarrow> grows b v a v'' a''"
  using reaches_trans unfolding grows_def by metis

subsection \<open>The three ways the block map grows\<close>

text \<open>A fresh block is none of the file's.\<close>

lemma fresh_not_in_file: "file_ok b v a \<Longrightarrow> \<not> used b v x \<Longrightarrow> x \<notin> blocks_of v a"
  by (auto simp: file_ok_def)

lemma rd32_zero: "i + 3 < BSIZE \<Longrightarrow> rd32 (replicate BSIZE 0) i = 0"
  by (simp add: rd32_def)

lemma foreign_alloc:
  assumes "layout_ok ls n b" "data_block b x" "\<not> used b v x" "foreign b v a y"
  shows "alloc_view b x v y = v y"
proof -
  have "y \<noteq> BBLOCK x b" using assms(4) data_region(3) [OF assms(1,2)] by (auto simp: foreign_def)
  moreover have "y \<noteq> x" using assms(2-4) by (auto simp: foreign_def)
  ultimately show ?thesis by (simp add: alloc_view_def)
qed

text \<open>Block \<open>x\<close> becomes block \<open>n\<close> of the file, or, when \<open>n\<close> is \<open>MAXFILE\<close>, its indirect block.\<close>

lemma grows_alloc:
  assumes lay: "layout_ok ls dn b" and vok: "view_ok b v" and fok: "file_ok b v a" and x: "data_block b x" "\<not> used b v x"
    and len: "length a' = NDIRECT + 1"
    and V: "\<And>y. y \<noteq> a ! NDIRECT \<or> y = 0 \<Longrightarrow> v' y = alloc_view b x v y"
    and U: "\<And>y. y < sb_size b \<Longrightarrow> used b v' y \<longleftrightarrow> y = x \<or> used b v y"
    and I: "a' ! NDIRECT = (if n = MAXFILE then x else a ! NDIRECT)" "n = MAXFILE \<Longrightarrow> a ! NDIRECT = 0"
    and B: "\<And>m. m < MAXFILE \<Longrightarrow> blk v' a' m = (if m = n then x else blk v a m)" "n < MAXFILE \<Longrightarrow> blk v a n = 0"
  shows "grows b v a v' a'"
proof -
  have x0: "x \<noteq> 0" by (rule data_region(4) [OF lay x(1)])
  have nx: "x \<notin> blocks_of v a" by (rule fresh_not_in_file [OF fok x(2)])
  have bx: "m < MAXFILE \<Longrightarrow> blk v a m \<noteq> x" for m using nx x0 blocks_ofI(1) [of m v a] by metis
  have ix: "a ! NDIRECT \<noteq> x" using nx x0 blocks_ofI(2) by metis
  have sub: "blocks_of v' a' \<subseteq> insert x (blocks_of v a)"
    using I B by (auto simp: blocks_of_def split: if_splits)
  have um: "data_block b y \<Longrightarrow> used b v y \<Longrightarrow> used b v' y" for y using U data_region(3) [OF lay] by blast
  have bl: "data_block b y \<and> used b v' y" if "y \<in> blocks_of v' a'" for y
    using sub that x(1) U [OF data_region(3) [OF lay x(1)]] um file_okD(2) [OF fok, of y] by blast
  have dis: "m = k" if "m < MAXFILE" "k < MAXFILE" "blk v' a' m \<noteq> 0" "blk v' a' m = blk v' a' k" for m k
    using that B(1) bx file_okD(3) [OF fok, of m k] by (auto split: if_splits)
  have ind: "blk v' a' m \<noteq> a' ! NDIRECT" if "m < MAXFILE" "blk v' a' m \<noteq> 0" for m
    using that B(1) [OF that(1)] I bx [OF that(1)] ix file_okD(4) [OF fok that(1)] by (auto split: if_splits)
  have fb: "fbyte v' a' k = fbyte v a k" if "k < MAXFILE * BSIZE" for k
  proof -
    let ?m = "k div BSIZE"
    have m: "?m < MAXFILE" by (rule fblock [OF that])
    show ?thesis
    proof (cases "?m = n")
      case True
      then have "v' x = replicate BSIZE 0" using V [of x] ix by simp
      with True m B(1) [OF m] B(2) x0 show ?thesis by (simp add: fbyte_def)
    next
      case False
      then have e: "blk v' a' ?m = blk v a ?m" using B(1) [OF m] by simp
      show ?thesis
      proof (cases "blk v a ?m = 0")
        case nz: False
        have "data_block b (blk v a ?m)" using file_okD(2) [OF fok] blocks_ofI(1) [OF m nz] by blast
        then have "v' (blk v a ?m) = v (blk v a ?m)"
          using V file_okD(4) [OF fok m nz] alloc_view_other [OF lay x(1) _ bx [OF m]] by simp
        with e show ?thesis by (simp add: fbyte_def)
      qed (simp add: fbyte_def e)
    qed
  qed
  have fo: "v' y = v y" if "foreign b v a y" for y
  proof -
    have "y \<noteq> a ! NDIRECT \<or> y = 0" using that by (auto simp: foreign_def blocks_of_def)
    with V foreign_alloc [OF lay x that] show ?thesis by simp
  qed
  have "blk v' a' m = blk v a m" if "m < MAXFILE" "blk v a m \<noteq> 0" for m using B that by auto
  then show ?thesis using len bl dis ind fb fo um sub x unfolding grows_def reaches_def file_ok_def by blast
qed

lemma grows_direct:
  assumes lay: "layout_ok ls dn b" and vok: "view_ok b v" and fok: "file_ok b v a" and x: "data_block b x" "\<not> used b v x"
    and n: "n < NDIRECT" "a ! n = 0"
  shows "grows b v a (alloc_view b x v) (a[n := x])"
proof (rule grows_alloc [OF lay vok fok x, of _ _ n])
  have nm: "n \<noteq> MAXFILE" using n(1) NDIRECT_less(1) by linarith
  have len: "length a = NDIRECT + 1" by (rule file_okD(1) [OF fok])
  show "length (a[n := x]) = NDIRECT + 1" by (simp add: len)
  show "(a[n := x]) ! NDIRECT = (if n = MAXFILE then x else a ! NDIRECT)"
    using n nm by (simp add: nth_list_update_if)
  have "alloc_view b x v (a ! NDIRECT) = v (a ! NDIRECT)" if "a ! NDIRECT \<noteq> 0"
    using alloc_view_other [OF lay x(1)] file_okD(2) [OF fok blocks_ofI(2) [OF that]] x(2) by metis
  then show "blk (alloc_view b x v) (a[n := x]) m = (if m = n then x else blk v a m)" if "m < MAXFILE" for m
    using n len by (auto simp: blk_def nth_list_update_if)
  show "blk v a n = 0" using n by (simp add: blk_def)
qed (use n NDIRECT_less used_alloc [OF lay vok x(1)] in auto)

lemma grows_indirect_block:
  assumes lay: "layout_ok ls dn b" and vok: "view_ok b v" and fok: "file_ok b v a" and x: "data_block b x" "\<not> used b v x"
    and n: "a ! NDIRECT = 0"
  shows "grows b v a (alloc_view b x v) (a[NDIRECT := x])"
proof (rule grows_alloc [OF lay vok fok x, of _ _ MAXFILE])
  have len: "length a = NDIRECT + 1" by (rule file_okD(1) [OF fok])
  show "length (a[NDIRECT := x]) = NDIRECT + 1" "(a[NDIRECT := x]) ! NDIRECT = (if MAXFILE = MAXFILE then x else a ! NDIRECT)"
    by (simp_all add: len)
  have "rd32 (replicate BSIZE 0) (4 * (m - NDIRECT)) = 0" if "m < MAXFILE" for m
    by (rule rd32_zero) (use that in \<open>simp add: MAXFILE_def NINDIRECT_def BSIZE_def NDIRECT_def\<close>)
  then show "blk (alloc_view b x v) (a[NDIRECT := x]) m = (if m = MAXFILE then x else blk v a m)" if "m < MAXFILE" for m
    using n len that by (auto simp: blk_def nth_list_update_if)
qed (use n used_alloc [OF lay vok x(1)] in auto)

text \<open>An entry of the indirect block.\<close>

definition set_entry :: "uint \<Rightarrow> nat \<Rightarrow> uint \<Rightarrow> bview \<Rightarrow> bview" where
  "set_entry ind j x v = v(ind := wr32 (v ind) (4 * j) x)"

lemma used_data_write:
  assumes "layout_ok ls dn b" "data_block b z" "y < sb_size b"
  shows "used b (v(z := d)) y = used b v y"
  using BBLOCK_region(5) [OF assms(1,3)] assms(2) by (auto simp: used_def)

lemma rd32_entry:
  assumes "length d = BSIZE" "j < NINDIRECT" "k < NINDIRECT"
  shows "rd32 (wr32 d (4 * j) w) (4 * k) = (if k = j then w else rd32 d (4 * k))"
proof (cases "k = j")
  case True
  with assms show ?thesis by (simp add: NINDIRECT_def BSIZE_def)
next
  case False
  then have "4 * j + 4 \<le> 4 * k \<or> 4 * k + 4 \<le> 4 * j" by linarith
  with False show ?thesis by (simp add: rd32_wr32_other)
qed

lemma grows_indirect_entry:
  assumes lay: "layout_ok ls dn b" and vok: "view_ok b v" and fok: "file_ok b v a" and x: "data_block b x" "\<not> used b v x"
    and ind: "a ! NDIRECT \<noteq> 0" and n: "NDIRECT \<le> n" "n < MAXFILE" "blk v a n = 0"
  shows "grows b v a (set_entry (a ! NDIRECT) (n - NDIRECT) x (alloc_view b x v)) a"
proof (rule grows_alloc [OF lay vok fok x, of _ _ n])
  let ?i = "a ! NDIRECT"
  have d: "data_block b ?i" "used b v ?i" using file_okD(2) [OF fok blocks_ofI(2) [OF ind]] by auto
  have vi: "alloc_view b x v ?i = v ?i" using alloc_view_other [OF lay x(1) d(1)] d(2) x(2) by metis
  have lv: "length (v ?i) = BSIZE" using vok by (simp add: view_ok_def)
  show "blk (set_entry ?i (n - NDIRECT) x (alloc_view b x v)) a m = (if m = n then x else blk v a m)" if "m < MAXFILE" for m
  proof (cases "m < NDIRECT")
    case True
    with n show ?thesis by (simp add: blk_def)
  next
    case False
    with that n have "n - NDIRECT < NINDIRECT" "m - NDIRECT < NINDIRECT" "m - NDIRECT = n - NDIRECT \<longleftrightarrow> m = n"
      by (auto simp: MAXFILE_def)
    with False ind vi rd32_entry [OF lv, of "n - NDIRECT" "m - NDIRECT" x] show ?thesis
      by (simp add: blk_def set_entry_def)
  qed
  show "used b (set_entry ?i (n - NDIRECT) x (alloc_view b x v)) y \<longleftrightarrow> y = x \<or> used b v y" if "y < sb_size b" for y
    using used_data_write [OF lay d(1) that] used_alloc [OF lay vok x(1) that] by (simp add: set_entry_def)
qed (use n ind file_okD(1) [OF fok] in \<open>auto simp: set_entry_def\<close>)

subsection \<open>The block map\<close>

lemma icache_frame [simp]:
  "view (s\<lparr>icache := c\<rparr>) = view s" "cache_ok H (s\<lparr>icache := c\<rparr>) = cache_ok H s" "txn (s\<lparr>icache := c\<rparr>) = txn s"
  "fs_ok H (s\<lparr>icache := c\<rparr>) = fs_ok H s"
proof -
  show v: "view (s\<lparr>icache := c\<rparr>) = view s" by (simp add: view_def [abs_def] cong: option.case_cong)
  show c: "cache_ok H (s\<lparr>icache := c\<rparr>) = cache_ok H s" by (simp add: cache_ok_def lone_def buf_ok_def lock_ok_def)
  show t: "txn (s\<lparr>icache := c\<rparr>) = txn s" by (simp add: txn_def log_region_def dirty_blocks_def dirty_def)
  show "fs_ok H (s\<lparr>icache := c\<rparr>) = fs_ok H s" by (simp add: fs_ok_def v c t)
qed

text \<open>An operation on inode \<open>i\<close> that may change its block map and its size in memory.\<close>

definition fframe :: "nat \<Rightarrow> 'z istate_scheme \<Rightarrow> 'z istate_scheme \<Rightarrow> bool" where
  "fframe i s t \<longleftrightarrow> (\<exists>P L B R n l a z. t = s\<lparr>ptable := P, slocks := L, bufs := B, lru := R, lh_n := n, lh_block := l,
       icache := (icache s)[i := (icache s ! i)\<lparr>iaddrs := a, isize := z\<rparr>]\<rparr>
     \<and> map pid P = map pid (ptable s) \<and> length B = length (bufs s))"

lemma fframe_tframe:
  assumes "tframe s t"
  shows "fframe i s t"
proof -
  obtain P L B R n l where t: "t = s\<lparr>ptable := P, slocks := L, bufs := B, lru := R, lh_n := n, lh_block := l\<rparr>"
    and e: "map pid P = map pid (ptable s)" "length B = length (bufs s)"
    using assms unfolding tframe_def by blast
  have i: "(icache s)[i := (icache s ! i)\<lparr>iaddrs := iaddrs (icache s ! i), isize := isize (icache s ! i)\<rparr>] = icache s" by simp
  have "t = s\<lparr>ptable := P, slocks := L, bufs := B, lru := R, lh_n := n, lh_block := l,
       icache := (icache s)[i := (icache s ! i)\<lparr>iaddrs := iaddrs (icache s ! i), isize := isize (icache s ! i)\<rparr>]\<rparr>"
    unfolding i by (simp add: t)
  with e show ?thesis unfolding fframe_def by (intro exI conjI) (assumption, simp_all)
qed

lemma fframe_upd:
  "fframe i s (upd_inode i (\<lambda>ip. ip\<lparr>iaddrs := f ip\<rparr>) s)" "fframe i s (upd_inode i (\<lambda>ip. ip\<lparr>isize := g ip\<rparr>) s)"
proof -
  have "upd_inode i (\<lambda>ip. ip\<lparr>iaddrs := f ip\<rparr>) s = s\<lparr>ptable := ptable s, slocks := slocks s, bufs := bufs s, lru := lru s,
      lh_n := lh_n s, lh_block := lh_block s,
      icache := (icache s)[i := (icache s ! i)\<lparr>iaddrs := f (icache s ! i), isize := isize (icache s ! i)\<rparr>]\<rparr>"
    by (simp add: upd_inode_def)
  then show "fframe i s (upd_inode i (\<lambda>ip. ip\<lparr>iaddrs := f ip\<rparr>) s)"
    unfolding fframe_def by (intro exI conjI) (assumption, simp_all)
  have "upd_inode i (\<lambda>ip. ip\<lparr>isize := g ip\<rparr>) s = s\<lparr>ptable := ptable s, slocks := slocks s, bufs := bufs s, lru := lru s,
      lh_n := lh_n s, lh_block := lh_block s,
      icache := (icache s)[i := (icache s ! i)\<lparr>iaddrs := iaddrs (icache s ! i), isize := g (icache s ! i)\<rparr>]\<rparr>"
    by (simp add: upd_inode_def)
  then show "fframe i s (upd_inode i (\<lambda>ip. ip\<lparr>isize := g ip\<rparr>) s)"
    unfolding fframe_def by (intro exI conjI) (assumption, simp_all)
qed

lemma fframe_trans:
  assumes "fframe i s t" "fframe i t u" "i < length (icache s)"
  shows "fframe i s u"
proof -
  obtain P L B R n l a z where t: "t = s\<lparr>ptable := P, slocks := L, bufs := B, lru := R, lh_n := n, lh_block := l,
       icache := (icache s)[i := (icache s ! i)\<lparr>iaddrs := a, isize := z\<rparr>]\<rparr>"
    and "map pid P = map pid (ptable s)" "length B = length (bufs s)"
    using assms(1) unfolding fframe_def by blast
  moreover obtain P' L' B' R' n' l' a' z' where
    u: "u = t\<lparr>ptable := P', slocks := L', bufs := B', lru := R', lh_n := n', lh_block := l',
       icache := (icache t)[i := (icache t ! i)\<lparr>iaddrs := a', isize := z'\<rparr>]\<rparr>"
    and "map pid P' = map pid (ptable t)" "length B' = length (bufs t)"
    using assms(2) unfolding fframe_def by blast
  moreover have "u = s\<lparr>ptable := P', slocks := L', bufs := B', lru := R', lh_n := n', lh_block := l',
       icache := (icache s)[i := (icache s ! i)\<lparr>iaddrs := a', isize := z'\<rparr>]\<rparr>"
    using assms(3) by (simp add: t u)
  ultimately show ?thesis unfolding fframe_def by (intro exI conjI) (assumption, simp_all)
qed

lemma fframe_simps:
  assumes "fframe i s t"
  shows "held t = held s" "cpu_proc t = cpu_proc s" "disksize t = disksize s" "disk t = disk s" "dwrites t = dwrites s"
    "log_start t = log_start s" "sb t = sb s" "length (icache t) = length (icache s)"
    "j \<noteq> i \<Longrightarrow> icache t ! j = icache s ! j" "idev (icache t ! i) = idev (icache s ! i)" "inum (icache t ! i) = inum (icache s ! i)"
    "itype (icache t ! i) = itype (icache s ! i)" "imajor (icache t ! i) = imajor (icache s ! i)"
    "iminor (icache t ! i) = iminor (icache s ! i)" "inlink (icache t ! i) = inlink (icache s ! i)"
    "log_size t = log_size s" "log_outstanding t = log_outstanding s"
proof -
  obtain P L B R n l a z where t: "t = s\<lparr>ptable := P, slocks := L, bufs := B, lru := R, lh_n := n, lh_block := l,
       icache := (icache s)[i := (icache s ! i)\<lparr>iaddrs := a, isize := z\<rparr>]\<rparr>"
    using assms unfolding fframe_def by blast
  have c: "icache t = (icache s)[i := (icache s ! i)\<lparr>iaddrs := a, isize := z\<rparr>]" by (simp add: t)
  show "length (icache t) = length (icache s)" "j \<noteq> i \<Longrightarrow> icache t ! j = icache s ! j"
    "idev (icache t ! i) = idev (icache s ! i)" "inum (icache t ! i) = inum (icache s ! i)"
    "itype (icache t ! i) = itype (icache s ! i)" "imajor (icache t ! i) = imajor (icache s ! i)"
    "iminor (icache t ! i) = iminor (icache s ! i)" "inlink (icache t ! i) = inlink (icache s ! i)"
    unfolding c by (simp_all add: nth_list_update_if)
  show "held t = held s" "cpu_proc t = cpu_proc s" "disksize t = disksize s" "disk t = disk s" "dwrites t = dwrites s"
    "log_start t = log_start s" "sb t = sb s" "log_size t = log_size s" "log_outstanding t = log_outstanding s"
    by (simp_all add: t)
qed

definition file_state :: "nat \<Rightarrow> 'z istate_scheme \<Rightarrow> bool" where
  "file_state i s \<longleftrightarrow> i < length (icache s) \<and> idev (icache s ! i) = 1 \<and> fs_ok {} s
     \<and> file_ok (sb s) (view s) (iaddrs (icache s ! i))"

lemma file_stateD:
  assumes "file_state i s"
  shows "i < length (icache s)" "idev (icache s ! i) = 1" "fs_ok {} s" "file_ok (sb s) (view s) (iaddrs (icache s ! i))"
    "cache_ok {} s" "txn s" "layout_ok (unat (log_start s)) (disksize s) (sb s)" "view_ok (sb s) (view s)"
  using assms by (auto simp: file_state_def fs_ok_def)

lemma fs_peek_refl: "cache_ok H s \<Longrightarrow> fs_peek H s s"
  by (auto simp: fs_peek_def intro: tframe_cframe cframe_refl)

lemma free_of_empty [simp]: "free_of {} s x"
  by (simp add: free_of_def)

lemma unat_block: "n < MAXFILE \<Longrightarrow> unat (of_nat n :: uint) = n"
  by (rule unat_of_nat32) (simp add: MAXFILE_def NINDIRECT_def NDIRECT_def BSIZE_def)

text \<open>A block the file has: nothing changes, in or outside a transaction.\<close>

lemma bmap_mapped:
  assumes ok: "cache_ok {} s" and dev: "idev (icache s ! i) = 1" and n: "n < MAXFILE"
    and nz: "blk (view s) (iaddrs (icache s ! i)) n \<noteq> 0" and ind: "NDIRECT \<le> n \<Longrightarrow> iaddrs (icache s ! i) ! NDIRECT < disksize s"
  shows "ends (bmap i (of_nat n) s) (\<lambda>x t. fs_peek {} s t \<and> x = blk (view s) (iaddrs (icache s ! i)) n)"
proof (cases "n < NDIRECT")
  case True
  with nz fs_peek_refl [OF ok] show ?thesis by (simp add: bmap_def unat_block [OF n] blk_def)
next
  case False
  let ?a = "iaddrs (icache s ! i)"
  have i: "?a ! NDIRECT \<noteq> 0" "?a ! NDIRECT < disksize s" "n - NDIRECT < NINDIRECT"
    using False nz ind n by (auto simp: blk_def MAXFILE_def)
  have "ends (bread 1 (?a ! NDIRECT) s) (\<lambda>b t. ends (brelse b t) (\<lambda>_ t. fs_peek {} s t)
      \<and> rd32 (bdata (bufs t ! b)) (4 * (n - NDIRECT)) = blk (view s) ?a n)"
  proof (rule ends_mono [OF bread_ends [OF ok i(2)]])
    fix b t assume p: "bread_post {} (?a ! NDIRECT) s b t"
    from release_ends [OF p] bread_postD(6) [OF p] False i(1)
    show "ends (brelse b t) (\<lambda>_ t. fs_peek {} s t) \<and> rd32 (bdata (bufs t ! b)) (4 * (n - NDIRECT)) = blk (view s) ?a n"
      by (simp add: blk_def)
  qed simp
  then show ?thesis using False i dev nz
    by (auto simp: bmap_def unat_block [OF n] Let_def elim!: ends_mono)
qed

text \<open>What a step of \<open>bmap\<close> does to the file.\<close>

definition bstep :: "nat \<Rightarrow> 'z istate_scheme \<Rightarrow> 'z istate_scheme \<Rightarrow> bool" where
  "bstep i s t \<longleftrightarrow> fframe i s t \<and> isize (icache t ! i) = isize (icache s ! i) \<and> file_state i t
     \<and> grows (sb s) (view s) (iaddrs (icache s ! i)) (view t) (iaddrs (icache t ! i))"

lemma bstep_trans:
  assumes "file_state i s" "bstep i s t" "bstep i t u"
  shows "bstep i s u"
  using assms fframe_trans [of i s t u] grows_trans fframe_simps(7) [of i s t] unfolding bstep_def
  by (metis file_stateD(1))

lemma bstep_peek:
  assumes "file_state i s" "fs_peek {} s t"
  shows "bstep i s t" "icache t = icache s" "view t = view s"
proof -
  have f: "tframe s t" "view t = view s" using assms(2) by (simp_all add: fs_peek_def)
  note c = tframe_istate [OF f(1)]
  show "icache t = icache s" "view t = view s" by (rule c f)+
  have "file_state i t" using assms(1) fs_ok_peek(1) [OF file_stateD(3) [OF assms(1)] assms(2)]
    by (simp add: file_state_def c f(2))
  then show "bstep i s t"
    using fframe_tframe [OF f(1)] grows_refl [OF file_stateD(4) [OF assms(1)]] by (simp add: bstep_def c f(2))
qed

lemma bstep_alloc:
  assumes fs: "file_state i s" and p: "balloc_post {} s x t"
    and g: "grows (sb s) (view s) (iaddrs (icache s ! i)) (alloc_view (sb s) x (view s)) ((iaddrs (icache s ! i))[n := x])"
  shows "bstep i s (upd_inode i (\<lambda>ip. ip\<lparr>iaddrs := (iaddrs ip)[n := x]\<rparr>) t)"
proof -
  let ?u = "upd_inode i (\<lambda>ip. ip\<lparr>iaddrs := (iaddrs ip)[n := x]\<rparr>) t"
  have tf: "tframe s t" and ok: "fs_ok {} t" and v: "view t = alloc_view (sb s) x (view s)"
    using p by (simp_all add: balloc_post_def fs_step_def)
  note c = tframe_istate [OF tf] and il = file_stateD(1) [OF fs]
  have u: "icache ?u ! i = (icache s ! i)\<lparr>iaddrs := (iaddrs (icache s ! i))[n := x]\<rparr>" "view ?u = view t" "sb ?u = sb s"
    "fs_ok {} ?u" "length (icache ?u) = length (icache s)"
    using il ok c by (simp_all add: upd_inode_def)
  have "fframe i s ?u" by (rule fframe_trans [OF fframe_tframe [OF tf] fframe_upd(1) il])
  moreover have "file_state i ?u"
    using g file_stateD(1,2) [OF fs] u v by (simp add: file_state_def grows_def reaches_def)
  ultimately show ?thesis using g by (simp add: bstep_def u v)
qed

text \<open>The block of the indirect addresses, allocated when the file has none.\<close>

definition get_indirect :: "nat \<Rightarrow> 'z istate_scheme \<Rightarrow> ('z istate_scheme, uint) outcome" where
  "get_indirect i s =
     (if iaddrs (icache s ! i) ! NDIRECT = 0
      then bnd (balloc (idev (icache s ! i)) s) (\<lambda>addr s.
             Ok addr (upd_inode i (\<lambda>ip. ip\<lparr>iaddrs := (iaddrs ip)[NDIRECT := addr]\<rparr>) s))
      else Ok (iaddrs (icache s ! i) ! NDIRECT) s)"

definition unchanged :: "nat \<Rightarrow> 'z istate_scheme \<Rightarrow> 'z istate_scheme \<Rightarrow> bool" where
  "unchanged i s t \<longleftrightarrow> view t = view s \<and> icache t = icache s"

lemma get_indirect_ends:
  assumes fs: "file_state i s"
  shows "ends (get_indirect i s) (\<lambda>ind t. bstep i s t \<and> ind = iaddrs (icache t ! i) ! NDIRECT \<and> ind \<noteq> 0
    \<and> (iaddrs (icache s ! i) ! NDIRECT \<noteq> 0 \<longrightarrow> unchanged i s t))"
proof (cases "iaddrs (icache s ! i) ! NDIRECT = 0")
  case True
  note fD = file_stateD [OF fs]
  have "ends (balloc 1 s) (\<lambda>x t. let u = upd_inode i (\<lambda>ip. ip\<lparr>iaddrs := (iaddrs ip)[NDIRECT := x]\<rparr>) t in
      bstep i s u \<and> x = iaddrs (icache u ! i) ! NDIRECT \<and> x \<noteq> 0)"
  proof (rule ends_mono [OF balloc_ends [OF fD(3)]])
    fix x t assume p: "balloc_post {} s x t"
    then have x: "data_block (sb s) x" "\<not> used (sb s) (view s) x" "tframe s t" by (simp_all add: balloc_post_def fs_step_def)
    have l: "length (iaddrs (icache s ! i)) = NDIRECT + 1" using file_okD(1) [OF fD(4)] .
    have "iaddrs (icache (upd_inode i (\<lambda>ip. ip\<lparr>iaddrs := (iaddrs ip)[NDIRECT := x]\<rparr>) t) ! i) ! NDIRECT = x"
      using fD(1) l by (simp add: upd_inode_def tframe_istate [OF x(3)])
    then show "let u = upd_inode i (\<lambda>ip. ip\<lparr>iaddrs := (iaddrs ip)[NDIRECT := x]\<rparr>) t in
        bstep i s u \<and> x = iaddrs (icache u ! i) ! NDIRECT \<and> x \<noteq> 0"
      using bstep_alloc [OF fs p grows_indirect_block [OF fD(7,8,4) x(1,2) True]] data_region(4) [OF fD(7) x(1)]
      by (simp add: Let_def)
  qed
  with True fD(2) show ?thesis by (simp add: get_indirect_def Let_def)
next
  case False
  with bstep_peek(1) [OF fs fs_peek_refl [OF file_stateD(5) [OF fs]]] show ?thesis
    by (simp add: get_indirect_def unchanged_def)
qed

text \<open>Putting a fresh block into the indirect block, which is held meanwhile in buffer \<open>b\<close>.\<close>

definition new_entry :: "nat \<Rightarrow> nat \<Rightarrow> 'z istate_scheme \<Rightarrow> ('z istate_scheme, uint) outcome" where
  "new_entry b j s =
     bnd (balloc 1 s) (\<lambda>addr s.
     bnd (log_write b (set_bdata b (wr32 (bdata (bufs s ! b)) (4 * j) addr) s)) (\<lambda>_ s.
     bnd (brelse b s) (\<lambda>_ s. Ok addr s)))"

lemma fs_ok_held:
  assumes ok: "fs_ok {} s" and p: "bread_post {} x s b t" and x: "data_block (sb s) x" "used (sb s) (view s) x"
  shows "fs_ok {b} t" "sb t = sb s" "view t = view s" "icache t = icache s"
proof -
  note q = bread_postD [OF p]
  note c = tframe_istate [OF q(1)] and fr = tframe_simps [OF q(1)]
  show "sb t = sb s" "icache t = icache s" "view t = view s" by (rule c q(7))+
  then show "fs_ok {b} t" using ok q(2,3,5) x by (auto simp: fs_ok_def fr)
qed

lemma view_ok_data_write:
  assumes "layout_ok ls n b" "view_ok b v" "data_block b z" "length d = BSIZE"
  shows "view_ok b (v(z := d))"
  using assms used_data_write [OF assms(1,3)] by (auto simp: view_ok_def)

lemma new_entry_ends:
  assumes fs: "file_state i s" and p: "bread_post {} ind s b s1" and ind: "ind = iaddrs (icache s ! i) ! NDIRECT" "ind \<noteq> 0"
    and n: "NDIRECT \<le> n" "n < MAXFILE" "blk (view s) (iaddrs (icache s ! i)) n = 0"
  shows "ends (new_entry b (n - NDIRECT) s1) (\<lambda>x t. bstep i s t \<and> x = blk (view t) (iaddrs (icache t ! i)) n \<and> x \<noteq> 0)"
proof -
  note fD = file_stateD [OF fs]
  let ?a = "iaddrs (icache s ! i)"
  have dI: "data_block (sb s) ind" "used (sb s) (view s) ind" using file_okD(2) [OF fD(4) blocks_ofI(2)] ind by auto
  note h = fs_ok_held [OF fD(3) p dI]
  have len: "length (view s ind) = BSIZE" using fD(8) by (simp add: view_ok_def)
  show ?thesis
    unfolding new_entry_def
  proof (subst ends_bnd, rule ends_mono [OF balloc_ends [OF h(1)]])
    fix x s2 assume p2: "balloc_post {b} s1 x s2"
    then have x: "data_block (sb s) x" "\<not> used (sb s) (view s) x" and v2: "view s2 = alloc_view (sb s) x (view s)"
      and st: "fs_step {b} s1 s2" and ok2: "fs_ok {b} s2" using h(2,3) by (simp_all add: balloc_post_def)
    have t12: "tframe s1 s2" and c2: "cache_ok {b} s2" "txn s2" and b2: "bufs s2 ! b = bufs s1 ! b"
      using st by (simp_all add: fs_step_def)
    have t02: "tframe s s2" by (rule tframe_trans [OF bread_postD(1) [OF p] t12])
    have cb: "caches ind (bufs s2 ! b)" "bdata (bufs s2 ! b) = view s ind" using b2 bread_postD(5,6) [OF p] by simp_all
    have l2: "loggable s2 ind" using data_region(1,2) [OF fD(7) dI(1)] by (simp add: loggable_def tframe_simps [OF t02])
    have xi: "x \<noteq> ind" using x(2) dI(2) by auto
    have v2i: "view s2 ind = view s ind" using alloc_view_other [OF fD(7) x(1) dI(1)] xi by (simp add: v2)
    let ?d = "wr32 (bdata (bufs s2 ! b)) (4 * (n - NDIRECT)) x"
    show "ends (bnd (log_write b (set_bdata b ?d s2)) (\<lambda>_ s. bnd (brelse b s) (\<lambda>_ s. Ok x s)))
        (\<lambda>x t. bstep i s t \<and> x = blk (view t) (iaddrs (icache t ! i)) n \<and> x \<noteq> 0)"
    proof (subst ends_bnd, rule ends_mono [OF log_write_ends [OF c2(1) _ cb(1) c2(2) l2]])
      fix s3 assume "lw_post {b} ind ?d b s2 s3"
      then have q3: "tframe s2 s3" "cache_ok {b} s3" "txn s3" "view s3 = (view s2)(ind := ?d)" by (simp_all add: lw_post_def)
      have v3: "view s3 = set_entry ind (n - NDIRECT) x (alloc_view (sb s) x (view s))"
        using v2i by (simp add: q3(4) set_entry_def cb(2) v2)
      show "ends (bnd (brelse b s3) (\<lambda>_ s. Ok x s)) (\<lambda>x t. bstep i s t \<and> x = blk (view t) (iaddrs (icache t ! i)) n \<and> x \<noteq> 0)"
      proof (subst ends_bnd, rule ends_mono [OF brelse_ends [OF q3(2)]])
        fix t assume r: "brelse_post {b} b s3 t"
        then have t3: "tframe s3 t" "txn t" "cache_ok {} t" "view t = view s3"
          using q3(3) by (auto simp: brelse_post_def txn_frame intro: tframe_cframe)
        have tf: "tframe s t" by (rule tframe_trans [OF t02 tframe_trans [OF q3(1) t3(1)]])
        note ct = tframe_istate [OF tf]
        have g: "grows (sb s) (view s) ?a (view t) ?a"
          unfolding t3(4) v3 ind(1) by (rule grows_indirect_entry [OF fD(7,8,4) x]) (use ind n in simp_all)
        have "view_ok (sb s) (view t)"
          unfolding t3(4) q3(4) v2
          by (rule view_ok_data_write [OF fD(7) view_ok_alloc [OF fD(7,8) x(1)] dI(1)]) (simp add: cb(2) len)
        then have "file_state i t" using g fs t3(2,3) by (simp add: file_state_def fs_ok_def ct tframe_simps [OF tf] grows_def reaches_def)
        then have bs: "bstep i s t" using g fframe_tframe [OF tf] by (simp add: bstep_def ct)
        have "blk (view t) ?a n = x"
          using ind n len v2i v2 xi by (simp add: blk_def t3(4) v3 set_entry_def MAXFILE_def NINDIRECT_def BSIZE_def)
        then show "ends (Ok x t) (\<lambda>x t. bstep i s t \<and> x = blk (view t) (iaddrs (icache t ! i)) n \<and> x \<noteq> 0)"
          using bs data_region(4) [OF fD(7) x(1)] by (simp add: ct)
      qed simp
    qed simp
  qed
qed

lemma bmap_indirect:
  assumes "NDIRECT \<le> n" "n < MAXFILE" "idev (icache s ! i) = 1"
  shows "bmap i (of_nat n) s =
    bnd (get_indirect i s) (\<lambda>ind s.
    bnd (bread 1 ind s) (\<lambda>b s.
      let a = rd32 (bdata (bufs s ! b)) (4 * (n - NDIRECT)) in
      if a = 0 then new_entry b (n - NDIRECT) s else bnd (brelse b s) (\<lambda>_ s. Ok a s)))"
proof -
  have "n - NDIRECT < NINDIRECT" using assms by (auto simp: MAXFILE_def)
  then show ?thesis
    using assms unfolding bmap_def get_indirect_def new_entry_def
    by (simp add: unat_block [OF assms(2)] Let_def bnd_assoc if_distrib [of "\<lambda>m. bnd m _"] cong: if_cong)
qed

definition bmap_post :: "nat \<Rightarrow> nat \<Rightarrow> 'z istate_scheme \<Rightarrow> uint \<Rightarrow> 'z istate_scheme \<Rightarrow> bool" where
  "bmap_post i n s x t \<longleftrightarrow> bstep i s t \<and> x = blk (view t) (iaddrs (icache t ! i)) n \<and> x \<noteq> 0
     \<and> (blk (view s) (iaddrs (icache s ! i)) n \<noteq> 0 \<longrightarrow> unchanged i s t)"

lemma bmap_direct_ends:
  assumes fs: "file_state i s" and n: "n < NDIRECT"
  shows "ends (bmap i (of_nat n) s) (bmap_post i n s)"
proof (cases "iaddrs (icache s ! i) ! n = 0")
  case False
  have "n < MAXFILE" using n NDIRECT_less(1) by linarith
  with False n bstep_peek(1) [OF fs fs_peek_refl [OF file_stateD(5) [OF fs]]] show ?thesis
    by (simp add: bmap_def unat_block bmap_post_def blk_def unchanged_def)
next
  case True
  note fD = file_stateD [OF fs]
  have nm: "n < MAXFILE" using n NDIRECT_less(1) by linarith
  have "ends (balloc 1 s) (\<lambda>x t. bmap_post i n s x (upd_inode i (\<lambda>ip. ip\<lparr>iaddrs := (iaddrs ip)[n := x]\<rparr>) t))"
  proof (rule ends_mono [OF balloc_ends [OF fD(3)]])
    fix x t assume p: "balloc_post {} s x t"
    then have x: "data_block (sb s) x" "\<not> used (sb s) (view s) x" "tframe s t" by (simp_all add: balloc_post_def fs_step_def)
    have "iaddrs (icache (upd_inode i (\<lambda>ip. ip\<lparr>iaddrs := (iaddrs ip)[n := x]\<rparr>) t) ! i) ! n = x"
      using fD(1) file_okD(1) [OF fD(4)] n by (simp add: upd_inode_def tframe_istate [OF x(3)])
    then show "bmap_post i n s x (upd_inode i (\<lambda>ip. ip\<lparr>iaddrs := (iaddrs ip)[n := x]\<rparr>) t)"
      using bstep_alloc [OF fs p grows_direct [OF fD(7,8,4) x(1,2) n True]] data_region(4) [OF fD(7) x(1)] n True
      by (simp add: bmap_post_def blk_def)
  qed
  with True n fD(2) show ?thesis by (simp add: bmap_def unat_block [OF nm])
qed

lemma bmap_ends:
  assumes fs: "file_state i s" and n: "n < MAXFILE"
  shows "ends (bmap i (of_nat n) s) (bmap_post i n s)"
proof (cases "n < NDIRECT")
  case True
  then show ?thesis by (rule bmap_direct_ends [OF fs])
next
  case False
  then have nd: "NDIRECT \<le> n" by simp
  show ?thesis
    unfolding bmap_indirect [OF nd n file_stateD(2) [OF fs]]
  proof (subst ends_bnd, rule ends_mono [OF get_indirect_ends [OF fs]])
    fix ind t assume a: "bstep i s t \<and> ind = iaddrs (icache t ! i) ! NDIRECT \<and> ind \<noteq> 0
      \<and> (iaddrs (icache s ! i) ! NDIRECT \<noteq> 0 \<longrightarrow> unchanged i s t)"
    then have st: "bstep i s t" and ind: "ind = iaddrs (icache t ! i) ! NDIRECT" "ind \<noteq> 0" and ft: "file_state i t"
      by (auto simp: bstep_def)
    let ?a = "iaddrs (icache t ! i)"
    note fD = file_stateD [OF ft]
    have "data_block (sb t) ind" using file_okD(2) [OF fD(4) blocks_ofI(2)] ind by auto
    from data_region(1) [OF fD(7) this] have dI: "ind < disksize t" .
    have un: "blk (view s) (iaddrs (icache s ! i)) n \<noteq> 0 \<Longrightarrow> unchanged i s t" using a False by (auto simp: blk_def)
    show "ends (bnd (bread 1 ind t) (\<lambda>b s.
        let a = rd32 (bdata (bufs s ! b)) (4 * (n - NDIRECT)) in
        if a = 0 then new_entry b (n - NDIRECT) s else bnd (brelse b s) (\<lambda>_ s. Ok a s))) (bmap_post i n s)"
    proof (subst ends_bnd, rule ends_mono [OF bread_ends [OF fD(5) dI free_of_empty]])
      fix b t1 assume p: "bread_post {} ind t b t1"
      have e: "rd32 (bdata (bufs t1 ! b)) (4 * (n - NDIRECT)) = blk (view t) ?a n"
        using False ind bread_postD(6) [OF p] by (simp add: blk_def)
      show "ends (let a = rd32 (bdata (bufs t1 ! b)) (4 * (n - NDIRECT)) in
          if a = 0 then new_entry b (n - NDIRECT) t1 else bnd (brelse b t1) (\<lambda>_ s. Ok a s)) (bmap_post i n s)"
      proof (cases "blk (view t) ?a n = 0")
        case z: True
        have "blk (view s) (iaddrs (icache s ! i)) n = 0"
          using st z n unfolding bstep_def grows_def reaches_def by metis
        then have "ends (new_entry b (n - NDIRECT) t1) (bmap_post i n s)"
          by (intro ends_mono [OF new_entry_ends [OF ft p ind nd n z]]) (auto simp: bmap_post_def intro: bstep_trans [OF fs st])
        with z e show ?thesis by (simp add: Let_def)
      next
        case nz: False
        have "ends (brelse b t1) (\<lambda>_. bmap_post i n s (blk (view t) ?a n))"
        proof (rule ends_mono [OF release_ends [OF p]])
          fix u assume pk: "fs_peek {} t u"
          note b = bstep_peek [OF ft pk]
          show "bmap_post i n s (blk (view t) ?a n) u"
            using bstep_trans [OF fs st b(1)] nz un by (auto simp: bmap_post_def b(2,3) unchanged_def)
        qed
        with nz e show ?thesis by (simp add: Let_def)
      qed
    qed
  qed
qed

subsection \<open>Writing\<close>

lemma nth_splice:
  assumes "k + length xs \<le> length d" "j < length d"
  shows "splice d k xs ! j = (if k \<le> j \<and> j < k + length xs then xs ! (j - k) else d ! j)"
  using assms by (auto simp: splice_def nth_append min_def)

lemma length_splice: "k + length xs \<le> length d \<Longrightarrow> length (splice d k xs) = length d"
  by (auto simp: splice_def min_def)

lemma data_write:
  assumes lay: "layout_ok ls dn b" and fok: "file_ok b v a" and n: "n < MAXFILE" "blk v a n \<noteq> 0"
  shows "m < MAXFILE \<Longrightarrow> blk (v(blk v a n := d)) a m = blk v a m"
    "reaches b v a (v(blk v a n := d)) a"
    "k < MAXFILE * BSIZE \<Longrightarrow> fbyte (v(blk v a n := d)) a k = (if k div BSIZE = n then d ! (k mod BSIZE) else fbyte v a k)"
proof -
  let ?x = "blk v a n" and ?v = "v(blk v a n := d)"
  have ni: "?x \<noteq> a ! NDIRECT" by (rule file_okD(4) [OF fok n])
  show bl: "blk ?v a m = blk v a m" for m using ni by (simp add: blk_def)
  have bo: "blocks_of ?v a = blocks_of v a" by (simp add: blocks_of_def bl)
  have xin: "?x \<in> blocks_of v a" by (rule blocks_ofI(1) [OF n])
  have dx: "data_block b ?x" using file_okD(2) [OF fok xin] ..
  have us: "used b ?v y = used b v y" if "data_block b y" for y
    by (rule used_data_write [OF lay dx data_region(3) [OF lay that]])
  have "file_ok b ?v a" using fok us unfolding file_ok_def bo bl by blast
  then show "reaches b v a ?v a" using xin us unfolding reaches_def bo bl by (auto simp: foreign_def)
  show "fbyte ?v a k = (if k div BSIZE = n then d ! (k mod BSIZE) else fbyte v a k)" if "k < MAXFILE * BSIZE" for k
    using file_okD(3) [OF fok n(1) fblock [OF that] n(2)] n(2) by (auto simp: fbyte_def bl)
qed

text \<open>The bytes \<open>xs\<close> written at \<open>lo\<close>.\<close>

definition overwrite :: "nat \<Rightarrow> byte list \<Rightarrow> (nat \<Rightarrow> byte) \<Rightarrow> nat \<Rightarrow> byte" where
  "overwrite lo xs f k = (if lo \<le> k \<and> k < lo + length xs then xs ! (k - lo) else f k)"

definition mapped :: "bview \<Rightarrow> uint list \<Rightarrow> nat \<Rightarrow> nat \<Rightarrow> bool" where
  "mapped v a lo hi \<longleftrightarrow> (\<forall>k. lo \<le> k \<and> k < hi \<longrightarrow> blk v a (k div BSIZE) \<noteq> 0)"

definition wpost :: "nat \<Rightarrow> 'z istate_scheme \<Rightarrow> nat \<Rightarrow> byte list \<Rightarrow> 'z istate_scheme \<Rightarrow> bool" where
  "wpost i s lo xs t \<longleftrightarrow> fframe i s t \<and> isize (icache t ! i) = isize (icache s ! i) \<and> file_state i t
     \<and> reaches (sb s) (view s) (iaddrs (icache s ! i)) (view t) (iaddrs (icache t ! i))
     \<and> (\<forall>k < MAXFILE * BSIZE. fbyte (view t) (iaddrs (icache t ! i)) k = overwrite lo xs (fbyte (view s) (iaddrs (icache s ! i))) k)
     \<and> mapped (view t) (iaddrs (icache t ! i)) lo (lo + length xs)
     \<and> (mapped (view s) (iaddrs (icache s ! i)) lo (lo + length xs) \<longrightarrow> iaddrs (icache t ! i) = iaddrs (icache s ! i))"

lemma overwrite_append: "overwrite (lo + length xs) ys (overwrite lo xs f) k = overwrite lo (xs @ ys) f k"
  by (auto simp: overwrite_def nth_append)

lemma mapped_reaches:
  assumes "reaches b v a v' a'" "mapped v a lo hi" "hi \<le> MAXFILE * BSIZE"
  shows "mapped v' a' lo hi"
proof -
  have "k div BSIZE < MAXFILE" if "k < hi" for k using that assms(3) by (intro fblock) simp
  with assms(1,2) show ?thesis unfolding reaches_def mapped_def by metis
qed

lemma mapped_append: "mapped v a lo (lo + (m + n)) \<longleftrightarrow> mapped v a lo (lo + m) \<and> mapped v a (lo + m) (lo + m + n)"
proof -
  have "lo \<le> k \<and> k < lo + (m + n) \<longleftrightarrow> (lo \<le> k \<and> k < lo + m) \<or> (lo + m \<le> k \<and> k < lo + m + n)" for k by linarith
  then show ?thesis unfolding mapped_def by metis
qed

lemma wpost_append:
  assumes fs: "file_state i s" and 1: "wpost i s lo xs t" and 2: "wpost i t (lo + length xs) ys u"
    and le: "lo + length xs + length ys \<le> MAXFILE * BSIZE"
  shows "wpost i s lo (xs @ ys) u"
proof -
  let ?a = "iaddrs (icache s ! i)" and ?b = "iaddrs (icache t ! i)" and ?c = "iaddrs (icache u ! i)"
  note p = 1 [unfolded wpost_def] and q = 2 [unfolded wpost_def]
  have sb: "sb t = sb s" using fframe_simps(7) p by blast
  have f: "fframe i s u" using fframe_trans p q file_stateD(1) [OF fs] by blast
  have r1: "reaches (sb s) (view s) ?a (view t) ?b" and r2: "reaches (sb s) (view t) ?b (view u) ?c" using p q sb by auto
  have r: "reaches (sb s) (view s) ?a (view u) ?c" by (rule reaches_trans [OF r1 r2])
  have m1: "mapped (view u) ?c lo (lo + length xs)" by (rule mapped_reaches [OF r2]) (use p le in auto)
  have m: "mapped (view u) ?c lo (lo + length (xs @ ys))" using m1 q by (simp add: mapped_append)
  have "mapped (view t) ?b (lo + length xs) (lo + length xs + length ys)"
    if "mapped (view s) ?a (lo + length xs) (lo + length xs + length ys)" by (rule mapped_reaches [OF r1 that le])
  then have "?c = ?a" if "mapped (view s) ?a lo (lo + length (xs @ ys))" using that p q by (simp add: mapped_append)
  moreover have "fbyte (view u) ?c k = overwrite lo (xs @ ys) (fbyte (view s) ?a) k" if "k < MAXFILE * BSIZE" for k
    using p q that by (simp add: overwrite_append [symmetric]) (simp add: overwrite_def)
  ultimately show ?thesis using p q f r m unfolding wpost_def by simp
qed

lemma wpost_Nil: "file_state i s \<Longrightarrow> wpost i s lo [] s"
  using bstep_peek(1) [OF _ fs_peek_refl [OF file_stateD(5)]]
  by (auto simp: wpost_def overwrite_def mapped_def bstep_def grows_def)

text \<open>One round of the loop of \<open>writei\<close>: the part \<open>xs\<close> of the bytes that fits the block.\<close>

definition write_round :: "nat \<Rightarrow> nat \<Rightarrow> byte list \<Rightarrow> 'z istate_scheme \<Rightarrow> ('z istate_scheme, unit) outcome" where
  "write_round i off xs s =
     bnd (bmap i (of_nat (off div BSIZE)) s) (\<lambda>a s.
     bnd (bread (idev (icache s ! i)) a s) (\<lambda>b s.
     bnd (log_write b (set_bdata b (splice (bdata (bufs s ! b)) (off mod BSIZE) xs) s)) (\<lambda>_ s. brelse b s)))"

lemma write_round_ends:
  assumes fs: "file_state i s" and off: "off < MAXFILE * BSIZE" and xs: "off mod BSIZE + length xs \<le> BSIZE" "xs \<noteq> []"
  shows "ends (write_round i off xs s) (\<lambda>_. wpost i s off xs)"
  unfolding write_round_def
proof (subst ends_bnd, rule ends_mono [OF bmap_ends [OF fs fblock [OF off]]])
  let ?n = "off div BSIZE"
  fix x t assume p: "bmap_post i ?n s x t"
  let ?a = "iaddrs (icache t ! i)"
  have bs: "bstep i s t" and x: "x = blk (view t) ?a ?n" "x \<noteq> 0" and ft: "file_state i t"
    using p by (auto simp: bmap_post_def bstep_def)
  note fD = file_stateD [OF ft] and n = fblock [OF off]
  have dx: "data_block (sb t) x" using file_okD(2) [OF fD(4) blocks_ofI(1) [OF n]] x by auto
  have lg: "loggable t x" by (rule fs_ok_loggable(2) [OF fD(3) dx])
  let ?d = "splice (view t x) (off mod BSIZE) xs"
  have lv: "length (view t x) = BSIZE" using fD(8) by (simp add: view_ok_def)
  have ld: "length ?d = BSIZE" using xs lv by (simp add: length_splice)
  have pos: "k div BSIZE = ?n" if "off \<le> k" "k < off + length xs" for k
  proof -
    have e: "?n * BSIZE + off mod BSIZE = off" by simp
    have "?n * BSIZE \<le> k" "k < Suc ?n * BSIZE" unfolding mult_Suc using that xs(1) e by linarith+
    then show ?thesis by (intro div_nat_eqI) (simp_all add: mult.commute)
  qed
  show "ends (bnd (bread (idev (icache t ! i)) x t) (\<lambda>b s. bnd (log_write b (set_bdata b (splice (bdata (bufs s ! b)) (off mod BSIZE) xs) s))
      (\<lambda>_ s. brelse b s))) (\<lambda>_. wpost i s off xs)"
    unfolding fD(2)
  proof (rule ends_mono [OF modify_block [OF fD(5,6) lg free_of_empty]])
    fix u assume "fs_step {} t u \<and> view u = (view t)(x := ?d)"
    then have tf: "tframe t u" and cu: "cache_ok {} u" "txn u" and vu: "view u = (view t)(x := ?d)" by (auto simp: fs_step_def)
    note c = tframe_istate [OF tf]
    note dw = data_write [OF fD(7,4) n, where d = ?d, folded x(1), OF x(2), folded vu]
    have fu: "file_state i u"
      using fD(1,2) dw(2) cu view_ok_data_write [OF fD(7,8) dx ld] fD(7)
      by (simp add: file_state_def fs_ok_def c tframe_simps [OF tf] vu reaches_def)
    have ff: "fframe i s u" using bs fframe_trans [OF _ fframe_tframe [OF tf] file_stateD(1) [OF fs]] by (simp add: bstep_def)
    have sb: "sb t = sb s" using bs fframe_simps(7) by (auto simp: bstep_def)
    have re: "reaches (sb s) (view s) (iaddrs (icache s ! i)) (view u) ?a"
      using bs dw(2) reaches_trans unfolding bstep_def grows_def sb by metis
    have fb: "fbyte (view u) ?a k = overwrite off xs (fbyte (view s) (iaddrs (icache s ! i))) k" if "k < MAXFILE * BSIZE" for k
    proof -
      have o: "fbyte (view t) ?a k = fbyte (view s) (iaddrs (icache s ! i)) k" using bs that by (simp add: bstep_def grows_def)
      define q where "q = ?n * BSIZE"
      have e: "off = q + off mod BSIZE" "k div BSIZE = ?n \<Longrightarrow> k = q + k mod BSIZE"
        unfolding q_def using div_mult_mod_eq [of off BSIZE] div_mult_mod_eq [of k BSIZE] by simp_all
      have r: "off \<le> k \<and> k < off + length xs \<longleftrightarrow> k div BSIZE = ?n \<and> off mod BSIZE \<le> k mod BSIZE \<and> k mod BSIZE < off mod BSIZE + length xs"
        (is "?l \<longleftrightarrow> ?r")
      proof
        assume l: ?l
        then have n: "k div BSIZE = ?n" using pos by blast
        from l e(1) e(2) [OF n] have "off mod BSIZE \<le> k mod BSIZE" "k mod BSIZE < off mod BSIZE + length xs" by linarith+
        with n show ?r by blast
      next
        assume r: ?r
        then have n: "k div BSIZE = ?n" by blast
        from r e(1) e(2) [OF n] show ?l by linarith
      qed
      have m: "k mod BSIZE - off mod BSIZE = k - off" if "k div BSIZE = ?n" using e(1) e(2) [OF that] by linarith
      have "k div BSIZE = ?n \<Longrightarrow> fbyte (view t) ?a k = view t x ! (k mod BSIZE)" using x by (simp add: fbyte_def)
      then show ?thesis
        using dw(3) [OF that] r m o xs lv by (auto simp: overwrite_def nth_splice)
    qed
    have mp: "mapped (view u) ?a off (off + length xs)" using dw(1) [OF n] pos x by (simp add: mapped_def)
    have "?a = iaddrs (icache s ! i)" if "mapped (view s) (iaddrs (icache s ! i)) off (off + length xs)"
    proof -
      have "off < off + length xs" using xs(2) by simp
      then have "blk (view s) (iaddrs (icache s ! i)) ?n \<noteq> 0" using that unfolding mapped_def by blast
      with p show ?thesis by (simp add: bmap_post_def unchanged_def)
    qed
    then show "wpost i s off xs u" using ff fu re fb mp bs by (simp add: wpost_def c bstep_def)
  qed
qed

lemma writei_loop_round:
  "writei_loop i off src s =
    (if src = [] then Ok () s
     else let m = min (length src) (BSIZE - off mod BSIZE) in
       bnd (write_round i off (take m src) s) (\<lambda>_ s. writei_loop i (off + m) (drop m src) s))"
  by (subst writei_loop.simps) (simp add: write_round_def bnd_assoc Let_def)

lemma writei_loop_ends:
  assumes "file_state i s" "off + length src \<le> MAXFILE * BSIZE"
  shows "ends (writei_loop i off src s) (\<lambda>_. wpost i s off src)"
  using assms
proof (induction "length src" arbitrary: off src s rule: less_induct)
  case less
  show ?case
  proof (cases "src = []")
    case True
    with wpost_Nil [OF less.prems(1)] show ?thesis by (subst writei_loop.simps) simp
  next
    case False
    define m where "m = min (length src) (BSIZE - off mod BSIZE)"
    let ?xs = "take m src" and ?ys = "drop m src"
    define r where "r = off mod BSIZE"
    have r: "r < BSIZE" by (simp add: r_def)
    have m: "0 < m" "m \<le> length src" "off mod BSIZE + m \<le> BSIZE" "length ?xs = m"
      using False r unfolding m_def r_def [symmetric] by auto
    have "ends (bnd (write_round i off ?xs s) (\<lambda>_ s. writei_loop i (off + m) ?ys s)) (\<lambda>_. wpost i s off src)"
    proof (subst ends_bnd, rule ends_mono [OF write_round_ends [OF less.prems(1)]])
      show "off < MAXFILE * BSIZE" using less.prems(2) m by linarith
      show "off mod BSIZE + length ?xs \<le> BSIZE" "?xs \<noteq> []" using m False by auto
      fix t assume w: "wpost i s off ?xs t"
      have "ends (writei_loop i (off + m) ?ys t) (\<lambda>_. wpost i t (off + m) ?ys)"
        by (rule less.hyps) (use w m less.prems(2) in \<open>auto simp: wpost_def\<close>)
      then show "ends (writei_loop i (off + m) ?ys t) (\<lambda>_. wpost i s off src)"
      proof (rule ends_mono)
        fix u assume "wpost i t (off + m) ?ys u"
        with w m(4) have "wpost i s off (?xs @ ?ys) u"
          by (intro wpost_append [OF less.prems(1) w]) (use less.prems(2) m in auto)
        then show "wpost i s off src u" by simp
      qed
    qed
    with False show ?thesis by (subst writei_loop_round) (simp add: m_def [symmetric] Let_def)
  qed
qed

subsection \<open>The inode on disk\<close>

lemma rd16_wr16:
  assumes "i + 1 < length d"
  shows "rd16 (wr16 d i w) i = w"
proof -
  have "ucast (ucast w :: byte) OR push_bit 8 (ucast (ucast (drop_bit 8 w) :: byte)) = w"
    by (rule bit_word_eqI) (auto simp: bit_simps)
  with assms show ?thesis by (simp add: rd16_def wr16_def nth_list_update)
qed

lemma rd_wr_other:
  "i + 2 \<le> j \<or> j + 2 \<le> i \<Longrightarrow> rd16 (wr16 d i w) j = rd16 d j" "i + 4 \<le> j \<or> j + 2 \<le> i \<Longrightarrow> rd16 (wr32 d i x) j = rd16 d j"
  "i + 2 \<le> j \<or> j + 4 \<le> i \<Longrightarrow> rd32 (wr16 d i w) j = rd32 d j"
  by (auto simp: rd16_def wr16_def rd32_def wr32_def)

lemma put_words_other:
  "j + 2 \<le> p \<or> p + 4 * length ws \<le> j \<Longrightarrow> rd16 (put_words p ws d) j = rd16 d j"
  "j + 4 \<le> p \<or> p + 4 * length ws \<le> j \<Longrightarrow> rd32 (put_words p ws d) j = rd32 d j"
  by (induction ws arbitrary: p d) (auto simp: rd_wr_other rd32_wr32_other)

lemma length_put_words [simp]: "length (put_words p ws d) = length d"
  by (induction ws arbitrary: p d) auto

lemma put_words_same:
  "k < length ws \<Longrightarrow> p + 4 * length ws \<le> length d \<Longrightarrow> rd32 (put_words p ws d) (p + 4 * k) = ws ! k"
proof (induction ws arbitrary: p d k)
  case (Cons w ws)
  show ?case
  proof (cases k)
    case 0
    with Cons.prems show ?thesis by (simp add: put_words_other)
  next
    case (Suc j)
    with Cons.IH [of j "p + 4" "wr32 d p w"] Cons.prems show ?thesis by (simp add: add.assoc)
  qed
qed simp

lemma length_put_dinode [simp]: "length (put_dinode k di d) = length d"
  by (simp add: put_dinode_def Let_def)

lemma get_put_dinode:
  assumes "length d = BSIZE" "k < IPB" "length (di_addrs di) = NDIRECT + 1"
  shows "get_dinode (put_dinode k di d) k = di"
proof -
  have l: "64 * k + 64 \<le> length d" using assms(1,2) by (simp add: BSIZE_def IPB_def)
  have "map (\<lambda>j. rd32 (put_dinode k di d) (64 * k + 12 + 4 * j)) [0..<NDIRECT + 1] = di_addrs di"
    using l assms(3) put_words_same [of _ "di_addrs di" "64 * k + 12"]
    by (intro nth_equalityI) (auto simp: put_dinode_def Let_def NDIRECT_def simp del: upt_Suc)
  then show ?thesis
    using l assms(3)
    by (cases di) (simp add: get_dinode_def put_dinode_def Let_def put_words_other rd_wr_other rd16_wr16 NDIRECT_def del: upt_Suc)
qed

lemma get_put_dinode_other:
  assumes "j \<noteq> k" "length (di_addrs di) = NDIRECT + 1"
  shows "get_dinode (put_dinode k di d) j = get_dinode d j"
proof -
  have o: "64 * j + 64 \<le> 64 * k \<or> 64 * k + 64 \<le> 64 * j" using assms(1) by linarith
  have r16: "rd16 (put_dinode k di d) (64 * j + p) = rd16 d (64 * j + p)" if "p + 2 \<le> 64" for p
    using o that assms(2) by (auto simp: put_dinode_def Let_def put_words_other rd_wr_other NDIRECT_def)
  have r32: "rd32 (put_dinode k di d) (64 * j + p) = rd32 d (64 * j + p)" if "p + 4 \<le> 64" for p
    using o that assms(2) by (auto simp: put_dinode_def Let_def put_words_other rd_wr_other rd32_wr32_other NDIRECT_def)
  show ?thesis
    using r16 [of 0] r16 [of 2] r16 [of 4] r16 [of 6] r32 [of 8] r32 [of "12 + 4 * _"]
    by (simp add: get_dinode_def Let_def add.assoc NDIRECT_def)
qed

end
