(* ===== verification/FileIO.thy ===== *)
theory FileIO
  imports FileData
begin

section \<open>Writing and reading a file\<close>

text \<open>
  \<open>writei\<close> and \<open>readi\<close> on the abstract file of \<open>FileData\<close>, the inode on disk that \<open>iupdate\<close> keeps up to
  date, and the crash atomicity of a committed write.
\<close>

subsection \<open>Updating the inode on disk\<close>

definition on_disk :: "superblock \<Rightarrow> bview \<Rightarrow> uint \<Rightarrow> dinode" where
  "on_disk b v ino = get_dinode (v (IBLOCK ino b)) (unat ino mod IPB)"

definition dinode_of :: "inode \<Rightarrow> dinode" where
  "dinode_of ip = \<lparr>di_type = itype ip, di_major = imajor ip, di_minor = iminor ip, di_nlink = inlink ip,
     di_size = isize ip, di_addrs = iaddrs ip\<rparr>"

lemma IBLOCK_unat:
  assumes "layout_ok ls n b" "ino < sb_ninodes b"
  shows "unat (IBLOCK ino b) = unat ino div IPB + unat (sb_inodestart b)"
proof -
  have "unat ino div IPB \<le> unat (sb_ninodes b) div IPB"
    by (rule div_le_mono) (use assms(2) in \<open>simp add: word_less_nat_alt\<close>)
  then have "unat ino div IPB + unat (sb_inodestart b) < 4294967296"
    using assms(1) unat_range32 [of "sb_bmapstart b"] by (simp add: layout_ok_def)
  moreover have "unat (ino div of_nat IPB) = unat ino div IPB" by (simp add: IPB_def unat_div)
  ultimately show ?thesis unfolding IBLOCK_def by (simp add: unat_add32)
qed

text \<open>The inodes lie between the log and the bitmap.\<close>

lemma IBLOCK_region:
  assumes "layout_ok ls n b" "ino < sb_ninodes b"
  shows "ls + LOGSIZE \<le> unat (IBLOCK ino b)" "unat (IBLOCK ino b) < unat (sb_bmapstart b)" "IBLOCK ino b < n"
    "home ls (unat (IBLOCK ino b))" "\<not> data_block b (IBLOCK ino b)" "x < sb_size b \<Longrightarrow> IBLOCK ino b \<noteq> BBLOCK x b"
proof -
  note u = IBLOCK_unat [OF assms]
  have l: "ls + LOGSIZE \<le> unat (sb_inodestart b)" "unat (sb_inodestart b) + unat (sb_ninodes b) div IPB < unat (sb_bmapstart b)"
    "data_start b \<le> unat n" using assms(1) by (auto simp: layout_ok_def word_le_nat_alt)
  have "unat ino div IPB \<le> unat (sb_ninodes b) div IPB"
    by (rule div_le_mono) (use assms(2) in \<open>simp add: word_less_nat_alt\<close>)
  with l(2) show r: "unat (IBLOCK ino b) < unat (sb_bmapstart b)" by (simp add: u)
  show s: "ls + LOGSIZE \<le> unat (IBLOCK ino b)" using l(1) by (simp add: u)
  show "IBLOCK ino b < n" using r l(3) by (simp add: word_less_nat_alt data_start_def)
  show "home ls (unat (IBLOCK ino b))" using s by (simp add: home_def)
  show "\<not> data_block b (IBLOCK ino b)" using r by (simp add: data_block_def data_start_def)
  show "IBLOCK ino b \<noteq> BBLOCK x b" if "x < sb_size b"
  proof
    assume "IBLOCK ino b = BBLOCK x b"
    then have "unat (IBLOCK ino b) = unat x div BPB + unat (sb_bmapstart b)"
      using BBLOCK_unat [of b x] assms(1) that by (simp add: layout_ok_def)
    with r show False by simp
  qed
qed

lemma IBLOCK_foreign:
  assumes "layout_ok ls n b" "file_ok b v a" "ino < sb_ninodes b"
  shows "foreign b v a (IBLOCK ino b)"
  using IBLOCK_region(5,6) [OF assms(1,3)] file_okD(2) [OF assms(2)] by (auto simp: foreign_def)

text \<open>A write to a block that is neither data nor bitmap.\<close>

lemma meta_write:
  assumes fok: "file_ok b v a" and z: "\<not> data_block b z" "\<forall>x < sb_size b. z \<noteq> BBLOCK x b" and lay: "layout_ok ls n b"
  shows "m < MAXFILE \<Longrightarrow> blk (v(z := d)) a m = blk v a m" "k < MAXFILE * BSIZE \<Longrightarrow> fbyte (v(z := d)) a k = fbyte v a k"
    "file_ok b (v(z := d)) a" "view_ok b v \<Longrightarrow> length d = BSIZE \<Longrightarrow> view_ok b (v(z := d))"
    "x < sb_size b \<Longrightarrow> used b (v(z := d)) x = used b v x" "blocks_of (v(z := d)) a = blocks_of v a"
proof -
  have nb: "x \<noteq> z" if "x \<in> blocks_of v a" for x using file_okD(2) [OF fok that] z(1) by auto
  show bl: "blk (v(z := d)) a m = blk v a m" for m using nb blocks_ofI(2) [of a v] by (auto simp: blk_def)
  show bo: "blocks_of (v(z := d)) a = blocks_of v a" by (simp add: blocks_of_def bl)
  show us: "used b (v(z := d)) x = used b v x" if "x < sb_size b" for x using z(2) that by (auto simp: used_def)
  show "fbyte (v(z := d)) a k = fbyte v a k" if "k < MAXFILE * BSIZE" for k
    using nb [OF blocks_ofI(1) [OF fblock [OF that]]] by (auto simp: fbyte_def bl)
  show "file_ok b (v(z := d)) a"
    using fok us data_region(3) [OF lay] unfolding file_ok_def bo bl by blast
  show "view_ok b (v(z := d))" if "view_ok b v" "length d = BSIZE" using that us by (auto simp: view_ok_def)
qed

definition ipost :: "nat \<Rightarrow> 'z istate_scheme \<Rightarrow> 'z istate_scheme \<Rightarrow> bool" where
  "ipost i s t \<longleftrightarrow> tframe s t \<and> file_state i t
     \<and> view t = (view s)(IBLOCK (inum (icache s ! i)) (sb s) :=
         put_dinode (unat (inum (icache s ! i)) mod IPB) (dinode_of (icache s ! i)) (view s (IBLOCK (inum (icache s ! i)) (sb s))))"

lemma iupdate_ends:
  assumes fs: "file_state i s" and ino: "inum (icache s ! i) < sb_ninodes (sb s)"
  shows "ends (iupdate i s) (\<lambda>_. ipost i s)"
proof -
  note fD = file_stateD [OF fs] and r = IBLOCK_region [OF file_stateD(7) [OF fs] ino]
  let ?z = "IBLOCK (inum (icache s ! i)) (sb s)"
  have lg: "loggable s ?z" using r by (simp add: loggable_def)
  have "ends (iupdate i s) (\<lambda>_ t. fs_step {} s t \<and> view t = (view s)(?z :=
      put_dinode (unat (inum (icache s ! i)) mod IPB) (dinode_of (icache s ! i)) (view s ?z)))"
    using modify_block [OF fD(5,6) lg free_of_empty, of "put_dinode (unat (inum (icache s ! i)) mod IPB) (dinode_of (icache s ! i))"]
    by (simp add: iupdate_def Let_def fD(2) dinode_of_def)
  then show ?thesis
  proof (rule ends_mono)
    fix t assume a: "fs_step {} s t \<and> view t = (view s)(?z :=
      put_dinode (unat (inum (icache s ! i)) mod IPB) (dinode_of (icache s ! i)) (view s ?z))"
    then have tf: "tframe s t" and c: "cache_ok {} t" "txn t" by (auto simp: fs_step_def)
    note e = tframe_istate [OF tf]
    have l: "length (view s ?z) = BSIZE" using fD(8) by (simp add: view_ok_def)
    have "\<forall>x < sb_size (sb s). ?z \<noteq> BBLOCK x (sb s)" using r(6) by blast
    note mw = meta_write [OF fD(4) r(5) this fD(7)]
    have "view_ok (sb s) (view t)" "file_ok (sb s) (view t) (iaddrs (icache s ! i))"
      unfolding conjunct2 [OF a] by (rule mw(4) [OF fD(8)], simp add: l, rule mw(3))
    then have "file_state i t" using fD(1,2,7) c by (simp add: file_state_def fs_ok_def e tframe_simps [OF tf])
    with tf a show "ipost i s t" by (simp add: ipost_def)
  qed
qed

subsection \<open>writei\<close>

text \<open>
  A regular file or directory in the inode cache: its blocks are in order, every byte below its
  size has a block, and the inode on disk is the one in memory.
\<close>

definition content :: "nat \<Rightarrow> 'z istate_scheme \<Rightarrow> nat \<Rightarrow> byte" where
  "content i s = fbyte (view s) (iaddrs (icache s ! i))"

definition file_ready :: "nat \<Rightarrow> 'z istate_scheme \<Rightarrow> bool" where
  "file_ready i s \<longleftrightarrow> file_state i s \<and> inum (icache s ! i) < sb_ninodes (sb s) \<and> itype (icache s ! i) \<noteq> T_DEV
     \<and> on_disk (sb s) (view s) (inum (icache s ! i)) = dinode_of (icache s ! i)
     \<and> mapped (view s) (iaddrs (icache s ! i)) 0 (unat (isize (icache s ! i))) \<and> unat (isize (icache s ! i)) \<le> MAXFILE * BSIZE"

definition write_post :: "nat \<Rightarrow> 'z istate_scheme \<Rightarrow> nat \<Rightarrow> byte list \<Rightarrow> 'z istate_scheme \<Rightarrow> bool" where
  "write_post i s off src t \<longleftrightarrow> fframe i s t \<and> file_ready i t
     \<and> unat (isize (icache t ! i)) = max (unat (isize (icache s ! i))) (if src = [] then 0 else off + length src)
     \<and> (\<forall>k < MAXFILE * BSIZE. content i t k = overwrite off src (content i s) k)
     \<and> (\<forall>y. foreign (sb s) (view s) (iaddrs (icache s ! i)) y \<longrightarrow> y \<noteq> IBLOCK (inum (icache s ! i)) (sb s) \<longrightarrow> view t y = view s y)
     \<and> (\<forall>ino < sb_ninodes (sb s). ino \<noteq> inum (icache s ! i) \<longrightarrow> on_disk (sb s) (view t) ino = on_disk (sb s) (view s) ino)"

lemma file_size_bound: "MAXFILE * BSIZE = 71680"
  by (simp add: MAXFILE_def NINDIRECT_def NDIRECT_def BSIZE_def)

lemma mapped_join: "mapped v a 0 m \<Longrightarrow> mapped v a n k \<Longrightarrow> n \<le> m \<Longrightarrow> mapped v a 0 (max m k)"
  unfolding mapped_def by (metis le0 less_max_iff_disj linorder_not_le order_less_le_trans)

lemma mapped_sub: "mapped v a lo hi \<Longrightarrow> lo \<le> l \<Longrightarrow> h \<le> hi \<Longrightarrow> mapped v a l h"
  unfolding mapped_def by (meson order_less_le_trans order_trans)

lemma put_on_disk:
  assumes lay: "layout_ok ls n b" and vok: "view_ok b v" and ino: "ino < sb_ninodes b" and di: "length (di_addrs di) = NDIRECT + 1"
    and w: "w = v(IBLOCK ino b := put_dinode (unat ino mod IPB) di (v (IBLOCK ino b)))"
  shows "on_disk b w ino = di" "jno < sb_ninodes b \<Longrightarrow> jno \<noteq> ino \<Longrightarrow> on_disk b w jno = on_disk b v jno"
proof -
  have l: "length (v (IBLOCK ino b)) = BSIZE" using vok by (simp add: view_ok_def)
  have m: "unat ino mod IPB < IPB" by (simp add: IPB_def)
  show "on_disk b w ino = di" using get_put_dinode [OF l m di] by (simp add: on_disk_def w)
  show "on_disk b w jno = on_disk b v jno" if j: "jno < sb_ninodes b" "jno \<noteq> ino"
  proof (cases "IBLOCK jno b = IBLOCK ino b")
    case True
    then have "unat jno div IPB = unat ino div IPB" using IBLOCK_unat [OF lay ino] IBLOCK_unat [OF lay j(1)] by simp
    then have "unat jno mod IPB \<noteq> unat ino mod IPB" using j(2) by (metis div_mult_mod_eq word_unat_eq_iff)
    with True show ?thesis using get_put_dinode_other [OF _ di] by (simp add: on_disk_def w)
  qed (simp add: on_disk_def w)
qed

text \<open>The end of \<open>writei\<close> when the file has not grown: the inode on disk is still right.\<close>

lemma write_same_size:
  assumes fr: "file_ready i s" and w: "wpost i s off src t" and le: "src = [] \<or> off + length src \<le> unat (isize (icache s ! i))"
  shows "write_post i s off src t"
proof -
  let ?a = "iaddrs (icache s ! i)" and ?ino = "inum (icache s ! i)"
  note p = w [unfolded wpost_def] and r = fr [unfolded file_ready_def]
  have ff: "fframe i s t" using p by blast
  note fs = fframe_simps [OF ff] and fD = file_stateD [OF conjunct1 [OF r]]
  have "mapped (view s) ?a off (off + length src)" using r le mapped_sub [of "view s" ?a 0 "unat (isize (icache s ! i))"]
    by (auto simp: mapped_def)
  then have a: "iaddrs (icache t ! i) = ?a" using p by blast
  have fo: "foreign (sb s) (view s) ?a y \<Longrightarrow> view t y = view s y" for y using p by (simp add: reaches_def)
  have od: "on_disk (sb s) (view t) ino = on_disk (sb s) (view s) ino" if "ino < sb_ninodes (sb s)" for ino
    using fo [OF IBLOCK_foreign [OF fD(7,4) that]] by (simp add: on_disk_def)
  have "mapped (view t) ?a 0 (unat (isize (icache s ! i)))"
    using mapped_reaches [of "sb s" "view s" ?a "view t" ?a] p r a by metis
  then have "file_ready i t"
    using p r od [of ?ino] a by (simp add: file_ready_def fs dinode_of_def)
  then show ?thesis using p le fo od ff by (auto simp: write_post_def content_def a)
qed

text \<open>And when it has: the new size and the block map go to the inode on disk.\<close>

lemma write_grown:
  assumes fr: "file_ready i s" and w: "wpost i s off src t" and src: "src \<noteq> []"
    and gt: "unat (isize (icache s ! i)) < off + length src" "off \<le> unat (isize (icache s ! i))" "off + length src \<le> MAXFILE * BSIZE"
    and z: "unat z = off + length src" and ip: "ipost i (upd_inode i (\<lambda>ip. ip\<lparr>isize := z\<rparr>) t) u"
  shows "write_post i s off src u"
proof -
  let ?a = "iaddrs (icache s ! i)" and ?b = "iaddrs (icache t ! i)" and ?ino = "inum (icache s ! i)"
    and ?t = "upd_inode i (\<lambda>ip. ip\<lparr>isize := z\<rparr>) t"
  note p = w [unfolded wpost_def] and r = fr [unfolded file_ready_def]
  have ff: "fframe i s t" using p by blast
  note fs = fframe_simps [OF ff] and fD = file_stateD [OF conjunct1 [OF r]]
  have ft: "file_state i t" using p by blast
  note tD = file_stateD [OF ft]
  have t: "icache ?t ! i = (icache t ! i)\<lparr>isize := z\<rparr>" "view ?t = view t" "sb ?t = sb s"
    using tD(1) by (simp_all add: upd_inode_def fs)
  have tf: "tframe ?t u" and fu: "file_state i u"
    and vu: "view u = (view t)(IBLOCK ?ino (sb s) := put_dinode (unat ?ino mod IPB) (dinode_of ((icache t ! i)\<lparr>isize := z\<rparr>)) (view t (IBLOCK ?ino (sb s))))"
    using ip by (simp_all add: ipost_def t fs)
  note e = tframe_istate [OF tf]
  have iu: "icache u ! i = (icache t ! i)\<lparr>isize := z\<rparr>" "sb u = sb s" by (simp_all add: e t)
  have fsu: "fframe i s u"
    by (rule fframe_trans [OF ff fframe_trans [OF fframe_upd(2) fframe_tframe [OF tf] tD(1)] fD(1)])
  have ino: "?ino < sb_ninodes (sb s)" using r by blast
  have lay: "layout_ok (unat (log_start s)) (disksize s) (sb s)" by (rule fD(7))
  have vt: "view_ok (sb s) (view t)" "file_ok (sb s) (view t) ?b" using tD(4,8) by (simp_all add: fs)
  have "length (di_addrs (dinode_of ((icache t ! i)\<lparr>isize := z\<rparr>))) = NDIRECT + 1" using file_okD(1) [OF vt(2)] by (simp add: dinode_of_def)
  note od = put_on_disk [OF lay vt(1) ino this vu]
  have "\<forall>x < sb_size (sb s). IBLOCK ?ino (sb s) \<noteq> BBLOCK x (sb s)" using IBLOCK_region(6) [OF lay ino] by blast
  note mw = meta_write [OF vt(2) IBLOCK_region(5) [OF lay ino] this lay, where d = "put_dinode (unat ?ino mod IPB) (dinode_of ((icache t ! i)\<lparr>isize := z\<rparr>)) (view t (IBLOCK ?ino (sb s)))", folded vu]
  have fo: "foreign (sb s) (view s) ?a y \<Longrightarrow> view t y = view s y" for y using p by (simp add: reaches_def)
  have "mapped (view t) ?b 0 (unat (isize (icache s ! i)))"
    using mapped_reaches [of "sb s" "view s" ?a "view t" ?b] p r by metis
  with p gt have "mapped (view t) ?b 0 (max (unat (isize (icache s ! i))) (off + length src))" by (intro mapped_join) auto
  then have mp: "mapped (view u) ?b 0 (off + length src)"
    using gt mw(1) fblock by (auto simp: mapped_def max_def split: if_splits)
  have "on_disk (sb s) (view u) jno = on_disk (sb s) (view s) jno" if "jno < sb_ninodes (sb s)" "jno \<noteq> ?ino" for jno
    using od(2) [OF that] fo [OF IBLOCK_foreign [OF lay fD(4) that(1)]] by (simp add: on_disk_def)
  moreover have "content i u k = overwrite off src (content i s) k" if "k < MAXFILE * BSIZE" for k
    using p that mw(2) [OF that] by (simp add: content_def iu)
  moreover have "file_ready i u" using fu r od(1) mp gt(3) z by (simp add: file_ready_def iu fs)
  moreover have "view u y = view s y" if "foreign (sb s) (view s) ?a y" "y \<noteq> IBLOCK ?ino (sb s)" for y
    using fo [OF that(1)] that(2) by (simp add: vu)
  ultimately show ?thesis using fsu gt src z by (simp add: write_post_def iu)
qed

lemma unat_sum32: "unat off + n < 4294967296 \<Longrightarrow> unat (off + of_nat n :: uint) = unat off + n"
  using unat_of_nat32 [of n] by (simp add: unat_add32)

lemma unat_add_overflow32:
  fixes a b :: uint
  assumes "4294967296 \<le> unat a + unat b"
  shows "unat (a + b) < unat a"
proof -
  have "unat (a + b) = unat a + unat b - 4294967296"
    using assms unat_plus_if_size [of a b] by (simp add: word_size)
  then show ?thesis using unat_range32 [of b] assms by linarith
qed

lemma writei_ends:
  assumes fr: "file_ready i s" and off: "unat off \<le> unat (isize (icache s ! i))" and le: "unat off + length src \<le> MAXFILE * BSIZE"
  shows "ends (writei i src off s) (\<lambda>r t. r = of_nat (length src) \<and> write_post i s (unat off) src t)"
proof -
  let ?n = "of_nat (length src) :: uint"
  note r = fr [unfolded file_ready_def]
  have fs: "file_state i s" using r by blast
  have u: "unat ?n = length src" "unat (off + ?n) = unat off + length src"
    using le by (simp_all add: file_size_bound unat_of_nat32 unat_sum32)
  have mx: "unat (of_nat (MAXFILE * BSIZE) :: uint) = MAXFILE * BSIZE" unfolding file_size_bound by simp
  have t: "itype (icache s ! i) \<noteq> T_DEV" using r by blast
  have g: "\<not> off > isize (icache s ! i)" "\<not> off + ?n < off" "\<not> off + ?n > of_nat (MAXFILE * BSIZE)"
    unfolding word_less_nat_alt u(2) mx using off le by simp_all
  have "ends (writei_loop i (unat off) src s) (\<lambda>_ t. ends (bnd (if ?n > 0 \<and> off + ?n > isize (icache t ! i)
        then iupdate i (upd_inode i (\<lambda>ip. ip\<lparr>isize := off + ?n\<rparr>) t) else Ok () t) (\<lambda>_ s. Ok ?n s))
      (\<lambda>r t. r = ?n \<and> write_post i s (unat off) src t))"
  proof (rule ends_mono [OF writei_loop_ends [OF fs le]])
    fix t assume w: "wpost i s (unat off) src t"
    then have sz: "isize (icache t ! i) = isize (icache s ! i)" and ff: "fframe i s t" and ft: "file_state i t"
      by (simp_all add: wpost_def)
    let ?t = "upd_inode i (\<lambda>ip. ip\<lparr>isize := off + ?n\<rparr>) t"
    show "ends (bnd (if ?n > 0 \<and> off + ?n > isize (icache t ! i) then iupdate i ?t else Ok () t) (\<lambda>_ s. Ok ?n s))
        (\<lambda>r t. r = ?n \<and> write_post i s (unat off) src t)"
    proof (cases "?n > 0 \<and> off + ?n > isize (icache t ! i)")
      case False
      then have "src = [] \<or> unat off + length src \<le> unat (isize (icache s ! i))"
        by (simp only: sz word_less_nat_alt u) auto
      then have "write_post i s (unat off) src t" by (rule write_same_size [OF fr w])
      with False show ?thesis by (simp only: if_False bnd.simps ends_iff simp_thms)
    next
      case True
      then have gt: "unat (isize (icache s ! i)) < unat off + length src" "src \<noteq> []" by (simp_all only: sz word_less_nat_alt u) auto
      have il: "i < length (icache t)" using file_stateD(1) [OF ft] .
      have fs2: "file_state i ?t" "inum (icache ?t ! i) < sb_ninodes (sb ?t)"
        using ft il r by (simp_all add: file_state_def upd_inode_def fframe_simps [OF ff])
      have "ends (iupdate i ?t) (\<lambda>_. write_post i s (unat off) src)"
        by (rule ends_mono [OF iupdate_ends [OF fs2]]) (rule write_grown [OF fr w gt(2,1) off le u(2)])
      with True show ?thesis by (simp only: if_True ends_bnd ends_iff simp_thms)
    qed
  qed
  then show ?thesis using t g by (simp add: writei_def Let_def)
qed

text \<open>The calls \<open>writei\<close> turns down, before it has touched anything.\<close>

lemma writei_rejects:
  assumes "itype (icache s ! i) \<noteq> T_DEV" "length src < 2 ^ 31"
    "unat (isize (icache s ! i)) < unat off \<or> MAXFILE * BSIZE < unat off + length src"
  shows "writei i src off s = Ok (- 1) s"
proof -
  let ?n = "of_nat (length src) :: uint"
  have n: "unat ?n = length src" using assms(2) by (intro unat_of_nat32) simp
  have mx: "unat (of_nat (MAXFILE * BSIZE) :: uint) = MAXFILE * BSIZE" unfolding file_size_bound by simp
  have "off > isize (icache s ! i) \<or> off + ?n < off \<or> off + ?n > of_nat (MAXFILE * BSIZE)"
  proof (cases "unat off + length src < 4294967296")
    case True
    then show ?thesis using assms(3) by (simp only: word_less_nat_alt unat_sum32 mx) blast
  next
    case False
    have "off + ?n < off"
      unfolding word_less_nat_alt by (rule unat_add_overflow32) (use False n in simp)
    then show ?thesis by blast
  qed
  then show ?thesis using assms(1) by (auto simp: writei_def Let_def)
qed

subsection \<open>readi\<close>

text \<open>What reading needs; it does not need a transaction.\<close>

definition file_readable :: "nat \<Rightarrow> 'z istate_scheme \<Rightarrow> bool" where
  "file_readable i s \<longleftrightarrow> cache_ok {} s \<and> idev (icache s ! i) = 1 \<and> layout_ok (unat (log_start s)) (disksize s) (sb s)
     \<and> view_ok (sb s) (view s) \<and> file_ok (sb s) (view s) (iaddrs (icache s ! i)) \<and> itype (icache s ! i) \<noteq> T_DEV
     \<and> mapped (view s) (iaddrs (icache s ! i)) 0 (unat (isize (icache s ! i))) \<and> unat (isize (icache s ! i)) \<le> MAXFILE * BSIZE"

lemma file_ready_readable: "file_ready i s \<Longrightarrow> file_readable i s"
  by (auto simp: file_ready_def file_readable_def dest: file_stateD)

lemma readable_peek:
  assumes "file_readable i s" "fs_peek {} s t"
  shows "file_readable i t" "content i t = content i s" "icache t = icache s"
proof -
  have f: "tframe s t" "view t = view s" "cache_ok {} t" using assms(2) by (simp_all add: fs_peek_def)
  note c = tframe_istate [OF f(1)]
  show "icache t = icache s" "content i t = content i s" by (simp_all add: c f content_def)
  show "file_readable i t" using assms(1) by (simp add: file_readable_def c f tframe_simps [OF f(1)])
qed

lemma fs_peek_trans: "fs_peek H s t \<Longrightarrow> fs_peek H t u \<Longrightarrow> fs_peek H s u"
  by (auto simp: fs_peek_def intro: tframe_trans)

text \<open>The part of a block that a round of the loop takes.\<close>

lemma block_bytes:
  assumes "blk v a (off div BSIZE) = x" "x \<noteq> 0" "length (v x) = BSIZE" "off mod BSIZE + m \<le> BSIZE"
  shows "take m (drop (off mod BSIZE) (v x)) = map (fbyte v a) [off..<off + m]"
proof (rule nth_equalityI)
  show "length (take m (drop (off mod BSIZE) (v x))) = length (map (fbyte v a) [off..<off + m])" using assms(3,4) by simp
  fix j assume "j < length (take m (drop (off mod BSIZE) (v x)))"
  then have j: "j < m" by simp
  define q where "q = off div BSIZE"
  have e: "off = q * BSIZE + off mod BSIZE" unfolding q_def by simp
  have lt: "off mod BSIZE + j < BSIZE" using j assms(4) by linarith
  have o: "off + j = q * BSIZE + (off mod BSIZE + j)" using e by linarith
  have "(off + j) div BSIZE = q" "(off + j) mod BSIZE = off mod BSIZE + j" unfolding o using lt by simp_all
  then show "take m (drop (off mod BSIZE) (v x)) ! j = map (fbyte v a) [off..<off + m] ! j"
    using j assms by (simp add: fbyte_def q_def)
qed

lemma readi_loop_ends:
  assumes "file_readable i s" "off + left \<le> unat (isize (icache s ! i))"
  shows "ends (readi_loop i off left got s) (\<lambda>d t. d = got @ map (content i s) [off..<off + left] \<and> fs_peek {} s t)"
  using assms
proof (induction left arbitrary: off got s rule: less_induct)
  case (less left)
  note r = less.prems(1) [unfolded file_readable_def]
  show ?case
  proof (cases "left = 0")
    case True
    with fs_peek_refl r show ?thesis by (subst readi_loop.simps) auto
  next
    case False
    let ?a = "iaddrs (icache s ! i)" and ?n = "off div BSIZE" and ?r = "off mod BSIZE"
    define m where "m = min left (BSIZE - off mod BSIZE)"
    define r' where "r' = off mod BSIZE"
    have rl: "r' < BSIZE" by (simp add: r'_def)
    have m: "0 < m" "m \<le> left" "?r + m \<le> BSIZE" using False rl unfolding m_def r'_def [symmetric] by auto
    have n: "?n < MAXFILE" using r less.prems(2) False by (intro fblock) linarith
    have x: "blk (view s) ?a ?n \<noteq> 0" using r less.prems(2) False by (simp add: mapped_def)
    let ?x = "blk (view s) ?a ?n"
    have dx: "data_block (sb s) ?x" using r file_okD(2) blocks_ofI(1) [OF n x] by blast
    have ind: "?a ! NDIRECT < disksize s" if "NDIRECT \<le> ?n"
    proof -
      have "?a ! NDIRECT \<noteq> 0" using that x by (auto simp: blk_def)
      then show ?thesis using r file_okD(2) blocks_ofI(2) data_region(1) by blast
    qed
    have "ends (bmap i (of_nat ?n) s) (\<lambda>a s. ends (bnd (bread (idev (icache s ! i)) a s) (\<lambda>b s.
        bnd (brelse b s) (\<lambda>_ t. readi_loop i (off + m) (left - m) (got @ take m (drop ?r (bdata (bufs s ! b)))) t)))
      (\<lambda>d t. d = got @ map (content i u) [off..<off + left] \<and> fs_peek {} u t))" if u: "u = s" for u
    proof (rule ends_mono [OF bmap_mapped [OF _ _ n x ind]])
      show "cache_ok {} s" "idev (icache s ! i) = 1" using r by auto
      fix a t assume "fs_peek {} s t \<and> a = ?x"
      then have pk: "fs_peek {} s t" and a: "a = ?x" by auto
      note rt = readable_peek [OF less.prems(1) pk]
      have t: "view t = view s" "cache_ok {} t" "idev (icache t ! i) = 1" "disksize t = disksize s"
        using pk r rt(3) by (auto simp: fs_peek_def tframe_simps)
      have xd: "?x < disksize t" using r dx data_region(1) t(4) by metis
      have lx: "length (view s ?x) = BSIZE" using r by (simp add: view_ok_def)
      show "ends (bnd (bread (idev (icache t ! i)) a t) (\<lambda>b s.
          bnd (brelse b s) (\<lambda>_ t. readi_loop i (off + m) (left - m) (got @ take m (drop ?r (bdata (bufs s ! b)))) t)))
        (\<lambda>d t. d = got @ map (content i u) [off..<off + left] \<and> fs_peek {} u t)"
        unfolding t(3) a
      proof (subst ends_bnd, rule ends_mono [OF bread_ends [OF t(2) xd free_of_empty]])
        fix b t1 assume p: "bread_post {} ?x t b t1"
        have d: "take m (drop ?r (bdata (bufs t1 ! b))) = map (content i s) [off..<off + m]"
          using block_bytes [OF HOL.refl x lx m(3)] bread_postD(6) [OF p] t(1) by (simp add: content_def)
        show "ends (bnd (brelse b t1) (\<lambda>_ t. readi_loop i (off + m) (left - m) (got @ take m (drop ?r (bdata (bufs t1 ! b)))) t))
          (\<lambda>d t. d = got @ map (content i u) [off..<off + left] \<and> fs_peek {} u t)"
          unfolding d
        proof (subst ends_bnd, rule ends_mono [OF release_ends [OF p]])
          fix v assume "fs_peek {} t v"
          with pk have pv: "fs_peek {} s v" by (rule fs_peek_trans)
          note rv = readable_peek [OF less.prems(1) pv]
          have "ends (readi_loop i (off + m) (left - m) (got @ map (content i s) [off..<off + m]) v)
              (\<lambda>d t. d = (got @ map (content i s) [off..<off + m]) @ map (content i v) [off + m..<off + m + (left - m)] \<and> fs_peek {} v t)"
            by (rule less.IH) (use m False rv less.prems(2) in auto)
          then show "ends (readi_loop i (off + m) (left - m) (got @ map (content i s) [off..<off + m]) v)
              (\<lambda>d t. d = got @ map (content i u) [off..<off + left] \<and> fs_peek {} u t)"
            by (rule ends_mono)
              (use m u rv(2) pv upt_add_eq_append [of off "off + m" "left - m"] in \<open>auto intro: fs_peek_trans\<close>)
        qed
      qed
    qed
    from this [OF HOL.refl] False show ?thesis
      by (subst readi_loop.simps) (simp add: m_def [symmetric] Let_def)
  qed
qed

lemma readi_ends:
  assumes fr: "file_readable i s" and off: "unat off + n \<le> unat (isize (icache s ! i))"
  shows "ends (readi i off (of_nat n) s)
    (\<lambda>r t. r = (of_nat n, map (content i s) [unat off..<unat off + n]) \<and> fs_peek {} s t)"
proof -
  note r = fr [unfolded file_readable_def]
  have u: "unat (of_nat n :: uint) = n" "unat (off + of_nat n) = unat off + n"
    using off unat_range32 [of "isize (icache s ! i)"] by (simp_all add: unat_of_nat32 unat_sum32)
  have g: "\<not> off > isize (icache s ! i)" "\<not> off + of_nat n < off" "\<not> off + of_nat n > isize (icache s ! i)"
    unfolding word_less_nat_alt u(2) using off by simp_all
  have "ends (readi_loop i (unat off) (unat (of_nat n :: uint)) [] s)
      (\<lambda>d t. d = map (content i s) [unat off..<unat off + n] \<and> fs_peek {} s t)"
    unfolding u using readi_loop_ends [OF fr off, of "[]"] by simp
  then show ?thesis using r g by (simp add: readi_def Let_def)
qed

subsection \<open>The abstract file seen by its users\<close>

text \<open>The other files keep their content.\<close>

lemma other_file:
  assumes lay: "layout_ok ls n b" and fok: "file_ok b v a" and oth: "file_ok b v c" and dis: "blocks_of v a \<inter> blocks_of v c = {}"
    and ino: "ino < sb_ninodes b" and fo: "\<And>y. foreign b v a y \<Longrightarrow> y \<noteq> IBLOCK ino b \<Longrightarrow> w y = v y" and k: "k < MAXFILE * BSIZE"
  shows "fbyte w c k = fbyte v c k"
proof -
  have same: "w y = v y" if y: "y \<in> blocks_of v c" for y
  proof -
    have d: "data_block b y" "used b v y" using file_okD(2) [OF oth y] by auto
    have "y \<notin> blocks_of v a" using dis y by auto
    with d BBLOCK_region(5) [OF lay] have "foreign b v a y" by (auto simp: foreign_def)
    moreover have "y \<noteq> IBLOCK ino b" using IBLOCK_region(5) [OF lay ino] d(1) by auto
    ultimately show ?thesis by (rule fo)
  qed
  have bl: "blk w c m = blk v c m" for m using same [OF blocks_ofI(2)] by (auto simp: blk_def)
  show ?thesis using same [OF blocks_ofI(1) [OF fblock [OF k]]] by (auto simp: fbyte_def bl)
qed

text \<open>
  C4. A file is an array of bytes. \<open>writei\<close> within the limits of the file format returns the number
  of bytes given, unless it panics for want of buffers, log space or disk blocks: the file then has
  the new bytes at the place of the write and its old bytes elsewhere, its size is the end of the
  write or what it was, its inode on disk has the new size and block map, \<open>readi\<close> of the range gives
  the bytes back, every other file keeps its content and every other inode its data, and nothing
  has reached the disk yet.
\<close>

theorem file_write_read:
  assumes "file_ready i s" "unat off \<le> unat (isize (icache s ! i))" "unat off + length src \<le> MAXFILE * BSIZE" "src \<noteq> []"
  shows "ends (writei i src off s) (\<lambda>r t. r = of_nat (length src) \<and> file_ready i t
    \<and> unat (isize (icache t ! i)) = max (unat (isize (icache s ! i))) (unat off + length src)
    \<and> (\<forall>k < MAXFILE * BSIZE. content i t k = overwrite (unat off) src (content i s) k)
    \<and> ends (readi i off r t) (\<lambda>d u. d = (r, src) \<and> content i u = content i t)
    \<and> (\<forall>c. file_ok (sb s) (view s) c \<and> blocks_of (view s) (iaddrs (icache s ! i)) \<inter> blocks_of (view s) c = {} \<longrightarrow>
         (\<forall>k < MAXFILE * BSIZE. fbyte (view t) c k = fbyte (view s) c k))
    \<and> (\<forall>ino < sb_ninodes (sb s). ino \<noteq> inum (icache s ! i) \<longrightarrow> on_disk (sb s) (view t) ino = on_disk (sb s) (view s) ino)
    \<and> disk t = disk s)"
proof (rule ends_mono [OF writei_ends [OF assms(1-3)]])
  fix r :: cint and t assume a: "r = of_nat (length src) \<and> write_post i s (unat off) src t"
  then have r: "r = of_nat (length src)" and p: "write_post i s (unat off) src t" by auto
  note q = p [unfolded write_post_def]
  have fs: "file_state i s" "inum (icache s ! i) < sb_ninodes (sb s)" using assms(1) by (simp_all add: file_ready_def)
  note fD = file_stateD [OF fs(1)]
  have rt: "file_ready i t" and sz: "unat (isize (icache t ! i)) = max (unat (isize (icache s ! i))) (unat off + length src)"
    using q assms(4) by simp_all
  have "map (content i t) [unat off..<unat off + length src] = src"
    using q assms(3) by (intro nth_equalityI) (simp_all add: overwrite_def)
  with readi_ends [OF file_ready_readable [OF rt], of off "length src"] sz
  have rd: "ends (readi i off r t) (\<lambda>d u. d = (r, src) \<and> content i u = content i t)"
    by (auto simp: r elim!: ends_mono dest: readable_peek(2) [OF file_ready_readable [OF rt]])
  have "fbyte (view t) c k = fbyte (view s) c k"
    if "file_ok (sb s) (view s) c" "blocks_of (view s) (iaddrs (icache s ! i)) \<inter> blocks_of (view s) c = {}" "k < MAXFILE * BSIZE" for c k
    by (rule other_file [OF fD(7,4) that(1,2) fs(2) _ that(3)]) (use q in blast)
  with q r rt sz rd show "r = of_nat (length src) \<and> file_ready i t
    \<and> unat (isize (icache t ! i)) = max (unat (isize (icache s ! i))) (unat off + length src)
    \<and> (\<forall>k < MAXFILE * BSIZE. content i t k = overwrite (unat off) src (content i s) k)
    \<and> ends (readi i off r t) (\<lambda>d u. d = (r, src) \<and> content i u = content i t)
    \<and> (\<forall>c. file_ok (sb s) (view s) c \<and> blocks_of (view s) (iaddrs (icache s ! i)) \<inter> blocks_of (view s) c = {} \<longrightarrow>
         (\<forall>k < MAXFILE * BSIZE. fbyte (view t) c k = fbyte (view s) c k))
    \<and> (\<forall>ino < sb_ninodes (sb s). ino \<noteq> inum (icache s ! i) \<longrightarrow> on_disk (sb s) (view t) ino = on_disk (sb s) (view s) ino)
    \<and> disk t = disk s"
    using fframe_simps(4) [of i s t] by blast
qed

subsection \<open>A small disk\<close>

text \<open>
  The disk of the image mkfs.c makes, with one file of type \<open>ty\<close> and size \<open>z\<close>: inode 2, whose
  content is in block 60. The first 64 blocks are marked as used.
\<close>

definition inode2 :: "ushort \<Rightarrow> uint \<Rightarrow> inode" where
  "inode2 ty z = \<lparr>idev = 1, inum = 2, iref = 1, ivalid = True, itype = ty, imajor = 0, iminor = 0, inlink = 1, isize = z,
     iaddrs = 60 # replicate 12 0\<rparr>"

definition disk2 :: "ushort \<Rightarrow> uint \<Rightarrow> nat \<Rightarrow> byte list" where
  "disk2 ty z = (\<lambda>_. replicate BSIZE 0)(58 := replicate 8 255 @ replicate 504 0,
     32 := put_dinode 2 (dinode_of (inode2 ty z)) (replicate BSIZE 0))"

definition file0 :: "ushort \<Rightarrow> uint \<Rightarrow> constate" where
  "file0 ty z = con0\<lparr>log_outstanding := 1, disk := disk2 ty z, icache := (icache con0)[0 := inode2 ty z]\<rparr>"

lemma file0_simps [simp]:
  "held (file0 ty z) = {}" "cpu_proc (file0 ty z) = Some 0" "ptable (file0 ty z) = [proc0\<lparr>pid := 4\<rparr>]"
  "slocks (file0 ty z) = (\<lambda>_. \<lparr>sl_locked = 0, sl_name = [], sl_pid = 0\<rparr>)" "bufs (file0 ty z) = replicate NBUF buf0" "lru (file0 ty z) = rev [0..<NBUF]"
  "disk (file0 ty z) = disk2 ty z" "disksize (file0 ty z) = 1000" "log_start (file0 ty z) = 2" "log_dev (file0 ty z) = 1" "log_size (file0 ty z) = 30"
  "log_outstanding (file0 ty z) = 1" "lh_n (file0 ty z) = 0" "lh_block (file0 ty z) = replicate LOGSIZE 0" "sb (file0 ty z) = sb0" "icache (file0 ty z) ! 0 = inode2 ty z"
  "icache (file0 ty z) \<noteq> []"
  by (simp_all add: file0_def con0_def istate0_def log0_def bstate0_def km0_def istate.defs logstate.defs bstate.defs kmstate.defs
      slcore.defs slcore0_def pcore.defs pcore0_def NINODE_def)

lemma file0_view: "dirty (file0 ty z) = {}" "view (file0 ty z) x = disk2 ty z (unat x)"
proof -
  show d: "dirty (file0 ty z) = {}" by (auto simp: dirty_def NBUF_def buf0_def)
  then show "view (file0 ty z) x = disk2 ty z (unat x)" by (simp add: view_clean dirty_blocks_def)
qed

lemma file0_cache: "cache_ok {} (file0 ty z)"
  unfolding cache_ok_def
proof (intro conjI)
  show "one_each (bufs (file0 ty z))" by (auto simp: one_each_def caches_def buf0_def NBUF_def)
  show "\<forall>i < length (bufs (file0 ty z)). buf_ok (file0 ty z) (bufs (file0 ty z) ! i) \<and> lock_ok {} (file0 ty z) i"
    by (auto simp: buf_ok_def lock_ok_def buf0_def NBUF_def)
qed (auto simp: lone_def NBUF_def)

lemma file0_layout: "layout_ok 2 1000 sb0" "data_start sb0 = 59"
  by (simp_all add: layout_ok_def data_start_def sb0_def LOGSIZE_def IPB_def BPB_def BSIZE_def)

lemma file0_used: "x < 1000 \<Longrightarrow> used sb0 (view (file0 ty z)) x \<longleftrightarrow> unat x < 64"
proof -
  assume "x < 1000"
  then have x: "unat x < 1000" by (simp add: word_less_nat_alt)
  then have "unat (BBLOCK x sb0) = 58"
    using BBLOCK_unat [of sb0 x] \<open>x < 1000\<close> file0_layout by (simp add: sb0_def BPB_def BSIZE_def)
  moreover have "bit (disk2 ty z 58 ! (unat x div 8)) (unat x mod 8) \<longleftrightarrow> unat x < 64"
  proof (cases "unat x < 64")
    case True
    then have "unat x div 8 < 8" by simp
    then have "disk2 ty z 58 ! (unat x div 8) = mask 8" by (simp add: disk2_def nth_append mask_eq_exp_minus_1)
    with True show ?thesis by (simp add: bit_mask_iff)
  next
    case False
    then have "\<not> unat x div 8 < 8" "unat x div 8 < 512" using x by simp_all
    with False show ?thesis by (simp add: disk2_def nth_append)
  qed
  ultimately show ?thesis using x by (simp add: used_def file0_view bit_free_bit BPB_def BSIZE_def)
qed

lemma file0_blk: "n < MAXFILE \<Longrightarrow> blk v (60 # replicate 12 0) n = (if n = 0 then 60 else 0)"
  by (auto simp: blk_def NDIRECT_def nth_Cons')

lemma file0_ready:
  assumes "ty \<noteq> T_DEV" "unat z \<le> BSIZE"
  shows "file_ready 0 (file0 ty z)"
proof -
  have len: "length (disk2 ty z b) = BSIZE" for b by (simp add: disk2_def BSIZE_def)
  have vok: "view_ok sb0 (view (file0 ty z))"
    unfolding view_ok_def
  proof (intro conjI allI impI)
    fix x assume "x < sb_size sb0" "\<not> used sb0 (view (file0 ty z)) x"
    then show "data_start sb0 \<le> unat x" using file0_used [of x] by (simp add: sb0_def file0_layout(2) [unfolded sb0_def])
  qed (simp add: file0_view len)
  have tx: "txn (file0 ty z)"
    using file0_view(1) by (simp add: txn_def dirty_blocks_def log_region_def LOGSIZE_def)
  have "blocks_of (view (file0 ty z)) (60 # replicate 12 0) = {60}"
    using file0_blk [of _ "view (file0 ty z)"] by (auto simp: blocks_of_def NDIRECT_def MAXFILE_def)
  then have fok: "file_ok sb0 (view (file0 ty z)) (60 # replicate 12 0)"
    using file0_blk [of _ "view (file0 ty z)"] file0_used [of 60] file0_layout(2)
    by (auto simp: file_ok_def NDIRECT_def data_block_def sb0_def)
  have ib: "IBLOCK 2 sb0 = 32" by (simp add: IBLOCK_def IPB_def sb0_def)
  have "on_disk sb0 (view (file0 ty z)) 2 = dinode_of (inode2 ty z)"
    using get_put_dinode [of "replicate BSIZE 0" 2 "dinode_of (inode2 ty z)"]
    by (simp add: on_disk_def file0_view ib disk2_def IPB_def dinode_of_def inode2_def NDIRECT_def)
  moreover have "mapped (view (file0 ty z)) (60 # replicate 12 0) 0 (unat z)"
    using assms(2) by (simp add: mapped_def blk_def NDIRECT_def)
  ultimately show ?thesis
    using file0_cache file0_layout(1) vok tx fok assms file_size_bound
    by (simp add: file_ready_def file_state_def fs_ok_def inode2_def BSIZE_def) (simp add: sb0_def)
qed


lemma small_file_ready: "file_ready 0 (file0 T_FILE 5)"
  by (rule file0_ready) (simp_all add: T_FILE_def T_DEV_def BSIZE_def)

text \<open>With a buffer and room in the log, a write inside one block that the file has does return.\<close>

lemma write_round_returns:
  assumes fs: "file_state i s" and n: "off div BSIZE < NDIRECT" "iaddrs (icache s ! i) ! (off div BSIZE) \<noteq> 0"
    and room: "\<exists>j < length (bufs s). bflags (bufs s ! j) \<noteq> 6" and fits: "sint (lh_n s) < sint (log_size s) - 1"
  shows "\<exists>t. write_round i off xs s = Ok () t"
proof -
  note fD = file_stateD [OF fs]
  let ?x = "iaddrs (icache s ! i) ! (off div BSIZE)"
  have nm: "off div BSIZE < MAXFILE" using n(1) NDIRECT_less(1) by linarith
  have bm: "bmap i (of_nat (off div BSIZE)) s = Ok ?x s" using n by (simp add: bmap_def unat_block [OF nm] Let_def)
  have "?x \<in> blocks_of (view s) (iaddrs (icache s ! i))" using blocks_ofI(1) [OF nm, of "view s" "iaddrs (icache s ! i)"] n by (simp add: blk_def)
  then have dx: "data_block (sb s) ?x" using file_okD(2) [OF fD(4)] by blast
  note x = data_region(1) [OF fD(7) dx]
  obtain b s1 where b: "bread 1 ?x s = Ok b s1" and p: "bread_post {} ?x s b s1"
    by (rule bread_ok [OF fD(5) x]) (use room in auto)
  note q = bread_postD [OF p]
  have e: "lh_n s1 = lh_n s" "log_size s1 = log_size s" using p by (simp_all add: bread_post_def cframe_log)
  obtain s2 m l where w: "log_write b (set_bdata b (splice (bdata (bufs s1 ! b)) (off mod BSIZE) xs) s1) = Ok () s2"
    and s2: "s2 = logged b (splice (bdata (bufs s1 ! b)) (off mod BSIZE) xs) m l s1"
    using log_write_eq [OF q(3) _ q(5), of "splice (bdata (bufs s1 ! b)) (off mod BSIZE) xs"] q(2) fD(6) fits e
    by (auto simp: Let_def split: option.splits)
  have "cache_ok {b} s2" unfolding s2 by (rule logged_cache(1) [OF q(3) _ q(5)]) simp
  then obtain t where "brelse b s2 = Ok () t" by (rule brelse_ok [of "{b}" s2 b]) simp
  with bm b w fD(2) show ?thesis by (simp add: write_round_def)
qed

lemma file0_writes: "\<exists>t. writei 0 [1, 2, 3] 2 (file0 T_FILE 5) = Ok 3 t"
proof -
  have fs: "file_state 0 (file0 T_FILE 5)" using small_file_ready by (simp add: file_ready_def)
  have "\<exists>j < length (bufs (file0 T_FILE 5)). bflags (bufs (file0 T_FILE 5) ! j) \<noteq> 6" by (rule exI [of _ 0]) (simp add: NBUF_def buf0_def)
  from write_round_returns [OF fs _ _ this, of 2 "[1, 2, 3]"] obtain t where "write_round 0 2 [1, 2, 3] (file0 T_FILE 5) = Ok () t"
    by (auto simp: BSIZE_def NDIRECT_def inode2_def)
  then have l: "writei_loop 0 2 [1, 2, 3] (file0 T_FILE 5) = Ok () t"
    by (subst writei_loop_round) (simp add: BSIZE_def, subst writei_loop.simps, simp)
  have "ends (writei_loop 0 2 [1, 2, 3] (file0 T_FILE 5)) (\<lambda>_. wpost 0 (file0 T_FILE 5) 2 [1, 2, 3])"
    by (rule writei_loop_ends [OF fs]) (simp add: file_size_bound)
  with l have "isize (icache t ! 0) = 5" by (simp add: wpost_def inode2_def)
  with l have "writei 0 [1, 2, 3] 2 (file0 T_FILE 5) = Ok 3 t"
    by (simp add: writei_def Let_def inode2_def T_FILE_def T_DEV_def file_size_bound)
  then show ?thesis ..
qed

theorem file_write_read_witness:
  "file_ready 0 (file0 T_FILE 5) \<and> (\<exists>t. writei 0 [1, 2, 3] 2 (file0 T_FILE 5) = Ok 3 t \<and> file_ready 0 t \<and> content 0 t 3 = 2 \<and> disk t = disk (file0 T_FILE 5)
    \<and> ends (readi 0 2 3 t) (\<lambda>d u. d = (3, [1, 2, 3])))"
proof -
  have sz: "unat (isize (icache (file0 T_FILE 5) ! 0)) = 5" by (simp add: inode2_def)
  have le: "unat (2 :: uint) + length [1, 2, 3 :: byte] \<le> MAXFILE * BSIZE" unfolding file_size_bound by simp
  obtain t where w: "writei 0 [1, 2, 3] 2 (file0 T_FILE 5) = Ok 3 t" using file0_writes by blast
  from file_write_read [OF small_file_ready _ le, unfolded w] sz small_file_ready w show ?thesis
    by (auto simp: overwrite_def file_size_bound elim!: ends_mono)
qed

subsection \<open>Crash atomicity of a write\<close>

text \<open>The bytes of the file with inode \<open>ino\<close>, from the disk alone.\<close>

definition file_at :: "superblock \<Rightarrow> bview \<Rightarrow> uint \<Rightarrow> byte list" where
  "file_at b v ino = map (fbyte v (di_addrs (on_disk b v ino))) [0..<unat (di_size (on_disk b v ino))]"

definition seen :: "blocks \<Rightarrow> bview" where
  "seen d x = d (unat x)"

lemma file_at_home:
  assumes lay: "layout_ok ls n b" and ino: "ino < sb_ninodes b" and fok: "file_ok b v (di_addrs (on_disk b v ino))"
    and sz: "unat (di_size (on_disk b v ino)) \<le> MAXFILE * BSIZE" and same: "\<And>x. home ls (unat x) \<Longrightarrow> w x = v x"
  shows "file_at b w ino = file_at b v ino"
proof -
  let ?a = "di_addrs (on_disk b v ino)"
  have od: "on_disk b w ino = on_disk b v ino" using same [OF IBLOCK_region(4) [OF lay ino]] by (simp add: on_disk_def)
  have bl: "w x = v x" if "x \<in> blocks_of v ?a" for x
    using same data_region(2) [OF lay] file_okD(2) [OF fok that] by blast
  have "blk w ?a m = blk v ?a m" for m using bl [OF blocks_ofI(2)] by (auto simp: blk_def)
  then have "fbyte w ?a k = fbyte v ?a k" if "k < MAXFILE * BSIZE" for k
    using bl [OF blocks_ofI(1) [OF fblock [OF that]]] by (auto simp: fbyte_def)
  with sz show ?thesis by (simp add: file_at_def od)
qed

lemma file_at_ready:
  assumes "file_ready i s"
  shows "file_at (sb s) (view s) (inum (icache s ! i)) = map (content i s) [0..<unat (isize (icache s ! i))]"
  using assms by (simp add: file_at_def file_ready_def dinode_of_def content_def)

lemma same_home_file:
  assumes fr: "file_ready i s" and sh: "same_home (unat (log_start s)) d e" and e: "seen e = view s"
  shows "file_at (sb s) (seen d) (inum (icache s ! i)) = file_at (sb s) (view s) (inum (icache s ! i))"
proof (rule file_at_home)
  note r = fr [unfolded file_ready_def]
  show "layout_ok (unat (log_start s)) (disksize s) (sb s)" "inum (icache s ! i) < sb_ninodes (sb s)"
    using r file_stateD(7) by blast+
  show "file_ok (sb s) (view s) (di_addrs (on_disk (sb s) (view s) (inum (icache s ! i))))"
    "unat (di_size (on_disk (sb s) (view s) (inum (icache s ! i)))) \<le> MAXFILE * BSIZE"
    using r file_stateD(4) by (auto simp: dinode_of_def)
  show "seen d x = view s x" if "home (unat (log_start s)) (unat x)" for x
    using sh that e [symmetric] by (simp add: same_home_def seen_def)
qed

lemma committed_view:
  assumes "txn s"
  shows "seen (committed s) = view s"
proof
  fix x
  let ?n = "nat (sint (lh_n s))"
  have db: "dirty_blocks s = (\<lambda>k. lh_block s ! k) ` {..<?n}" using assms by (simp add: txn_def)
  have "unat x \<in> home_of s ` {..<?n} \<longleftrightarrow> x \<in> dirty_blocks s"
    unfolding db by (auto simp: home_of_def word_unat_eq_iff)
  then show "seen (committed s) x = view s x"
    by (simp add: seen_def committed_def overlay_def view_at_def view_clean)
qed

text \<open>The dirty buffers of a transaction are at most as many as its log has entries.\<close>

lemma txn_clean:
  assumes ok: "cache_ok {} s" and tx: "txn s" and nb: "length (bufs s) = NBUF"
  shows "clean s \<noteq> {}"
proof -
  let ?n = "nat (sint (lh_n s))"
  have inj: "inj_on (\<lambda>i. bblockno (bufs s ! i)) (dirty s)"
  proof (rule inj_onI)
    fix i j assume ij: "i \<in> dirty s" "j \<in> dirty s" "bblockno (bufs s ! i) = bblockno (bufs s ! j)"
    from dirty_caches [OF ok ij(1)] dirty_caches [OF ok ij(2)] ij(3) show "i = j"
      using one_eachD [OF cache_okD(2) [OF ok], of i j "bblockno (bufs s ! j)"] by (simp add: caches_def)
  qed
  have "card (dirty s) = card (dirty_blocks s)" unfolding dirty_blocks_def by (rule card_image [OF inj, symmetric])
  also have "\<dots> = card ((\<lambda>k. lh_block s ! k) ` {..<?n})" using tx by (simp add: txn_def)
  also have "\<dots> \<le> card {..<?n}" by (rule card_image_le) simp
  also have "\<dots> < NBUF" using tx by (simp add: txn_def log_region_def LOGSIZE_def NBUF_def)
  finally have lt: "card (dirty s) < NBUF" .
  show ?thesis
  proof
    assume "clean s = {}"
    then have "{..<NBUF} \<subseteq> dirty s" by (auto simp: clean_def nb)
    moreover have "finite (dirty s)" by (simp add: dirty_def)
    ultimately have "NBUF \<le> card (dirty s)" using card_mono [of "dirty s" "{..<NBUF}"] by simp
    with lt show False by simp
  qed
qed

text \<open>A commit at the end of a transaction, also of one that has logged nothing.\<close>

lemma txn_commit:
  assumes ok: "cache_ok {} s" and tx: "txn s" and nb: "length (bufs s) = NBUF"
    and hd: "hdr_n (disk s (unat (log_start s))) = 0" "length (disk s (unat (log_start s))) = BSIZE"
  shows "\<exists>u ws. commit s = Ok () u \<and> dwrites u = dwrites s @ ws \<and> disk u = apply_writes ws (disk s)
    \<and> same_home (unat (log_start s)) (disk u) (committed s)
    \<and> (\<forall>m. same_home (unat (log_start s)) (logical (unat (log_start s)) (apply_writes (take m ws) (disk s))) (disk s)
         \<or> same_home (unat (log_start s)) (logical (unat (log_start s)) (apply_writes (take m ws) (disk s))) (committed s))"
proof (cases "0 < sint (lh_n s)")
  case True
  then have cr: "commit_ready s" using ok tx txn_clean [OF ok tx nb] hd by (simp add: commit_ready_def txn_def)
  obtain u where u: "commit s = Ok () u" "dwrites u = dwrites s @ writes_of_commit s"
    "disk u = apply_writes (writes_of_commit s) (disk s)"
    using commit_ok [OF cr] by blast
  with commit_all_or_none [OF cr] show ?thesis
    by (intro exI [of _ u] exI [of _ "writes_of_commit s"]) simp
next
  case False
  then have c: "commit s = Ok () s" by (simp add: commit_def word_sless_alt)
  have "logical (unat (log_start s)) (disk s) = disk s" by (rule logical_clear [of "disk s", OF hd(1)])
  moreover have "committed s = disk s" using False by (simp add: committed_def overlay_def [abs_def])
  ultimately show ?thesis using c
    by (intro exI [of _ s] exI [of _ "[]"]) (simp add: same_home_def)
qed

lemma splice_map:
  assumes "off \<le> z" "\<And>k. k < max z (off + length src) \<Longrightarrow> g k = overwrite off src f k"
  shows "map g [0..<max z (off + length src)] = splice (map f [0..<z]) off src"
proof (rule nth_equalityI)
  show len: "length (map g [0..<max z (off + length src)]) = length (splice (map f [0..<z]) off src)"
    using assms(1) by (auto simp: splice_def)
  fix k assume "k < length (map g [0..<max z (off + length src)])"
  then have k: "k < max z (off + length src)" by simp
  then show "map g [0..<max z (off + length src)] ! k = splice (map f [0..<z]) off src ! k"
    using assms(1) assms(2) [OF k] by (auto simp: splice_def overwrite_def nth_append min_def)
qed

text \<open>
  C3. A write to a file survives a crash as a whole or not at all. When \<open>writei\<close> has returned in a
  transaction of its own and the transaction commits, then whatever prefix of the disk writes is
  done when the machine stops, the disk that recovery makes holds either the old bytes of the file
  or the old bytes with the new ones in their place, read from the inode on disk; and when the
  commit has returned it holds the latter.
\<close>

theorem file_write_crash_atomic:
  assumes "file_ready i s" "lh_n s = 0" "length (bufs s) = NBUF"
    "hdr_n (disk s (unat (log_start s))) = 0" "length (disk s (unat (log_start s))) = BSIZE"
    "unat off \<le> unat (isize (icache s ! i))" "unat off + length src \<le> MAXFILE * BSIZE" "writei i src off s = Ok r t"
  shows "\<exists>u ws. commit t = Ok () u \<and> dwrites u = dwrites s @ ws \<and> disk u = apply_writes ws (disk s)
    \<and> (let ls = unat (log_start s); ino = inum (icache s ! i);
           old = file_at (sb s) (seen (disk s)) ino; new = splice old (unat off) src in
        file_at (sb s) (seen (disk u)) ino = new
        \<and> (\<forall>m. file_at (sb s) (seen (logical ls (apply_writes (take m ws) (disk s)))) ino \<in> {old, new}))"
proof -
  let ?ls = "unat (log_start s)" and ?ino = "inum (icache s ! i)"
  have p: "write_post i s (unat off) src t" using writei_ends [OF assms(1,6,7)] assms(8) by simp
  have ff: "fframe i s t" and rt: "file_ready i t" using p by (simp_all add: write_post_def)
  note e = fframe_simps [OF ff]
  have ft: "file_state i t" using rt by (simp add: file_ready_def)
  note tD = file_stateD [OF ft]
  have nb: "length (bufs t) = NBUF" using ff assms(3) by (auto simp: fframe_def)
  obtain u ws where u: "commit t = Ok () u" "dwrites u = dwrites s @ ws" "disk u = apply_writes ws (disk s)"
    and new: "same_home ?ls (disk u) (committed t)"
    and all: "\<And>m. same_home ?ls (logical ?ls (apply_writes (take m ws) (disk s))) (disk s)
         \<or> same_home ?ls (logical ?ls (apply_writes (take m ws) (disk s))) (committed t)"
    using txn_commit [OF tD(5,6) nb] assms(4,5) e by auto
  have "txn s" using assms(1) by (auto simp: file_ready_def dest: file_stateD)
  then have "dirty_blocks s = {}" using assms(2) by (simp add: txn_def)
  then have sv: "seen (disk s) = view s" by (auto simp: seen_def view_clean)
  have ct: "seen (committed t) = view t" by (rule committed_view [OF tD(6)])
  let ?old = "file_at (sb s) (seen (disk s)) ?ino"
  have old: "?old = map (content i s) [0..<unat (isize (icache s ! i))]" unfolding sv by (rule file_at_ready [OF assms(1)])
  have nw: "file_at (sb s) (view t) ?ino = splice ?old (unat off) src"
  proof -
    have "unat (isize (icache t ! i)) = max (unat (isize (icache s ! i))) (unat off + length src)"
      using p assms(6) by (auto simp: write_post_def max_def)
    moreover have "map (content i t) [0..<max (unat (isize (icache s ! i))) (unat off + length src)]
        = splice (map (content i s) [0..<unat (isize (icache s ! i))]) (unat off) src"
      by (rule splice_map [OF assms(6)]) (use p assms(1,7) in \<open>auto simp: write_post_def file_ready_def\<close>)
    ultimately show ?thesis using file_at_ready [OF rt] old e by simp
  qed
  have to_old: "file_at (sb s) (seen d) ?ino = ?old" if "same_home ?ls d (disk s)" for d
    using same_home_file [OF assms(1) that sv] sv by simp
  have to_new: "file_at (sb s) (seen d) ?ino = splice ?old (unat off) src" if "same_home ?ls d (committed t)" for d
    using same_home_file [OF rt _ ct, of d] that nw e by simp
  have "file_at (sb s) (seen (logical ?ls (apply_writes (take m ws) (disk s)))) ?ino \<in> {?old, splice ?old (unat off) src}" for m
    using all [of m] to_old to_new by blast
  with u to_new [OF new] show ?thesis unfolding Let_def by blast
qed

theorem file_write_crash_atomic_witness:
  "\<exists>t u ws. writei 0 [1, 2, 3] 2 (file0 T_FILE 5) = Ok 3 t \<and> commit t = Ok () u \<and> disk u = apply_writes ws (disk2 T_FILE 5)
    \<and> file_at sb0 (seen (disk u)) 2 = [0, 0, 1, 2, 3]
    \<and> (\<forall>m. file_at sb0 (seen (logical 2 (apply_writes (take m ws) (disk2 T_FILE 5)))) 2 \<in> {[0, 0, 0, 0, 0], [0, 0, 1, 2, 3]})"
proof -
  obtain t where w: "writei 0 [1, 2, 3] 2 (file0 T_FILE 5) = Ok 3 t" using file0_writes by blast
  have h: "hdr_n (disk (file0 T_FILE 5) (unat (log_start (file0 T_FILE 5)))) = 0" "length (disk (file0 T_FILE 5) (unat (log_start (file0 T_FILE 5)))) = BSIZE"
    by (simp_all add: disk2_def)
  have nb: "length (bufs (file0 T_FILE 5)) = NBUF" by simp
  have le: "unat (2 :: uint) \<le> unat (isize (icache (file0 T_FILE 5) ! 0))" "unat (2 :: uint) + length [1, 2, 3 :: byte] \<le> MAXFILE * BSIZE"
    unfolding file_size_bound by (simp_all add: inode2_def)
  have "content 0 (file0 T_FILE 5) k = 0" if "k < 5" for k
    using that by (simp add: content_def fbyte_def inode2_def blk_def NDIRECT_def BSIZE_def file0_view disk2_def)
  then have "map (content 0 (file0 T_FILE 5)) [0..<5] = [0, 0, 0, 0, 0]" by (simp add: upt_rec)
  moreover have "seen (disk (file0 T_FILE 5)) = view (file0 T_FILE 5)" by (auto simp: seen_def file0_view)
  ultimately have old: "file_at sb0 (seen (disk2 T_FILE 5)) 2 = [0, 0, 0, 0, 0]"
    using file_at_ready [OF small_file_ready] by (simp add: inode2_def)
  show ?thesis
    using file_write_crash_atomic [OF small_file_ready _ nb h le w] w by (auto simp: Let_def inode2_def old splice_def)
qed

text \<open>
  C9. Allocation of a disk block never hands out a block twice. \<open>balloc\<close> returns, unless buffers, log
  space or blocks run out, a data block that the bitmap had as free; it marks that block and no
  other, gives it zeroes, and leaves every other data block as it was.
\<close>

theorem balloc_fresh:
  assumes "fs_ok {} s"
  shows "ends (balloc 1 s) (\<lambda>x t. fs_ok {} t \<and> data_block (sb s) x \<and> \<not> used (sb s) (view s) x
    \<and> (\<forall>y < sb_size (sb s). used (sb s) (view t) y \<longleftrightarrow> y = x \<or> used (sb s) (view s) y)
    \<and> view t x = replicate BSIZE 0 \<and> (\<forall>y. data_block (sb s) y \<and> y \<noteq> x \<longrightarrow> view t y = view s y) \<and> disk t = disk s)"
  by (rule ends_mono [OF balloc_ends [OF assms]])
    (auto simp: balloc_post_def used_alloc [OF fs_okD(3,4) [OF assms]] alloc_view_other [OF fs_okD(3) [OF assms]] fs_step_frame)

theorem balloc_fresh_witness:
  "fs_ok {} (file0 T_FILE 5) \<and> ends (balloc 1 (file0 T_FILE 5)) (\<lambda>x t. 64 \<le> unat x \<and> used sb0 (view t) x \<and> view t 60 = view (file0 T_FILE 5) 60)"
proof -
  have ok: "fs_ok {} (file0 T_FILE 5)" using small_file_ready by (simp add: file_ready_def file_state_def)
  have s: "sb_size sb0 = 1000" by (simp add: sb0_def)
  have d: "data_block sb0 60" by (simp add: data_block_def file0_layout(2) s)
  have "ends (balloc 1 (file0 T_FILE 5)) (\<lambda>x t. 64 \<le> unat x \<and> used sb0 (view t) x \<and> view t 60 = view (file0 T_FILE 5) 60)"
  proof (rule ends_mono [OF balloc_fresh [OF ok]], unfold file0_simps s, elim conjE)
    fix x t assume x: "data_block sb0 x" "\<not> used sb0 (view (file0 T_FILE 5)) x"
      and u: "\<forall>y < 1000. used sb0 (view t) y = (y = x \<or> used sb0 (view (file0 T_FILE 5)) y)"
      and o: "\<forall>y. data_block sb0 y \<and> y \<noteq> x \<longrightarrow> view t y = view (file0 T_FILE 5) y"
    have xs: "x < 1000" using x(1) by (simp add: data_block_def s)
    have g: "64 \<le> unat x" using x(2) file0_used [OF xs] by simp
    moreover have "used sb0 (view t) x" using u xs by blast
    moreover have "view t 60 = view (file0 T_FILE 5) 60" using o d g by auto
    ultimately show "64 \<le> unat x \<and> used sb0 (view t) x \<and> view t 60 = view (file0 T_FILE 5) 60" by blast
  qed
  with ok show ?thesis by blast
qed

end
