(* ===== verification/Directory.thy ===== *)
theory Directory
  imports FileIO
begin

section \<open>Directories as maps from names to inode numbers\<close>

text \<open>
  A directory is a file of 16-byte entries; an entry with inode number zero is free. \<open>dirlookup\<close>
  finds the first entry with the name, and after \<open>dirlink\<close> has entered a new name it finds that one,
  while the other names keep their inodes.
\<close>

subsection \<open>Entries\<close>

definition dent :: "(nat \<Rightarrow> byte) \<Rightarrow> nat \<Rightarrow> dirent" where
  "dent f k = get_dirent (map f [16 * k..<16 * k + 16])"

definition names :: "byte list \<Rightarrow> dirent \<Rightarrow> bool" where
  "names nm e \<longleftrightarrow> de_inum e \<noteq> 0 \<and> namecmp nm (de_name e) = 0"

definition dir_find :: "(nat \<Rightarrow> byte) \<Rightarrow> nat \<Rightarrow> byte list \<Rightarrow> nat option" where
  "dir_find f n nm = find (\<lambda>k. names nm (dent f k)) [0..<n]"

text \<open>The entry \<open>dirlink\<close> writes.\<close>

definition new_dirent :: "byte list \<Rightarrow> uint \<Rightarrow> dirent" where
  "new_dirent nm ino = \<lparr>de_inum = ucast ino, de_name = take DIRSIZ (nm @ replicate DIRSIZ 0)\<rparr>"

lemma length_new_name [simp]: "length (de_name (new_dirent nm ino)) = DIRSIZ"
  by (simp add: new_dirent_def)

lemma get_put_dirent: "length (de_name e) = DIRSIZ \<Longrightarrow> get_dirent (put_dirent e) = e"
proof -
  assume l: "length (de_name e) = DIRSIZ"
  have "ucast (ucast (de_inum e) :: byte) OR push_bit 8 (ucast (ucast (drop_bit 8 (de_inum e)) :: byte)) = de_inum e"
    by (rule bit_word_eqI) (auto simp: bit_simps)
  with l show ?thesis by (simp add: get_dirent_def put_dirent_def rd16_def)
qed

lemma length_put_dirent: "length (put_dirent e) = 2 + length (de_name e)"
  by (simp add: put_dirent_def)

lemma namecmp_loop_same: "(\<And>j. j < n \<Longrightarrow> str_nth p (k + j) = str_nth q (k + j)) \<Longrightarrow> namecmp_loop p q k n = 0"
proof (induction n arbitrary: k)
  case (Suc n)
  have e: "str_nth p k = str_nth q k" using Suc.prems [of 0] by simp
  have "namecmp_loop p q (Suc k) n = 0" by (rule Suc.IH) (use Suc.prems [of "Suc _"] in simp)
  with e show ?case by simp
qed simp

lemma new_dirent_named: "namecmp nm (de_name (new_dirent nm ino)) = 0"
  unfolding namecmp_def
  by (rule namecmp_loop_same) (auto simp: str_nth_def new_dirent_def nth_append)

lemma dent_overwrite:
  assumes "length xs = 16"
  shows "(\<And>j. 16 * k \<le> j \<Longrightarrow> j < 16 * k + 16 \<Longrightarrow> g j = overwrite (16 * m) xs f j) \<Longrightarrow>
    dent g k = (if k = m then get_dirent xs else dent f k)"
proof -
  assume g: "\<And>j. 16 * k \<le> j \<Longrightarrow> j < 16 * k + 16 \<Longrightarrow> g j = overwrite (16 * m) xs f j"
  have "map g [16 * k..<16 * k + 16] = (if k = m then xs else map f [16 * k..<16 * k + 16])"
    using assms g by (intro nth_equalityI) (auto simp: overwrite_def)
  then show ?thesis by (simp add: dent_def)
qed

subsection \<open>Looking up\<close>

text \<open>A free entry in the inode cache, and reference counts that can still grow.\<close>

definition icache_room :: "'z istate_scheme \<Rightarrow> bool" where
  "icache_room s \<longleftrightarrow> (\<exists>j < length (icache s). iref (icache s ! j) = 0) \<and> (\<forall>j < length (icache s). iref (icache s ! j) \<noteq> - 1)"

definition dir_readable :: "nat \<Rightarrow> 'z istate_scheme \<Rightarrow> bool" where
  "dir_readable dp s \<longleftrightarrow> file_readable dp s \<and> itype (icache s ! dp) = T_DIR \<and> 16 dvd unat (isize (icache s ! dp)) \<and> icache_room s"

definition slots :: "nat \<Rightarrow> 'z istate_scheme \<Rightarrow> nat" where
  "slots dp s = unat (isize (icache s ! dp)) div 16"

lemma read_entry:
  assumes fr: "file_readable dp s" and k: "16 * k + 16 \<le> unat (isize (icache s ! dp))"
  shows "ends (readi dp (of_nat (16 * k)) 16 s) (\<lambda>r t. fst r = 16 \<and> get_dirent (snd r) = dent (content dp s) k \<and> fs_peek {} s t)"
proof -
  have u: "unat (of_nat (16 * k) :: uint) = 16 * k"
    by (rule unat_of_nat32) (use k unat_range32 [of "isize (icache s ! dp)"] in linarith)
  have "ends (readi dp (of_nat (16 * k)) (of_nat 16) s)
    (\<lambda>r t. r = (of_nat 16, map (content dp s) [16 * k..<16 * k + 16]) \<and> fs_peek {} s t)"
    using readi_ends [OF fr, of "of_nat (16 * k)" 16] k by (simp only: u)
  then have "ends (readi dp (of_nat (16 * k)) 16 s)
    (\<lambda>r t. r = (16, map (content dp s) [16 * k..<16 * k + 16]) \<and> fs_peek {} s t)" by (simp only: of_nat_numeral)
  then show ?thesis by (rule ends_mono) (simp add: dent_def)
qed

definition igot :: "uint \<Rightarrow> nat \<Rightarrow> 'z istate_scheme \<Rightarrow> 'z istate_scheme \<Rightarrow> bool" where
  "igot ino ip s t \<longleftrightarrow> ip < length (icache s) \<and> idev (icache t ! ip) = 1 \<and> inum (icache t ! ip) = ino \<and> iref (icache t ! ip) \<noteq> 0
     \<and> t = s\<lparr>icache := icache t\<rparr> \<and> length (icache t) = length (icache s) \<and> (\<forall>j. j \<noteq> ip \<longrightarrow> icache t ! j = icache s ! j)"

lemma iget_returns:
  assumes h: "held s = {}" and rm: "icache_room s"
  shows "\<exists>ip t. iget 1 ino s = Ok ip t \<and> igot ino ip s t"
proof (cases "find_idx (\<lambda>ip. 0 <s iref ip \<and> idev ip = 1 \<and> inum ip = ino) (icache s)")
  case (Some i)
  from find_idx_SomeD [OF Some] have i: "i < length (icache s)" "idev (icache s ! i) = 1" "inum (icache s ! i) = ino" by auto
  have "iref (icache s ! i) + 1 \<noteq> 0" using rm i(1) by (metis add_eq_0_iff2 icache_room_def)
  with Some h i show ?thesis by (simp add: iget_def upd_inode_def igot_def)
next
  case None
  from rm obtain j where "j < length (icache s)" "iref (icache s ! j) = 0" by (auto simp: icache_room_def)
  from find_idx_ex [of j "icache s" "\<lambda>ip. iref ip = 0", OF this] obtain i where i: "find_idx (\<lambda>ip. iref ip = 0) (icache s) = Some i" by blast
  from find_idx_SomeD [OF i] have "i < length (icache s)" by simp
  with None i h show ?thesis by (simp add: iget_def upd_inode_def igot_def)
qed

lemma iget_ends:
  assumes "held s = {}" and "icache_room s"
  shows "ends (iget 1 ino s) (\<lambda>ip t. igot ino ip s t)"
  using iget_returns [OF assms, of ino] by auto

definition lookup_post :: "nat \<Rightarrow> nat option \<Rightarrow> 'z istate_scheme \<Rightarrow> (nat \<times> uint) option \<Rightarrow> 'z istate_scheme \<Rightarrow> bool" where
  "lookup_post dp h s r t \<longleftrightarrow>
     (case h of
        None \<Rightarrow> r = None \<and> fs_peek {} s t
      | Some k \<Rightarrow> \<exists>ip u. r = Some (ip, of_nat (16 * k)) \<and> fs_peek {} s u \<and> igot (ucast (de_inum (dent (content dp s) k))) ip u t)"

lemma lookup_post_peek:
  assumes "lookup_post dp h t r u" "fs_peek {} s t" "content dp t = content dp s"
  shows "lookup_post dp h s r u"
  using assms unfolding lookup_post_def by (cases h) (auto intro: fs_peek_trans)

lemma dirlookup_loop_ends:
  assumes "file_readable dp s" "icache_room s" "\<And>k. k \<in> set ks \<Longrightarrow> 16 * k + 16 \<le> unat (isize (icache s ! dp))"
  shows "ends (dirlookup_loop dp nm (map (\<lambda>k. 16 * k) ks) s)
    (lookup_post dp (find (\<lambda>k. names nm (dent (content dp s) k)) ks) s)"
  using assms
proof (induction ks arbitrary: s)
  case Nil
  then show ?case by (auto simp: lookup_post_def file_readable_def intro: fs_peek_refl)
next
  case (Cons k ks)
  let ?e = "dent (content dp s) k"
  have dev: "idev (icache s ! dp) = 1" using Cons.prems(1) by (simp add: file_readable_def)
  have "ends (readi dp (of_nat (16 * k)) 16 s) (\<lambda>r t. ends (if fst r \<noteq> 16 then Panic ''dirlookup read''
      else let de = get_dirent (snd r) in
        if de_inum de = 0 then dirlookup_loop dp nm (map (\<lambda>k. 16 * k) ks) t
        else if namecmp nm (de_name de) = 0
        then bnd (iget (idev (icache t ! dp)) (ucast (de_inum de)) t) (\<lambda>ip s. Ok (Some (ip, of_nat (16 * k))) s)
        else dirlookup_loop dp nm (map (\<lambda>k. 16 * k) ks) t)
      (lookup_post dp (find (\<lambda>k. names nm (dent (content dp s) k)) (k # ks)) s))"
  proof (rule ends_mono [OF read_entry [OF Cons.prems(1)]])
    show "16 * k + 16 \<le> unat (isize (icache s ! dp))" using Cons.prems(3) by simp
    fix r t assume "fst r = 16 \<and> get_dirent (snd r) = ?e \<and> fs_peek {} s t"
    then have r: "fst r = 16" "get_dirent (snd r) = ?e" and pk: "fs_peek {} s t" by auto
    note rt = readable_peek [OF Cons.prems(1) pk]
    have ic: "icache_room t" using Cons.prems(2) by (simp add: icache_room_def rt(3))
    have IH: "ends (dirlookup_loop dp nm (map (\<lambda>k. 16 * k) ks) t)
        (lookup_post dp (find (\<lambda>k. names nm (dent (content dp s) k)) ks) s)"
      by (rule ends_mono [OF Cons.IH [OF rt(1) ic]]) (use Cons.prems(3) rt pk in \<open>auto elim: lookup_post_peek\<close>)
    show "ends (if fst r \<noteq> 16 then Panic ''dirlookup read''
        else let de = get_dirent (snd r) in
          if de_inum de = 0 then dirlookup_loop dp nm (map (\<lambda>k. 16 * k) ks) t
          else if namecmp nm (de_name de) = 0
          then bnd (iget (idev (icache t ! dp)) (ucast (de_inum de)) t) (\<lambda>ip s. Ok (Some (ip, of_nat (16 * k))) s)
          else dirlookup_loop dp nm (map (\<lambda>k. 16 * k) ks) t)
        (lookup_post dp (find (\<lambda>k. names nm (dent (content dp s) k)) (k # ks)) s)"
    proof (cases "names nm ?e")
      case True
      have "held t = {}" using rt(1) by (auto simp: file_readable_def dest: cache_okD(1) loneD(1))
      from iget_ends [OF this ic] have "ends (iget 1 (ucast (de_inum ?e)) t)
          (\<lambda>ip u. lookup_post dp (Some k) s (Some (ip, of_nat (16 * k))) u)"
        by (rule ends_mono) (use pk in \<open>auto simp: lookup_post_def\<close>)
      with True r dev rt(3) show ?thesis by (simp add: Let_def names_def)
    next
      case False
      with r IH show ?thesis by (auto simp: Let_def names_def)
    qed
  qed
  then show ?case by (simp del: find.simps)
qed

lemma dir_offsets_slots: "16 dvd unat n \<Longrightarrow> dir_offsets n = map (\<lambda>k. 16 * k) [0..<unat n div 16]"
  by (auto simp: dir_offsets_def dvd_def)

lemma slot_in_dir: "k < slots dp s \<Longrightarrow> 16 * k + 16 \<le> unat (isize (icache s ! dp))"
  unfolding slots_def by (simp add: less_eq_div_iff_mult_less_eq Suc_le_eq [symmetric])

lemma dirlookup_ends:
  assumes "dir_readable dp s"
  shows "ends (dirlookup dp nm s) (lookup_post dp (dir_find (content dp s) (slots dp s) nm) s)"
proof -
  have d: "itype (icache s ! dp) = T_DIR" "16 dvd unat (isize (icache s ! dp))" "file_readable dp s" "icache_room s"
    using assms by (simp_all add: dir_readable_def)
  from dirlookup_loop_ends [OF d(3,4), of "[0..<slots dp s]" nm] slot_in_dir [of _ dp s]
  show ?thesis by (simp add: dirlookup_def d(1) dir_offsets_slots [OF d(2)] dir_find_def slots_def)
qed

subsection \<open>Entering a name\<close>

definition dir_ready :: "nat \<Rightarrow> 'z istate_scheme \<Rightarrow> bool" where
  "dir_ready dp s \<longleftrightarrow> file_ready dp s \<and> itype (icache s ! dp) = T_DIR \<and> 16 dvd unat (isize (icache s ! dp)) \<and> icache_room s"

lemma dir_ready_readable: "dir_ready dp s \<Longrightarrow> dir_readable dp s"
  by (simp add: dir_ready_def dir_readable_def file_ready_readable)

lemma ready_peek:
  assumes "file_ready i s" "fs_peek {} s t"
  shows "file_ready i t"
proof -
  have fs: "file_state i s" using assms(1) by (simp add: file_ready_def)
  note b = bstep_peek [OF fs assms(2)]
  have "sb t = sb s" using assms(2) by (auto simp: fs_peek_def tframe_istate)
  with assms(1) b show ?thesis by (simp add: file_ready_def bstep_def)
qed

text \<open>The slot \<open>dirlink\<close> takes: the first free one, or the one after the last.\<close>

definition free_slot :: "(nat \<Rightarrow> byte) \<Rightarrow> nat \<Rightarrow> nat" where
  "free_slot f n = (case find (\<lambda>k. de_inum (dent f k) = 0) [0..<n] of None \<Rightarrow> n | Some k \<Rightarrow> k)"

lemma dirlink_loop_ends:
  assumes "file_readable dp s" "\<And>k. k \<in> set ks \<Longrightarrow> 16 * k + 16 \<le> unat (isize (icache s ! dp))"
  shows "ends (dirlink_loop dp (map (\<lambda>k. 16 * k) ks) e s) (\<lambda>off t. fs_peek {} s t
    \<and> off = (case find (\<lambda>k. de_inum (dent (content dp s) k) = 0) ks of None \<Rightarrow> e | Some k \<Rightarrow> 16 * k))"
  using assms
proof (induction ks arbitrary: s)
  case Nil
  then show ?case by (auto simp: file_readable_def intro: fs_peek_refl)
next
  case (Cons k ks)
  let ?e = "dent (content dp s) k"
  have "ends (readi dp (of_nat (16 * k)) 16 s) (\<lambda>r t. ends (if fst r \<noteq> 16 then Panic ''dirlink read''
      else if de_inum (get_dirent (snd r)) = 0 then Ok (16 * k) t else dirlink_loop dp (map (\<lambda>k. 16 * k) ks) e t)
    (\<lambda>off t. fs_peek {} s t \<and> off = (case find (\<lambda>k. de_inum (dent (content dp s) k) = 0) (k # ks) of None \<Rightarrow> e | Some k \<Rightarrow> 16 * k)))"
  proof (rule ends_mono [OF read_entry [OF Cons.prems(1)]])
    show "16 * k + 16 \<le> unat (isize (icache s ! dp))" using Cons.prems(2) by simp
    fix r t assume "fst r = 16 \<and> get_dirent (snd r) = ?e \<and> fs_peek {} s t"
    then have r: "fst r = 16" "get_dirent (snd r) = ?e" and pk: "fs_peek {} s t" by auto
    note rt = readable_peek [OF Cons.prems(1) pk]
    have "ends (dirlink_loop dp (map (\<lambda>k. 16 * k) ks) e t) (\<lambda>off u. fs_peek {} s u
        \<and> off = (case find (\<lambda>k. de_inum (dent (content dp s) k) = 0) ks of None \<Rightarrow> e | Some k \<Rightarrow> 16 * k))"
      by (rule ends_mono [OF Cons.IH [OF rt(1)]]) (use Cons.prems(2) rt pk in \<open>auto intro: fs_peek_trans\<close>)
    with r pk show "ends (if fst r \<noteq> 16 then Panic ''dirlink read''
        else if de_inum (get_dirent (snd r)) = 0 then Ok (16 * k) t else dirlink_loop dp (map (\<lambda>k. 16 * k) ks) e t)
      (\<lambda>off t. fs_peek {} s t \<and> off = (case find (\<lambda>k. de_inum (dent (content dp s) k) = 0) (k # ks) of None \<Rightarrow> e | Some k \<Rightarrow> 16 * k))"
      by simp
  qed
  then show ?case by (simp del: find.simps)
qed

text \<open>What the new entry does to lookups.\<close>

lemma free_slot_free:
  "free_slot f n \<le> n" "free_slot f n < n \<Longrightarrow> de_inum (dent f (free_slot f n)) = 0"
proof -
  show "free_slot f n \<le> n" by (auto simp: free_slot_def dest: find_SomeD split: option.splits)
  show "de_inum (dent f (free_slot f n)) = 0" if "free_slot f n < n"
    using that by (auto simp: free_slot_def dest: find_SomeD split: option.splits)
qed

lemma find_upt_cong:
  assumes "m \<le> n" "\<And>k. k < m \<Longrightarrow> P k = Q k" "\<And>k. m \<le> k \<Longrightarrow> k < n \<Longrightarrow> \<not> P k"
  shows "find P [0..<n] = find Q [0..<m]"
proof -
  have e: "[0..<n] = [0..<m] @ [m..<n]" using upt_add_eq_append [of 0 m "n - m"] assms(1) by simp
  have "find P (xs @ ys) = (case find P xs of None \<Rightarrow> find P ys | Some x \<Rightarrow> Some x)" for xs ys
    by (induction xs) auto
  moreover have "find P [m..<n] = None" by (rule find_none) (use assms(3) in auto)
  moreover have "find P [0..<m] = find Q [0..<m]" by (rule find_cong) (use assms(2) in auto)
  ultimately show ?thesis unfolding e by (simp split: option.splits)
qed

lemma dir_find_new:
  assumes m: "m = free_slot f n" and n': "n' = max n (Suc m)" and e: "\<And>k. k < n' \<Longrightarrow> dent g k = (if k = m then e else dent f k)"
    and no: "dir_find f n nm = None" and hit: "names nm e"
  shows "dir_find g n' nm = Some m"
proof -
  have ml: "m \<le> n" unfolding m by (rule free_slot_free)
  have nohit: "\<not> names nm (dent f k)" if "k < n" for k
    using no that unfolding dir_find_def by (metis atLeast0LessThan find_None_iff lessThan_iff set_upt)
  show ?thesis
    unfolding dir_find_def find_Some_iff
  proof (intro exI [of _ m] conjI allI impI)
    show "m < length [0..<n']" "m = [0..<n'] ! m" using n' by simp_all
    show "names nm (dent g ([0..<n'] ! m))" using e n' hit by simp
    show "\<not> names nm (dent g ([0..<n'] ! j))" if "j < m" for j using e nohit that ml n' by simp
  qed
qed

lemma dir_find_other:
  assumes m: "m = free_slot f n" and n': "n' = max n (Suc m)" and e: "\<And>k. k < n' \<Longrightarrow> dent g k = (if k = m then e else dent f k)"
    and miss: "\<not> names nm e"
  shows "dir_find g n' nm = dir_find f n nm"
  unfolding dir_find_def
proof (rule find_upt_cong)
  have ml: "m \<le> n" unfolding m by (rule free_slot_free)
  show "n \<le> n'" using n' by simp
  show "names nm (dent g k) = names nm (dent f k)" if "k < n" for k
    using that e n' miss free_slot_free(2) [of f n] m by (auto simp: names_def)
  show "\<not> names nm (dent g k)" if "n \<le> k" "k < n'" for k using that e n' ml miss by (auto simp: max_def split: if_splits)
qed

definition link_post :: "nat \<Rightarrow> byte list \<Rightarrow> uint \<Rightarrow> 'z istate_scheme \<Rightarrow> 'z istate_scheme \<Rightarrow> bool" where
  "link_post dp nm ino s t \<longleftrightarrow> dir_ready dp t \<and> slots dp t = max (slots dp s) (Suc (free_slot (content dp s) (slots dp s)))
     \<and> (\<forall>k < slots dp t. dent (content dp t) k =
          (if k = free_slot (content dp s) (slots dp s) then new_dirent nm ino else dent (content dp s) k))
     \<and> disk t = disk s"

lemma link_write:
  assumes dr: "dir_ready dp s" and pk: "fs_peek {} s u" and m: "m = free_slot (content dp s) (slots dp s)" "16 * m + 16 \<le> MAXFILE * BSIZE"
    and w: "write_post dp u (16 * m) (put_dirent (new_dirent nm ino)) t"
  shows "link_post dp nm ino s t"
proof -
  have fr: "file_ready dp s" using dr by (simp add: dir_ready_def)
  note ru = readable_peek [OF file_ready_readable [OF fr] pk]
  have dv: "16 dvd unat (isize (icache s ! dp))" using dr by (simp add: dir_ready_def)
  have sz: "unat (isize (icache s ! dp)) = 16 * slots dp s" using dv by (simp add: slots_def)
  have xs: "length (put_dirent (new_dirent nm ino)) = 16" "put_dirent (new_dirent nm ino) \<noteq> []"
    by (simp_all add: length_put_dirent DIRSIZ_def put_dirent_def)
  have ff: "fframe dp u t" and rt: "file_ready dp t" and st: "unat (isize (icache t ! dp)) = max (16 * slots dp s) (16 * m + 16)"
    and cn: "\<And>k. k < MAXFILE * BSIZE \<Longrightarrow> content dp t k = overwrite (16 * m) (put_dirent (new_dirent nm ino)) (content dp s) k"
    using w xs sz ru by (simp_all add: write_post_def)
  note e = fframe_simps [OF ff]
  have sl: "slots dp t = max (slots dp s) (Suc m)" by (simp add: slots_def [of dp t] st max_def)
  have ir: "iref (icache t ! j) = iref (icache s ! j)" for j
    using ff ru(3) by (auto simp: fframe_def nth_list_update_if)
  have "dir_ready dp t"
    using dr rt st e ru(3) ir by (auto simp: dir_ready_def icache_room_def max_def)
  moreover have "dent (content dp t) k = (if k = m then new_dirent nm ino else dent (content dp s) k)" if "k < slots dp t" for k
  proof -
    have "unat (isize (icache t ! dp)) \<le> MAXFILE * BSIZE" using rt by (simp add: file_ready_def)
    with slot_in_dir [OF that] have "16 * k + 16 \<le> MAXFILE * BSIZE" by linarith
    then show ?thesis
      using dent_overwrite [OF xs(1), of k "content dp t" m "content dp s"] cn get_put_dirent [of "new_dirent nm ino"] by simp
  qed
  moreover have "disk t = disk s" using e(4) pk by (auto simp: fs_peek_def tframe_simps)
  ultimately show ?thesis using sl m(1) by (simp add: link_post_def)
qed

lemma dirlink_ends:
  assumes dr: "dir_ready dp s" and no: "dir_find (content dp s) (slots dp s) nm = None"
    and room: "16 * free_slot (content dp s) (slots dp s) + 16 \<le> MAXFILE * BSIZE"
  shows "ends (dirlink dp nm ino s) (\<lambda>r t. r = 0 \<and> link_post dp nm ino s t)"
proof -
  let ?m = "free_slot (content dp s) (slots dp s)"
  have fr: "file_ready dp s" and dv: "16 dvd unat (isize (icache s ! dp))" using dr by (simp_all add: dir_ready_def)
  have um: "unat (of_nat (16 * ?m) :: uint) = 16 * ?m"
    by (rule unat_of_nat32) (use room in \<open>simp add: file_size_bound\<close>)
  have step: "ends (let offs = dir_offsets (isize (icache t ! dp)) in
      bnd (dirlink_loop dp offs (16 * length offs) t) (\<lambda>off s.
      bnd (writei dp (put_dirent \<lparr>de_inum = ucast ino, de_name = take DIRSIZ (nm @ replicate DIRSIZ 0)\<rparr>) (of_nat off) s) (\<lambda>r s.
        if r \<noteq> 16 then Panic ''dirlink'' else Ok 0 s))) (\<lambda>r t. r = 0 \<and> link_post dp nm ino s t)"
    if pt: "fs_peek {} s t" for t
  proof -
    note rt = readable_peek [OF file_ready_readable [OF fr] pt]
    have "ends (dirlink_loop dp (map (\<lambda>k. 16 * k) [0..<slots dp s]) (16 * slots dp s) t) (\<lambda>off u. fs_peek {} s u \<and> off = 16 * ?m)"
      by (rule ends_mono [OF dirlink_loop_ends [OF rt(1)]])
        (use slot_in_dir [of _ dp s] pt rt in \<open>auto simp: free_slot_def intro: fs_peek_trans split: option.splits\<close>)
    then have "ends (dirlink_loop dp (map (\<lambda>k. 16 * k) [0..<slots dp s]) (16 * slots dp s) t) (\<lambda>off u.
        ends (bnd (writei dp (put_dirent (new_dirent nm ino)) (of_nat off) u) (\<lambda>r s. if r \<noteq> 16 then Panic ''dirlink'' else Ok 0 s))
          (\<lambda>r t. r = 0 \<and> link_post dp nm ino s t))"
    proof (rule ends_mono)
      fix off u assume "fs_peek {} s u \<and> off = 16 * ?m"
      then have pu: "fs_peek {} s u" and off: "off = 16 * ?m" by auto
      note ru = readable_peek [OF file_ready_readable [OF fr] pu]
      have "16 * ?m \<le> unat (isize (icache u ! dp))" using free_slot_free(1) [of "content dp s" "slots dp s"] dv ru(3) by (auto simp: slots_def)
      moreover have "length (put_dirent (new_dirent nm ino)) = 16" by (simp add: length_put_dirent DIRSIZ_def)
      ultimately have "ends (writei dp (put_dirent (new_dirent nm ino)) (of_nat (16 * ?m)) u)
          (\<lambda>r t. r = 16 \<and> write_post dp u (16 * ?m) (put_dirent (new_dirent nm ino)) t)"
        using writei_ends [OF ready_peek [OF fr pu], of "of_nat (16 * ?m)" "put_dirent (new_dirent nm ino)"] room by (simp only: um of_nat_numeral)
      then have "ends (writei dp (put_dirent (new_dirent nm ino)) (of_nat (16 * ?m)) u) (\<lambda>r t. r = 16 \<and> link_post dp nm ino s t)"
        by (rule ends_mono) (use link_write [OF dr pu HOL.refl room] in blast)
      then show "ends (bnd (writei dp (put_dirent (new_dirent nm ino)) (of_nat off) u) (\<lambda>r s. if r \<noteq> 16 then Panic ''dirlink'' else Ok 0 s))
          (\<lambda>r t. r = 0 \<and> link_post dp nm ino s t)" unfolding off ends_bnd by (rule ends_mono) simp
    qed
    then show ?thesis using rt(3) by (simp add: dir_offsets_slots [OF dv] slots_def [symmetric] new_dirent_def Let_def)
  qed
  show ?thesis
    unfolding dirlink_def
    by (subst ends_bnd, rule ends_mono [OF dirlookup_ends [OF dir_ready_readable [OF dr], of nm]])
      (use no step in \<open>auto simp: lookup_post_def\<close>)
qed

text \<open>
  C5. A directory is a map from names to inode numbers. Let the directory be ready (an inode of type
  T_DIR in the cache, loaded, inside a transaction, of whole entries, with a free inode cache entry
  and reference counts that can still grow), without the name, and with room for one more entry
  below the largest file size; and let the inode number be between 1 and 65535, since an entry
  holds 16 bits of it and 0 marks a free one. Then \<open>dirlink\<close> returns 0, unless it panics because
  buffers, log space or blocks run out; a later \<open>dirlookup\<close> of the name returns, with the same
  exceptions, an inode cache entry for just that inode number; a name that differs from it is found
  where it was found before or not at all as before; and nothing has reached the disk yet. The
  witness shows a directory on which both calls do return.
\<close>

theorem directory_map:
  assumes "dir_ready dp s" "dir_find (content dp s) (slots dp s) nm = None"
    "16 * free_slot (content dp s) (slots dp s) + 16 \<le> MAXFILE * BSIZE" "0 < unat ino" "unat ino < 65536"
  shows "ends (dirlink dp nm ino s) (\<lambda>r t. r = 0 \<and> dir_ready dp t \<and> disk t = disk s
    \<and> ends (dirlookup dp nm t) (\<lambda>q u. \<exists>ip off. q = Some (ip, off) \<and> inum (icache u ! ip) = ino \<and> idev (icache u ! ip) = 1)
    \<and> (\<forall>nm'. namecmp nm' (take DIRSIZ (nm @ replicate DIRSIZ 0)) \<noteq> 0 \<longrightarrow>
         dir_find (content dp t) (slots dp t) nm' = dir_find (content dp s) (slots dp s) nm'
         \<and> (\<forall>k. dir_find (content dp s) (slots dp s) nm' = Some k \<longrightarrow> dent (content dp t) k = dent (content dp s) k)))"
proof (rule ends_mono [OF dirlink_ends [OF assms(1-3)]])
  fix r t assume "r = 0 \<and> link_post dp nm ino s t"
  then have r: "r = 0" and p: "link_post dp nm ino s t" by auto
  let ?m = "free_slot (content dp s) (slots dp s)"
  have dt: "dir_ready dp t" and sl: "slots dp t = max (slots dp s) (Suc ?m)" and dk: "disk t = disk s"
    and en: "\<And>k. k < slots dp t \<Longrightarrow> dent (content dp t) k = (if k = ?m then new_dirent nm ino else dent (content dp s) k)"
    using p by (simp_all add: link_post_def)
  have i16: "ucast (de_inum (new_dirent nm ino)) = ino"
    using assms(5) by (simp add: new_dirent_def word_unat_eq_iff unsigned_ucast_eq unsigned_take_bit_eq take_bit_nat_eq_self)
  then have hit: "names nm (new_dirent nm ino)" using assms(4) new_dirent_named by (auto simp: names_def)
  note fm = dir_find_new [OF HOL.refl sl en assms(2) hit]
  have lk: "ends (dirlookup dp nm t) (\<lambda>q u. \<exists>ip off. q = Some (ip, off) \<and> inum (icache u ! ip) = ino \<and> idev (icache u ! ip) = 1)"
    by (rule ends_mono [OF dirlookup_ends [OF dir_ready_readable [OF dt], of nm]])
      (use fm en [of ?m] sl i16 in \<open>auto simp: lookup_post_def igot_def\<close>)
  have "dir_find (content dp t) (slots dp t) nm' = dir_find (content dp s) (slots dp s) nm'
      \<and> (\<forall>k. dir_find (content dp s) (slots dp s) nm' = Some k \<longrightarrow> dent (content dp t) k = dent (content dp s) k)"
    if "namecmp nm' (take DIRSIZ (nm @ replicate DIRSIZ 0)) \<noteq> 0" for nm'
  proof -
    have miss: "\<not> names nm' (new_dirent nm ino)" using that by (simp add: names_def new_dirent_def)
    note o = dir_find_other [OF HOL.refl sl en miss]
    have "dent (content dp t) k = dent (content dp s) k" if "dir_find (content dp s) (slots dp s) nm' = Some k" for k
    proof -
      have "k < slots dp t" "names nm' (dent (content dp t) k)" using that find_SomeD o unfolding dir_find_def by fastforce+
      with en [of k] miss show ?thesis by (auto split: if_splits)
    qed
    with o show ?thesis by blast
  qed
  with r dt dk lk show "r = 0 \<and> dir_ready dp t \<and> disk t = disk s
    \<and> ends (dirlookup dp nm t) (\<lambda>q u. \<exists>ip off. q = Some (ip, off) \<and> inum (icache u ! ip) = ino \<and> idev (icache u ! ip) = 1)
    \<and> (\<forall>nm'. namecmp nm' (take DIRSIZ (nm @ replicate DIRSIZ 0)) \<noteq> 0 \<longrightarrow>
         dir_find (content dp t) (slots dp t) nm' = dir_find (content dp s) (slots dp s) nm'
         \<and> (\<forall>k. dir_find (content dp s) (slots dp s) nm' = Some k \<longrightarrow> dent (content dp t) k = dent (content dp s) k))"
    by blast
qed

text \<open>
  With its block in the cache, or with a buffer to read it into, reading the first entry of a
  directory does return, and leaves the log as it was.
\<close>

lemma first_entry_returns:
  assumes fr: "file_readable dp s" and sz: "16 \<le> unat (isize (icache s ! dp))" and x: "iaddrs (icache s ! dp) ! 0 \<noteq> 0"
    and room: "iaddrs (icache s ! dp) ! 0 \<in> dirty_blocks s \<or> dirty s = {} \<and> bufs s \<noteq> []"
  shows "\<exists>r t. readi dp 0 16 s = Ok r t \<and> fst r = 16 \<and> get_dirent (snd r) = dent (content dp s) 0 \<and> fs_peek {} s t
    \<and> dirty t = dirty s \<and> bufs t \<noteq> [] \<and> lh_n t = lh_n s \<and> log_size t = log_size s"
proof -
  let ?x = "iaddrs (icache s ! dp) ! 0"
  note r = fr [unfolded file_readable_def]
  have bm: "bmap dp 0 s = Ok ?x s" using x by (simp add: bmap_def NDIRECT_def Let_def)
  have "?x \<in> blocks_of (view s) (iaddrs (icache s ! dp))"
    using blocks_ofI(1) [of 0 "view s" "iaddrs (icache s ! dp)"] x by (simp add: blk_def NDIRECT_def MAXFILE_def)
  then have dx: "data_block (sb s) ?x" using file_okD(2) r by blast
  have lt: "?x < disksize s" using data_region(1) [OF _ dx] r by blast
  have ck: "cache_ok {} s" using r by blast
  have rm: "?x \<in> dirty_blocks s \<or> (\<exists>i < length (bufs s). i \<notin> {} \<and> bflags (bufs s ! i) \<noteq> 6)"
    using room by (auto simp: dirty_def intro!: exI [of _ 0])
  obtain b s1 where b: "bread 1 ?x s = Ok b s1" and p: "bread_post {} ?x s b s1"
    by (rule bread_ok [OF ck lt _ rm]) auto
  have "cache_ok {b} s1" using p by (simp add: bread_post_def)
  then obtain t where t: "brelse b s1 = Ok () t" and q: "brelse_post {b} b s1 t"
    by (rule brelse_ok [of "{b}" s1 b]) simp
  have "\<exists>d. readi_loop dp 0 16 [] s = Ok d t"
    using bm b t r by (subst readi_loop.simps) (simp add: BSIZE_def Let_def readi_loop.simps [of _ _ 0])
  then obtain d where l: "readi_loop dp 0 16 [] s = Ok d t" by blast
  have "\<not> 16 > isize (icache s ! dp)" using sz by (simp add: word_less_nat_alt)
  then have rd: "readi dp 0 16 s = Ok (16, d) t" using r l by (simp add: readi_def Let_def)
  have "ends (readi dp (of_nat (16 * 0)) 16 s) (\<lambda>r t. fst r = 16 \<and> get_dirent (snd r) = dent (content dp s) 0 \<and> fs_peek {} s t)"
    by (rule read_entry [OF fr]) (use sz in simp)
  then have e: "get_dirent d = dent (content dp s) 0" "fs_peek {} s t" using rd by simp_all
  have c: "cframe s s1" "cframe s1 t" "dirty t = dirty s" using p q by (simp_all add: bread_post_def brelse_post_def)
  have "lh_n t = lh_n s" "log_size t = log_size s" by (simp_all add: cframe_log [OF c(1)] cframe_log [OF c(2)])
  moreover have "bufs t \<noteq> []"
  proof -
    have "length (bufs t) = length (bufs s)" using e(2) by (auto simp: fs_peek_def tframe_def)
    moreover have "bufs s \<noteq> []" using room by (auto simp: dirty_blocks_def dirty_def)
    ultimately show ?thesis by auto
  qed
  ultimately show ?thesis using rd e c(3) by auto
qed

text \<open>A lookup in a directory of one slot returns.\<close>

lemma one_slot_lookup_returns:
  assumes dr: "dir_readable dp s" and sz: "isize (icache s ! dp) = 16" and x: "iaddrs (icache s ! dp) ! 0 \<noteq> 0"
    and room: "iaddrs (icache s ! dp) ! 0 \<in> dirty_blocks s \<or> dirty s = {} \<and> bufs s \<noteq> []"
  shows "\<exists>q t. dirlookup dp nm s = Ok q t \<and> (de_inum (dent (content dp s) 0) = 0 \<longrightarrow> q = None \<and> fs_peek {} s t
    \<and> dirty t = dirty s \<and> bufs t \<noteq> [] \<and> lh_n t = lh_n s \<and> log_size t = log_size s)"
proof -
  have fr: "file_readable dp s" and ty: "itype (icache s ! dp) = T_DIR" and ic: "icache_room s" using dr by (simp_all add: dir_readable_def)
  obtain r t where r: "readi dp 0 16 s = Ok r t" "fst r = 16" "get_dirent (snd r) = dent (content dp s) 0"
    and t: "fs_peek {} s t" "dirty t = dirty s" "bufs t \<noteq> []" "lh_n t = lh_n s" "log_size t = log_size s"
    using first_entry_returns [OF fr _ x room] sz by auto
  note p = readable_peek [OF fr t(1)]
  have dev: "idev (icache t ! dp) = 1" using p(1) by (simp add: file_readable_def)
  have "held t = {}" using p(1) by (auto simp: file_readable_def dest: cache_okD(1) loneD(1))
  moreover have "icache_room t" using ic by (simp add: icache_room_def p(3))
  ultimately have g: "\<exists>ip u. iget 1 ino t = Ok ip u" for ino using iget_returns by blast
  have lo: "dirlookup dp nm s = dirlookup_loop dp nm [0] s" using ty sz by (simp add: dirlookup_def dir_offsets_def)
  show ?thesis
  proof (cases "names nm (dent (content dp s) 0)")
    case True
    obtain ip u where "iget 1 (ucast (de_inum (dent (content dp s) 0))) t = Ok ip u" using g by blast
    with True r dev have "dirlookup dp nm s = Ok (Some (ip, 0)) u" by (simp add: lo Let_def names_def)
    with True show ?thesis by (auto simp: names_def)
  next
    case False
    with r have "dirlookup dp nm s = Ok None t" by (auto simp: lo Let_def names_def)
    with t show ?thesis by auto
  qed
qed

text \<open>An empty directory of one slot.\<close>

lemma empty_dir:
  "dir_ready 0 (file0 T_DIR 16)" "k < 512 \<Longrightarrow> content 0 (file0 T_DIR 16) k = 0" "slots 0 (file0 T_DIR 16) = 1"
proof -
  have "file_ready 0 (file0 T_DIR 16)" by (rule file0_ready) (simp_all add: T_DIR_def T_DEV_def BSIZE_def)
  moreover have "icache_room (file0 T_DIR 16)"
  proof -
    have c: "icache (file0 T_DIR 16) = (replicate NINODE inode0)[0 := inode2 T_DIR 16]"
      by (simp add: file0_def con0_def istate0_def istate.defs logstate.defs)
    have "iref (icache (file0 T_DIR 16) ! 1) = 0" by (simp add: c NINODE_def inode0_def)
    moreover have "iref (icache (file0 T_DIR 16) ! j) \<noteq> - 1" if "j < NINODE" for j
      using that by (simp add: c nth_list_update_if inode0_def inode2_def)
    ultimately show ?thesis unfolding icache_room_def by (auto simp: c NINODE_def intro!: exI [of _ 1])
  qed
  ultimately show "dir_ready 0 (file0 T_DIR 16)" by (simp add: dir_ready_def inode2_def T_DIR_def)
  show "slots 0 (file0 T_DIR 16) = 1" by (simp add: slots_def inode2_def)
  have "k mod BSIZE < 512" by (simp add: BSIZE_def)
  then show "content 0 (file0 T_DIR 16) k = 0" if "k < 512"
    using that by (simp add: content_def fbyte_def inode2_def blk_def NDIRECT_def BSIZE_def file0_view disk2_def)
qed

lemma empty_dir_slot: "de_inum (dent (content 0 (file0 T_DIR 16)) 0) = 0"
  by (simp add: dent_def get_dirent_def rd16_def empty_dir(2))

lemma empty_dir_linked:
  "\<exists>t. dirlink 0 nm ino (file0 T_DIR 16) = Ok 0 t \<and> iaddrs (icache t ! 0) = 60 # replicate 12 0 \<and> isize (icache t ! 0) = 16"
proof -
  let ?s = "file0 T_DIR 16" and ?e = "put_dirent (new_dirent nm ino)"
  have fr: "file_ready 0 ?s" using empty_dir(1) by (simp add: dir_ready_def)
  have i: "isize (icache ?s ! 0) = 16" "iaddrs (icache ?s ! 0) = 60 # replicate 12 0" by (simp_all add: inode2_def)
  have "dirty ?s = {}" "bufs ?s \<noteq> []" by (simp_all add: file0_view NBUF_def)
  then obtain t1 where t1: "dirlookup 0 nm ?s = Ok None t1" "fs_peek {} ?s t1" "dirty t1 = {}" "bufs t1 \<noteq> []"
      "lh_n t1 = 0" "log_size t1 = 30"
    using one_slot_lookup_returns [OF dir_ready_readable [OF empty_dir(1)], of nm] i empty_dir_slot by auto
  note p1 = readable_peek [OF file_ready_readable [OF fr] t1(2)]
  obtain r t2 where t2: "readi 0 0 16 t1 = Ok r t2" "fst r = 16" "get_dirent (snd r) = dent (content 0 ?s) 0" "fs_peek {} t1 t2"
      "dirty t2 = {}" "bufs t2 \<noteq> []" "lh_n t2 = 0" "log_size t2 = 30"
    using first_entry_returns [OF p1(1)] i t1 p1 by auto
  have pk: "fs_peek {} ?s t2" using t1(2) t2(4) by (rule fs_peek_trans)
  note p2 = readable_peek [OF file_ready_readable [OF fr] pk]
  have fs: "file_state 0 t2" using ready_peek [OF fr pk] by (simp add: file_ready_def)
  have le: "length ?e = 16" by (simp add: length_put_dirent DIRSIZ_def)
  have "\<exists>j < length (bufs t2). bflags (bufs t2 ! j) \<noteq> 6" using t2(5,6) by (auto simp: dirty_def intro!: exI [of _ 0])
  from write_round_returns [OF fs _ _ this, of 0 ?e] obtain t where "write_round 0 0 ?e t2 = Ok () t"
    using t2(7,8) i p2(3) by (auto simp: NDIRECT_def)
  then have l: "writei_loop 0 0 ?e t2 = Ok () t"
    using le by (subst writei_loop_round) (auto simp: BSIZE_def Let_def writei_loop.simps [of _ _ "[]"])
  have "ends (writei_loop 0 0 ?e t2) (\<lambda>_. wpost 0 t2 0 ?e)"
    by (rule writei_loop_ends [OF fs]) (simp add: file_size_bound le)
  moreover have "mapped (view t2) (iaddrs (icache t2 ! 0)) 0 16"
    using ready_peek [OF fr pk] i p2(3) by (simp add: file_ready_def)
  ultimately have it: "isize (icache t ! 0) = 16" "iaddrs (icache t ! 0) = 60 # replicate 12 0"
    using l i p2(3) le by (simp_all add: wpost_def)
  have ty: "itype (icache t2 ! 0) = T_DIR" using p2(3) by (simp add: inode2_def)
  have w: "writei 0 ?e 0 t2 = Ok 16 t"
    using l it i p2(3) le ty by (simp add: writei_def Let_def T_DIR_def T_DEV_def file_size_bound)
  have "dirlink 0 nm ino ?s = Ok 0 t"
    using t1(1) t2(1-3) w i p1(3) empty_dir_slot
    by (simp add: dirlink_def dir_offsets_def Let_def new_dirent_def)
  with it show ?thesis by blast
qed

theorem directory_map_witness:
  "\<exists>t ip off u. dir_ready 0 (file0 T_DIR 16) \<and> dirlink 0 (str ''sh'') 7 (file0 T_DIR 16) = Ok 0 t
     \<and> dirlookup 0 (str ''sh'') t = Ok (Some (ip, off)) u \<and> inum (icache u ! ip) = 7"
proof -
  let ?s = "file0 T_DIR 16" and ?nm = "str ''sh''"
  have n: "dir_find (content 0 ?s) (slots 0 ?s) ?nm = None"
    unfolding dir_find_def empty_dir(3) by (rule find_none) (use empty_dir_slot in \<open>auto simp: names_def\<close>)
  have f: "16 * free_slot (content 0 ?s) (slots 0 ?s) + 16 \<le> MAXFILE * BSIZE"
    using free_slot_free(1) [of "content 0 ?s" "slots 0 ?s"] by (simp add: empty_dir(3) file_size_bound)
  obtain t where t: "dirlink 0 ?nm 7 ?s = Ok 0 t" and it: "iaddrs (icache t ! 0) = 60 # replicate 12 0" "isize (icache t ! 0) = 16"
    using empty_dir_linked by blast
  have d: "dir_ready 0 t" "disk t = disk ?s"
    and lk: "ends (dirlookup 0 ?nm t) (\<lambda>q u. \<exists>ip off. q = Some (ip, off) \<and> inum (icache u ! ip) = 7 \<and> idev (icache u ! ip) = 1)"
    using directory_map [OF empty_dir(1) n f, of 7] t by auto
  have "60 \<in> dirty_blocks t"
  proof (rule ccontr)
    assume "60 \<notin> dirty_blocks t"
    then have "view t 60 = replicate BSIZE 0" using d(2) by (simp add: view_clean disk2_def)
    then have "content 0 t k = 0" if "k < 16" for k
      using that it by (simp add: content_def fbyte_def blk_def NDIRECT_def BSIZE_def)
    then have z: "de_inum (dent (content 0 t) 0) = 0" by (simp add: dent_def get_dirent_def rd16_def)
    have "link_post 0 ?nm 7 ?s t" using dirlink_ends [OF empty_dir(1) n f, of 7] t by simp
    moreover have "free_slot (content 0 ?s) 1 = 0" by (simp add: free_slot_def empty_dir_slot)
    ultimately have "dent (content 0 t) 0 = new_dirent ?nm 7" by (simp add: link_post_def empty_dir(3))
    with z show False by (simp add: new_dirent_def)
  qed
  then obtain q u where "dirlookup 0 ?nm t = Ok q u"
    using one_slot_lookup_returns [OF dir_ready_readable [OF d(1)], of ?nm] it by auto
  with lk t empty_dir(1) show ?thesis by auto
qed

end
