(* ===== verification/Ide.thy ===== *)
theory Ide
  imports Cache
begin

section \<open>The IDE driver (ide.c)\<close>

text \<open>
  The driver queues requests on a linked list through the buffers and works on the first; an
  interrupt completes it and starts the next. The drive itself is the documented behaviour of an
  ATA drive in PIO mode: the task-file registers name a drive and a sector, a read command makes
  the sector available at the data port, a write command takes the sector from it. The \<open>k\<close>-th
  reading of the status port is \<open>ide_status k\<close>. The queue is shown to be first-in first-out, and
  the completed request to have the effect of the synchronous driver of memide.c.
\<close>

definition IDE_BSY :: byte where "IDE_BSY = 0x80"
definition IDE_DRDY :: byte where "IDE_DRDY = 0x40"
definition IDE_DF :: byte where "IDE_DF = 0x20"
definition IDE_ERR :: byte where "IDE_ERR = 0x01"
definition IDE_CMD_READ :: byte where "IDE_CMD_READ = 0x20"
definition IDE_CMD_WRITE :: byte where "IDE_CMD_WRITE = 0x30"
definition IDE_CMD_RDMUL :: byte where "IDE_CMD_RDMUL = 0xc4"
definition IDE_CMD_WRMUL :: byte where "IDE_CMD_WRMUL = 0xc5"
definition SECTOR_SIZE :: nat where "SECTOR_SIZE = 512"
definition FSSIZE :: uint where "FSSIZE = 1000"

subsection \<open>The drive\<close>

record ata =
  lba0 :: byte
  lba1 :: byte
  lba2 :: byte
  devhead :: byte
  writing :: bool
  dataport :: "byte list"
  platters :: "bool \<Rightarrow> nat \<Rightarrow> byte list"

definition ata_lba :: "ata \<Rightarrow> nat" where
  "ata_lba d = unat (lba0 d) + 256 * unat (lba1 d) + 65536 * unat (lba2 d) + 16777216 * unat (devhead d AND 0x0f)"

definition ata_dev :: "ata \<Rightarrow> bool" where
  "ata_dev d \<longleftrightarrow> bit (devhead d) 4"

definition ata_outb :: "nat \<Rightarrow> byte \<Rightarrow> ata \<Rightarrow> ata" where
  "ata_outb port v d =
     (if port = 0x1f3 then d\<lparr>lba0 := v\<rparr>
      else if port = 0x1f4 then d\<lparr>lba1 := v\<rparr>
      else if port = 0x1f5 then d\<lparr>lba2 := v\<rparr>
      else if port = 0x1f6 then d\<lparr>devhead := v\<rparr>
      else if port = 0x1f7 then
        (if v = IDE_CMD_READ then d\<lparr>writing := False, dataport := platters d (ata_dev d) (ata_lba d)\<rparr>
         else if v = IDE_CMD_WRITE then d\<lparr>writing := True\<rparr>
         else d)
      else d)"

definition ata_outsl :: "byte list \<Rightarrow> ata \<Rightarrow> ata" where
  "ata_outsl bs d =
     (if writing d
      then d\<lparr>writing := False, platters := (platters d)(ata_dev d := (platters d (ata_dev d))(ata_lba d := bs))\<rparr>
      else d)"

subsection \<open>The driver\<close>

record idestate = bstate +
  idequeue :: "nat option"
  qnext :: "nat \<Rightarrow> nat option"
  havedisk1 :: bool
  drive :: ata
  ide_status :: "nat \<Rightarrow> byte"
  ide_reads :: nat

partial_function (option) idewait_loop :: "(nat \<Rightarrow> byte) \<Rightarrow> nat \<Rightarrow> (byte \<times> nat) option" where
  "idewait_loop st k =
     (if st k AND (IDE_BSY OR IDE_DRDY) = IDE_DRDY then Some (st k, k + 1) else idewait_loop st (k + 1))"

definition idewait :: "bool \<Rightarrow> 'z idestate_scheme \<Rightarrow> ('z idestate_scheme, cint) outcome" where
  "idewait checkerr s =
     (case idewait_loop (ide_status s) (ide_reads s) of
        None \<Rightarrow> Spin
      | Some (r, k) \<Rightarrow>
          Ok (if checkerr \<and> r AND (IDE_DF OR IDE_ERR) \<noteq> 0 then - 1 else 0) (s\<lparr>ide_reads := k\<rparr>))"

definition outb :: "nat \<Rightarrow> byte \<Rightarrow> 'z idestate_scheme \<Rightarrow> 'z idestate_scheme" where
  "outb port v s = s\<lparr>drive := ata_outb port v (drive s)\<rparr>"

fun probe_loop :: "nat \<Rightarrow> 'z idestate_scheme \<Rightarrow> 'z idestate_scheme" where
  "probe_loop 0 s = s"
| "probe_loop (Suc n) s =
     (let r = ide_status s (ide_reads s); s = s\<lparr>ide_reads := ide_reads s + 1\<rparr> in
      if r \<noteq> 0 then s\<lparr>havedisk1 := True\<rparr> else probe_loop n s)"

text \<open>\<open>ideinit\<close> after it has set up its lock and routed its interrupt.\<close>

definition ideinit :: "'z idestate_scheme \<Rightarrow> ('z idestate_scheme, unit) outcome" where
  "ideinit s =
     bnd (idewait False s) (\<lambda>_ s.
       let s = outb 0x1f6 (0xe0 OR push_bit 4 1) s;
           s = probe_loop 1000 s
       in Ok () (outb 0x1f6 (0xe0 OR push_bit 4 0) s))"

definition idestart :: "nat option \<Rightarrow> 'z idestate_scheme \<Rightarrow> ('z idestate_scheme, unit) outcome" where
  "idestart p s =
     (case p of
        None \<Rightarrow> Panic ''idestart''
      | Some i \<Rightarrow>
          let b = bufs s ! i in
          if FSSIZE \<le> bblockno b then Panic ''incorrect blockno''
          else let sector_per_block = BSIZE div SECTOR_SIZE;
                   sector = bblockno b * of_nat sector_per_block;
                   read_cmd = (if sector_per_block = 1 then IDE_CMD_READ else IDE_CMD_RDMUL);
                   write_cmd = (if sector_per_block = 1 then IDE_CMD_WRITE else IDE_CMD_WRMUL)
               in if 7 < sector_per_block then Panic ''idestart''
                  else bnd (idewait False s) (\<lambda>_ s.
                    let s = outb 0x3f6 0 s;
                        s = outb 0x1f2 (of_nat sector_per_block) s;
                        s = outb 0x1f3 (ucast (sector AND 0xff)) s;
                        s = outb 0x1f4 (ucast (drop_bit 8 sector AND 0xff)) s;
                        s = outb 0x1f5 (ucast (drop_bit 16 sector AND 0xff)) s;
                        s = outb 0x1f6 (ucast (0xe0 OR push_bit 4 (bdev b AND 1) OR (drop_bit 24 sector AND 0x0f))) s
                    in if bflags b AND B_DIRTY \<noteq> 0
                       then let s = outb 0x1f7 write_cmd s in Ok () (s\<lparr>drive := ata_outsl (bdata b) (drive s)\<rparr>)
                       else Ok () (outb 0x1f7 read_cmd s)))"

definition ideintr :: "'z idestate_scheme \<Rightarrow> ('z idestate_scheme, unit) outcome" where
  "ideintr s =
     bnd (lk_acquire LIde s) (\<lambda>_ s.
     (case idequeue s of
        None \<Rightarrow> lk_release LIde s
      | Some i \<Rightarrow>
          let s = s\<lparr>idequeue := qnext s i\<rparr> in
          bnd (if bflags (bufs s ! i) AND B_DIRTY = 0
               then bnd (idewait True s) (\<lambda>r s.
                      Ok () (if 0 \<le>s r then upd_buf i (\<lambda>b. b\<lparr>bdata := dataport (drive s)\<rparr>) s else s))
               else Ok () s) (\<lambda>_ s.
          let s = upd_buf i (\<lambda>b. b\<lparr>bflags := (bflags b OR B_VALID) AND NOT B_DIRTY\<rparr>) s in
          bnd (wakeup (CBuf i) s) (\<lambda>_ s.
          bnd (if idequeue s \<noteq> None then idestart (idequeue s) s else Ok () s) (\<lambda>_ s.
            lk_release LIde s)))))"

text \<open>The walk along \<open>qnext\<close> from \<open>i\<close> to the last buffer of the queue; a cyclic queue has none.\<close>

partial_function (option) queue_end :: "(nat \<Rightarrow> nat option) \<Rightarrow> nat \<Rightarrow> nat option" where
  "queue_end nx i = (case nx i of None \<Rightarrow> Some i | Some j \<Rightarrow> queue_end nx j)"

definition ide_append :: "nat \<Rightarrow> 'z idestate_scheme \<Rightarrow> ('z idestate_scheme, unit) outcome" where
  "ide_append i s =
     (let s = s\<lparr>qnext := (qnext s)(i := None)\<rparr> in
      (case idequeue s of
         None \<Rightarrow> Ok () (s\<lparr>idequeue := Some i\<rparr>)
       | Some q \<Rightarrow>
           (case queue_end (qnext s) q of
              None \<Rightarrow> Spin
            | Some l \<Rightarrow> Ok () (s\<lparr>qnext := (qnext s)(l := Some i)\<rparr>))))"

text \<open>The wait of \<open>iderw\<close> for its request, with the lock held; \<open>iderw_resume\<close> after a wakeup.\<close>

definition iderw_wait :: "nat \<Rightarrow> 'z idestate_scheme \<Rightarrow> ('z idestate_scheme, unit) outcome" where
  "iderw_wait i s =
     (if bflags (bufs s ! i) AND (B_VALID OR B_DIRTY) \<noteq> B_VALID
      then sleep (CBuf i) (Some LIde) s
      else lk_release LIde s)"

definition ide_rw :: "nat \<Rightarrow> 'z idestate_scheme \<Rightarrow> ('z idestate_scheme, unit) outcome" where
  "ide_rw i s =
     bnd (holdingsleep (SBuf i) s) (\<lambda>h s.
       if \<not> h then Panic ''iderw: buf not locked''
       else if bflags (bufs s ! i) AND (B_VALID OR B_DIRTY) = B_VALID then Panic ''iderw: nothing to do''
       else if bdev (bufs s ! i) \<noteq> 0 \<and> \<not> havedisk1 s then Panic ''iderw: ide disk 1 not present''
       else bnd (lk_acquire LIde s) (\<lambda>_ s.
            bnd (ide_append i s) (\<lambda>_ s.
            bnd (if idequeue s = Some i then idestart (Some i) s else Ok () s) (\<lambda>_ s.
              iderw_wait i s))))"

definition iderw_resume :: "nat \<Rightarrow> 'z idestate_scheme \<Rightarrow> ('z idestate_scheme, unit) outcome" where
  "iderw_resume i s = bnd (sleep_resume LIde s) (\<lambda>_ s. iderw_wait i s)"

subsection \<open>The request in the task file\<close>

text \<open>The synchronous transfer: what memide.c does at once, and what a queued request comes to.\<close>

definition ide_dev :: "buf \<Rightarrow> bool" where
  "ide_dev b \<longleftrightarrow> bit (bdev b) 0"

definition sync_disk :: "buf \<Rightarrow> (bool \<Rightarrow> nat \<Rightarrow> byte list) \<Rightarrow> bool \<Rightarrow> nat \<Rightarrow> byte list" where
  "sync_disk b D =
     (if bflags b AND B_DIRTY \<noteq> 0 then D(ide_dev b := (D (ide_dev b))(unat (bblockno b) := bdata b)) else D)"

definition sync_buf :: "buf \<Rightarrow> (bool \<Rightarrow> nat \<Rightarrow> byte list) \<Rightarrow> buf" where
  "sync_buf b D =
     (if bflags b AND B_DIRTY \<noteq> 0 then b else b\<lparr>bdata := D (ide_dev b) (unat (bblockno b))\<rparr>)
       \<lparr>bflags := (bflags b OR B_VALID) AND NOT B_DIRTY\<rparr>"

lemma and_mask_take: "x AND 255 = take_bit 8 (x :: 'a::len word)" "x AND 15 = take_bit 4 (x :: 'a::len word)"
  by (simp_all add: take_bit_eq_mask mask_eq_exp_minus_1)

lemma devhead_bits:
  fixes d x :: uint
  shows "bit (ucast (0xe0 OR push_bit 4 (d AND 1) OR (x AND 0x0f)) :: byte) 4 = bit d 0"
    "(ucast (0xe0 OR push_bit 4 (d AND 1) OR (x AND 0x0f)) :: byte) AND 0x0f = ucast (x AND 0x0f)"
proof -
  show "bit (ucast (0xe0 OR push_bit 4 (d AND 1) OR (x AND 0x0f)) :: byte) 4 = bit d 0"
    by (simp add: bit_simps)
  show "(ucast (0xe0 OR push_bit 4 (d AND 1) OR (x AND 0x0f)) :: byte) AND 0x0f = ucast (x AND 0x0f)"
  proof (rule bit_word_eqI)
    fix n assume "n < LENGTH(8)"
    then have "n \<in> {0, 1, 2, 3, 4, 5, 6, 7}" by auto
    then show "bit ((ucast (0xe0 OR push_bit 4 (d AND 1) OR (x AND 0x0f)) :: byte) AND 0x0f) n = bit (ucast (x AND 0x0f) :: byte) n"
      by (auto simp: bit_simps)
  qed
qed

lemma bytes_of_nat:
  "n mod 256 + 256 * (n div 256 mod 256) + 65536 * (n div 65536 mod 256) + 16777216 * (n div 16777216) = (n :: nat)"
proof -
  have "n div 65536 = n div 256 div 256" "n div 16777216 = n div 256 div 256 div 256"
    by (simp_all flip: div_mult2_eq)
  moreover have "m = m mod 256 + 256 * (m div 256)" for m :: nat by simp
  from this [of n] this [of "n div 256"] this [of "n div 256 div 256"]
  have "n = n mod 256 + 256 * (n div 256 mod 256) + 65536 * (n div 256 div 256 mod 256) + 16777216 * (n div 256 div 256 div 256)"
    by linarith
  ultimately show ?thesis by simp
qed

lemma lba_bytes:
  fixes x :: uint
  assumes "unat x < 268435456"
  shows "unat (ucast (x AND 0xff) :: byte) + 256 * unat (ucast (drop_bit 8 x AND 0xff) :: byte)
    + 65536 * unat (ucast (drop_bit 16 x AND 0xff) :: byte)
    + 16777216 * unat (ucast (drop_bit 24 x AND 0x0f) :: byte) = unat x"
proof -
  have e: "unat (ucast (drop_bit k x AND 0xff) :: byte) = unat x div 2 ^ k mod 256" for k
    by (simp add: and_mask_take unsigned_ucast_eq unsigned_take_bit_eq unsigned_drop_bit_eq take_bit_nat_def drop_bit_nat_def
        mod_less [OF unat_range32])
  have f: "unat (ucast (drop_bit 24 x AND 0x0f) :: byte) = unat x div 2 ^ 24 mod 16"
    by (simp add: and_mask_take unsigned_ucast_eq unsigned_take_bit_eq unsigned_drop_bit_eq take_bit_nat_def drop_bit_nat_def
        mod_less [OF unat_range32] mod_mod_cancel)
  have "unat (ucast (x AND 0xff) :: byte) = unat x mod 256" using e [of 0] by simp
  with e [of 8] e [of 16] f assms bytes_of_nat [of "unat x"] show ?thesis by simp
qed

lemma idewait_loop_ready:
  assumes "k \<le> j" "st j AND (IDE_BSY OR IDE_DRDY) = IDE_DRDY"
  shows "\<exists>m \<ge> k. idewait_loop st k = Some (st m, m + 1)"
  using assms
proof (induction "j - k" arbitrary: k)
  case 0
  then have "k = j" by simp
  with 0 show ?case by (auto simp: idewait_loop.simps [of st j])
next
  case (Suc n)
  then have "\<exists>m \<ge> k + 1. idewait_loop st (k + 1) = Some (st m, m + 1)" by auto
  then show ?case by (auto simp: idewait_loop.simps [of st k])
qed

text \<open>A drive that keeps becoming ready and reports no error.\<close>

definition drive_good :: "(nat \<Rightarrow> byte) \<Rightarrow> bool" where
  "drive_good st \<longleftrightarrow> (\<forall>k. \<exists>j \<ge> k. st j AND (IDE_BSY OR IDE_DRDY) = IDE_DRDY)
     \<and> (\<forall>k. st k AND (IDE_DF OR IDE_ERR) = 0)"

lemma idewait_good:
  assumes "drive_good (ide_status s)"
  shows "\<exists>k. idewait c s = Ok 0 (s\<lparr>ide_reads := k\<rparr>)"
proof -
  from assms obtain j where "ide_reads s \<le> j" "ide_status s j AND (IDE_BSY OR IDE_DRDY) = IDE_DRDY"
    unfolding drive_good_def by blast
  from idewait_loop_ready [of _ _ "ide_status s", OF this] obtain m where
    "idewait_loop (ide_status s) (ide_reads s) = Some (ide_status s m, m + 1)" by blast
  with assms show ?thesis by (auto simp: idewait_def drive_good_def)
qed

lemma idestart_good:
  assumes g: "drive_good (ide_status s)" and b: "bblockno (bufs s ! i) < FSSIZE"
  shows "\<exists>k d. idestart (Some i) s = Ok () (s\<lparr>ide_reads := k, drive := d\<rparr>)
    \<and> platters d = sync_disk (bufs s ! i) (platters (drive s))
    \<and> (bflags (bufs s ! i) AND B_DIRTY = 0 \<longrightarrow>
         dataport d = platters d (ide_dev (bufs s ! i)) (unat (bblockno (bufs s ! i))))"
proof -
  from idewait_good [OF g] obtain k where k: "idewait False s = Ok 0 (s\<lparr>ide_reads := k\<rparr>)" by blast
  have s1: "BSIZE div SECTOR_SIZE = 1" by (simp add: BSIZE_def SECTOR_SIZE_def)
  have "unat (bblockno (bufs s ! i)) < 1000" using b by (simp add: FSSIZE_def word_less_nat_alt)
  then have l: "unat (bblockno (bufs s ! i)) < 268435456" by simp
  note n = lba_bytes [OF l]
  have c: "IDE_CMD_WRITE \<noteq> IDE_CMD_READ" by (simp add: IDE_CMD_READ_def IDE_CMD_WRITE_def)
  let ?b = "bufs s ! i"
  define r where "r = (drive s)\<lparr>lba0 := ucast (bblockno ?b AND 0xff), lba1 := ucast (drop_bit 8 (bblockno ?b) AND 0xff),
    lba2 := ucast (drop_bit 16 (bblockno ?b) AND 0xff),
    devhead := ucast (0xe0 OR push_bit 4 (bdev ?b AND 1) OR (drop_bit 24 (bblockno ?b) AND 0x0f))\<rparr>"
  have r: "ata_dev r = ide_dev ?b" "ata_lba r = unat (bblockno ?b)" "platters r = platters (drive s)"
    by (simp_all add: r_def ata_dev_def ata_lba_def devhead_bits n ide_dev_def del: push_bit_and)
  have v: "idestart (Some i) s = (if bflags ?b AND B_DIRTY \<noteq> 0
      then Ok () (s\<lparr>ide_reads := k, drive := ata_outsl (bdata ?b) (ata_outb 0x1f7 IDE_CMD_WRITE r)\<rparr>)
      else Ok () (s\<lparr>ide_reads := k, drive := ata_outb 0x1f7 IDE_CMD_READ r\<rparr>))"
    using b k by (simp add: idestart_def Let_def s1 outb_def ata_outb_def r_def)
  show ?thesis
  proof (cases "bflags ?b AND B_DIRTY = 0")
    case True
    with v r show ?thesis by (fastforce simp: sync_disk_def ata_outb_def)
  next
    case False
    have w: "ata_outsl (bdata ?b) (ata_outb 0x1f7 IDE_CMD_WRITE r) =
      r\<lparr>writing := False, platters := sync_disk ?b (platters (drive s))\<rparr>"
      using False r c by (simp add: sync_disk_def ata_outb_def ata_outsl_def ata_dev_def ata_lba_def)
    show ?thesis
      by (intro exI [of _ k] exI [of _ "r\<lparr>writing := False, platters := sync_disk ?b (platters (drive s))\<rparr>"])
        (simp add: v w False)
  qed
qed

subsection \<open>The linked queue\<close>

fun qchain :: "(nat \<Rightarrow> nat option) \<Rightarrow> nat option \<Rightarrow> nat list \<Rightarrow> bool" where
  "qchain nx q [] \<longleftrightarrow> q = None"
| "qchain nx q (x # xs) \<longleftrightarrow> q = Some x \<and> qchain nx (nx x) xs"

lemma qchain_other: "i \<notin> set xs \<Longrightarrow> qchain (nx(i := v)) q xs = qchain nx q xs"
  by (induction xs arbitrary: q) auto

lemma queue_end_last: "qchain nx (Some q) xs \<Longrightarrow> queue_end nx q = Some (last xs)"
proof (induction xs arbitrary: q)
  case (Cons x xs)
  then show ?case
    by (cases "nx x"; cases xs) (auto simp: queue_end.simps [of nx x])
qed simp

lemma qchain_snoc:
  "qchain nx q xs \<Longrightarrow> distinct xs \<Longrightarrow> i \<notin> set xs \<Longrightarrow> nx i = None \<Longrightarrow> xs \<noteq> [] \<Longrightarrow>
   qchain (nx(last xs := Some i)) q (xs @ [i])"
proof (induction xs arbitrary: q)
  case (Cons x xs)
  show ?case
  proof (cases xs)
    case Nil
    with Cons show ?thesis by auto
  next
    case (Cons y ys)
    with Cons.prems have "last xs \<noteq> x" by (metis distinct.simps(2) last_in_set list.discI)
    with Cons.prems Cons.IH [of "nx x"] Cons show ?thesis by simp
  qed
qed simp

lemma ide_append_chain:
  assumes "qchain (qnext s) (idequeue s) xs" "distinct xs" "i \<notin> set xs"
  shows "\<exists>q nx. ide_append i s = Ok () (s\<lparr>idequeue := q, qnext := nx\<rparr>) \<and> qchain nx q (xs @ [i])
    \<and> (xs \<noteq> [] \<longrightarrow> q = idequeue s)"
proof (cases xs)
  case Nil
  with assms show ?thesis
    by (intro exI [of _ "Some i"] exI [of _ "(qnext s)(i := None)"]) (simp add: ide_append_def)
next
  case (Cons x ys)
  let ?nx = "(qnext s)(i := None)"
  from assms Cons have q: "idequeue s = Some x" by simp
  have c: "qchain ?nx (Some x) xs" using qchain_other [OF assms(3)] assms(1) q by metis
  have e: "ide_append i s = Ok () (s\<lparr>idequeue := idequeue s, qnext := ?nx(last xs := Some i)\<rparr>)"
    using q queue_end_last [OF c] by (simp add: ide_append_def)
  have d: "qchain (?nx(last xs := Some i)) (idequeue s) (xs @ [i])"
    using qchain_snoc [OF c assms(2,3)] Cons q by simp
  show ?thesis using e d by blast
qed

subsection \<open>Requests are served in order\<close>

definition pending :: "buf \<Rightarrow> bool" where
  "pending b \<longleftrightarrow> bflags b AND (B_VALID OR B_DIRTY) \<noteq> B_VALID \<and> bblockno b < FSSIZE"

text \<open>The drive has been given the request of buffer \<open>i\<close>: a write is on the platter, a read is at
  the data port.\<close>

definition started :: "nat \<Rightarrow> 'z idestate_scheme \<Rightarrow> bool" where
  "started i s \<longleftrightarrow> platters (drive s) = sync_disk (bufs s ! i) (platters (drive s))
     \<and> (bflags (bufs s ! i) AND B_DIRTY = 0 \<longrightarrow>
          dataport (drive s) = platters (drive s) (ide_dev (bufs s ! i)) (unat (bblockno (bufs s ! i))))"

definition ide_ok :: "nat list \<Rightarrow> 'z idestate_scheme \<Rightarrow> bool" where
  "ide_ok xs s \<longleftrightarrow> qchain (qnext s) (idequeue s) xs \<and> distinct xs
     \<and> (\<forall>i \<in> set xs. i < length (bufs s) \<and> pending (bufs s ! i))
     \<and> (xs \<noteq> [] \<longrightarrow> started (hd xs) s) \<and> drive_good (ide_status s)"

lemma sync_disk_idem: "sync_disk b (sync_disk b D) = sync_disk b D"
  by (simp add: sync_disk_def fun_eq_iff)

lemma idestart_started:
  assumes "drive_good (ide_status s)" "bblockno (bufs s ! i) < FSSIZE"
  shows "\<exists>k d. idestart (Some i) s = Ok () (s\<lparr>ide_reads := k, drive := d\<rparr>)
    \<and> platters d = sync_disk (bufs s ! i) (platters (drive s)) \<and> started i (s\<lparr>ide_reads := k, drive := d\<rparr>)"
  using idestart_good [OF assms] by (fastforce simp: started_def sync_disk_idem)

lemma upd_buf_simps [simp]:
  "idequeue (upd_buf i f s) = idequeue s" "qnext (upd_buf i f s) = qnext s" "drive (upd_buf i f s) = drive s"
  "ide_status (upd_buf i f s) = ide_status s" "held (upd_buf i f s) = held s" "ptable (upd_buf i f s) = ptable s"
  "bufs (upd_buf i f s) = (bufs s)[i := f (bufs s ! i)]"
  by (simp_all add: upd_buf_def)

lemma ideintr_read:
  assumes "drive_good (ide_status s)" "started i s" "i < length (bufs s)"
  shows "\<exists>k. (bnd (if bflags (bufs s ! i) AND B_DIRTY = 0
               then bnd (idewait True s) (\<lambda>r s.
                      Ok () (if 0 \<le>s r then upd_buf i (\<lambda>b. b\<lparr>bdata := dataport (drive s)\<rparr>) s else s))
               else Ok () s) (\<lambda>_ s. Ok () (upd_buf i (\<lambda>b. b\<lparr>bflags := (bflags b OR B_VALID) AND NOT B_DIRTY\<rparr>) s)))
     = Ok () (s\<lparr>ide_reads := k, bufs := (bufs s)[i := sync_buf (bufs s ! i) (platters (drive s))]\<rparr>)"
proof -
  from idewait_good [OF assms(1)] obtain k where k: "idewait True s = Ok 0 (s\<lparr>ide_reads := k\<rparr>)" by blast
  show ?thesis
  proof (cases "bflags (bufs s ! i) AND B_DIRTY = 0")
    case True
    with k assms(2,3) show ?thesis
      by (intro exI [of _ k]) (simp add: upd_buf_def sync_buf_def started_def Let_def)
  next
    case False
    with assms(3) show ?thesis
      by (intro exI [of _ "ide_reads s"]) (simp add: upd_buf_def sync_buf_def Let_def)
  qed
qed

lemma ideintr_serves:
  assumes ok: "ide_ok (i # xs) s" and h: "LIde \<notin> held s" "LPtable \<notin> held s"
  shows "\<exists>k d P q. ideintr s = Ok () (s\<lparr>ptable := P, ide_reads := k, drive := d, idequeue := q,
             bufs := (bufs s)[i := sync_buf (bufs s ! i) (platters (drive s))]\<rparr>)
     \<and> P = map (wake_one (Some (CBuf i))) (ptable s)
     \<and> platters d = (case xs of [] \<Rightarrow> platters (drive s) | j # _ \<Rightarrow> sync_disk (bufs s ! j) (platters (drive s)))
     \<and> ide_ok xs (s\<lparr>ptable := P, ide_reads := k, drive := d, idequeue := q,
             bufs := (bufs s)[i := sync_buf (bufs s ! i) (platters (drive s))]\<rparr>)"
proof -
  let ?B = "(bufs s)[i := sync_buf (bufs s ! i) (platters (drive s))]"
  let ?P = "map (wake_one (Some (CBuf i))) (ptable s)"
  let ?s1 = "s\<lparr>held := insert LIde (held s), idequeue := qnext s i\<rparr>"
  from ok have q: "idequeue s = Some i" "qchain (qnext s) (qnext s i) xs" "distinct xs" "i \<notin> set xs" "i < length (bufs s)"
    and g: "drive_good (ide_status s)" and st: "started i s"
    and pen: "\<And>j. j \<in> set xs \<Longrightarrow> j < length (bufs s) \<and> pending (bufs s ! j)"
    by (simp_all add: ide_ok_def)
  have "drive_good (ide_status ?s1)" "started i ?s1" "i < length (bufs ?s1)"
    using g st q by (simp_all add: started_def)
  from ideintr_read [OF this] obtain k where k: "bnd (if bflags (bufs ?s1 ! i) AND B_DIRTY = 0
               then bnd (idewait True ?s1) (\<lambda>r s.
                      Ok () (if 0 \<le>s r then upd_buf i (\<lambda>b. b\<lparr>bdata := dataport (drive s)\<rparr>) s else s))
               else Ok () ?s1) (\<lambda>_ s. Ok () (upd_buf i (\<lambda>b. b\<lparr>bflags := (bflags b OR B_VALID) AND NOT B_DIRTY\<rparr>) s))
     = Ok () (?s1\<lparr>ide_reads := k, bufs := ?B\<rparr>)" by auto
  let ?s2 = "?s1\<lparr>ide_reads := k, bufs := ?B, ptable := ?P\<rparr>"
  have "ideintr s = bnd (bnd (if bflags (bufs ?s1 ! i) AND B_DIRTY = 0
               then bnd (idewait True ?s1) (\<lambda>r s.
                      Ok () (if 0 \<le>s r then upd_buf i (\<lambda>b. b\<lparr>bdata := dataport (drive s)\<rparr>) s else s))
               else Ok () ?s1) (\<lambda>_ s. Ok () (upd_buf i (\<lambda>b. b\<lparr>bflags := (bflags b OR B_VALID) AND NOT B_DIRTY\<rparr>) s)))
       (\<lambda>_ s. bnd (wakeup (CBuf i) s) (\<lambda>_ s.
          bnd (if idequeue s \<noteq> None then idestart (idequeue s) s else Ok () s) (\<lambda>_ s. lk_release LIde s)))"
    using h q(1) by (simp add: ideintr_def bnd_assoc Let_def)
  also have "\<dots> = bnd (if qnext s i \<noteq> None then idestart (qnext s i) ?s2 else Ok () ?s2) (\<lambda>_ s. lk_release LIde s)"
    unfolding k using h by (simp add: wakeup_eq)
  finally have e: "ideintr s = \<dots>" .
  show ?thesis
  proof (cases xs)
    case Nil
    then have "qnext s i = None" using q by simp
    then show ?thesis using e h Nil g
      by (intro exI [of _ k] exI [of _ "drive s"] exI [of _ ?P] exI [of _ None]) (simp add: ide_ok_def)
  next
    case (Cons j ys)
    then have qj: "qnext s i = Some j" "i \<noteq> j" using q by auto
    have "drive_good (ide_status ?s2)" "bblockno (bufs ?s2 ! j) < FSSIZE"
      using g pen [of j] Cons qj by (simp_all add: pending_def)
    from idestart_started [OF this] obtain k' d where d: "idestart (Some j) ?s2 = Ok () (?s2\<lparr>ide_reads := k', drive := d\<rparr>)"
      "platters d = sync_disk (bufs s ! j) (platters (drive s))" "started j (?s2\<lparr>ide_reads := k', drive := d\<rparr>)"
      using qj by auto
    have u: "started j (s\<lparr>ptable := ?P, ide_reads := k', drive := d, idequeue := Some j, bufs := ?B\<rparr>)"
      using d(3) by (simp add: started_def)
    have l: "\<forall>x \<in> set xs. x < length ?B \<and> pending (?B ! x)"
      using pen q(4) by (metis length_list_update nth_list_update_neq)
    have v: "ide_ok xs (s\<lparr>ptable := ?P, ide_reads := k', drive := d, idequeue := Some j, bufs := ?B\<rparr>)"
      using u l g q Cons qj by (simp add: ide_ok_def)
    show ?thesis using e qj d(1,2) h Cons v
      by (intro exI [of _ k'] exI [of _ d] exI [of _ ?P] exI [of _ "Some j"]) simp
  qed
qed

text \<open>Any number of interrupts, and the synchronous service of a list of requests.\<close>

fun interrupts :: "nat \<Rightarrow> 'z idestate_scheme \<Rightarrow> ('z idestate_scheme, unit) outcome" where
  "interrupts 0 s = Ok () s"
| "interrupts (Suc n) s = bnd (ideintr s) (\<lambda>_ s. interrupts n s)"

fun serve :: "nat list \<Rightarrow> buf list \<Rightarrow> (bool \<Rightarrow> nat \<Rightarrow> byte list) \<Rightarrow> buf list \<times> (bool \<Rightarrow> nat \<Rightarrow> byte list)" where
  "serve [] B D = (B, D)"
| "serve (i # xs) B D = serve xs (B[i := sync_buf (B ! i) (sync_disk (B ! i) D)]) (sync_disk (B ! i) D)"

lemma serve_started: "xs \<noteq> [] \<Longrightarrow> serve xs B (sync_disk (B ! hd xs) D) = serve xs B D"
  by (cases xs) (simp_all add: sync_disk_idem)

lemma interrupts_serve:
  assumes "ide_ok xs s" "LIde \<notin> held s" "LPtable \<notin> held s"
  shows "\<exists>t. interrupts (length xs) s = Ok () t \<and> ide_ok [] t \<and> held t = held s \<and> cpu_proc t = cpu_proc s
    \<and> (bufs t, platters (drive t)) = serve xs (bufs s) (platters (drive s))
    \<and> ptable t = fold (\<lambda>i. map (wake_one (Some (CBuf i)))) xs (ptable s)"
  using assms
proof (induction xs arbitrary: s)
  case (Cons i xs)
  let ?B = "(bufs s)[i := sync_buf (bufs s ! i) (platters (drive s))]"
  from ideintr_serves [OF Cons.prems] obtain k d q s1 where
    s1: "s1 = s\<lparr>ptable := map (wake_one (Some (CBuf i))) (ptable s), ide_reads := k, drive := d, idequeue := q, bufs := ?B\<rparr>"
    and e: "ideintr s = Ok () s1" and ok: "ide_ok xs s1"
    and d: "platters d = (case xs of [] \<Rightarrow> platters (drive s) | j # _ \<Rightarrow> sync_disk (bufs s ! j) (platters (drive s)))"
    by auto
  have D: "sync_disk (bufs s ! i) (platters (drive s)) = platters (drive s)" and n: "i \<notin> set xs"
    using Cons.prems(1) by (simp_all add: ide_ok_def started_def)
  have v: "serve xs ?B (platters d) = serve (i # xs) (bufs s) (platters (drive s))"
  proof (cases xs)
    case Nil
    with d D show ?thesis by simp
  next
    case (Cons j ys)
    with n have "?B ! hd xs = bufs s ! j" by simp
    with Cons d have "platters d = sync_disk (?B ! hd xs) (platters (drive s))" by simp
    then show ?thesis using serve_started [of xs ?B "platters (drive s)"] Cons D by simp
  qed
  from Cons.IH [OF ok] Cons.prems(2,3) s1 e v show ?case by auto
qed (simp add: ide_ok_def)

lemma sleep_eq:
  assumes "held s = {lk}" "lk \<noteq> LPtable" "cpu_proc s = Some p" "p < length (ptable s)"
  shows "sleep ch (Some lk) s =
    Swtch (upd_proc p (\<lambda>q. q\<lparr>pchan := Some ch, pstate := SLEEPING\<rparr>) (s\<lparr>held := {LPtable}\<rparr>))"
proof -
  have "insert LPtable {lk} - {lk} = {LPtable}" using assms(2) by auto
  with assms show ?thesis by (simp add: sleep_def myproc_def sched_def lk_holding_def upd_proc_def)
qed

lemma pendingD: "pending b \<Longrightarrow> bflags b AND (B_VALID OR B_DIRTY) \<noteq> B_VALID"
  by (simp add: pending_def)

lemma ide_rw_queues:
  assumes ok: "ide_ok xs s" and h: "held s = {}" "cpu_proc s = Some p" "p < length (ptable s)"
    and i: "i < length (bufs s)" "i \<notin> set xs" "pending (bufs s ! i)" "bdev (bufs s ! i) = 0 \<or> havedisk1 s"
    and l: "sl_locked (slocks s (SBuf i)) \<noteq> 0" "sl_pid (slocks s (SBuf i)) = pid (ptable s ! p)"
  shows "\<exists>q nx k d t. ide_rw i s = Swtch t
    \<and> t = upd_proc p (\<lambda>r. r\<lparr>pchan := Some (CBuf i), pstate := SLEEPING\<rparr>)
            (s\<lparr>idequeue := q, qnext := nx, ide_reads := k, drive := d, held := {LPtable}\<rparr>)
    \<and> ide_ok (xs @ [i]) t
    \<and> platters d = (if xs = [] then sync_disk (bufs s ! i) (platters (drive s)) else platters (drive s))"
proof -
  have c: "qchain (qnext s) (idequeue s) xs" "distinct xs" and g: "drive_good (ide_status s)"
    using ok by (simp_all add: ide_ok_def)
  let ?s1 = "s\<lparr>held := {LIde}\<rparr>"
  from ide_append_chain [of ?s1 xs i] c i(2) obtain q nx where
    a: "ide_append i ?s1 = Ok () (?s1\<lparr>idequeue := q, qnext := nx\<rparr>)" "qchain nx q (xs @ [i])"
    and q: "xs \<noteq> [] \<Longrightarrow> q = idequeue s" by auto
  let ?s2 = "?s1\<lparr>idequeue := q, qnext := nx\<rparr>"
  have e: "ide_rw i s = bnd (if q = Some i then idestart (Some i) ?s2 else Ok () ?s2) (\<lambda>_ s. iderw_wait i s)"
    using h(1) i(4) a(1) holdingsleep_mine [OF h(1,2) l] pendingD [OF i(3)]
    by (elim disjE) (simp_all add: ide_rw_def)
  have pen: "\<forall>j \<in> set (xs @ [i]). j < length (bufs s) \<and> pending (bufs s ! j)"
    using ok i by (auto simp: ide_ok_def)
  show ?thesis
  proof (cases xs)
    case Nil
    then have qi: "q = Some i" using a(2) by simp
    have "drive_good (ide_status ?s2)" "bblockno (bufs ?s2 ! i) < FSSIZE" using g i(3) by (simp_all add: pending_def)
    from idestart_started [OF this] obtain k d where d: "idestart (Some i) ?s2 = Ok () (?s2\<lparr>ide_reads := k, drive := d\<rparr>)"
      "platters d = sync_disk (bufs s ! i) (platters (drive s))" "started i (?s2\<lparr>ide_reads := k, drive := d\<rparr>)" by auto
    let ?t = "upd_proc p (\<lambda>r. r\<lparr>pchan := Some (CBuf i), pstate := SLEEPING\<rparr>)
            (s\<lparr>idequeue := q, qnext := nx, ide_reads := k, drive := d, held := {LPtable}\<rparr>)"
    have "ide_ok (xs @ [i]) ?t"
      using d(3) a(2) g pen Nil by (simp add: ide_ok_def started_def upd_proc_def)
    moreover have "ide_rw i s = Swtch ?t"
      using e qi d(1) pendingD [OF i(3)] h by (simp add: iderw_wait_def sleep_eq)
    ultimately show ?thesis using d(2) Nil
      by (intro exI [of _ q] exI [of _ nx] exI [of _ k] exI [of _ d] exI [of _ ?t]) simp
  next
    case (Cons x ys)
    then have qx: "q = Some x" "q \<noteq> Some i" using a(2) i(2) by auto
    let ?t = "upd_proc p (\<lambda>r. r\<lparr>pchan := Some (CBuf i), pstate := SLEEPING\<rparr>)
            (s\<lparr>idequeue := q, qnext := nx, ide_reads := ide_reads s, drive := drive s, held := {LPtable}\<rparr>)"
    have "started x s" using ok Cons by (simp add: ide_ok_def)
    then have "ide_ok (xs @ [i]) ?t"
      using a(2) g pen Cons c(2) i(2) by (simp add: ide_ok_def started_def upd_proc_def)
    moreover have "ide_rw i s = Swtch ?t"
      using e qx pendingD [OF i(3)] h by (simp add: iderw_wait_def sleep_eq)
    ultimately show ?thesis using Cons
      by (intro exI [of _ q] exI [of _ nx] exI [of _ "ide_reads s"] exI [of _ "drive s"] exI [of _ ?t]) simp
  qed
qed

lemma fold_wake_other:
  assumes "pchan (P ! p) = Some (CBuf i)" "p < length P" "i \<notin> set xs"
  shows "fold (\<lambda>i. map (wake_one (Some (CBuf i)))) xs P ! p = P ! p
    \<and> length (fold (\<lambda>i. map (wake_one (Some (CBuf i)))) xs P) = length P"
  using assms by (induction xs arbitrary: P) (simp_all add: wake_one_def)

lemma fold_wake:
  assumes "pchan (P ! p) = Some (CBuf i)" "pstate (P ! p) = SLEEPING" "p < length P" "i \<notin> set xs"
  shows "pstate (fold (\<lambda>i. map (wake_one (Some (CBuf i)))) (xs @ [i]) P ! p) = RUNNABLE"
  using fold_wake_other [OF assms(1,3,4)] assms(1-3) by (simp add: wake_one_def)

subsection \<open>A request is served\<close>

lemma upd_proc_ide [simp]:
  "bufs (upd_proc p f s) = bufs s" "drive (upd_proc p f s) = drive s"
  by (simp_all add: upd_proc_def)

lemma ide_ok_away: "ide_ok xs s \<Longrightarrow> ide_ok xs (s\<lparr>cpu_cr3 := c, cpu_proc := q, held := h\<rparr>)"
  by (simp add: ide_ok_def started_def)

text \<open>
  C11. A process that calls \<open>iderw\<close> for a buffer it has locked, behind any queue of requests, goes to
  sleep with its request at the end of the queue; after one interrupt per queued request, from a
  drive that becomes ready and reports no error, the queue is empty, the process is runnable, and
  all buffers and both disks are as if the queued requests had been carried out synchronously, in
  the order in which they were queued.
\<close>

theorem ide_request_served:
  assumes "ide_ok xs s" "held s = {}" "cpu_proc s = Some p" "p < length (ptable s)"
    "i < length (bufs s)" "i \<notin> set xs" "pending (bufs s ! i)" "bdev (bufs s ! i) = 0 \<or> havedisk1 s"
    "sl_locked (slocks s (SBuf i)) \<noteq> 0" "sl_pid (slocks s (SBuf i)) = pid (ptable s ! p)"
  shows "\<exists>t u v. ide_rw i s = Swtch t \<and> scheduler_back t = Ok () u \<and> interrupts (length xs + 1) u = Ok () v
    \<and> idequeue v = None \<and> pstate (ptable v ! p) = RUNNABLE
    \<and> (bufs v, platters (drive v)) = serve (xs @ [i]) (bufs s) (platters (drive s))"
proof -
  from ide_rw_queues [OF assms] obtain q nx k d t where
    t: "ide_rw i s = Swtch t" "t = upd_proc p (\<lambda>r. r\<lparr>pchan := Some (CBuf i), pstate := SLEEPING\<rparr>)
            (s\<lparr>idequeue := q, qnext := nx, ide_reads := k, drive := d, held := {LPtable}\<rparr>)"
    and ok: "ide_ok (xs @ [i]) t"
    and d: "platters d = (if xs = [] then sync_disk (bufs s ! i) (platters (drive s)) else platters (drive s))"
    by blast
  let ?u = "t\<lparr>cpu_cr3 := V2P (kpgdir t), cpu_proc := None, held := {}\<rparr>"
  have u: "scheduler_back t = Ok () ?u" by (rule scheduler_back_eq) (simp add: t(2))
  have okd: "ide_ok (xs @ [i]) ?u" by (rule ide_ok_away [OF ok])
  from interrupts_serve [OF okd] obtain v where
    v: "interrupts (length (xs @ [i])) ?u = Ok () v" "ide_ok [] v"
      "(bufs v, platters (drive v)) = serve (xs @ [i]) (bufs ?u) (platters (drive ?u))"
      "ptable v = fold (\<lambda>i. map (wake_one (Some (CBuf i)))) (xs @ [i]) (ptable ?u)"
    by auto
  have f: "serve (xs @ [i]) (bufs ?u) (platters (drive ?u)) = serve (xs @ [i]) (bufs s) (platters (drive s))"
    using d serve_started [of "[i]" "bufs s" "platters (drive s)"] by (cases xs) (simp_all add: t(2))
  have "pstate (ptable v ! p) = RUNNABLE"
    unfolding v(4) by (rule fold_wake) (use assms(4,6) in \<open>simp_all add: t(2) upd_proc_def\<close>)
  moreover have "idequeue v = None" using v(2) by (simp add: ide_ok_def)
  moreover have "interrupts (length xs + 1) ?u = Ok () v" using v(1) by simp
  ultimately show ?thesis using t(1) u v(3) f by metis
qed

definition ide0 :: idestate where
  "ide0 = bstate.extend (bstate0\<lparr>slocks := (\<lambda>_. \<lparr>sl_locked = 1, sl_name = [], sl_pid = 4\<rparr>)\<rparr>)
     \<lparr>idequeue = None, qnext = (\<lambda>_. None), havedisk1 = True,
      drive = \<lparr>lba0 = 0, lba1 = 0, lba2 = 0, devhead = 0, writing = False, dataport = [], platters = (\<lambda>_ n. [of_nat n])\<rparr>,
      ide_status = (\<lambda>_. IDE_DRDY), ide_reads = 0\<rparr>"

lemma ide0_simps [simp]:
  "held ide0 = {}" "cpu_proc ide0 = Some 0" "ptable ide0 = [proc0\<lparr>pid := 4\<rparr>]" "bufs ide0 = replicate NBUF buf0"
  "slocks ide0 = (\<lambda>_. \<lparr>sl_locked = 1, sl_name = [], sl_pid = 4\<rparr>)" "idequeue ide0 = None" "havedisk1 ide0"
  "ide_status ide0 = (\<lambda>_. IDE_DRDY)" "platters (drive ide0) = (\<lambda>_ n. [of_nat n])"
  by (simp_all add: ide0_def bstate.defs bstate0_def km0_def kmstate.defs slcore.defs slcore0_def pcore.defs pcore0_def)

lemma ide0_ok: "ide_ok [] ide0"
  by (auto simp: ide_ok_def drive_good_def IDE_DRDY_def IDE_BSY_def IDE_DF_def IDE_ERR_def)

theorem ide_request_served_witness:
  "\<exists>t u v. ide_rw 3 ide0 = Swtch t \<and> scheduler_back t = Ok () u \<and> interrupts (length ([] :: nat list) + 1) u = Ok () v
    \<and> idequeue v = None \<and> pstate (ptable v ! 0) = RUNNABLE
    \<and> (bufs v, platters (drive v)) = serve ([] @ [3]) (bufs ide0) (platters (drive ide0))"
  by (rule ide_request_served [OF ide0_ok])
    (simp_all add: NBUF_def pending_def buf0_def B_VALID_def B_DIRTY_def FSSIZE_def)

end
