(* ===== verification/BufRing.thy ===== *)
theory BufRing
  imports Cache
begin

section \<open>The linked ring of buffers (bio.c)\<close>

text \<open>
  The ring through \<open>next\<close> and \<open>prev\<close> of the buffers and the list head, with the pointer
  assignments of \<open>binit\<close>, \<open>bget\<close> and \<open>brelse\<close>. A node is \<open>Some i\<close> for buffer \<open>i\<close> and \<open>None\<close> for the
  head. The ring is shown to be the list of indices that Bio keeps.
\<close>

record ring =
  rnext :: "nat option \<Rightarrow> nat option"
  rprev :: "nat option \<Rightarrow> nat option"

definition set_next :: "nat option \<Rightarrow> nat option \<Rightarrow> ring \<Rightarrow> ring" where
  "set_next a b r = r\<lparr>rnext := (rnext r)(a := b)\<rparr>"

definition set_prev :: "nat option \<Rightarrow> nat option \<Rightarrow> ring \<Rightarrow> ring" where
  "set_prev a b r = r\<lparr>rprev := (rprev r)(a := b)\<rparr>"

definition ring_push :: "nat \<Rightarrow> ring \<Rightarrow> ring" where
  "ring_push i r =
     (let r = set_next (Some i) (rnext r None) r;
          r = set_prev (Some i) None r;
          r = set_prev (rnext r None) (Some i) r
      in set_next None (Some i) r)"

definition ring_unlink :: "nat \<Rightarrow> ring \<Rightarrow> ring" where
  "ring_unlink i r =
     (let r = set_prev (rnext r (Some i)) (rprev r (Some i)) r
      in set_next (rprev r (Some i)) (rnext r (Some i)) r)"

definition ring_release :: "nat \<Rightarrow> ring \<Rightarrow> ring" where
  "ring_release i r = ring_push i (ring_unlink i r)"

definition ring_init :: "ring \<Rightarrow> ring" where
  "ring_init r = fold ring_push [0..<NBUF] (set_next None None (set_prev None None r))"

text \<open>The scans of \<open>bget\<close>: from a node along \<open>next\<close> or \<open>prev\<close> until the head comes round.\<close>

partial_function (option) ring_scan :: "(nat option \<Rightarrow> nat option) \<Rightarrow> (nat \<Rightarrow> bool) \<Rightarrow> nat option \<Rightarrow> nat option option" where
  "ring_scan step P n =
     (case n of None \<Rightarrow> Some None
      | Some i \<Rightarrow> if P i then Some (Some i) else ring_scan step P (step n))"

definition scan_recent :: "(nat \<Rightarrow> bool) \<Rightarrow> ring \<Rightarrow> nat option option" where
  "scan_recent P r = ring_scan (rnext r) P (rnext r None)"

definition scan_old :: "(nat \<Rightarrow> bool) \<Rightarrow> ring \<Rightarrow> nat option option" where
  "scan_old P r = ring_scan (rprev r) P (rprev r None)"

subsection \<open>Segments of the ring\<close>

fun seg :: "ring \<Rightarrow> nat option \<Rightarrow> nat list \<Rightarrow> nat option \<Rightarrow> bool" where
  "seg r a [] b \<longleftrightarrow> rnext r a = b \<and> rprev r b = a"
| "seg r a (x # xs) b \<longleftrightarrow> rnext r a = Some x \<and> rprev r (Some x) = a \<and> seg r (Some x) xs b"

definition ring_of :: "ring \<Rightarrow> nat list \<Rightarrow> bool" where
  "ring_of r xs \<longleftrightarrow> seg r None xs None \<and> distinct xs"

lemma seg_append: "seg r a (xs @ x # ys) b \<longleftrightarrow> seg r a xs (Some x) \<and> seg r (Some x) ys b"
  by (induction xs arbitrary: a) auto

lemma seg_next_other: "n \<noteq> a \<Longrightarrow> n \<notin> Some ` set xs \<Longrightarrow> seg (set_next n v r) a xs b = seg r a xs b"
  by (induction xs arbitrary: a) (auto simp: set_next_def)

lemma seg_prev_other: "n \<noteq> b \<Longrightarrow> n \<notin> Some ` set xs \<Longrightarrow> seg (set_prev n v r) a xs b = seg r a xs b"
  by (induction xs arbitrary: a) (auto simp: set_prev_def)

lemma seg_prev_in: "seg r a xs b \<Longrightarrow> rprev r b \<in> insert a (Some ` set xs)"
  by (induction xs arbitrary: a) auto

lemma seg_next_in: "seg r a xs b \<Longrightarrow> rnext r a \<in> insert b (Some ` set xs)"
  by (cases xs) auto

text \<open>The segment up to \<open>x\<close> now ends at \<open>c\<close>.\<close>

lemma seg_relink:
  assumes "seg r a xs (Some x)" "distinct xs" "a \<notin> Some ` set xs" "c \<notin> Some ` set xs"
  shows "seg (set_next (rprev r (Some x)) c (set_prev c (rprev r (Some x)) r)) a xs c"
  using assms
proof (induction xs arbitrary: a)
  case (Cons y ys)
  then have "rprev r (Some x) \<in> Some ` set (y # ys)" using seg_prev_in [of r "Some y" ys "Some x"] by simp
  with Cons.prems(3) have "rprev r (Some x) \<noteq> a" by metis
  with Cons show ?case by (auto simp: set_next_def set_prev_def)
qed (simp add: set_next_def set_prev_def)

lemma unlink_ring:
  assumes "ring_of r xs" "i \<in> set xs"
  shows "ring_of (ring_unlink i r) (removeAll i xs)"
proof -
  from split_list [OF assms(2)] obtain ys zs where e: "xs = ys @ i # zs" by blast
  with assms(1) have d: "distinct (ys @ zs)" "i \<notin> set ys" "i \<notin> set zs"
    and s: "seg r None ys (Some i)" "seg r (Some i) zs None"
    by (auto simp: ring_of_def seg_append)
  let ?p = "rprev r (Some i)" and ?c = "rnext r (Some i)"
  have p: "?p \<in> insert None (Some ` set ys)" and c: "?c \<in> insert None (Some ` set zs)"
    using seg_prev_in [OF s(1)] seg_next_in [OF s(2)] by auto
  have ci: "?c \<noteq> Some i" "?c \<notin> Some ` set ys" using c d by auto
  have u: "ring_unlink i r = set_next ?p ?c (set_prev ?c ?p r)"
    using ci(1) by (simp add: ring_unlink_def set_prev_def)
  have 1: "seg (ring_unlink i r) None ys ?c"
    unfolding u by (rule seg_relink [OF s(1)]) (use d ci in auto)
  have "seg (ring_unlink i r) None (ys @ zs) None"
  proof (cases zs)
    case Nil
    with 1 s show ?thesis by simp
  next
    case (Cons z zs')
    with s(2) have cz: "?c = Some z" "seg r (Some z) zs' None" by auto
    have "?p \<notin> Some ` set zs" using p d by auto
    then have "seg (ring_unlink i r) (Some z) zs' None"
      unfolding u using cz(2) d(1) Cons
      by (subst seg_next_other, simp, simp, subst seg_prev_other) (auto simp: cz(1))
    with 1 cz Cons show ?thesis by (simp add: seg_append)
  qed
  moreover have "removeAll i xs = ys @ zs" using e d by simp
  ultimately show ?thesis using d by (simp add: ring_of_def)
qed

lemma push_ring:
  assumes "ring_of r xs" "i \<notin> set xs"
  shows "ring_of (ring_push i r) (i # xs)"
proof (cases xs)
  case Nil
  with assms show ?thesis by (simp add: ring_of_def ring_push_def set_next_def set_prev_def Let_def)
next
  case (Cons y ys)
  with assms have s: "rnext r None = Some y" "seg r (Some y) ys None" "i \<noteq> y" "i \<notin> set ys" "y \<notin> set ys" "distinct ys"
    by (auto simp: ring_of_def)
  have "ring_push i r = set_next None (Some i) (set_prev (Some y) (Some i) (set_prev (Some i) None (set_next (Some i) (Some y) r)))"
    using s by (simp add: ring_push_def Let_def set_next_def set_prev_def)
  moreover have "seg (set_next None (Some i) (set_prev (Some y) (Some i) (set_prev (Some i) None (set_next (Some i) (Some y) r)))) (Some y) ys None"
    using s by (subst seg_next_other, simp, force, subst seg_prev_other, simp, force,
        subst seg_prev_other, simp, force, subst seg_next_other) auto
  ultimately show ?thesis using s Cons
    by (simp add: ring_of_def) (simp add: set_next_def set_prev_def)
qed

lemma release_ring:
  "ring_of r xs \<Longrightarrow> i \<in> set xs \<Longrightarrow> ring_of (ring_release i r) (i # removeAll i xs)"
  unfolding ring_release_def by (intro push_ring unlink_ring) simp_all

lemma fold_push_ring:
  "ring_of r xs \<Longrightarrow> distinct ys \<Longrightarrow> set ys \<inter> set xs = {} \<Longrightarrow> ring_of (fold ring_push ys r) (rev ys @ xs)"
  by (induction ys arbitrary: r xs) (use push_ring in fastforce)+

lemma init_ring: "ring_of (ring_init r) (rev [0..<NBUF])"
proof -
  have "ring_of (set_next None None (set_prev None None r)) []"
    by (simp add: ring_of_def set_next_def set_prev_def)
  from fold_push_ring [OF this, of "[0..<NBUF]"] show ?thesis by (simp add: ring_init_def)
qed

subsection \<open>The scans\<close>

lemma scan_seg: "seg r a xs None \<Longrightarrow> ring_scan (rnext r) P (rnext r a) = Some (find P xs)"
  by (induction xs arbitrary: a) (auto simp: ring_scan.simps)

lemma seg_rev: "seg \<lparr>rnext = rprev r, rprev = rnext r\<rparr> b (rev xs) a = seg r a xs b"
proof (induction xs arbitrary: a)
  case (Cons x xs)
  then show ?case by (auto simp: seg_append)
qed auto

lemma scan_ring:
  assumes "ring_of r xs"
  shows "scan_recent P r = Some (find P xs)" "scan_old P r = Some (find P (rev xs))"
proof -
  show "scan_recent P r = Some (find P xs)"
    using assms scan_seg by (simp add: scan_recent_def ring_of_def)
  have "seg \<lparr>rnext = rprev r, rprev = rnext r\<rparr> None (rev xs) None"
    using assms by (simp add: ring_of_def seg_rev)
  from scan_seg [OF this, of P] show "scan_old P r = Some (find P (rev xs))"
    by (simp add: scan_old_def)
qed

subsection \<open>The ring is the list of Bio\<close>

lemma lru_binit_loop: "lru (binit_loop is s) = rev is @ lru s"
  by (induction "is" arbitrary: s) (simp_all add: initsleeplock_def upd_sleep_def)

lemma holdingsleep_same: "holdingsleep j s = Ok h t \<Longrightarrow> lru t = lru s \<and> bufs t = bufs s"
  by (auto simp: holdingsleep_def outcome_iff lk_defs split: if_splits option.splits)

lemma releasesleep_same: "releasesleep j s = Ok () t \<Longrightarrow> lru t = lru s \<and> bufs t = bufs s"
  by (auto simp: releasesleep_def wakeup_def wakeup1_def upd_sleep_def outcome_iff lk_defs split: if_splits)

lemma brelse_lru:
  assumes "brelse i s = Ok () t" "i < length (bufs s)"
  shows "lru t = (if brefcnt (bufs s ! i) = 1 then i # removeAll i (lru s) else lru s)"
proof -
  from assms(1) obtain s1 s2 where h: "holdingsleep (SBuf i) s = Ok True s1" "releasesleep (SBuf i) s1 = Ok () s2"
    and r: "bnd (lk_acquire LBcache s2) (\<lambda>_ s.
           let s = upd_buf i (\<lambda>b. b\<lparr>brefcnt := brefcnt b - 1\<rparr>) s;
               s = (if brefcnt (bufs s ! i) = 0 then s\<lparr>lru := i # removeAll i (lru s)\<rparr> else s)
           in lk_release LBcache s) = Ok () t"
    by (auto simp: brelse_def outcome_iff split: if_splits)
  have "lru s2 = lru s" "bufs s2 = bufs s"
    using holdingsleep_same [OF h(1)] releasesleep_same [OF h(2)] by simp_all
  with r assms(2) show ?thesis by (auto simp: Let_def lk_defs upd_buf_def split: if_splits)
qed

text \<open>
  C12. The linked ring of buffers is the recency list: \<open>binit\<close> builds the ring of its list; when
  \<open>brelse\<close> drops the last reference, its six pointer assignments turn the ring of the old list into
  the ring of the new one, with the buffer in front; and the two scans of \<open>bget\<close> end, and find the
  most recently and the least recently released buffer that satisfies their condition.
\<close>

theorem buffer_ring_refines_list:
  assumes "ring_of r (lru s)" "set (lru s) = {..<length (bufs s)}" "i < length (bufs s)" "brelse i s = Ok () t"
  shows "ring_of (ring_init r0) (lru (binit s0)) \<and>
    (let r' = if brefcnt (bufs s ! i) = 1 then ring_release i r else r in
     ring_of r' (lru t) \<and> scan_recent P r' = Some (find P (lru t)) \<and> scan_old P r' = Some (find P (rev (lru t))))"
proof -
  let ?r = "if brefcnt (bufs s ! i) = 1 then ring_release i r else r"
  have "ring_of (ring_init r0) (lru (binit s0))"
    using init_ring by (simp add: binit_def lru_binit_loop)
  moreover have n: "ring_of ?r (lru t)"
    using brelse_lru [OF assms(4,3)] release_ring [OF assms(1), of i] assms(1-3) by auto
  ultimately show ?thesis using scan_ring [OF n] n by (simp add: Let_def)
qed

definition ring0 :: bstate where
  "ring0 = bstate0\<lparr>bufs := replicate NBUF (buf0\<lparr>brefcnt := 1\<rparr>),
     slocks := (\<lambda>_. \<lparr>sl_locked = 1, sl_name = [], sl_pid = 4\<rparr>)\<rparr>"

lemma ring0_release: "\<exists>t. brelse 3 ring0 = Ok () t"
proof -
  have h: "holdingsleep (SBuf 3) ring0 = Ok True ring0" by (rule holdingsleep_mine [of _ 0]) (simp_all add: ring0_def)
  have "held ring0 = {}" by (simp add: ring0_def)
  then show ?thesis by (simp add: brelse_def h releasesleep_mine upd_buf_def Let_def)
qed

theorem buffer_ring_refines_list_witness:
  "\<exists>t. brelse 3 ring0 = Ok () t \<and> ring_of (ring_release 3 (ring_init (\<lparr>rnext = \<lambda>_. None, rprev = \<lambda>_. None\<rparr>))) (lru t)
    \<and> scan_old (\<lambda>i. i = 3) (ring_release 3 (ring_init (\<lparr>rnext = \<lambda>_. None, rprev = \<lambda>_. None\<rparr>))) = Some (find (\<lambda>i. i = 3) (rev (lru t)))"
proof -
  from ring0_release obtain t where t: "brelse 3 ring0 = Ok () t" by blast
  have "ring_of (ring_init (\<lparr>rnext = \<lambda>_. None, rprev = \<lambda>_. None\<rparr>)) (lru ring0)" "set (lru ring0) = {..<length (bufs ring0)}" "3 < length (bufs ring0)"
    using init_ring by (auto simp: ring0_def NBUF_def)
  from buffer_ring_refines_list [OF this t, of _ _ "\<lambda>i. i = 3"] t show ?thesis
    by (auto simp: Let_def ring0_def NBUF_def)
qed

end
