(* ===== verification/LineDisc.thy ===== *)
theory LineDisc
  imports Console
begin

section \<open>The line discipline of the console\<close>

text \<open>
  The input ring seen as two byte lists: the lines readers may take, and the line that is still
  being edited. Characters from the keyboard and reads are shown to act on these lists as a
  terminal user expects, whatever the position of the indices in the ring.
\<close>

definition con_all :: "'z constate_scheme \<Rightarrow> byte list" where
  "con_all s = map (\<lambda>k. in_buf s ! slot (in_r s + of_nat k)) [0..<unat (in_e s - in_r s)]"

definition con_ready :: "'z constate_scheme \<Rightarrow> byte list" where
  "con_ready s = take (unat (in_w s - in_r s)) (con_all s)"

definition con_line :: "'z constate_scheme \<Rightarrow> byte list" where
  "con_line s = drop (unat (in_w s - in_r s)) (con_all s)"

definition con_ok :: "'z constate_scheme \<Rightarrow> bool" where
  "con_ok s \<longleftrightarrow> length (in_buf s) = INPUT_BUF \<and> unat (in_w s - in_r s) \<le> unat (in_e s - in_r s)
     \<and> unat (in_e s - in_r s) \<le> INPUT_BUF \<and> 10 \<notin> set (con_line s)"

subsection \<open>What the user sees\<close>

definition spec_char :: "int \<Rightarrow> byte list \<times> byte list \<Rightarrow> byte list \<times> byte list" where
  "spec_char c q =
     (case q of (ready, line) \<Rightarrow>
        if c = ctrl 80 then (ready, line)
        else if c = ctrl 85 then (ready, [])
        else if c = ctrl 72 \<or> c = 127 then (ready, butlast line)
        else if c \<noteq> 0 \<and> length ready + length line < INPUT_BUF
        then let c = (if c = 13 then 10 else c); line = line @ [word_of_int c] in
             if c = 10 \<or> c = ctrl 68 \<or> length ready + length line = INPUT_BUF then (ready @ line, [])
             else (ready, line)
        else (ready, line))"

text \<open>What a read takes; \<open>None\<close> when it has to wait for more.\<close>

fun spec_read :: "nat \<Rightarrow> nat \<Rightarrow> byte list \<Rightarrow> byte list \<Rightarrow> (byte list \<times> byte list) option" where
  "spec_read 0 target got ready = Some (got, ready)"
| "spec_read (Suc n) target got [] = None"
| "spec_read (Suc n) target got (c # ready) =
     (if c = 4 then Some (got, if Suc n < target then c # ready else ready)
      else if c = 10 then Some (got @ [c], ready)
      else spec_read n target (got @ [c]) ready)"

subsection \<open>The ring\<close>

lemma slot_add: "slot (a + b) = (slot a + unat b) mod 128"
proof -
  have "(128::nat) dvd 4294967296" by simp
  then show ?thesis by (simp add: slot_def INPUT_BUF_def unat_word_ariths mod_mod_cancel mod_add_left_eq)
qed

lemma slot_other:
  assumes "k < n" "n < 128"
  shows "slot (a + of_nat k) \<noteq> slot (a + of_nat n)"
proof
  assume "slot (a + of_nat k) = slot (a + of_nat n)"
  then have "(slot a + k) mod 128 = (slot a + n) mod 128"
    using assms by (simp add: slot_add unat_of_nat32)
  then have "k mod 128 = n mod 128" by (simp add: nat_mod_eq_iff)
  with assms show False by simp
qed

lemma length_con [simp]:
  "length (con_all s) = unat (in_e s - in_r s)"
  by (simp add: con_all_def)

lemma con_lengths:
  assumes "con_ok s"
  shows "length (con_ready s) = unat (in_w s - in_r s)" "con_ready s @ con_line s = con_all s"
    "length (con_ready s) + length (con_line s) = unat (in_e s - in_r s)"
    "con_line s = [] \<longleftrightarrow> in_e s = in_w s"
proof -
  show l: "length (con_ready s) = unat (in_w s - in_r s)" "con_ready s @ con_line s = con_all s"
    using assms by (simp_all add: con_ready_def con_line_def con_ok_def)
  show "length (con_ready s) + length (con_line s) = unat (in_e s - in_r s)"
    using arg_cong [OF l(2), of length] by simp
  have "con_line s = [] \<longleftrightarrow> unat (in_e s - in_r s) = unat (in_w s - in_r s)"
    using assms by (auto simp: con_line_def con_ok_def)
  also have "\<dots> \<longleftrightarrow> in_e s - in_r s = in_w s - in_r s" by (simp only: word_unat_eq_iff)
  finally show "con_line s = [] \<longleftrightarrow> in_e s = in_w s" by simp
qed

lemma con_all_back:
  assumes "con_ok s" "in_e s \<noteq> in_w s"
  shows "unat (in_e s - 1 - in_r s) = unat (in_e s - in_r s) - 1" "0 < unat (in_e s - in_r s)"
    "con_all s = map (\<lambda>k. in_buf s ! slot (in_r s + of_nat k)) [0..<unat (in_e s - 1 - in_r s)] @ [in_buf s ! slot (in_e s - 1)]"
proof -
  have "unat (in_e s - in_r s) \<noteq> unat (in_w s - in_r s)" using assms(2) by (simp add: word_unat_eq_iff [symmetric])
  with assms(1) show p: "0 < unat (in_e s - in_r s)" by (simp add: con_ok_def)
  have e: "in_e s - 1 - in_r s = (in_e s - in_r s) - 1" by simp
  show m: "unat (in_e s - 1 - in_r s) = unat (in_e s - in_r s) - 1"
    unfolding e using p by (subst unat_diff32) simp_all
  have u: "unat (in_e s - in_r s) = Suc (unat (in_e s - 1 - in_r s))" using p m by simp
  have "in_r s + of_nat (unat (in_e s - 1 - in_r s)) = in_e s - 1" by simp
  then show "con_all s = map (\<lambda>k. in_buf s ! slot (in_r s + of_nat k)) [0..<unat (in_e s - 1 - in_r s)] @ [in_buf s ! slot (in_e s - 1)]"
    unfolding con_all_def u by simp
qed

text \<open>A change of the state that only echoes.\<close>

definition echoed :: "'z constate_scheme \<Rightarrow> 'z constate_scheme \<Rightarrow> bool" where
  "echoed s t \<longleftrightarrow> (\<exists>u m p. t = s\<lparr>uart_out := u, crt := m, crt_pos := p\<rparr>) \<and> screen_ok t"

lemma echoed_same:
  assumes "echoed s t"
  shows "con_all t = con_all s" "con_ready t = con_ready s" "con_line t = con_line s" "con_ok t = con_ok s"
    "in_buf t = in_buf s" "in_r t = in_r s" "in_w t = in_w s" "in_e t = in_e s" "held t = held s" "screen_ok t"
  using assms by (auto simp: echoed_def con_all_def con_ready_def con_line_def con_ok_def)

lemma uartputc_form: "\<exists>u. uartputc c s = s\<lparr>uart_out := u\<rparr>"
proof (cases "uart s")
  case False
  then show ?thesis by (intro exI [of _ "uart_out s"]) (simp add: uartputc_def)
qed (auto simp: uartputc_def)

lemma consputc_echoes:
  assumes "screen_ok s"
  shows "\<exists>t. consputc c s = Ok () t \<and> echoed s t"
proof -
  let ?s = "if c = BACKSPACE then uartputc 8 (uartputc 32 (uartputc 8 s)) else uartputc c s"
  obtain u where u: "uartputc 8 s = s\<lparr>uart_out := u\<rparr>" using uartputc_form by blast
  obtain v where v: "uartputc 32 (s\<lparr>uart_out := u\<rparr>) = s\<lparr>uart_out := v\<rparr>"
    using uartputc_form [of 32 "s\<lparr>uart_out := u\<rparr>"] by auto
  obtain w where w: "uartputc 8 (s\<lparr>uart_out := v\<rparr>) = s\<lparr>uart_out := w\<rparr>"
    using uartputc_form [of 8 "s\<lparr>uart_out := v\<rparr>"] by auto
  obtain x where x: "uartputc c s = s\<lparr>uart_out := x\<rparr>" using uartputc_form by blast
  have "\<exists>u. ?s = s\<lparr>uart_out := u\<rparr>" using u v w x by auto
  then obtain u where u: "?s = s\<lparr>uart_out := u\<rparr>" by blast
  have "screen_ok ?s" unfolding u using assms by (simp add: screen_ok_def)
  from cgaputc_returns [OF this, of c] obtain m p where
    "cgaputc c ?s = Ok () (?s\<lparr>crt := m, crt_pos := p\<rparr>)" "0 \<le> p" "p < 24 * 80" by metis
  with u assms show ?thesis by (auto simp: consputc_def echoed_def screen_ok_def)
qed

subsection \<open>Editing\<close>

lemma con_back:
  assumes "con_ok s" "in_e s \<noteq> in_w s"
  shows "con_ok (s\<lparr>in_e := in_e s - 1\<rparr>)" "con_ready (s\<lparr>in_e := in_e s - 1\<rparr>) = con_ready s"
    "con_line (s\<lparr>in_e := in_e s - 1\<rparr>) = butlast (con_line s)" "in_buf s ! slot (in_e s - 1) = last (con_line s)"
proof -
  let ?t = "s\<lparr>in_e := in_e s - 1\<rparr>"
  have a: "con_all ?t = butlast (con_all s)" "con_all s \<noteq> []" "last (con_all s) = in_buf s ! slot (in_e s - 1)"
    using con_all_back(3) [OF assms] by (simp_all add: con_all_def [of ?t])
  have l: "length (con_all s) = unat (in_e s - in_r s)" by simp
  have ne: "con_line s \<noteq> []" using con_lengths(4) [OF assms(1)] assms(2) by simp
  then have w: "unat (in_w s - in_r s) < length (con_all s)" by (simp add: con_line_def)
  show r: "con_ready ?t = con_ready s"
    using w by (simp add: con_ready_def a(1) take_butlast)
  show n: "con_line ?t = butlast (con_line s)"
    by (simp add: con_line_def a(1) drop_butlast)
  show "in_buf s ! slot (in_e s - 1) = last (con_line s)"
    using w a(3) by (simp add: con_line_def)
  show "con_ok ?t"
    using assms(1) con_all_back(1,2) [OF assms] n w
    by (auto simp: con_ok_def dest: in_set_butlastD)
qed

lemma unat_line:
  assumes "con_ok s"
  shows "unat (in_e s - in_w s) = length (con_line s)"
proof -
  have "in_e s - in_w s = (in_e s - in_r s) - (in_w s - in_r s)" by simp
  then have "unat (in_e s - in_w s) = unat (in_e s - in_r s) - unat (in_w s - in_r s)"
    using assms by (metis con_ok_def unat_diff32)
  then show ?thesis by (simp add: con_line_def)
qed

lemma kill_line_clears:
  assumes "con_ok s" "screen_ok s"
  shows "\<exists>t. kill_line s = Ok () t \<and> con_ok t \<and> screen_ok t \<and> held t = held s \<and> in_r t = in_r s \<and> con_ready t = con_ready s \<and> con_line t = []"
  using assms
proof (induction "length (con_line s)" arbitrary: s)
  case 0
  then have "in_e s = in_w s" using con_lengths(4) by auto
  with 0 show ?case by (simp add: kill_line.simps [of s])
next
  case (Suc n)
  then have ne: "con_line s \<noteq> []" by auto
  then have e: "in_e s \<noteq> in_w s" using con_lengths(4) Suc.prems(1) by auto
  let ?t = "s\<lparr>in_e := in_e s - 1\<rparr>"
  have nl: "in_buf s ! slot (in_e s - 1) \<noteq> 10"
    using con_back(4) [OF Suc.prems(1) e] ne Suc.prems(1) by (metis con_ok_def last_in_set)
  have "screen_ok ?t" using Suc.prems(2) by (simp add: screen_ok_def)
  from consputc_echoes [OF this, of BACKSPACE] obtain u where u: "consputc BACKSPACE ?t = Ok () u" "echoed ?t u" by blast
  note same = echoed_same [OF u(2)]
  have ok: "con_ok u" using con_back(1) [OF Suc.prems(1) e] same(4) by simp
  have len: "length (con_line u) = n" using con_back(3) [OF Suc.prems(1) e] same(3) Suc.hyps(2) by simp
  have "unat (in_e u - in_w u) < unat (in_e s - in_w s)"
    using len Suc.hyps(2) unat_line [OF ok] unat_line [OF Suc.prems(1)] by simp
  then have "in_e u - in_w u < in_e s - in_w s" by (simp add: word_less_nat_alt)
  then have "kill_line s = kill_line u" using e nl u(1) by (simp add: kill_line.simps [of s])
  with Suc.hyps(1) [OF len [symmetric] ok same(10)] same con_back(2) [OF Suc.prems(1) e] show ?case by auto
qed

subsection \<open>Storing a character\<close>

definition put_char :: "byte \<Rightarrow> 'z constate_scheme \<Rightarrow> 'z constate_scheme" where
  "put_char x s = s\<lparr>in_buf := (in_buf s)[slot (in_e s) := x], in_e := in_e s + 1\<rparr>"

lemma con_put:
  assumes "con_ok s" "unat (in_e s - in_r s) < 128"
  shows "unat (in_e (put_char x s) - in_r s) = Suc (unat (in_e s - in_r s))"
    "con_all (put_char x s) = con_all s @ [x]"
proof -
  define n where "n = unat (in_e s - in_r s)"
  have n: "n < 128" using assms by (simp add: n_def)
  have e: "in_e s + 1 - in_r s = (in_e s - in_r s) + 1" by simp
  have c: "unat (in_e s + 1 - in_r s) = Suc n"
    unfolding e using n by (subst unat_add32) (simp_all add: n_def)
  then show "unat (in_e (put_char x s) - in_r s) = Suc (unat (in_e s - in_r s))" by (simp add: n_def put_char_def)
  have w: "in_e s = in_r s + of_nat n" by (simp add: n_def)
  have keep: "(in_buf s)[slot (in_e s) := x] ! slot (in_r s + of_nat k) = in_buf s ! slot (in_r s + of_nat k)" if "k < n" for k
    using slot_other [OF that n, of "in_r s"] w by simp
  have "slot (in_e s) < length (in_buf s)" using assms(1) by (simp add: con_ok_def slot_def INPUT_BUF_def)
  then have new: "(in_buf s)[slot (in_e s) := x] ! slot (in_r s + of_nat n) = x" by (simp flip: w)
  have "con_all (put_char x s) = map (\<lambda>k. (in_buf s)[slot (in_e s) := x] ! slot (in_r s + of_nat k)) [0..<n] @ [x]"
    using new by (simp add: con_all_def put_char_def c)
  also have "\<dots> = con_all s @ [x]" using keep by (simp add: con_all_def n_def)
  finally show "con_all (put_char x s) = con_all s @ [x]" .
qed

lemma con_put_ok:
  assumes "con_ok s" "unat (in_e s - in_r s) < 128"
  shows "con_ready (put_char x s) = con_ready s" "con_line (put_char x s) = con_line s @ [x]"
    "x \<noteq> 10 \<Longrightarrow> con_ok (put_char x s)"
    "length (in_buf (put_char x s)) = INPUT_BUF" "unat (in_e (put_char x s) - in_r (put_char x s)) \<le> INPUT_BUF"
proof -
  have f: "in_r (put_char x s) = in_r s" "in_w (put_char x s) = in_w s" by (simp_all add: put_char_def)
  have le: "unat (in_w s - in_r s) \<le> unat (in_e s - in_r s)" using assms by (simp add: con_ok_def)
  show r: "con_ready (put_char x s) = con_ready s" "con_line (put_char x s) = con_line s @ [x]"
    using le by (simp_all add: con_ready_def con_line_def con_put(2) [OF assms] f)
  show b: "length (in_buf (put_char x s)) = INPUT_BUF" "unat (in_e (put_char x s) - in_r (put_char x s)) \<le> INPUT_BUF"
    using assms con_put(1) [OF assms] by (simp_all add: con_ok_def put_char_def INPUT_BUF_def)
  show "con_ok (put_char x s)" if "x \<noteq> 10"
    using that b r assms(1) con_put(1) [OF assms] le unfolding con_ok_def by (simp add: f)
qed

text \<open>Handing the edited line to the readers.\<close>

lemma con_commit:
  assumes "length (in_buf s) = INPUT_BUF" "unat (in_e s - in_r s) \<le> INPUT_BUF"
  shows "con_ok (s\<lparr>in_w := in_e s\<rparr>)" "con_ready (s\<lparr>in_w := in_e s\<rparr>) = con_all s" "con_line (s\<lparr>in_w := in_e s\<rparr>) = []"
proof -
  have "con_all (s\<lparr>in_w := in_e s\<rparr>) = con_all s" by (simp add: con_all_def)
  then show l: "con_ready (s\<lparr>in_w := in_e s\<rparr>) = con_all s" "con_line (s\<lparr>in_w := in_e s\<rparr>) = []"
    by (simp_all add: con_ready_def con_line_def)
  then show "con_ok (s\<lparr>in_w := in_e s\<rparr>)" using assms by (simp add: con_ok_def)
qed

lemma con_ptable [simp]:
  "con_ok (s\<lparr>ptable := P\<rparr>) = con_ok s" "con_ready (s\<lparr>ptable := P\<rparr>) = con_ready s" "con_line (s\<lparr>ptable := P\<rparr>) = con_line s"
  "screen_ok (s\<lparr>ptable := P\<rparr>) = screen_ok s" "screen_ok (s\<lparr>in_w := e\<rparr>) = screen_ok s"
  by (simp_all add: con_ok_def con_ready_def con_line_def con_all_def screen_ok_def)

definition char_done :: "int \<Rightarrow> 'z constate_scheme \<Rightarrow> 'z constate_scheme \<Rightarrow> bool" where
  "char_done c s t \<longleftrightarrow> con_ok t \<and> screen_ok t \<and> held t = held s
     \<and> (con_ready t, con_line t) = spec_char c (con_ready s, con_line s)"

lemma store_char_done:
  assumes ok: "con_ok s" "screen_ok s" and h: "LPtable \<notin> held s" and c: "0 \<le> c" "c < 256"
    and n: "c \<noteq> ctrl 80" "c \<noteq> ctrl 85" "c \<noteq> ctrl 72" "c \<noteq> 127"
  shows "\<exists>t. store_char c s = Ok () t \<and> char_done c s t"
proof -
  note L = con_lengths [OF ok(1)]
  show ?thesis
  proof (cases "c \<noteq> 0 \<and> unat (in_e s - in_r s) < INPUT_BUF")
    case False
    then have "store_char c s = Ok () s" by (auto simp: store_char_def)
    moreover have "spec_char c (con_ready s, con_line s) = (con_ready s, con_line s)"
      using False n L(3) by (auto simp: spec_char_def)
    ultimately show ?thesis using ok by (simp add: char_done_def)
  next
    case True
    then have sp: "unat (in_e s - in_r s) < 128" by (simp add: INPUT_BUF_def)
    define d where "d = (if c = 13 then 10 else c)"
    define x where "x = (word_of_int d :: byte)"
    have d: "0 \<le> d" "d < 256" using c by (simp_all add: d_def)
    have "uint x = d" using d by (simp add: x_def uint_word_of_int_eq take_bit_int_eq_self)
    then have x10: "x = 10 \<longleftrightarrow> d = 10" by (auto simp: x_def)
    have "screen_ok (put_char x s)" using ok by (simp add: screen_ok_def put_char_def)
    from consputc_echoes [OF this, of d] obtain t where t: "consputc d (put_char x s) = Ok () t" "echoed (put_char x s) t" by blast
    note same = echoed_same [OF t(2)] and P = con_put_ok [OF ok(1) sp, of x]
    have st: "store_char c s = (if d = 10 \<or> d = ctrl 68 \<or> in_e t = in_r t + of_nat INPUT_BUF
        then wakeup CInput (t\<lparr>in_w := in_e t\<rparr>) else Ok () t)"
      using True t(1) by (simp add: store_char_def Let_def d_def [symmetric] x_def [symmetric] put_char_def)
    have len: "length (con_ready s) + length (con_line s @ [x]) = unat (in_e t - in_r t)"
      using L(3) con_put(1) [OF ok(1) sp] same by (simp add: put_char_def)
    have "in_e t = in_r t + of_nat INPUT_BUF \<longleftrightarrow> in_e t - in_r t = of_nat INPUT_BUF" by (auto simp: algebra_simps)
    also have "\<dots> \<longleftrightarrow> unat (in_e t - in_r t) = unat (of_nat INPUT_BUF :: uint)" by (simp only: word_unat_eq_iff)
    finally have full: "in_e t = in_r t + of_nat INPUT_BUF \<longleftrightarrow> length (con_ready s) + length (con_line s @ [x]) = INPUT_BUF"
      using len by (simp add: INPUT_BUF_def)
    have sc: "spec_char c (con_ready s, con_line s) =
        (if d = 10 \<or> d = ctrl 68 \<or> in_e t = in_r t + of_nat INPUT_BUF
         then (con_ready s @ con_line s @ [x], []) else (con_ready s, con_line s @ [x]))"
      using True n L(3) full by (simp add: spec_char_def Let_def d_def [symmetric] x_def [symmetric])
    have hp: "held (put_char x s) = held s" by (simp add: put_char_def)
    show ?thesis
    proof (cases "d = 10 \<or> d = ctrl 68 \<or> in_e t = in_r t + of_nat INPUT_BUF")
      case True
      have "con_all t = con_ready s @ con_line s @ [x]"
        using same(1) con_put(2) [OF ok(1) sp] L(2) by simp
      moreover have "length (in_buf t) = INPUT_BUF" "unat (in_e t - in_r t) \<le> INPUT_BUF" using P(4,5) same by simp_all
      note con_commit [OF this]
      ultimately show ?thesis using True st sc h same hp
        by (simp add: wakeup_eq char_done_def)
    next
      case False
      then have "x \<noteq> 10" using x10 by simp
      with False st sc same P hp show ?thesis by (simp add: char_done_def)
    qed
  qed
qed

subsection \<open>The interrupt handler\<close>

lemma char_step:
  assumes ok: "con_ok s" "screen_ok s" and h: "LPtable \<notin> held s" and c: "0 \<le> c" "c < 256"
  shows "\<exists>t. (\<forall>cs d. consoleintr_loop (c # cs) d s = consoleintr_loop cs (d \<or> c = ctrl 80) t) \<and> char_done c s t"
proof -
  have k: "ctrl 80 \<noteq> ctrl 85" "ctrl 72 \<noteq> ctrl 80" "ctrl 72 \<noteq> ctrl 85" "127 \<noteq> ctrl 80" "127 \<noteq> ctrl 85" by (simp_all add: ctrl_def)
  consider "c = ctrl 80" | "c = ctrl 85" | "c = ctrl 72 \<or> c = 127" "in_e s = in_w s"
    | "c = ctrl 72 \<or> c = 127" "in_e s \<noteq> in_w s" | "c \<noteq> ctrl 80" "c \<noteq> ctrl 85" "c \<noteq> ctrl 72" "c \<noteq> 127" by blast
  then show ?thesis
  proof cases
    case 1
    then show ?thesis using ok by (intro exI [of _ s]) (simp add: char_done_def spec_char_def)
  next
    case 2
    with kill_line_clears [OF ok] k show ?thesis by (auto simp: char_done_def spec_char_def)
  next
    case 3
    then have "con_line s = []" using con_lengths(4) [OF ok(1)] by simp
    with 3 k ok show ?thesis by (intro exI [of _ s]) (auto simp: char_done_def spec_char_def)
  next
    case 4
    let ?t = "s\<lparr>in_e := in_e s - 1\<rparr>"
    have "screen_ok ?t" using ok by (simp add: screen_ok_def)
    from consputc_echoes [OF this, of BACKSPACE] obtain u where u: "consputc BACKSPACE ?t = Ok () u" "echoed ?t u" by blast
    have "char_done c s u"
      using 4(1) k echoed_same [OF u(2)] con_back [OF ok(1) 4(2)] by (auto simp: char_done_def spec_char_def)
    with 4 u(1) k show ?thesis by (intro exI [of _ u]) auto
  next
    case 5
    from store_char_done [OF ok h c 5] obtain t where "store_char c s = Ok () t" "char_done c s t" by blast
    with 5 show ?thesis by (intro exI [of _ t]) auto
  qed
qed

lemma consoleintr_loop_edits:
  assumes "con_ok s" "screen_ok s" "LPtable \<notin> held s" "\<forall>c \<in> set cs. 0 \<le> c \<and> c < 256"
  shows "\<exists>t. consoleintr_loop cs d s = Ok (d \<or> ctrl 80 \<in> set cs) t \<and> con_ok t \<and> screen_ok t \<and> held t = held s
    \<and> (con_ready t, con_line t) = fold spec_char cs (con_ready s, con_line s)"
  using assms
proof (induction cs arbitrary: s d)
  case (Cons c cs)
  from Cons.prems(4) have c: "0 \<le> c" "c < 256" by auto
  from char_step [OF Cons.prems(1-3) c] obtain t where
    t: "\<And>cs d. consoleintr_loop (c # cs) d s = consoleintr_loop cs (d \<or> c = ctrl 80) t" and d: "char_done c s t" by blast
  from d have td: "con_ok t" "screen_ok t" "LPtable \<notin> held t" "held t = held s"
    and q: "(con_ready t, con_line t) = spec_char c (con_ready s, con_line s)"
    using Cons.prems(3) by (auto simp: char_done_def)
  from Cons.IH [OF td(1-3), of "d \<or> c = ctrl 80"] Cons.prems(4) obtain u where
    "consoleintr_loop cs (d \<or> c = ctrl 80) t = Ok ((d \<or> c = ctrl 80) \<or> ctrl 80 \<in> set cs) u" "con_ok u" "screen_ok u"
    "held u = held t" "(con_ready u, con_line u) = fold spec_char cs (con_ready t, con_line t)" by auto
  then show ?case using t [of cs d] td(4) q by auto
qed simp

text \<open>The listing that ^P asks for only prints.\<close>

lemma echoed_refl: "screen_ok s \<Longrightarrow> echoed s s"
  unfolding echoed_def by (intro conjI exI [of _ "uart_out s"] exI [of _ "crt s"] exI [of _ "crt_pos s"]) simp_all

lemma echoed_trans:
  assumes "echoed s t" "echoed t u"
  shows "echoed s u"
proof -
  obtain a m p where "t = s\<lparr>uart_out := a, crt := m, crt_pos := p\<rparr>" using assms(1) by (auto simp: echoed_def)
  moreover obtain b n q where "u = t\<lparr>uart_out := b, crt := n, crt_pos := q\<rparr>" and k: "screen_ok u"
    using assms(2) unfolding echoed_def by blast
  ultimately have "u = s\<lparr>uart_out := b, crt := n, crt_pos := q\<rparr>" by simp
  with k show ?thesis unfolding echoed_def by blast
qed

lemma cprintf_echoes:
  assumes "screen_ok s" "LCons \<notin> held s" "cprintf_chars fmt args \<noteq> None"
  shows "\<exists>t. cprintf fmt args s = Ok () t \<and> echoed s t"
proof -
  obtain cs where "cprintf_chars fmt args = Some cs" using assms(3) by blast
  from cprintf_Ok [OF assms(1,2) this] obtain m p where
    c: "cprintf fmt args s = Ok () (s\<lparr>uart_out := uart_out s @ sent cs s, crt := m, crt_pos := p\<rparr>)" "0 \<le> p \<and> p < 24 * 80" by blast
  have "echoed s (s\<lparr>uart_out := uart_out s @ sent cs s, crt := m, crt_pos := p\<rparr>)"
    unfolding echoed_def using c(2) assms(1) by (intro conjI exI) (simp_all add: screen_ok_def)
  with c(1) show ?thesis by blast
qed

lemma echoed_free: "echoed s t \<Longrightarrow> LCons \<notin> held s \<Longrightarrow> screen_ok t \<and> LCons \<notin> held t"
  using echoed_same(9,10) by metis

lemma print_pcs_echoes:
  assumes "screen_ok s" "LCons \<notin> held s"
  shows "\<exists>t. print_pcs as s = Ok () t \<and> echoed s t"
  using assms
proof (induction as arbitrary: s)
  case Nil
  then show ?case by (auto intro: echoed_refl)
next
  case (Cons pc as)
  show ?case
  proof (cases "pc = 0")
    case True
    then show ?thesis using Cons.prems
      by (auto intro: echoed_refl)
  next
    case False
    have "cprintf_chars (str '' %p'') [AInt pc] \<noteq> None" by (simp add: str_def cprintf_conv_def)
    from cprintf_echoes [OF Cons.prems this] obtain t where t: "cprintf (str '' %p'') [AInt pc] s = Ok () t" "echoed s t" by blast
    from Cons.IH [of t] echoed_free [OF t(2) Cons.prems(2)] obtain u where "print_pcs as t = Ok () u" "echoed t u" by blast
    with t False show ?thesis by (auto intro: echoed_trans)
  qed
qed

lemma procdump_loop_echoes:
  assumes "screen_ok s" "LCons \<notin> held s"
  shows "\<exists>t. procdump_loop ps s = Ok () t \<and> echoed s t"
  using assms
proof (induction ps arbitrary: s)
  case Nil
  then show ?case by (auto intro: echoed_refl)
next
  case (Cons p ps)
  show ?case
  proof (cases "pstate p = UNUSED")
    case True
    with Cons show ?thesis by simp
  next
    case False
    let ?args = "[AInt (pid p), AStr (Some (state_name (pstate p))), AStr (Some (takeWhile (\<lambda>c. c \<noteq> 0) (pname p)))]"
    have "cprintf_chars (str ''%d %s %s'') ?args \<noteq> None" by (simp add: str_def cprintf_conv_def)
    from cprintf_echoes [OF Cons.prems this] obtain t where
      t: "cprintf (str ''%d %s %s'') ?args s = Ok () t" "echoed s t" by blast
    note ft = echoed_free [OF t(2) Cons.prems(2)]
    let ?m = "if pstate p = SLEEPING then print_pcs (getcallerpcs (ld32 (pmem t)) (ctx_ebp (pcontext p) + 8)) t else Ok () t"
    obtain u where u: "?m = Ok () u" "echoed s u"
    proof (cases "pstate p = SLEEPING")
      case True
      with print_pcs_echoes [of t] ft t(2) show thesis using that by (auto intro: echoed_trans)
    qed (use t(2) that in auto)
    note fu = echoed_free [OF u(2) Cons.prems(2)]
    have "cprintf_chars [10] [] \<noteq> None" by simp
    from cprintf_echoes [OF _ _ this, of u] fu obtain v where v: "cprintf [10] [] u = Ok () v" "echoed u v" by blast
    have sv: "echoed s v" using u(2) v(2) by (rule echoed_trans)
    from Cons.IH [of v] echoed_free [OF sv Cons.prems(2)] obtain w where w: "procdump_loop ps v = Ok () w" "echoed v w" by blast
    have "procdump_loop (p # ps) s = Ok () w" using False t(1) u(1) v(1) w(1) by simp
    with echoed_trans [OF sv w(2)] show ?thesis by blast
  qed
qed

text \<open>
  C20. The keyboard interrupt refines a line editor: whatever characters arrive, ^P included, the
  handler returns with no lock held and the ring within its bounds, and the pair of the lines available
  to readers and the line being edited is changed by each character as by \<open>spec_char\<close>: a character
  is appended, a backspace removes the last one of the line being edited, ^U removes that line,
  and a newline, ^D or a full buffer of 128 hands the line to the readers; ^P, which prints the
  process list, changes neither. What was handed over is never changed by editing.
\<close>

theorem console_line_editing:
  assumes "con_ok s" "screen_ok s" "held s = {}" "\<forall>c \<in> set cs. 0 \<le> c \<and> c < 256"
  shows "\<exists>t. consoleintr cs s = Ok () t \<and> con_ok t \<and> screen_ok t \<and> held t = {}
    \<and> (con_ready t, con_line t) = fold spec_char cs (con_ready s, con_line s)
    \<and> length (con_ready t) + length (con_line t) \<le> 128"
proof -
  let ?s = "s\<lparr>held := {LCons}\<rparr>"
  have f: "con_ok (u\<lparr>held := h\<rparr>) = con_ok u" "con_ready (u\<lparr>held := h\<rparr>) = con_ready u" "con_line (u\<lparr>held := h\<rparr>) = con_line u"
    "screen_ok (u\<lparr>held := h\<rparr>) = screen_ok u" for u :: "'a constate_scheme" and h
    by (simp_all add: con_ok_def con_ready_def con_line_def con_all_def screen_ok_def)
  from consoleintr_loop_edits [of ?s cs False] assms f obtain t where
    t: "consoleintr_loop cs False ?s = Ok (ctrl 80 \<in> set cs) t" "con_ok t" "screen_ok t" "held t = {LCons}"
    "(con_ready t, con_line t) = fold spec_char cs (con_ready s, con_line s)" by auto
  let ?t = "t\<lparr>held := {}\<rparr>"
  have "screen_ok ?t" "LCons \<notin> held ?t" using t(3) f by simp_all
  from procdump_loop_echoes [OF this, of "ptable t"] obtain u where
    u: "procdump ?t = Ok () u" "echoed ?t u" by (auto simp: procdump_def)
  define v where "v = (if ctrl 80 \<in> set cs then u else ?t)"
  have "consoleintr cs s = Ok () v" using assms(3) t(1,4) u(1) by (simp add: consoleintr_def v_def)
  moreover have "con_ok v" "screen_ok v" "held v = {}" "con_ready v = con_ready t" "con_line v = con_line t"
    using t(2,3) f echoed_same [OF u(2)] by (simp_all add: v_def)
  moreover have "length (con_ready t) + length (con_line t) \<le> 128"
    using con_lengths(3) [OF t(2)] t(2) by (simp add: con_ok_def INPUT_BUF_def)
  ultimately show ?thesis using t(5) by simp
qed

lemma con0_simps:
  "held con0 = {}" "in_buf con0 = replicate INPUT_BUF 0" "in_r con0 = 0" "in_w con0 = 0" "in_e con0 = 0"
  "crt_pos con0 = 0" "\<not> panicked con0" "ptable con0 = [proc0\<lparr>pid := 4\<rparr>]" "cpu_proc con0 = Some 0"
  by (simp_all add: con0_def istate0_def log0_def istate.defs logstate.defs bstate.defs bstate0_def km0_def kmstate.defs
      slcore.defs slcore0_def pcore.defs pcore0_def)

lemma con0_ok: "con_ok con0" "screen_ok con0" "con_ready con0 = []" "con_line con0 = []"
  by (simp_all add: con_ok_def screen_ok_def con_line_def con_ready_def con_all_def con0_simps)

theorem console_line_editing_witness:
  "\<exists>t. consoleintr [108, 120, 127, 16, 115, 13, 97] con0 = Ok () t \<and> con_ready t = str ''ls'' @ [10] \<and> con_line t = str ''a''"
proof -
  have "fold spec_char [108, 120, 127, 16, 115, 13, 97] ([], []) = (str ''ls'' @ [10], str ''a'')"
    by (simp add: spec_char_def ctrl_def INPUT_BUF_def str_def)
  with console_line_editing [of con0 "[108, 120, 127, 16, 115, 13, 97]"] con0_ok show ?thesis
    by (auto simp: con0_simps ctrl_def)
qed

subsection \<open>Reading\<close>

lemma con_pop:
  assumes "con_ok s" "in_r s \<noteq> in_w s"
  shows "con_ok (s\<lparr>in_r := in_r s + 1\<rparr>)" "con_line (s\<lparr>in_r := in_r s + 1\<rparr>) = con_line s"
    "con_ready s = in_buf s ! slot (in_r s) # con_ready (s\<lparr>in_r := in_r s + 1\<rparr>)"
proof -
  let ?t = "s\<lparr>in_r := in_r s + 1\<rparr>"
  have w0: "in_w s - in_r s \<noteq> 0" using assms(2) by simp
  then have pw: "0 < unat (in_w s - in_r s)" by (rule unat_gt_0 [THEN iffD2])
  then have pe: "0 < unat (in_e s - in_r s)" using assms(1) by (simp add: con_ok_def)
  have dec: "unat (a - (in_r s + 1)) = unat (a - in_r s) - 1" if "0 < unat (a - in_r s)" for a
  proof -
    have e: "a - (in_r s + 1) = (a - in_r s) - 1" by simp
    show ?thesis unfolding e using that by (subst unat_diff32) simp_all
  qed
  obtain m where m: "unat (in_e s - in_r s) = Suc m" using pe gr0_implies_Suc by blast
  have me: "unat (in_e s - (in_r s + 1)) = m" using dec [OF pe] m by simp
  have up: "[0..<Suc m] = 0 # map Suc [0..<m]" by (simp add: map_Suc_upt upt_conv_Cons)
  have a: "con_all s = in_buf s ! slot (in_r s) # con_all ?t"
    by (simp add: con_all_def m me up comp_def add.assoc del: upt_Suc)
  obtain k where k: "unat (in_w s - in_r s) = Suc k" using pw gr0_implies_Suc by blast
  have kw: "unat (in_w s - (in_r s + 1)) = k" using dec [OF pw] k by simp
  show "con_line ?t = con_line s" "con_ready s = in_buf s ! slot (in_r s) # con_ready ?t"
    by (simp_all add: con_line_def con_ready_def a k kw)
  then show "con_ok ?t" using assms(1) by (simp add: con_ok_def m me k kw)
qed

lemma con_ready_empty: "con_ok s \<Longrightarrow> con_ready s = [] \<longleftrightarrow> in_r s = in_w s"
  using con_lengths(1) [of s] by (metis length_0_conv right_minus_eq unat_eq_0)

lemma consoleread_loop_spec:
  assumes "con_ok s" "spec_read n target got (con_ready s) = Some (out, rest)"
  shows "\<exists>r. consoleread_loop n target got s = Ok (Some out) (s\<lparr>in_r := r\<rparr>)
    \<and> con_ok (s\<lparr>in_r := r\<rparr>) \<and> con_ready (s\<lparr>in_r := r\<rparr>) = rest \<and> con_line (s\<lparr>in_r := r\<rparr>) = con_line s"
  using assms
proof (induction n arbitrary: s got)
  case 0
  then show ?case by (intro exI [of _ "in_r s"]) simp
next
  case (Suc n)
  have "con_ready s \<noteq> []" using Suc.prems(2) by auto
  then have ne: "in_r s \<noteq> in_w s" using con_ready_empty [OF Suc.prems(1)] by simp
  let ?c = "in_buf s ! slot (in_r s)" and ?t = "s\<lparr>in_r := in_r s + 1\<rparr>"
  note P = con_pop [OF Suc.prems(1) ne]
  have c4: "sint ?c = ctrl 68 \<longleftrightarrow> ?c = 4"
  proof
    assume "sint ?c = ctrl 68"
    then have "sint ?c = sint (4 :: byte)" by (simp add: ctrl_def)
    from arg_cong [OF this, of "word_of_int :: int \<Rightarrow> byte"] show "?c = 4" by simp
  qed (simp add: ctrl_def)
  show ?case
  proof (cases "?c = 4 \<or> ?c = 10")
    case True
    have sr: "spec_read (Suc n) target got (?c # con_ready ?t) = Some (out, rest)" using Suc.prems(2) P(3) by simp
    show ?thesis
    proof (cases "?c = 4 \<and> Suc n < target")
      case True
      with sr have "out = got" "rest = con_ready s" using P(3) by simp_all
      moreover have "consoleread_loop (Suc n) target got s = Ok (Some got) s" using True ne c4 by (simp add: Let_def)
      ultimately show ?thesis using Suc.prems(1) by (intro exI [of _ "in_r s"]) simp
    next
      case False
      with sr \<open>?c = 4 \<or> ?c = 10\<close> have o: "out = (if ?c = 4 then got else got @ [?c])" "rest = con_ready ?t" by (auto split: if_splits)
      have "consoleread_loop (Suc n) target got s = Ok (Some out) ?t"
        using False \<open>?c = 4 \<or> ?c = 10\<close> ne c4 by (elim disjE) (simp_all add: Let_def o(1))
      with P o(2) show ?thesis by (intro exI [of _ "in_r s + 1"]) simp
    qed
  next
    case False
    have "spec_read n target (got @ [?c]) (con_ready ?t) = Some (out, rest)" using Suc.prems(2) P(3) False by simp
    from Suc.IH [OF P(1) this] False ne c4 P(2) show ?thesis by (auto simp: Let_def)
  qed
qed

lemma spec_read_splits:
  assumes "spec_read m tg got ready = Some (out, rest)"
  shows "length out \<le> length got + m \<and> (\<exists>x eof. out = got @ x \<and> ready = x @ eof @ rest
      \<and> (eof = [] \<or> (eof = [4] \<and> length x + tg \<le> m)))"
  using assms
proof (induction m tg got ready rule: spec_read.induct)
  case (3 m tg got c ready)
  show ?case
  proof (cases "c = 4 \<or> c = 10")
    case True
    with 3 show ?thesis by (cases "c = 4"; cases "Suc m < tg") auto
  next
    case False
    then have sr: "spec_read m tg (got @ [c]) ready = Some (out, rest)" and c: "c \<noteq> 4" "c \<noteq> 10"
      using 3(2) by simp_all
    from 3(1) [OF c sr] obtain x eof where "length out \<le> length (got @ [c]) + m" "out = (got @ [c]) @ x" "ready = x @ eof @ rest"
      "eof = [] \<or> (eof = [4] \<and> length x + tg \<le> m)" by blast
    then show ?thesis by (intro conjI exI [of _ "c # x"] exI [of _ eof]) auto
  qed
qed auto

text \<open>
  C21. A read from the console takes from the lines available to readers, and from nothing else: up
  to the requested number of bytes, ending after a newline, or before a ^D, which is consumed
  only when nothing was read before it. The line being edited is untouched, and the read returns
  without waiting whenever the available bytes decide its result.
\<close>

theorem console_read_takes_lines:
  assumes "con_ok s" "spec_read n n [] (con_ready s) = Some (out, rest)"
  shows "\<exists>t. consoleread_loop n n [] s = Ok (Some out) t \<and> con_ok t \<and> con_ready t = rest \<and> con_line t = con_line s
    \<and> length out \<le> n \<and> (\<exists>eof. con_ready s = out @ eof @ rest \<and> (eof = [] \<or> (eof = [4] \<and> out = [])))"
  using consoleread_loop_spec [OF assms] spec_read_splits [OF assms(2)] by fastforce

theorem console_read_takes_lines_witness:
  "\<exists>s t. con_ok (s :: constate) \<and> con_ready s = str ''ls'' @ [10] \<and> consoleread_loop 100 100 [] s = Ok (Some (str ''ls'' @ [10])) t
    \<and> con_ready t = []"
proof -
  have f: "fold spec_char [108, 115, 13] ([], []) = (str ''ls'' @ [10], [])"
    by (simp add: spec_char_def ctrl_def INPUT_BUF_def str_def)
  have "LPtable \<notin> held con0" by (simp add: con0_simps)
  from consoleintr_loop_edits [OF con0_ok(1,2) this, of "[108, 115, 13]" False] obtain s :: constate where
    s: "con_ok s" "con_ready s = str ''ls'' @ [10]" using f by (auto simp: con0_ok)
  have "spec_read 100 100 [] (con_ready s) = Some (str ''ls'' @ [10], [])"
    unfolding s(2) by code_simp
  from console_read_takes_lines [OF s(1) this] s show ?thesis by auto
qed

end
