(* ===== verification/Lifecycle.thy ===== *)
theory Lifecycle
  imports Process
begin

section \<open>Exit and wait\<close>

text \<open>
  What \<open>wait\<close> returns, and that a parent asleep in \<open>wait\<close> is woken by the exit of a child and then
  finds it. Freeing memory only changes memory and the free list.
\<close>

subsection \<open>Freeing an address space\<close>

definition mframe :: "'z kmstate_scheme \<Rightarrow> 'z kmstate_scheme \<Rightarrow> bool" where
  "mframe s t \<longleftrightarrow> (\<exists>m f. t = s\<lparr>pmem := m, km_freelist := f\<rparr>)"

lemma mframe_refl [simp]: "mframe s s"
  unfolding mframe_def by (intro exI [of _ "pmem s"] exI [of _ "km_freelist s"]) simp

lemma mframe_trans: "mframe s t \<Longrightarrow> mframe t u \<Longrightarrow> mframe s u"
  unfolding mframe_def by (elim exE, simp, blast)

lemma mframe_store: "mframe s t \<Longrightarrow> mframe s (store a w t)"
proof (erule mframe_trans)
  show "mframe t (store a w t)"
    unfolding mframe_def store_def by (intro exI [of _ "st32 (pmem t) a w"] exI [of _ "km_freelist t"]) simp
qed

lemma mframe_same:
  assumes "mframe s t"
  shows "ptable t = ptable s" "held t = held s" "cpu_proc t = cpu_proc s" "initproc t = initproc s"
  using assms by (auto simp: mframe_def)

lemma kfree_frame:
  assumes "mframe s t" "LKmem \<notin> held s"
  shows "wp (kfree v t) (\<lambda>_ u. mframe s u) (\<lambda>_. False)"
proof -
  have "LKmem \<notin> held t" using assms(2) mframe_same(2) [OF assms(1)] by simp
  then have "wp (kfree v t) (\<lambda>_ u. mframe t u) (\<lambda>_. False)" by (auto simp: kfree_eq mframe_def)
  then show ?thesis by (rule wp_mono) (use mframe_trans [OF assms(1)] in auto)
qed

lemma walkpgdir_reads: "\<exists>pte. walkpgdir pd a False s = Ok pte s"
  by (cases "ld32 (pmem s) (pd + 4 * PDX a) AND PTE_P = 0") (simp_all add: walkpgdir_def Let_def)

lemma deallocuvm_loop_frame:
  assumes "mframe s t" "LKmem \<notin> held s"
  shows "wp (deallocuvm_loop again pd a oldsz t) (\<lambda>_ u. mframe s u) (\<lambda>_. False)"
  using assms
proof (induction again pd a oldsz t rule: deallocuvm_loop.induct)
  case (1 again pd a oldsz t)
  show ?case
  proof (cases "a < oldsz")
    case False
    with 1 show ?thesis by (simp add: deallocuvm_loop.simps [of again pd a])
  next
    case True
    obtain pte where w: "walkpgdir pd a False t = Ok pte t" using walkpgdir_reads by blast
    show ?thesis
    proof (cases "pte = 0")
      case True
      with 1 \<open>a < oldsz\<close> w show ?thesis
        by (auto simp: deallocuvm_loop.simps [of again pd a oldsz t] Let_def)
    next
      case False
      define M where "M = (if ld32 (pmem t) pte AND PTE_P \<noteq> 0
                  then let pa = PTE_ADDR (ld32 (pmem t) pte) in
                       if pa = 0 then Panic ''kfree''
                       else bnd (kfree (P2V pa) t) (\<lambda>_ s. Ok () (store pte 0 s))
                  else Ok () t)"
      have "wp (kfree v t) (\<lambda>_ u. mframe s (store pte 0 u)) (\<lambda>_. False)" for v
        by (rule wp_mono [OF kfree_frame [OF 1(5,6)]]) (simp_all add: mframe_store)
      then have m: "wp M (\<lambda>_ u. mframe s u) (\<lambda>_. False)"
        using 1(5) by (simp add: M_def Let_def)
      have e: "deallocuvm_loop again pd a oldsz t = bnd M (\<lambda>_ s.
          if a < a + PGSIZE then deallocuvm_loop again pd (a + PGSIZE) oldsz s
          else if again then deallocuvm_loop False pd (a + PGSIZE) oldsz s else Spin)"
        using True False w by (simp add: deallocuvm_loop.simps [of again pd a oldsz t] M_def)
      show ?thesis
      proof (cases M)
        case (Ok u sb)
        have "wp (deallocuvm_loop again pd (a + PGSIZE) oldsz sb) (\<lambda>_ u. mframe s u) (\<lambda>_. False)" if "a < a + PGSIZE"
          using 1(3) [of pte t u sb] True False w Ok that 1(6) wp_OkD [OF m Ok] by (simp add: M_def)
        moreover have "wp (deallocuvm_loop False pd (a + PGSIZE) oldsz sb) (\<lambda>_ u. mframe s u) (\<lambda>_. False)"
          if "\<not> a < a + PGSIZE" "again"
          using 1(4) [of pte t u sb] True False w Ok that 1(6) wp_OkD [OF m Ok] by (simp add: M_def)
        ultimately show ?thesis unfolding e by (simp add: Ok)
      qed (use e m in simp_all)
    qed
  qed
qed

lemma freevm_loop_frame:
  assumes "mframe s t" "LKmem \<notin> held s"
  shows "wp (freevm_loop pd is t) (\<lambda>_ u. mframe s u) (\<lambda>_. False)"
  using assms
proof (induction "is" arbitrary: t)
  case (Cons i "is")
  have "wp (kfree v t) (\<lambda>_ u. wp (freevm_loop pd is u) (\<lambda>_ u. mframe s u) (\<lambda>_. False)) (\<lambda>_. False)" for v
    by (rule wp_mono [OF kfree_frame [OF Cons.prems]]) (use Cons in simp_all)
  with Cons show ?case by (simp add: Let_def)
qed simp

lemma freevm_frame:
  assumes "mframe s t" "LKmem \<notin> held s"
  shows "wp (freevm pd t) (\<lambda>_ u. mframe s u) (\<lambda>_. False)"
proof -
  have a: "wp (freevm_loop pd [0..<1024] u) (\<lambda>_ u. wp (kfree pd u) (\<lambda>_ u. mframe s u) (\<lambda>_. False)) (\<lambda>_. False)"
    if "mframe s u" for u
    by (rule wp_mono [OF freevm_loop_frame [OF that assms(2)]]) (use kfree_frame assms(2) in auto)
  have "wp (deallocuvm_loop True pd x y t) (\<lambda>_ u. wp (freevm_loop pd [0..<1024] u)
      (\<lambda>_ u. wp (kfree pd u) (\<lambda>_ u. mframe s u) (\<lambda>_. False)) (\<lambda>_. False)) (\<lambda>_. False)" for x y
    by (rule wp_mono [OF deallocuvm_loop_frame [OF assms]]) (use a in auto)
  with a [OF assms(1)] show ?thesis by (simp add: freevm_def deallocuvm_def)
qed

subsection \<open>Wait\<close>

text \<open>Slot \<open>i\<close> of the table is free again and the others are as they were.\<close>

definition slot_freed :: "nat \<Rightarrow> proc list \<Rightarrow> proc list \<Rightarrow> bool" where
  "slot_freed i P Q \<longleftrightarrow> length Q = length P \<and> pstate (Q ! i) = UNUSED \<and> pid (Q ! i) = 0 \<and> parent (Q ! i) = None
     \<and> kstack (Q ! i) = 0 \<and> (\<forall>j < length P. j \<noteq> i \<longrightarrow> Q ! j = P ! j)"

lemma reap_frees:
  assumes "i < length (ptable s)" "held s = {LPtable}"
  shows "wp (reap i s) (\<lambda>r t. r = pid (ptable s ! i) \<and> slot_freed i (ptable s) (ptable t) \<and> held t = {} \<and> cpu_proc t = cpu_proc s)
    (\<lambda>_. False)"
proof -
  have k: "LKmem \<notin> held s" using assms(2) by simp
  let ?p = "\<lambda>p. p\<lparr>kstack := 0\<rparr>"
  have fin: "wp (freevm pd t) (\<lambda>_ u. wp (bnd (lk_release LPtable (upd_proc i (\<lambda>p. p\<lparr>pid := 0, parent := None, pname := (pname p)[0 := 0],
                killed := False, pstate := UNUSED\<rparr>) u)) (\<lambda>_ s. Ok n s))
      (\<lambda>r t. r = n \<and> slot_freed i (ptable s) (ptable t) \<and> held t = {} \<and> cpu_proc t = cpu_proc s) (\<lambda>_. False)) (\<lambda>_. False)"
    if t: "ptable t = (ptable s)[i := ?p (ptable s ! i)]" "held t = {LPtable}" "cpu_proc t = cpu_proc s" for t :: "'a kstate_scheme" and pd n
  proof (rule wp_mono [OF freevm_frame [of t t]])
    fix u assume "mframe t u"
    from mframe_same [OF this] t assms(1)
    show "wp (bnd (lk_release LPtable (upd_proc i (\<lambda>p. p\<lparr>pid := 0, parent := None, pname := (pname p)[0 := 0],
                killed := False, pstate := UNUSED\<rparr>) u)) (\<lambda>_ s. Ok n s))
      (\<lambda>r t. r = n \<and> slot_freed i (ptable s) (ptable t) \<and> held t = {} \<and> cpu_proc t = cpu_proc s) (\<lambda>_. False)"
      by (simp add: upd_proc_def slot_freed_def)
  qed (use t in simp_all)
  show ?thesis
    unfolding reap_def Let_def
  proof (subst wp_bnd, rule wp_mono [OF kfree_frame [of s s]])
    fix u assume "mframe s u"
    note same = mframe_same [OF this]
    have t: "ptable (upd_proc i ?p u) = (ptable s)[i := ?p (ptable s ! i)]" "held (upd_proc i ?p u) = {LPtable}"
      "cpu_proc (upd_proc i ?p u) = cpu_proc s"
      using same assms by (simp_all add: upd_proc_def)
    show "wp (bnd (freevm (pgdir (ptable (upd_proc i ?p u) ! i)) (upd_proc i ?p u)) (\<lambda>_ s.
        bnd (lk_release LPtable (upd_proc i (\<lambda>p. p\<lparr>pid := 0, parent := None, pname := (pname p)[0 := 0],
                killed := False, pstate := UNUSED\<rparr>) s)) (\<lambda>_ s'. Ok (pid (ptable s0 ! i)) s')))
      (\<lambda>r t. r = pid (ptable s0 ! i) \<and> slot_freed i (ptable s) (ptable t) \<and> held t = {} \<and> cpu_proc t = cpu_proc s) (\<lambda>_. False)" for s0
      by (subst wp_bnd, rule fin [OF t])
  qed (use k in simp_all)
qed

definition child_of :: "nat \<Rightarrow> proc \<Rightarrow> bool" where
  "child_of me p \<longleftrightarrow> parent p = Some me"

definition dead_child :: "nat \<Rightarrow> proc \<Rightarrow> bool" where
  "dead_child me p \<longleftrightarrow> parent p = Some me \<and> pstate p = ZOMBIE"

text \<open>What \<open>wait\<close> may return when it has the lock in state \<open>s\<close>, and when it goes to sleep.\<close>

definition wait_result :: "nat \<Rightarrow> proc list \<Rightarrow> cint \<Rightarrow> proc list \<Rightarrow> bool" where
  "wait_result me P r Q \<longleftrightarrow>
     (if \<exists>p \<in> set P. dead_child me p
      then \<exists>i < length P. dead_child me (P ! i) \<and> r = pid (P ! i) \<and> slot_freed i P Q
      else r = - 1 \<and> Q = P \<and> ((\<forall>p \<in> set P. \<not> child_of me p) \<or> killed (P ! me)))"

definition wait_sleeps :: "nat \<Rightarrow> proc list \<Rightarrow> proc list \<Rightarrow> bool" where
  "wait_sleeps me P Q \<longleftrightarrow> (\<forall>p \<in> set P. \<not> dead_child me p) \<and> (\<exists>p \<in> set P. child_of me p) \<and> \<not> killed (P ! me)
     \<and> Q = P[me := (P ! me)\<lparr>pchan := Some (CProc me), pstate := SLEEPING\<rparr>]"

lemma wait_loop_spec:
  assumes "held s = {LPtable}" "cpu_proc s = Some me"
  shows "wp (wait_loop me s) (\<lambda>r t. wait_result me (ptable s) r (ptable t) \<and> held t = {} \<and> cpu_proc t = Some me)
    (\<lambda>t. wait_sleeps me (ptable s) (ptable t) \<and> held t = {LPtable} \<and> cpu_proc t = Some me)"
proof (cases "find_idx (\<lambda>p. parent p = Some me \<and> pstate p = ZOMBIE) (ptable s)")
  case (Some i)
  from find_idx_SomeD [OF Some] have i: "i < length (ptable s)" "dead_child me (ptable s ! i)" by (auto simp: dead_child_def)
  then have ex: "\<exists>p \<in> set (ptable s). dead_child me p" by auto
  have "wp (reap i s) (\<lambda>r t. wait_result me (ptable s) r (ptable t) \<and> held t = {} \<and> cpu_proc t = Some me) (\<lambda>_. False)"
    by (rule wp_mono [OF reap_frees [OF i(1) assms(1)]]) (use i ex assms(2) in \<open>auto simp: wait_result_def\<close>)
  then show ?thesis using Some by (simp add: wait_loop_def) (erule wp_mono, auto)
next
  case None
  then have no: "\<forall>p \<in> set (ptable s). \<not> dead_child me p" by (auto simp: find_idx_None dead_child_def)
  show ?thesis
  proof (cases "\<not> list_ex (\<lambda>p. parent p = Some me) (ptable s) \<or> killed (ptable s ! me)")
    case True
    with None no assms show ?thesis
      by (auto simp: wait_loop_def wait_result_def list_ex_iff child_of_def)
  next
    case False
    have "wp (sleep (CProc me) (Some LPtable) s) (\<lambda>_ _. True)
      (\<lambda>t. wait_sleeps me (ptable s) (ptable t) \<and> held t = {LPtable} \<and> cpu_proc t = Some me)"
      by (rule wp_sleep) (use assms no False in \<open>auto simp: wait_sleeps_def upd_proc_def list_ex_iff child_of_def\<close>)
    with None False show ?thesis by (simp add: wait_loop_def)
  qed
qed

text \<open>
  C13. \<open>wait\<close> returns the pid of a child that has exited and leaves its slot in the process table free,
  with every other process unchanged. When there is no dead child it does not fail: it returns -1,
  changing nothing, if the process has no children or is being killed, and otherwise goes to
  sleep on its own channel.
\<close>

theorem wait_spec:
  assumes "held s = {}" "cpu_proc s = Some me" "me < length (ptable s)"
  shows "(\<forall>r t. wait s = Ok r t \<longrightarrow> wait_result me (ptable s) r (ptable t) \<and> held t = {})
    \<and> (\<forall>t. wait s = Swtch t \<longrightarrow> wait_sleeps me (ptable s) (ptable t) \<and> held t = {LPtable})
    \<and> ((\<forall>p \<in> set (ptable s). \<not> dead_child me p) \<longrightarrow>
         (if (\<forall>p \<in> set (ptable s). \<not> child_of me p) \<or> killed (ptable s ! me)
          then wait s = Ok (- 1) s else \<exists>t. wait s = Swtch t))"
proof -
  let ?s = "s\<lparr>held := {LPtable}\<rparr>"
  have e: "wait s = wait_loop me ?s" using assms by (simp add: wait_def myproc_def)
  have "wp (wait_loop me ?s) (\<lambda>r t. wait_result me (ptable s) r (ptable t) \<and> held t = {} \<and> cpu_proc t = Some me)
    (\<lambda>t. wait_sleeps me (ptable s) (ptable t) \<and> held t = {LPtable} \<and> cpu_proc t = Some me)"
    using wait_loop_spec [of ?s me] assms by simp
  moreover have "if (\<forall>p \<in> set (ptable s). \<not> child_of me p) \<or> killed (ptable s ! me)
          then wait s = Ok (- 1) s else \<exists>t. wait s = Swtch t" if no: "\<forall>p \<in> set (ptable s). \<not> dead_child me p"
  proof -
    have n: "find_idx (\<lambda>p. parent p = Some me \<and> pstate p = ZOMBIE) (ptable s) = None"
      using no by (auto simp: find_idx_None dead_child_def)
    show ?thesis unfolding e using assms n
      by (auto simp: wait_loop_def list_ex_iff child_of_def sleep_def myproc_def sched_def lk_holding_def upd_proc_def)
  qed
  ultimately show ?thesis unfolding e by (auto simp: wp_iff)
qed

definition family0 :: kstate where
  "family0 = kstate0\<lparr>ptable := [proc0\<lparr>pid := 4\<rparr>, proc0\<lparr>pid := 5, parent := Some 0, pstate := RUNNABLE\<rparr>]\<rparr>"

theorem wait_spec_witness:
  "\<exists>t. wait family0 = Swtch t \<and> pstate (ptable t ! 0) = SLEEPING \<and> pchan (ptable t ! 0) = Some (CProc 0)"
proof -
  have f: "held family0 = {}" "cpu_proc family0 = Some 0" "0 < length (ptable family0)" by (simp_all add: family0_def)
  have c: "\<forall>p \<in> set (ptable family0). \<not> dead_child 0 p" "\<not> ((\<forall>p \<in> set (ptable family0). \<not> child_of 0 p) \<or> killed (ptable family0 ! 0))"
    by (simp_all add: family0_def dead_child_def child_of_def proc0_def)
  with wait_spec [OF f] show ?thesis by (auto simp: wait_sleeps_def family0_def)
qed

subsection \<open>Exit\<close>

lemma wakeup1_nth:
  "i < length (ptable s) \<Longrightarrow> ptable (wakeup1 ch s) ! i = wake_one ch (ptable s ! i)"
  "length (ptable (wakeup1 ch s)) = length (ptable s)"
  by (simp_all add: wakeup1_def)

lemma wake_one_keeps [simp]:
  "parent (wake_one ch p) = parent p" "pid (wake_one ch p) = pid p"
  "pstate (wake_one ch p) = ZOMBIE \<longleftrightarrow> pstate p = ZOMBIE" "pstate p = RUNNABLE \<Longrightarrow> pstate (wake_one ch p) = RUNNABLE"
  by (simp_all add: wake_one_def)

lemma reparent_frame:
  "length (ptable (reparent me is s)) = length (ptable s)" "held (reparent me is s) = held s"
  "cpu_proc (reparent me is s) = cpu_proc s" "initproc (reparent me is s) = initproc s"
  by (induction me "is" s rule: reparent.induct) (simp_all add: Let_def upd_proc_def wakeup1_def)

lemma reparent_nth:
  assumes "j < length (ptable s)" "initproc s \<noteq> Some me"
  shows "parent (ptable (reparent me is s) ! j) =
      (if j \<in> set is \<and> parent (ptable s ! j) = Some me then initproc s else parent (ptable s ! j))
    \<and> pid (ptable (reparent me is s) ! j) = pid (ptable s ! j)
    \<and> (pstate (ptable s ! j) = RUNNABLE \<longrightarrow> pstate (ptable (reparent me is s) ! j) = RUNNABLE)"
  using assms
proof (induction "is" arbitrary: s)
  case (Cons i "is")
  show ?case
  proof (cases "parent (ptable s ! i) = Some me")
    case False
    with Cons show ?thesis by auto
  next
    case True
    define u where "u = upd_proc i (\<lambda>p. p\<lparr>parent := initproc s\<rparr>) s"
    define v where "v = (if pstate (ptable u ! i) = ZOMBIE then wakeup1 (proc_chan (initproc u)) u else u)"
    have e: "reparent me (i # is) s = reparent me is v" using True by (simp add: Let_def u_def v_def)
    have u: "ptable u = (ptable s)[i := (ptable s ! i)\<lparr>parent := initproc s\<rparr>]" "initproc u = initproc s"
      by (simp_all add: u_def upd_proc_def)
    have v: "length (ptable v) = length (ptable s)" "initproc v = initproc s"
      by (simp_all add: v_def u wakeup1_def)
    have vj: "parent (ptable v ! j) = (if j = i then initproc s else parent (ptable s ! j))"
      "pid (ptable v ! j) = pid (ptable s ! j)" "pstate (ptable s ! j) = RUNNABLE \<longrightarrow> pstate (ptable v ! j) = RUNNABLE"
      using Cons.prems(1) by (simp_all add: v_def wakeup1_nth u nth_list_update_if)
    from Cons.IH [of v] v vj Cons.prems True show ?thesis unfolding e by auto
  qed
qed simp

lemma reparent_wakes_init:
  assumes "initproc s = Some k" "k < length (ptable s)" "k \<noteq> me" "i \<in> set is" "i < length (ptable s)"
    "parent (ptable s ! i) = Some me" "pstate (ptable s ! i) = ZOMBIE"
    "pstate (ptable s ! k) = RUNNABLE \<or> pstate (ptable s ! k) = SLEEPING \<and> pchan (ptable s ! k) = Some (CProc k)"
  shows "pstate (ptable (reparent me is s) ! k) = RUNNABLE"
  using assms
proof (induction "is" arbitrary: s)
  case (Cons h "is")
  show ?case
  proof (cases "parent (ptable s ! h) = Some me")
    case False
    then have "i \<in> set is" using Cons.prems(4,6) by auto
    with Cons.IH [of s] Cons.prems False show ?thesis by simp
  next
    case True
    define u where "u = upd_proc h (\<lambda>p. p\<lparr>parent := initproc s\<rparr>) s"
    define v where "v = (if pstate (ptable u ! h) = ZOMBIE then wakeup1 (proc_chan (initproc u)) u else u)"
    have e: "reparent me (h # is) s = reparent me is v" using True by (simp add: Let_def u_def v_def)
    have u: "ptable u = (ptable s)[h := (ptable s ! h)\<lparr>parent := initproc s\<rparr>]" "initproc u = initproc s"
      by (simp_all add: u_def upd_proc_def)
    have v: "length (ptable v) = length (ptable s)" "initproc v = Some k"
      using Cons.prems(1) by (simp_all add: v_def u wakeup1_def)
    have us: "pstate (ptable u ! j) = pstate (ptable s ! j)" "pchan (ptable u ! j) = pchan (ptable s ! j)" if "j < length (ptable s)" for j
      using that by (simp_all add: u nth_list_update_if)
    show ?thesis
    proof (cases "h = i")
      case True
      then have "v = wakeup1 (Some (CProc k)) u"
        using us [OF Cons.prems(5)] Cons.prems(1,7) by (simp add: v_def u(2) proc_chan_def)
      then have "pstate (ptable v ! k) = RUNNABLE"
        using Cons.prems(2,8) us [OF Cons.prems(2)] by (auto simp: wakeup1_nth wake_one_def u(1))
      moreover have "initproc v \<noteq> Some me" using v Cons.prems(3) by simp
      ultimately show ?thesis unfolding e using reparent_nth [of k v me "is"] Cons.prems(2) v(1) by simp
    next
      case False
      have vi: "pstate (ptable v ! i) = ZOMBIE" "parent (ptable v ! i) = Some me"
        using Cons.prems(5-7) False by (simp_all add: v_def wakeup1_nth wake_one_def u nth_list_update_if)
      moreover have "pstate (ptable v ! k) = RUNNABLE \<or> pstate (ptable v ! k) = SLEEPING \<and> pchan (ptable v ! k) = Some (CProc k)"
        using Cons.prems(2,8) us [OF Cons.prems(2)] by (auto simp: v_def wakeup1_nth wake_one_def u(1))
      ultimately show ?thesis unfolding e
        using Cons.prems(2-5) False v by (intro Cons.IH) auto
    qed
  qed
qed simp

text \<open>The table that \<open>exit\<close> leaves behind.\<close>

lemma exit_finish_eq:
  assumes "held s = {}" "cpu_proc s = Some me" "me < length (ptable s)"
  shows "\<exists>t. exit_finish me s = Swtch t \<and> held t = {LPtable} \<and> cpu_proc t = Some me \<and> initproc t = initproc s
    \<and> ptable t = (let P = ptable (reparent me [0..<length (ptable s)] (wakeup1 (proc_chan (parent (ptable s ! me))) (s\<lparr>held := {LPtable}\<rparr>)))
                  in P[me := (P ! me)\<lparr>pstate := ZOMBIE\<rparr>])"
proof -
  define w where "w = wakeup1 (proc_chan (parent (ptable s ! me))) (s\<lparr>held := {LPtable}\<rparr>)"
  define r where "r = reparent me [0..<length (ptable s)] w"
  define z where "z = upd_proc me (\<lambda>p. p\<lparr>pstate := ZOMBIE\<rparr>) r"
  have w: "held w = {LPtable}" "cpu_proc w = Some me" "initproc w = initproc s" "length (ptable w) = length (ptable s)"
    using assms by (simp_all add: w_def wakeup1_def)
  have r: "held r = {LPtable}" "cpu_proc r = Some me" "initproc r = initproc s" "length (ptable r) = length (ptable s)"
    by (simp_all add: r_def reparent_frame w)
  have z: "held z = {LPtable}" "cpu_proc z = Some me" "initproc z = initproc s"
    "ptable z = (ptable r)[me := (ptable r ! me)\<lparr>pstate := ZOMBIE\<rparr>]"
    by (simp_all add: z_def upd_proc_def r)
  have "exit_finish me s = bnd (sched z) (\<lambda>_ _. Panic ''zombie exit'')"
    using assms by (simp add: exit_finish_def Let_def w_def [symmetric] w r_def [symmetric] z_def [symmetric])
  moreover have "sched z = Swtch z"
    using z r assms by (simp add: sched_def lk_holding_def myproc_def)
  ultimately have "exit_finish me s = Swtch z" by simp
  with z show ?thesis by (simp add: Let_def r_def w_def)
qed

lemma exit_finish_table:
  assumes "held s = {}" "cpu_proc s = Some me" "me < length (ptable s)" "initproc s \<noteq> Some me"
  shows "\<exists>t. exit_finish me s = Swtch t \<and> held t = {LPtable} \<and> cpu_proc t = Some me
    \<and> length (ptable t) = length (ptable s) \<and> pstate (ptable t ! me) = ZOMBIE
    \<and> (\<forall>j < length (ptable s). pid (ptable t ! j) = pid (ptable s ! j)
        \<and> parent (ptable t ! j) = (if parent (ptable s ! j) = Some me then initproc s else parent (ptable s ! j))
        \<and> (j \<noteq> me \<and> pstate (ptable s ! j) = SLEEPING \<and> pchan (ptable s ! j) = proc_chan (parent (ptable s ! me))
             \<longrightarrow> pstate (ptable t ! j) = RUNNABLE))
    \<and> (\<forall>i k. i < length (ptable s) \<and> parent (ptable s ! i) = Some me \<and> pstate (ptable s ! i) = ZOMBIE
        \<and> initproc s = Some k \<and> k < length (ptable s) \<and> pstate (ptable s ! k) = SLEEPING \<and> pchan (ptable s ! k) = Some (CProc k)
        \<longrightarrow> pstate (ptable t ! k) = RUNNABLE)"
proof -
  let ?w = "wakeup1 (proc_chan (parent (ptable s ! me))) (s\<lparr>held := {LPtable}\<rparr>)"
  have l: "length (ptable ?w) = length (ptable s)" "initproc ?w = initproc s" by (simp_all add: wakeup1_def)
  have w: "ptable ?w ! j = wake_one (proc_chan (parent (ptable s ! me))) (ptable s ! j)" if "j < length (ptable s)" for j
    using that by (simp add: wakeup1_nth)
  define P where "P = ptable (reparent me [0..<length (ptable s)] ?w)"
  have lp: "length P = length (ptable s)" by (simp add: P_def reparent_frame wakeup1_nth)
  have r: "pid (P ! j) = pid (ptable s ! j)"
    "parent (P ! j) = (if parent (ptable s ! j) = Some me then initproc s else parent (ptable s ! j))"
    "pstate (ptable s ! j) = SLEEPING \<and> pchan (ptable s ! j) = proc_chan (parent (ptable s ! me)) \<longrightarrow> pstate (P ! j) = RUNNABLE"
    if j: "j < length (ptable s)" for j
    using reparent_nth [of j ?w me "[0..<length (ptable s)]"] l assms(4) j w [OF j] by (simp_all add: wake_one_def P_def)
  from exit_finish_eq [OF assms(1-3)] obtain t where t: "exit_finish me s = Swtch t" "held t = {LPtable}" "cpu_proc t = Some me"
    "ptable t = P[me := (P ! me)\<lparr>pstate := ZOMBIE\<rparr>]" by (auto simp: Let_def P_def)
  have "length (ptable t) = length (ptable s)" by (simp add: t(4) lp)
  moreover have "pstate (ptable t ! me) = ZOMBIE" using assms(3) by (simp add: t(4) lp)
  moreover have "pid (ptable t ! j) = pid (ptable s ! j)
        \<and> parent (ptable t ! j) = (if parent (ptable s ! j) = Some me then initproc s else parent (ptable s ! j))
        \<and> (j \<noteq> me \<and> pstate (ptable s ! j) = SLEEPING \<and> pchan (ptable s ! j) = proc_chan (parent (ptable s ! me))
             \<longrightarrow> pstate (ptable t ! j) = RUNNABLE)" if j: "j < length (ptable s)" for j
    using r [OF j] j lp by (cases "j = me") (simp_all add: t(4))
  moreover have "pstate (ptable t ! k) = RUNNABLE"
    if ik: "i < length (ptable s) \<and> parent (ptable s ! i) = Some me \<and> pstate (ptable s ! i) = ZOMBIE
        \<and> initproc s = Some k \<and> k < length (ptable s) \<and> pstate (ptable s ! k) = SLEEPING \<and> pchan (ptable s ! k) = Some (CProc k)" for i k
  proof -
    have "k \<noteq> me" using ik assms(4) by auto
    moreover have "pstate (P ! k) = RUNNABLE"
      unfolding P_def using ik l w \<open>k \<noteq> me\<close>
      by (intro reparent_wakes_init [of _ _ _ i]) (auto simp: wake_one_def)
    ultimately show ?thesis by (simp add: t(4))
  qed
  ultimately show ?thesis using t(1-3) by blast
qed

lemma wait_resume_finds:
  assumes "held u = {LPtable}" "cpu_proc u = Some p" "me < length (ptable u)" "me \<noteq> p" "dead_child p (ptable u ! me)"
  shows "wait_resume u \<noteq> Swtch v"
    "wait_resume u = Ok r v \<Longrightarrow> \<exists>i < length (ptable u). dead_child p (ptable u ! i) \<and> r = pid (ptable u ! i) \<and> pstate (ptable v ! i) = UNUSED"
proof -
  define w where "w = upd_proc p (\<lambda>q. q\<lparr>pchan := None\<rparr>) u"
  have w: "held w = {LPtable}" "cpu_proc w = Some p" "ptable w = (ptable u)[p := (ptable u ! p)\<lparr>pchan := None\<rparr>]"
    using assms by (simp_all add: w_def upd_proc_def)
  have e: "wait_resume u = wait_loop p w"
    using assms by (simp add: wait_resume_def sleep_resume_def myproc_def w_def)
  have d: "dead_child p (ptable w ! i) = dead_child p (ptable u ! i)" "pid (ptable w ! i) = pid (ptable u ! i)" for i
    by (simp_all add: w(3) nth_list_update_if dead_child_def)
  have len: "length (ptable w) = length (ptable u)" by (simp add: w(3))
  have "dead_child p (ptable w ! me)" using d assms(5) by simp
  then have ex: "\<exists>q \<in> set (ptable w). dead_child p q" using assms(3) len by (metis nth_mem)
  note spec = wait_loop_spec [OF w(1,2)]
  show "wait_resume u \<noteq> Swtch v"
  proof
    assume "wait_resume u = Swtch v"
    then have "wait_loop p w = Swtch v" using e by simp
    from wp_SwtchD [OF spec this] ex show False by (auto simp: wait_sleeps_def)
  qed
  assume "wait_resume u = Ok r v"
  then have "wait_loop p w = Ok r v" using e by simp
  from wp_OkD [OF spec this] ex obtain i where "i < length (ptable w)" "dead_child p (ptable w ! i)" "r = pid (ptable w ! i)"
    "slot_freed i (ptable w) (ptable v)" by (auto simp: wait_result_def)
  with d len show "\<exists>i < length (ptable u). dead_child p (ptable u ! i) \<and> r = pid (ptable u ! i) \<and> pstate (ptable v ! i) = UNUSED"
    by (auto simp: slot_freed_def)
qed

text \<open>
  C14. The exit of a process is never missed by its parent. The end of \<open>exit\<close>, for any process but
  init, switches away and leaves a zombie. Every child of the dying process then has init as its
  parent, the other parent fields are as before, and if one of those children is itself a
  zombie, init is made runnable when it sleeps in \<open>wait\<close>. A parent asleep in \<open>wait\<close> is made runnable, and when it
  next runs, as long as the zombie is in its slot, its \<open>wait\<close> does not go back to sleep: if it
  returns, it returns the pid of a dead child and frees its slot.
\<close>

theorem exit_wait_handshake:
  assumes "held s = {}" "cpu_proc s = Some me" "me < length (ptable s)" "initproc s \<noteq> Some me"
  shows "\<exists>t. exit_finish me s = Swtch t \<and> length (ptable t) = length (ptable s) \<and> pstate (ptable t ! me) = ZOMBIE
    \<and> (\<forall>j < length (ptable s). parent (ptable t ! j) =
         (if parent (ptable s ! j) = Some me then initproc s else parent (ptable s ! j)))
    \<and> (\<forall>i k. i < length (ptable s) \<and> parent (ptable s ! i) = Some me \<and> pstate (ptable s ! i) = ZOMBIE
        \<and> initproc s = Some k \<and> k < length (ptable s) \<and> pstate (ptable s ! k) = SLEEPING \<and> pchan (ptable s ! k) = Some (CProc k)
        \<longrightarrow> pstate (ptable t ! k) = RUNNABLE)
    \<and> (\<forall>p. parent (ptable s ! me) = Some p \<and> p < length (ptable s) \<and> p \<noteq> me
        \<and> pstate (ptable s ! p) = SLEEPING \<and> pchan (ptable s ! p) = Some (CProc p) \<longrightarrow>
        pstate (ptable t ! p) = RUNNABLE
        \<and> (\<forall>u. held u = {LPtable} \<and> cpu_proc u = Some p \<and> length (ptable u) = length (ptable t) \<and> ptable u ! me = ptable t ! me \<longrightarrow>
            (\<forall>v. wait_resume u \<noteq> Swtch v)
            \<and> (\<forall>r v. wait_resume u = Ok r v \<longrightarrow>
                 (\<exists>i < length (ptable u). dead_child p (ptable u ! i) \<and> r = pid (ptable u ! i) \<and> pstate (ptable v ! i) = UNUSED))))"
proof -
  from exit_finish_table [OF assms] obtain t where t: "exit_finish me s = Swtch t" "length (ptable t) = length (ptable s)"
    "pstate (ptable t ! me) = ZOMBIE"
    "\<And>j. j < length (ptable s) \<Longrightarrow> parent (ptable t ! j) = (if parent (ptable s ! j) = Some me then initproc s else parent (ptable s ! j))"
    "\<And>j. j < length (ptable s) \<Longrightarrow> j \<noteq> me \<Longrightarrow> pstate (ptable s ! j) = SLEEPING \<Longrightarrow> pchan (ptable s ! j) = proc_chan (parent (ptable s ! me))
       \<Longrightarrow> pstate (ptable t ! j) = RUNNABLE"
    "\<forall>i k. i < length (ptable s) \<and> parent (ptable s ! i) = Some me \<and> pstate (ptable s ! i) = ZOMBIE
        \<and> initproc s = Some k \<and> k < length (ptable s) \<and> pstate (ptable s ! k) = SLEEPING \<and> pchan (ptable s ! k) = Some (CProc k)
        \<longrightarrow> pstate (ptable t ! k) = RUNNABLE" by blast
  have p: "pstate (ptable t ! p) = RUNNABLE
        \<and> (\<forall>u :: 'b kstate_scheme. held u = {LPtable} \<and> cpu_proc u = Some p \<and> length (ptable u) = length (ptable t) \<and> ptable u ! me = ptable t ! me \<longrightarrow>
            (\<forall>v. wait_resume u \<noteq> Swtch v)
            \<and> (\<forall>r v. wait_resume u = Ok r v \<longrightarrow>
                 (\<exists>i < length (ptable u). dead_child p (ptable u ! i) \<and> r = pid (ptable u ! i) \<and> pstate (ptable v ! i) = UNUSED)))"
    if p: "parent (ptable s ! me) = Some p \<and> p < length (ptable s) \<and> p \<noteq> me
        \<and> pstate (ptable s ! p) = SLEEPING \<and> pchan (ptable s ! p) = Some (CProc p)" for p
  proof (intro conjI allI impI)
    have d: "dead_child p (ptable t ! me)" using t(3) t(4) [OF assms(3)] p by (simp add: dead_child_def)
    show "pstate (ptable t ! p) = RUNNABLE" by (rule t(5)) (use p in \<open>simp_all add: proc_chan_def\<close>)
    fix u :: "'b kstate_scheme"
    assume u: "held u = {LPtable} \<and> cpu_proc u = Some p \<and> length (ptable u) = length (ptable t) \<and> ptable u ! me = ptable t ! me"
    have h: "held u = {LPtable}" "cpu_proc u = Some p" "me < length (ptable u)" "me \<noteq> p" "dead_child p (ptable u ! me)"
      using u d assms(3) p t(2) by simp_all
    show "wait_resume u \<noteq> Swtch v" for v by (rule wait_resume_finds [OF h])
    show "\<exists>i < length (ptable u). dead_child p (ptable u ! i) \<and> q = pid (ptable u ! i) \<and> pstate (ptable v ! i) = UNUSED"
      if "wait_resume u = Ok q v" for q v using wait_resume_finds [OF h] that by blast
  qed
  show ?thesis using t(1-4,6) p by (intro exI [of _ t]) blast
qed

definition family1 :: kstate where
  "family1 = kstate0\<lparr>initproc := Some 2, cpu_proc := Some 1, ptable := [proc0\<lparr>pid := 4, pstate := SLEEPING, pchan := Some (CProc 0)\<rparr>,
     proc0\<lparr>pid := 5, parent := Some 0\<rparr>, proc0\<lparr>pid := 1\<rparr>, proc0\<lparr>pid := 6, parent := Some 1\<rparr>]\<rparr>"

theorem exit_wait_handshake_witness:
  "\<exists>t. exit_finish 1 family1 = Swtch t \<and> pstate (ptable t ! 1) = ZOMBIE \<and> parent (ptable t ! 3) = Some 2 \<and> pstate (ptable t ! 0) = RUNNABLE"
proof -
  have h: "held family1 = {}" "cpu_proc family1 = Some 1" "1 < length (ptable family1)" "initproc family1 \<noteq> Some 1"
    and f: "parent (ptable family1 ! 1) = Some 0 \<and> 0 < length (ptable family1) \<and> 0 \<noteq> (1 :: nat)
      \<and> pstate (ptable family1 ! 0) = SLEEPING \<and> pchan (ptable family1 ! 0) = Some (CProc 0)"
    and c: "3 < length (ptable family1)" "parent (ptable family1 ! 3) = Some 1" "initproc family1 = Some 2"
    by (simp_all add: family1_def)
  from exit_wait_handshake [OF h] obtain t where t: "exit_finish 1 family1 = Swtch t" "pstate (ptable t ! 1) = ZOMBIE"
    "parent (ptable t ! 3) = Some 2" "pstate (ptable t ! 0) = RUNNABLE" using f c by auto
  then show ?thesis by blast
qed

end
