(* ===== verification/Mp.thy ===== *)
theory Mp
  imports Vm
begin

section \<open>The multiprocessor table (mp.c, mp.h)\<close>

text \<open>
  The search of the BIOS areas for the floating pointer structure, the checks of the configuration
  table it points to, and the walk over the entries of that table, which counts the processors.
  Memory is the byte memory of CString at kernel addresses. The walk does not move on at an entry
  of an unknown type, so it is a partial function.
\<close>

definition MPPROC :: byte where "MPPROC = 0x00"
definition MPBUS :: byte where "MPBUS = 0x01"
definition MPIOAPIC :: byte where "MPIOAPIC = 0x02"
definition MPIOINTR :: byte where "MPIOINTR = 0x03"
definition MPLINTR :: byte where "MPLINTR = 0x04"

text \<open>The fields of \<open>struct mp\<close>, \<open>struct mpconf\<close>, \<open>struct mpproc\<close> and \<open>struct mpioapic\<close> that are read.\<close>

definition ld16 :: "bmem \<Rightarrow> uint \<Rightarrow> ushort" where
  "ld16 m a = ucast (m a) OR push_bit 8 (ucast (m (a + 1)))"

definition mp_physaddr :: "bmem \<Rightarrow> uint \<Rightarrow> uint" where "mp_physaddr m p = ld32 m (p + 4)"
definition mp_imcrp :: "bmem \<Rightarrow> uint \<Rightarrow> byte" where "mp_imcrp m p = m (p + 12)"
definition mpconf_length :: "bmem \<Rightarrow> uint \<Rightarrow> ushort" where "mpconf_length m p = ld16 m (p + 4)"
definition mpconf_version :: "bmem \<Rightarrow> uint \<Rightarrow> byte" where "mpconf_version m p = m (p + 6)"
definition mpconf_lapicaddr :: "bmem \<Rightarrow> uint \<Rightarrow> uint" where "mpconf_lapicaddr m p = ld32 m (p + 36)"
definition mpproc_apicid :: "bmem \<Rightarrow> uint \<Rightarrow> byte" where "mpproc_apicid m p = m (p + 1)"
definition mpioapic_apicno :: "bmem \<Rightarrow> uint \<Rightarrow> byte" where "mpioapic_apicno m p = m (p + 1)"

subsection \<open>The search\<close>

fun mp_sum_loop :: "bmem \<Rightarrow> uint \<Rightarrow> nat \<Rightarrow> cint \<Rightarrow> cint" where
  "mp_sum_loop m a 0 acc = acc"
| "mp_sum_loop m a (Suc n) acc = mp_sum_loop m (a + 1) n (acc + ucast (m a))"

definition mp_sum :: "bmem \<Rightarrow> uint \<Rightarrow> nat \<Rightarrow> byte" where
  "mp_sum m a len = ucast (mp_sum_loop m a len 0)"

text \<open>\<open>memcmp\<close> with a string literal.\<close>

fun starts :: "bmem \<Rightarrow> uint \<Rightarrow> byte list \<Rightarrow> bool" where
  "starts m p [] = True"
| "starts m p (b # bs) = (m p = b \<and> starts m (p + 1) bs)"

text \<open>The candidates \<open>addr, addr + 16, \<dots>\<close> below \<open>addr + len\<close>, \<open>n\<close> of them.\<close>

fun mpsearch1_loop :: "bmem \<Rightarrow> uint \<Rightarrow> nat \<Rightarrow> uint option" where
  "mpsearch1_loop m p 0 = None"
| "mpsearch1_loop m p (Suc n) =
     (if starts m p (str ''_MP_'') \<and> mp_sum m p 16 = 0 then Some p else mpsearch1_loop m (p + 16) n)"

definition mpsearch1 :: "bmem \<Rightarrow> uint \<Rightarrow> nat \<Rightarrow> uint option" where
  "mpsearch1 m a len = mpsearch1_loop m (P2V a) ((len + 15) div 16)"

definition mpsearch :: "bmem \<Rightarrow> uint option" where
  "mpsearch m =
     (let bda = P2V 0x400;
          p = push_bit 4 (push_bit 8 (ucast (m (bda + 0x0F))) OR ucast (m (bda + 0x0E))) :: uint;
          r = (if p \<noteq> 0 then mpsearch1 m p 1024
               else let p = (push_bit 8 (ucast (m (bda + 0x14))) OR ucast (m (bda + 0x13))) * 1024
                    in mpsearch1 m (p - 1024) 1024)
      in case r of Some mp \<Rightarrow> Some mp | None \<Rightarrow> mpsearch1 m 0xF0000 0x10000)"

definition mpconfig :: "bmem \<Rightarrow> (uint \<times> uint) option" where
  "mpconfig m =
     (case mpsearch m of
        None \<Rightarrow> None
      | Some mp \<Rightarrow>
          if mp_physaddr m mp = 0 then None
          else let conf = P2V (mp_physaddr m mp) in
            if \<not> starts m conf (str ''PCMP'') then None
            else if mpconf_version m conf \<noteq> 1 \<and> mpconf_version m conf \<noteq> 4 then None
            else if mp_sum m conf (unat (mpconf_length m conf)) \<noteq> 0 then None
            else Some (mp, conf))"

subsection \<open>The entries\<close>

text \<open>\<open>cpu_ids\<close> are the \<open>apicid\<close> fields of \<open>cpus[0 .. ncpu - 1]\<close>; \<open>io_ports\<close> the bytes sent to I/O ports.\<close>

record mpstate =
  cpu_ids :: "byte list"
  io_apicid :: byte
  lapic_addr :: uint
  io_ports :: "(ushort \<times> byte) list"

definition NCPU :: nat where "NCPU = 8"

partial_function (option) mp_entries :: "bmem \<Rightarrow> uint \<Rightarrow> uint \<Rightarrow> bool \<Rightarrow> mpstate \<Rightarrow> (bool \<times> mpstate) option" where
  "mp_entries m p e ismp s =
     (if p < e then
        (if m p = MPPROC then
           mp_entries m (p + 20) e ismp
             (if length (cpu_ids s) < NCPU then s\<lparr>cpu_ids := cpu_ids s @ [mpproc_apicid m p]\<rparr> else s)
         else if m p = MPIOAPIC then mp_entries m (p + 8) e ismp (s\<lparr>io_apicid := mpioapic_apicno m p\<rparr>)
         else if m p = MPBUS \<or> m p = MPIOINTR \<or> m p = MPLINTR then mp_entries m (p + 8) e ismp s
         else mp_entries m p e False s)
      else Some (ismp, s))"

text \<open>\<open>None\<close>: the walk never ends. \<open>imcr\<close> is what port 0x23 holds.\<close>

definition mpinit :: "bmem \<Rightarrow> byte \<Rightarrow> mpstate \<Rightarrow> (mpstate, unit) outcome option" where
  "mpinit m imcr s =
     (case mpconfig m of
        None \<Rightarrow> Some (Panic ''Expect to run on an SMP'')
      | Some (mp, conf) \<Rightarrow>
          map_option (\<lambda>(ismp, s).
            if \<not> ismp then Panic ''Didn't find a suitable machine''
            else if mp_imcrp m mp \<noteq> 0
            then Ok () (s\<lparr>io_ports := io_ports s @ [(0x22, 0x70), (0x23, imcr OR 1)]\<rparr>)
            else Ok () s)
          (mp_entries m (conf + 44) (conf + ucast (mpconf_length m conf)) True
             (s\<lparr>lapic_addr := mpconf_lapicaddr m conf\<rparr>)))"

subsection \<open>What the walk computes\<close>

datatype mpent = EProc byte | EIoapic byte | EOther byte

fun ent_ok :: "bmem \<Rightarrow> uint \<Rightarrow> mpent \<Rightarrow> bool" where
  "ent_ok m p (EProc a) \<longleftrightarrow> m p = MPPROC \<and> mpproc_apicid m p = a"
| "ent_ok m p (EIoapic a) \<longleftrightarrow> m p = MPIOAPIC \<and> mpioapic_apicno m p = a"
| "ent_ok m p (EOther t) \<longleftrightarrow> m p = t \<and> (t = MPBUS \<or> t = MPIOINTR \<or> t = MPLINTR)"

fun ent_size :: "mpent \<Rightarrow> uint" where
  "ent_size (EProc a) = 20"
| "ent_size (EIoapic a) = 8"
| "ent_size (EOther t) = 8"

text \<open>The bytes from \<open>p\<close> to \<open>q\<close>, below the end \<open>e\<close> of the table, are the entries \<open>es\<close>.\<close>

fun table_at :: "bmem \<Rightarrow> uint \<Rightarrow> mpent list \<Rightarrow> uint \<Rightarrow> uint \<Rightarrow> bool" where
  "table_at m p [] q e \<longleftrightarrow> p = q"
| "table_at m p (x # xs) q e \<longleftrightarrow> p < e \<and> ent_ok m p x \<and> table_at m (p + ent_size x) xs q e"

fun take_ent :: "mpent \<Rightarrow> mpstate \<Rightarrow> mpstate" where
  "take_ent (EProc a) s = s\<lparr>cpu_ids := take NCPU (cpu_ids s @ [a])\<rparr>"
| "take_ent (EIoapic a) s = s\<lparr>io_apicid := a\<rparr>"
| "take_ent (EOther t) s = s"

lemmas mp_types = MPPROC_def MPBUS_def MPIOAPIC_def MPIOINTR_def MPLINTR_def

lemma mp_entries_table:
  "table_at m p es q e \<Longrightarrow> length (cpu_ids s) \<le> NCPU \<Longrightarrow>
    mp_entries m p e ismp s = mp_entries m q e ismp (fold take_ent es s)"
proof (induction es arbitrary: p s)
  case (Cons x xs)
  have "mp_entries m p e ismp s = mp_entries m (p + ent_size x) e ismp (take_ent x s)"
    using Cons.prems by (cases x) (auto simp: mp_entries.simps [of m p] mp_types)
  moreover have "length (cpu_ids (take_ent x s)) \<le> NCPU" using Cons.prems(2) by (cases x) auto
  ultimately show ?case using Cons by simp
qed simp

lemma mp_entries_stuck:
  assumes "mp_entries m p e ismp s = Some r" "p < e"
  shows "m p \<in> {MPPROC, MPBUS, MPIOAPIC, MPIOINTR, MPLINTR}"
proof -
  have "p < e \<longrightarrow> m p \<in> {MPPROC, MPBUS, MPIOAPIC, MPIOINTR, MPLINTR}"
    by (rule mp_entries.raw_induct [where P = "\<lambda>m p e ismp s r. p < e \<longrightarrow> m p \<in> {MPPROC, MPBUS, MPIOAPIC, MPIOINTR, MPLINTR}", OF _ assms(1)])
      (auto split: if_splits, blast)
  with assms(2) show ?thesis by blast
qed

lemma cpu_ids_fold:
  "length (cpu_ids s) \<le> NCPU \<Longrightarrow>
    cpu_ids (fold take_ent es s) = take NCPU (cpu_ids s @ concat (map (\<lambda>x. case x of EProc a \<Rightarrow> [a] | _ \<Rightarrow> []) es))"
proof (induction es arbitrary: s)
  case (Cons x xs)
  have "length (cpu_ids (take_ent x s)) \<le> NCPU" using Cons.prems by (cases x) auto
  from Cons.IH [OF this] Cons.prems show ?case by (cases x) (auto simp: take_append min_def take_Cons')
qed simp

lemma io_apicid_fold:
  "io_apicid (fold take_ent es s) = last (io_apicid s # concat (map (\<lambda>x. case x of EIoapic a \<Rightarrow> [a] | _ \<Rightarrow> []) es))"
proof (induction es arbitrary: s)
  case (Cons x xs)
  show ?case by (cases x) (simp_all add: Cons)
qed simp

text \<open>
  C19. The walk over the multiprocessor table. When the bytes between the header and the end of the
  table are entries of known types, it ends; the processors are the first eight processor entries
  in their order and the I/O APIC is the last one listed. When they are such entries followed by an
  entry of an unknown type before the end, the walk never ends: the code stays at that entry, and
  the panic the code has for this case is not reached.
\<close>

theorem mp_table_walk:
  assumes "length (cpu_ids s) \<le> NCPU" "table_at m p es q e"
  shows "(\<not> q < e \<longrightarrow> (\<exists>t. mp_entries m p e True s = Some (True, t)
        \<and> cpu_ids t = take NCPU (cpu_ids s @ concat (map (\<lambda>x. case x of EProc a \<Rightarrow> [a] | _ \<Rightarrow> []) es))
        \<and> io_apicid t = last (io_apicid s # concat (map (\<lambda>x. case x of EIoapic a \<Rightarrow> [a] | _ \<Rightarrow> []) es))))
    \<and> (q < e \<and> m q \<notin> {MPPROC, MPBUS, MPIOAPIC, MPIOINTR, MPLINTR} \<longrightarrow> mp_entries m p e True s = None)"
proof (intro conjI impI)
  note w = mp_entries_table [OF assms(2,1), of True]
  show "\<exists>t. mp_entries m p e True s = Some (True, t)
      \<and> cpu_ids t = take NCPU (cpu_ids s @ concat (map (\<lambda>x. case x of EProc a \<Rightarrow> [a] | _ \<Rightarrow> []) es))
      \<and> io_apicid t = last (io_apicid s # concat (map (\<lambda>x. case x of EIoapic a \<Rightarrow> [a] | _ \<Rightarrow> []) es))"
    if "\<not> q < e"
    using that cpu_ids_fold [OF assms(1), of es] io_apicid_fold [of es s] by (simp add: w mp_entries.simps [of m q])
  show "mp_entries m p e True s = None" if "q < e \<and> m q \<notin> {MPPROC, MPBUS, MPIOAPIC, MPIOINTR, MPLINTR}"
    using that mp_entries_stuck [of m q e True "fold take_ent es s"] w by (cases "mp_entries m q e True (fold take_ent es s)") auto
qed

text \<open>A table of two processors and an I/O APIC, and one with an entry of type 5 in place of the APIC.\<close>

definition mp0 :: mpstate where
  "mp0 = \<lparr>cpu_ids = [], io_apicid = 0, lapic_addr = 0, io_ports = []\<rparr>"

definition mptable :: "byte \<Rightarrow> bmem" where
  "mptable ty = (\<lambda>_. 0)(101 := 7, 121 := 9, 140 := ty, 141 := 3)"

theorem mp_table_walk_witness:
  "(\<exists>t. mp_entries (mptable MPIOAPIC) 100 148 True mp0 = Some (True, t) \<and> cpu_ids t = [7, 9] \<and> io_apicid t = 3)
    \<and> mp_entries (mptable 5) 100 148 True mp0 = None"
proof
  have n: "length (cpu_ids mp0) \<le> NCPU" by (simp add: mp0_def)
  have "table_at (mptable MPIOAPIC) 100 [EProc 7, EProc 9, EIoapic 3] 148 148"
    by (simp add: mptable_def mp_types mpproc_apicid_def mpioapic_apicno_def)
  from mp_table_walk [OF n this]
  show "\<exists>t. mp_entries (mptable MPIOAPIC) 100 148 True mp0 = Some (True, t) \<and> cpu_ids t = [7, 9] \<and> io_apicid t = 3"
    by (simp add: mp0_def NCPU_def)
  have "table_at (mptable 5) 100 [EProc 7, EProc 9] 140 148"
    by (simp add: mptable_def mp_types mpproc_apicid_def)
  from mp_table_walk [OF n this] show "mp_entries (mptable 5) 100 148 True mp0 = None"
    by (simp add: mptable_def mp_types)
qed

end
