(* ===== verification/Apic.thy ===== *)
theory Apic
  imports Segments Mp
begin

section \<open>Interrupt controllers and the serial port (lapic.c, ioapic.c, picirq.c, uart.c)\<close>

text \<open>
  The register writes that set up the local APIC, the I/O APIC, the old PICs and the serial port.
  The local APIC is the list of writes it received; what its registers answer is an argument. The
  redirection registers of the I/O APIC hold what was last written to them. After initialisation
  exactly the interrupts that a driver enabled are unmasked, each on its own vector, and a second
  processor starts at the address it is given.
\<close>

record apicstate = tty +
  lapic :: uint
  lapic_writes :: "(uint \<times> uint) list"
  ioapicid :: byte
  ioapic_regs :: "uint \<Rightarrow> uint"
  outb_log :: "(ushort \<times> byte) list"
  phys_low :: bmem

definition port_out :: "ushort \<Rightarrow> byte \<Rightarrow> 'z apicstate_scheme \<Rightarrow> 'z apicstate_scheme" where
  "port_out port v s = s\<lparr>outb_log := outb_log s @ [(port, v)]\<rparr>"

subsection \<open>The local APIC\<close>

definition LA_TPR :: uint where "LA_TPR = 0x0080 div 4"
definition LA_EOI :: uint where "LA_EOI = 0x00B0 div 4"
definition LA_SVR :: uint where "LA_SVR = 0x00F0 div 4"
definition LA_ENABLE :: uint where "LA_ENABLE = 0x00000100"
definition LA_ESR :: uint where "LA_ESR = 0x0280 div 4"
definition LA_ICRLO :: uint where "LA_ICRLO = 0x0300 div 4"
definition LA_INIT :: uint where "LA_INIT = 0x00000500"
definition LA_STARTUP :: uint where "LA_STARTUP = 0x00000600"
definition LA_DELIVS :: uint where "LA_DELIVS = 0x00001000"
definition LA_ASSERT :: uint where "LA_ASSERT = 0x00004000"
definition LA_LEVEL :: uint where "LA_LEVEL = 0x00008000"
definition LA_BCAST :: uint where "LA_BCAST = 0x00080000"
definition LA_ICRHI :: uint where "LA_ICRHI = 0x0310 div 4"
definition LA_TIMER :: uint where "LA_TIMER = 0x0320 div 4"
definition LA_X1 :: uint where "LA_X1 = 0x0000000B"
definition LA_PERIODIC :: uint where "LA_PERIODIC = 0x00020000"
definition LA_PCINT :: uint where "LA_PCINT = 0x0340 div 4"
definition LA_LINT0 :: uint where "LA_LINT0 = 0x0350 div 4"
definition LA_LINT1 :: uint where "LA_LINT1 = 0x0360 div 4"
definition LA_ERROR :: uint where "LA_ERROR = 0x0370 div 4"
definition LA_MASKED :: uint where "LA_MASKED = 0x00010000"
definition LA_TICR :: uint where "LA_TICR = 0x0380 div 4"
definition LA_TDCR :: uint where "LA_TDCR = 0x03E0 div 4"
definition IRQ_ERROR :: uint where "IRQ_ERROR = 19"

definition lapicw :: "uint \<Rightarrow> uint \<Rightarrow> 'z apicstate_scheme \<Rightarrow> 'z apicstate_scheme" where
  "lapicw index v s = s\<lparr>lapic_writes := lapic_writes s @ [(index, v)]\<rparr>"

text \<open>The wait for the delivery status to clear; \<open>icr\<close> lists what the register answers, and with no
  answer left the loop has not ended.\<close>

fun lapic_wait :: "uint list \<Rightarrow> 'z apicstate_scheme \<Rightarrow> ('z apicstate_scheme, unit) outcome" where
  "lapic_wait [] s = Spin"
| "lapic_wait (v # vs) s = (if v AND LA_DELIVS \<noteq> 0 then lapic_wait vs s else Ok () s)"

definition lapicinit :: "uint \<Rightarrow> uint list \<Rightarrow> 'z apicstate_scheme \<Rightarrow> ('z apicstate_scheme, unit) outcome" where
  "lapicinit ver icr s =
     (if lapic s = 0 then Ok () s
      else
        let s = lapicw LA_SVR (LA_ENABLE OR (T_IRQ0 + IRQ_SPURIOUS)) s;
            s = lapicw LA_TDCR LA_X1 s;
            s = lapicw LA_TIMER (LA_PERIODIC OR (T_IRQ0 + IRQ_TIMER)) s;
            s = lapicw LA_TICR 10000000 s;
            s = lapicw LA_LINT0 LA_MASKED s;
            s = lapicw LA_LINT1 LA_MASKED s;
            s = (if drop_bit 16 ver AND 0xFF \<ge> 4 then lapicw LA_PCINT LA_MASKED s else s);
            s = lapicw LA_ERROR (T_IRQ0 + IRQ_ERROR) s;
            s = lapicw LA_ESR 0 s;
            s = lapicw LA_ESR 0 s;
            s = lapicw LA_EOI 0 s;
            s = lapicw LA_ICRHI 0 s;
            s = lapicw LA_ICRLO (LA_BCAST OR LA_INIT OR LA_LEVEL) s
        in bnd (lapic_wait icr s) (\<lambda>_ s. Ok () (lapicw LA_TPR 0 s)))"

definition lapicid :: "uint \<Rightarrow> 'z apicstate_scheme \<Rightarrow> uint" where
  "lapicid idreg s = (if lapic s = 0 then 0 else drop_bit 24 idreg)"

definition lapiceoi :: "'z apicstate_scheme \<Rightarrow> 'z apicstate_scheme" where
  "lapiceoi s = (if lapic s \<noteq> 0 then lapicw LA_EOI 0 s else s)"

definition CMOS_PORT :: ushort where "CMOS_PORT = 0x70"

definition st16 :: "uint \<Rightarrow> ushort \<Rightarrow> bmem \<Rightarrow> bmem" where
  "st16 a v m = m(a := ucast v, a + 1 := ucast (drop_bit 8 v))"

fun startap_loop :: "nat \<Rightarrow> byte \<Rightarrow> uint \<Rightarrow> 'z apicstate_scheme \<Rightarrow> 'z apicstate_scheme" where
  "startap_loop 0 aid addr s = s"
| "startap_loop (Suc n) aid addr s =
     startap_loop n aid addr
       (lapicw LA_ICRLO (LA_STARTUP OR drop_bit 12 addr)
         (lapicw LA_ICRHI (push_bit 24 (ucast aid)) s))"

definition lapicstartap :: "byte \<Rightarrow> uint \<Rightarrow> 'z apicstate_scheme \<Rightarrow> 'z apicstate_scheme" where
  "lapicstartap aid addr s =
     (let s = port_out CMOS_PORT 0xF s;
          s = port_out (CMOS_PORT + 1) 0x0A s;
          wrv = P2V (push_bit 4 0x40 OR 0x67);
          s = s\<lparr>phys_low := st16 wrv 0 (phys_low s)\<rparr>;
          s = s\<lparr>phys_low := st16 (wrv + 2) (ucast (drop_bit 4 addr)) (phys_low s)\<rparr>;
          s = lapicw LA_ICRHI (push_bit 24 (ucast aid)) s;
          s = lapicw LA_ICRLO (LA_INIT OR LA_LEVEL OR LA_ASSERT) s;
          s = lapicw LA_ICRLO (LA_INIT OR LA_LEVEL) s
      in startap_loop 2 aid addr s)"

subsection \<open>The I/O APIC and the PICs\<close>

definition REG_ID :: uint where "REG_ID = 0x00"
definition REG_VER :: uint where "REG_VER = 0x01"
definition REG_TABLE :: uint where "REG_TABLE = 0x10"
definition INT_DISABLED :: uint where "INT_DISABLED = 0x00010000"

definition ioapicread :: "uint \<Rightarrow> 'z apicstate_scheme \<Rightarrow> uint" where
  "ioapicread reg s = ioapic_regs s reg"

definition ioapicwrite :: "uint \<Rightarrow> uint \<Rightarrow> 'z apicstate_scheme \<Rightarrow> 'z apicstate_scheme" where
  "ioapicwrite reg v s = s\<lparr>ioapic_regs := (ioapic_regs s)(reg := v)\<rparr>"

text \<open>The loop from \<open>i\<close> on, \<open>n\<close> rounds.\<close>

fun ioapicinit_loop :: "uint \<Rightarrow> nat \<Rightarrow> 'z apicstate_scheme \<Rightarrow> 'z apicstate_scheme" where
  "ioapicinit_loop i 0 s = s"
| "ioapicinit_loop i (Suc n) s =
     ioapicinit_loop (i + 1) n
       (ioapicwrite (REG_TABLE + 2 * i + 1) 0
         (ioapicwrite (REG_TABLE + 2 * i) (INT_DISABLED OR (T_IRQ0 + i)) s))"

definition ioapicinit :: "'z apicstate_scheme \<Rightarrow> ('z apicstate_scheme, unit) outcome" where
  "ioapicinit s =
     (let maxintr = drop_bit 16 (ioapicread REG_VER s) AND 0xFF;
          id = drop_bit 24 (ioapicread REG_ID s)
      in bnd (if id \<noteq> ucast (ioapicid s)
              then cprintf (str (''ioapicinit: id isn't equal to ioapicid; not a MP'' @ [CHR 0x0A])) [] s
              else Ok () s)
           (\<lambda>_ s. Ok () (ioapicinit_loop 0 (Suc (unat maxintr)) s)))"

definition ioapicenable :: "uint \<Rightarrow> uint \<Rightarrow> 'z apicstate_scheme \<Rightarrow> 'z apicstate_scheme" where
  "ioapicenable irq cpunum s =
     ioapicwrite (REG_TABLE + 2 * irq + 1) (push_bit 24 cpunum)
       (ioapicwrite (REG_TABLE + 2 * irq) (T_IRQ0 + irq) s)"

definition IO_PIC1 :: ushort where "IO_PIC1 = 0x20"
definition IO_PIC2 :: ushort where "IO_PIC2 = 0xA0"

definition picinit :: "'z apicstate_scheme \<Rightarrow> 'z apicstate_scheme" where
  "picinit s = port_out (IO_PIC2 + 1) 0xFF (port_out (IO_PIC1 + 1) 0xFF s)"

subsection \<open>The serial port\<close>

definition COM1 :: ushort where "COM1 = 0x3f8"

text \<open>\<open>lsr\<close> is what the line status register answers.\<close>

definition uartinit :: "byte \<Rightarrow> 'z apicstate_scheme \<Rightarrow> 'z apicstate_scheme" where
  "uartinit lsr s =
     (let s = port_out (COM1 + 2) 0 s;
          s = port_out (COM1 + 3) 0x80 s;
          s = port_out (COM1 + 0) (word_of_int (115200 div 9600)) s;
          s = port_out (COM1 + 1) 0 s;
          s = port_out (COM1 + 3) 0x03 s;
          s = port_out (COM1 + 4) 0 s;
          s = port_out (COM1 + 1) 0x01 s
      in if lsr = 0xFF then s
         else fold (\<lambda>c s. uartputc (sint c) s) (str (''xv6...'' @ [CHR 0x0A]))
                (ioapicenable IRQ_COM1 0 (s\<lparr>uart := True\<rparr>)))"

text \<open>\<open>rbr\<close> is what the receive buffer answers; the result is the \<open>int\<close>, \<open>-1\<close> for no byte.\<close>

definition uartgetc :: "byte \<Rightarrow> byte \<Rightarrow> 'z apicstate_scheme \<Rightarrow> int" where
  "uartgetc lsr rbr s =
     (if \<not> uart s then - 1 else if lsr AND 0x01 = 0 then - 1 else uint rbr)"

subsection \<open>Which interrupts are delivered, and where\<close>

text \<open>How the I/O APIC reads entry \<open>i\<close> of its redirection table.\<close>

definition rt_masked :: "(uint \<Rightarrow> uint) \<Rightarrow> nat \<Rightarrow> bool" where
  "rt_masked r i \<longleftrightarrow> bit (r (0x10 + 2 * of_nat i)) 16"

definition rt_vector :: "(uint \<Rightarrow> uint) \<Rightarrow> nat \<Rightarrow> nat" where
  "rt_vector r i = unat (r (0x10 + 2 * of_nat i) AND 0xFF)"

definition rt_dest :: "(uint \<Rightarrow> uint) \<Rightarrow> nat \<Rightarrow> uint" where
  "rt_dest r i = drop_bit 24 (r (0x10 + 2 * of_nat i + 1))"

text \<open>The delivery mode is zero for a fixed interrupt.\<close>

definition rt_fixed :: "(uint \<Rightarrow> uint) \<Rightarrow> nat \<Rightarrow> bool" where
  "rt_fixed r i \<longleftrightarrow> r (0x10 + 2 * of_nat i) AND 0x700 = 0"

text \<open>The drivers' calls of \<open>ioapicenable\<close>, in order.\<close>

definition enable_all :: "(nat \<times> uint) list \<Rightarrow> 'z apicstate_scheme \<Rightarrow> 'z apicstate_scheme" where
  "enable_all es s = fold (\<lambda>(irq, cpu) s. ioapicenable (of_nat irq) cpu s) es s"

definition lo_value :: "(nat \<times> uint) list \<Rightarrow> nat \<Rightarrow> uint" where
  "lo_value es i = (case map_of es i of None \<Rightarrow> INT_DISABLED OR (T_IRQ0 + of_nat i) | Some _ \<Rightarrow> T_IRQ0 + of_nat i)"

definition hi_value :: "(nat \<times> uint) list \<Rightarrow> nat \<Rightarrow> uint" where
  "hi_value es i = (case map_of es i of None \<Rightarrow> 0 | Some cpu \<Rightarrow> push_bit 24 cpu)"

definition table_is :: "nat \<Rightarrow> (nat \<times> uint) list \<Rightarrow> (uint \<Rightarrow> uint) \<Rightarrow> bool" where
  "table_is n es r \<longleftrightarrow> (\<forall>i<n. r (0x10 + 2 * of_nat i) = lo_value es i \<and> r (0x10 + 2 * of_nat i + 1) = hi_value es i)"

lemma table_index_distinct:
  assumes "i < 256" "j < 256"
  shows "(0x10 + 2 * of_nat i = (0x10 + 2 * of_nat j :: uint)) = (i = j)"
    "(0x10 + 2 * of_nat i + 1 = (0x10 + 2 * of_nat j + 1 :: uint)) = (i = j)"
    "0x10 + 2 * of_nat i \<noteq> (0x10 + 2 * of_nat j + 1 :: uint)"
    "0x10 + 2 * of_nat i + 1 \<noteq> (0x10 + 2 * of_nat j :: uint)"
proof -
  have u: "unat (0x10 + 2 * of_nat k :: uint) = 16 + 2 * k" "unat (0x10 + 2 * of_nat k + 1 :: uint) = 17 + 2 * k"
    if "k < 256" for k
  proof -
    have "0x10 + 2 * of_nat k = (of_nat (16 + 2 * k) :: uint)" "0x10 + 2 * of_nat k + 1 = (of_nat (17 + 2 * k) :: uint)"
      by simp_all
    then show "unat (0x10 + 2 * of_nat k :: uint) = 16 + 2 * k" "unat (0x10 + 2 * of_nat k + 1 :: uint) = 17 + 2 * k"
      using that by (simp_all only: unat_of_nat) simp_all
  qed
  show "(0x10 + 2 * of_nat i = (0x10 + 2 * of_nat j :: uint)) = (i = j)"
    "(0x10 + 2 * of_nat i + 1 = (0x10 + 2 * of_nat j + 1 :: uint)) = (i = j)"
    "0x10 + 2 * of_nat i \<noteq> (0x10 + 2 * of_nat j + 1 :: uint)"
    "0x10 + 2 * of_nat i + 1 \<noteq> (0x10 + 2 * of_nat j :: uint)"
    unfolding word_unat_eq_iff using u [OF assms(1)] u [OF assms(2)] by presburger+
qed

lemma ioapicinit_loop_table:
  assumes "k + n \<le> 256" "table_is k [] (ioapic_regs s)"
  shows "table_is (k + n) [] (ioapic_regs (ioapicinit_loop (of_nat k) n s))"
  using assms
proof (induction n arbitrary: k s)
  case (Suc n)
  define t where "t = ioapicwrite (REG_TABLE + 2 * of_nat k + 1) 0
    (ioapicwrite (REG_TABLE + 2 * of_nat k) (INT_DISABLED OR (T_IRQ0 + of_nat k)) s)"
  have "table_is (Suc k) [] (ioapic_regs t)"
    using Suc.prems table_index_distinct
    by (auto simp: table_is_def t_def ioapicwrite_def REG_TABLE_def lo_value_def hi_value_def less_Suc_eq)
  from Suc.IH [OF _ this] Suc.prems(1)
  have "table_is (Suc k + n) [] (ioapic_regs (ioapicinit_loop (of_nat (Suc k)) n t))" by simp
  then show ?case by (simp add: t_def add.commute)
qed simp

lemma ioapicenable_table:
  assumes "table_is n es (ioapic_regs s)" "n \<le> 256" "irq < n"
  shows "table_is n ((irq, cpu) # es) (ioapic_regs (ioapicenable (of_nat irq) cpu s))"
  using assms table_index_distinct
  by (auto simp: table_is_def ioapicenable_def ioapicwrite_def REG_TABLE_def lo_value_def hi_value_def)

lemma enable_all_table:
  assumes "table_is n fs (ioapic_regs s)" "n \<le> 256" "\<forall>e \<in> set es. fst e < n"
  shows "table_is n (rev es @ fs) (ioapic_regs (enable_all es s))"
  using assms
proof (induction es arbitrary: fs s)
  case (Cons e es)
  obtain irq cpu where e: "e = (irq, cpu)" by fastforce
  from Cons.prems e have "table_is n ((irq, cpu) # fs) (ioapic_regs (ioapicenable (of_nat irq) cpu s))"
    by (intro ioapicenable_table) auto
  from Cons.IH [OF this] Cons.prems show ?case by (simp add: enable_all_def e)
qed (simp add: enable_all_def)

lemma ioapicinit_Ok:
  assumes "screen_ok s" "LCons \<notin> held s" "n = Suc (unat (drop_bit 16 (ioapic_regs s REG_VER) AND 0xFF))"
  shows "\<exists>s1. ioapicinit s = Ok () s1 \<and> table_is n [] (ioapic_regs s1) \<and> n \<le> 256"
proof -
  define msg where "msg = str (''ioapicinit: id isn't equal to ioapicid; not a MP'' @ [CHR 0x0A])"
  have "cprintf_chars msg [] = Some (map uint msg)" unfolding msg_def by code_simp
  from cprintf_Ok [OF assms(1,2) this] obtain t where
    t: "cprintf msg [] s = Ok () t" "ioapic_regs t = ioapic_regs s" by auto
  define other where "other \<longleftrightarrow> drop_bit 24 (ioapicread REG_ID s) \<noteq> ucast (ioapicid s)"
  define u where "u = (if other then t else s)"
  have u: "(if other then cprintf msg [] s else Ok () s) = Ok () u" "ioapic_regs u = ioapic_regs s"
    using t by (simp_all add: u_def)
  have "drop_bit 16 (ioapic_regs s REG_VER) AND 0xFF \<le> (0xFF :: uint)" by (rule word_and_le1)
  then have n: "n \<le> 256" using assms(3) by (simp add: word_le_nat_alt)
  then have "table_is n [] (ioapic_regs (ioapicinit_loop 0 n u))"
    using ioapicinit_loop_table [of 0 n u] by (simp add: table_is_def)
  moreover have "ioapicinit s = Ok () (ioapicinit_loop 0 n u)"
    unfolding ioapicinit_def Let_def msg_def [symmetric] other_def [symmetric] u(1)
    by (simp add: assms(3) ioapicread_def del: ioapicinit_loop.simps)
  ultimately show ?thesis using n by blast
qed

lemma drop_push_byte: "drop_bit 24 (push_bit 24 x) = x AND 0xFF" for x :: uint
proof -
  have "x AND 0xFF = take_bit 8 x" by (simp add: take_bit_eq_mask mask_eq_exp_minus_1)
  moreover have "drop_bit 24 (push_bit 24 x) = take_bit 8 x" by (rule bit_word_eqI) (auto simp: bit_simps)
  ultimately show ?thesis by simp
qed

lemma low_byte: "unat (w AND 0xFF) = unat w mod 256" for w :: uint
proof -
  have "w AND 0xFF = take_bit 8 w" by (simp add: take_bit_eq_mask mask_eq_exp_minus_1)
  then have "unat (w AND 0xFF) = take_bit 8 (unat w)" by (simp only: unsigned_take_bit_eq)
  then show ?thesis by (simp add: take_bit_eq_mod)
qed

lemma low_byte_same:
  assumes "unat w < 256"
  shows "w AND 0xFF = (w :: uint)"
  using assms low_byte [of w] by (simp add: word_unat_eq_iff)

lemma bit_16_small: "unat w < 65536 \<Longrightarrow> \<not> bit w 16" for w :: uint
proof -
  assume "unat w < 65536"
  then have "unat (take_bit 16 w) = unat w" by (simp add: unsigned_take_bit_eq take_bit_nat_eq_self)
  then have "take_bit 16 w = w" by (simp add: word_unat_eq_iff)
  then have "bit w 16 = bit (take_bit 16 w) 16" by simp
  then show ?thesis by (simp only: bit_take_bit_iff) simp
qed

lemma entry_decode:
  assumes "i < 256"
  shows "bit (lo_value es i) 16 = (map_of es i = None)" "unat (lo_value es i AND 0xFF) = (32 + i) mod 256"
    "lo_value es i AND 0x700 = (if i < 224 then 0 else 0x100)"
proof -
  define w :: uint where "w = T_IRQ0 + of_nat i"
  have "w = of_nat (32 + i)" by (simp add: w_def T_IRQ0_def)
  then have w: "unat w = 32 + i" using assms by (simp add: unat_of_nat del: of_nat_add)
  have b: "\<not> bit w 16" using w assms by (intro bit_16_small) simp
  have "w AND 0x700 = (if i < 224 then 0 else 0x100)"
  proof (cases "i < 224")
    case True
    then have "w AND 0xFF = w" using w by (intro low_byte_same) simp
    then have "w AND 0x700 = w AND (0xFF AND 0x700)" by (metis and.assoc)
    then show ?thesis using True by simp
  next
    case False
    define v where "v = w - 0x100"
    have v: "unat v = i - 224" using w False by (simp add: v_def unat_sub word_le_nat_alt)
    then have lv: "v AND 0xFF = v" using assms by (intro low_byte_same) simp
    have "v AND 0x100 = v AND (0xFF AND 0x100)" "v AND 0x700 = v AND (0xFF AND 0x700)" using lv by (metis and.assoc)+
    then have z: "v AND 0x100 = 0" "v AND 0x700 = 0" by simp_all
    have "w = v + 0x100" by (simp add: v_def)
    also have "\<dots> = v OR 0x100" using z(1) by (simp add: disjunctive_add_eq_or)
    finally show ?thesis using z(2) False by (simp add: bit.conj_disj_distrib2)
  qed
  moreover have "bit INT_DISABLED 16" "INT_DISABLED AND 0xFF = 0" "INT_DISABLED AND 0x700 = 0" by code_simp+
  ultimately show "bit (lo_value es i) 16 = (map_of es i = None)" "unat (lo_value es i AND 0xFF) = (32 + i) mod 256"
    "lo_value es i AND 0x700 = (if i < 224 then 0 else 0x100)"
    using b low_byte [of w] w
    by (auto simp: lo_value_def bit_simps bit.conj_disj_distrib2 simp flip: w_def split: option.split)
qed

text \<open>
  C18. After \<open>ioapicinit\<close> and any sequence of calls of \<open>ioapicenable\<close> for interrupts of the
  controller, an interrupt is masked exactly when no driver enabled it; interrupt \<open>i\<close> has the vector
  \<open>T_IRQ0 + i\<close> modulo 256, the width of the vector field, so no two share one; and an enabled
  interrupt goes to the processor of the last call that named it, the number cut to the eight bits of
  the destination field. The sum leaves the vector field for the interrupts from 224 on, and
  only for those it changes the delivery mode from fixed.
\<close>

theorem ioapic_routing:
  assumes "screen_ok s" "LCons \<notin> held s"
    and "m = unat (drop_bit 16 (ioapic_regs s REG_VER) AND 0xFF)"
    and "\<forall>e \<in> set es. fst e \<le> m" "i \<le> m"
  shows "\<exists>s1. ioapicinit s = Ok () s1 \<and>
    (let r = ioapic_regs (enable_all es s1) in
       rt_masked r i = (i \<notin> fst ` set es) \<and> rt_vector r i = (unat T_IRQ0 + i) mod 256
       \<and> (\<forall>j \<le> m. rt_vector r j = rt_vector r i \<longrightarrow> j = i)
       \<and> rt_dest r i = (case map_of (rev es) i of None \<Rightarrow> 0 | Some cpu \<Rightarrow> cpu AND 0xFF)
       \<and> (rt_fixed r i \<longleftrightarrow> i < 224))"
proof -
  from ioapicinit_Ok [OF assms(1,2) HOL.refl] assms(3) obtain s1 where
    s1: "ioapicinit s = Ok () s1" "table_is (Suc m) [] (ioapic_regs s1)" "Suc m \<le> 256" by auto
  let ?r = "ioapic_regs (enable_all es s1)"
  have "table_is (Suc m) (rev es) ?r"
    using enable_all_table [OF s1(2,3)] assms(4) by (simp add: le_imp_less_Suc)
  then have e: "?r (0x10 + 2 * of_nat j) = lo_value (rev es) j" "?r (0x10 + 2 * of_nat j + 1) = hi_value (rev es) j"
    if "j \<le> m" for j using that by (auto simp: table_is_def)
  have v: "rt_vector ?r j = (32 + j) mod 256" if "j \<le> m" for j
    using entry_decode(2) [of j "rev es"] e(1) [OF that] that s1(3) by (simp add: rt_vector_def)
  have "j = i" if "j \<le> m" "rt_vector ?r j = rt_vector ?r i" for j
  proof -
    have "(32 + j) mod 256 = (32 + i) mod 256" using v that assms(5) by metis
    then have "j mod 256 = i mod 256" by (simp add: nat_mod_eq_iff)
    then show ?thesis using that(1) assms(5) s1(3) by simp
  qed
  moreover have "(map_of (rev es) i = None) = (i \<notin> fst ` set es)" by (simp add: map_of_eq_None_iff)
  moreover have "i < 256" using assms(5) s1(3) by simp
  ultimately show ?thesis
    using s1(1) entry_decode(1,3) [of i "rev es"] e [OF assms(5)] v [OF assms(5)]
    by (intro exI [of _ s1])
      (auto simp: drop_push_byte Let_def rt_masked_def rt_fixed_def rt_dest_def hi_value_def T_IRQ0_def split: option.split)
qed

text \<open>Sixteen interrupt lines; the keyboard, the serial port and the disk enabled for processors 0, 0 and 1.\<close>

definition apic0 :: apicstate where
  "apic0 = \<lparr>held = {}, cons_locking = True, panicked = False, uart = True, uart_out = [],
     crt = (\<lambda>_. 0), crt_pos = 0, lapic = 0xFEE00000, lapic_writes = [], ioapicid = 2,
     ioapic_regs = (\<lambda>_. 0)(1 := 0x000F0011, 0 := 0x02000000), outb_log = [], phys_low = (\<lambda>_. 0)\<rparr>"

theorem ioapic_routing_witness:
  "\<exists>s1. ioapicinit apic0 = Ok () s1 \<and>
    (let r = ioapic_regs (enable_all [(1, 0), (4, 0), (14, 1)] s1) in
       \<not> rt_masked r 14 \<and> rt_vector r 14 = 46 \<and> rt_dest r 14 = 1)"
  using ioapic_routing [of apic0 15 "[(1, 0), (4, 0), (14, 1)]" 14]
  by (auto simp: apic0_def screen_ok_def REG_VER_def T_IRQ0_def Let_def drop_bit_eq_div)

subsection \<open>Starting a processor\<close>

lemma st16_ld16: "ld16 (st16 a v m) a = v"
proof (rule bit_word_eqI)
  fix n assume "n < LENGTH(16)"
  then show "bit (ld16 (st16 a v m) a) n = bit v n"
    by (auto simp: ld16_def st16_def bit_simps)
qed

lemma st16_other: "b \<noteq> a \<Longrightarrow> b \<noteq> a + 1 \<Longrightarrow> st16 a v m b = m b"
  by (simp add: st16_def)

text \<open>
  For an entry point on a page boundary below one megabyte, the last command that \<open>lapicstartap\<close> sends
  is a startup interrupt to the named processor whose vector is the page of the entry point, and
  the warm reset vector in the BIOS data area, read as segment and offset, is the entry point too.
\<close>

theorem startap_entry:
  assumes "addr < 0x100000" "4096 dvd unat addr"
  shows "let s' = lapicstartap aid addr s;
             icrlo = snd (last (lapic_writes s'));
             icrhi = snd (last (butlast (lapic_writes s')))
         in fst (last (lapic_writes s')) = LA_ICRLO \<and> fst (last (butlast (lapic_writes s'))) = LA_ICRHI
          \<and> drop_bit 24 icrhi = ucast aid
          \<and> icrlo AND 0x700 = LA_STARTUP \<and> (icrlo AND 0xFF) * 4096 = addr
          \<and> 16 * ucast (ld16 (phys_low s') (P2V 0x469)) + ucast (ld16 (phys_low s') (P2V 0x467)) = addr"
proof -
  define k where "k = drop_bit 12 addr"
  have ua: "unat addr < 0x100000" using assms(1) by (simp add: word_less_nat_alt)
  have uk: "unat k = unat addr div 4096" by (simp add: k_def drop_bit_eq_div unat_div)
  then have k: "unat k < 256" using ua by simp
  have ak: "addr = k * 4096"
    using uk k assms(2) by (intro word_unat_eq_iff [THEN iffD2]) (simp add: unat_word_ariths)
  have mk: "k AND 0xFF = k" using k by (rule low_byte_same)
  then have "k AND 0x700 = k AND (0xFF AND 0x700)" by (metis and.assoc)
  then have hk: "k AND 0x700 = 0" by simp
  have dest: "drop_bit 24 (push_bit 24 (ucast aid :: uint)) = ucast aid"
    by (rule bit_word_eqI) (auto simp: bit_simps dest: bit_imp_le_length)
  define g where "g = drop_bit 4 addr"
  have ug: "unat g = unat addr div 16" by (simp add: g_def drop_bit_eq_div unat_div)
  have "16 dvd unat addr" using assms(2) by (rule dvd_trans [rotated]) simp
  then have g: "16 * g = addr" using ug ua by (intro word_unat_eq_iff [THEN iffD2]) (simp add: unat_word_ariths)
  have "ucast (ucast g :: ushort) = g"
    using ug ua by (intro word_unat_eq_iff [THEN iffD2]) (simp add: unsigned_ucast_eq unsigned_take_bit_eq take_bit_nat_eq_self)
  moreover have "ld16 (st16 (P2V 0x469) v (st16 (P2V 0x467) 0 m)) (P2V 0x467) = 0" for v m
    by (simp add: ld16_def st16_def P2V_def)
  moreover have "(LA_STARTUP OR k) AND 0x700 = LA_STARTUP" "(LA_STARTUP OR k) AND 0xFF = k"
    using mk hk by (simp_all add: bit.conj_disj_distrib2 LA_STARTUP_def)
  ultimately show ?thesis
    using dest g ak [symmetric]
    by (simp add: Let_def lapicstartap_def lapicw_def port_out_def numeral_2_eq_2 st16_ld16 butlast_append
        P2V_def flip: k_def g_def)
qed

theorem startap_entry_witness:
  "let s' = lapicstartap 1 0x7000 apic0 in (snd (last (lapic_writes s')) AND 0xFF) * 4096 = 0x7000"
  using startap_entry [of "0x7000" 1 apic0] by (simp add: Let_def)

end
