(* ===== verification/Umalloc.thy ===== *)
theory Umalloc
  imports Spinlock
begin

section \<open>The user-level allocator (umalloc.c)\<close>

text \<open>
  Kernighan and Ritchie's allocator: a circular list of free blocks in address order, first fit
  from the last place used, coalescing on \<open>free\<close>, and \<open>sbrk\<close> when the list has no block that is
  large enough. Memory is the two fields of the header at every address; a header is 8 bytes and
  headers of different blocks never overlap. Both loops walk a circular list, so they are
  partial functions, and that they return is proved.
\<close>

record uheap =
  hptr :: "uint \<Rightarrow> uint"
  hsize :: "uint \<Rightarrow> uint"
  freep :: uint
  brk :: uint

definition set_ptr :: "uint \<Rightarrow> uint \<Rightarrow> uheap \<Rightarrow> uheap" where
  "set_ptr p v s = s\<lparr>hptr := (hptr s)(p := v)\<rparr>"

definition set_size :: "uint \<Rightarrow> uint \<Rightarrow> uheap \<Rightarrow> uheap" where
  "set_size p v s = s\<lparr>hsize := (hsize s)(p := v)\<rparr>"

subsection \<open>sbrk\<close>

text \<open>
  What the system call does to the size of the process: \<open>growproc\<close> of proc.c with the return values
  of \<open>allocuvm\<close> and \<open>deallocuvm\<close>. \<open>avail n\<close> says that the kernel has the frames to grow the process
  to \<open>n\<close> bytes. A size that wraps around leaves the process as it is and the call succeeds.
\<close>

definition sbrk :: "(uint \<Rightarrow> bool) \<Rightarrow> cint \<Rightarrow> uheap \<Rightarrow> uint \<times> uheap" where
  "sbrk avail n s =
     (let old = brk s; new = old + n in
      if 0 <s n then
        (if new \<ge> KERNBASE then (- 1, s)
         else if new < old then (old, s)
         else if avail new then (old, s\<lparr>brk := new\<rparr>) else (- 1, s))
      else if n <s 0 then
        (if new \<ge> old then (if old = 0 then - 1 else old, s)
         else if new = 0 then (- 1, s) else (old, s\<lparr>brk := new\<rparr>))
      else (old, s))"

subsection \<open>free\<close>

partial_function (option) free_search :: "uheap \<Rightarrow> uint \<Rightarrow> uint \<Rightarrow> uint option" where
  "free_search s bp p =
     (if bp > p \<and> bp < hptr s p then Some p
      else if p \<ge> hptr s p \<and> (bp > p \<or> bp < hptr s p) then Some p
      else free_search s bp (hptr s p))"

definition ufree :: "uint \<Rightarrow> uheap \<Rightarrow> uheap option" where
  "ufree ap s =
     (let bp = ap - 8 in
      case free_search s bp (freep s) of
        None \<Rightarrow> None
      | Some p \<Rightarrow>
          let s = (if bp + 8 * hsize s bp = hptr s p
                   then let s = set_size bp (hsize s bp + hsize s (hptr s p)) s
                        in set_ptr bp (hptr s (hptr s p)) s
                   else set_ptr bp (hptr s p) s);
              s = (if p + 8 * hsize s p = bp
                   then let s = set_size p (hsize s p + hsize s bp) s
                        in set_ptr p (hptr s bp) s
                   else set_ptr p bp s)
          in Some (s\<lparr>freep := p\<rparr>))"

subsection \<open>malloc\<close>

definition morecore :: "(uint \<Rightarrow> bool) \<Rightarrow> uint \<Rightarrow> uheap \<Rightarrow> (uint \<times> uheap) option" where
  "morecore avail nu s =
     (let nu = (if nu < 4096 then 4096 else nu);
          (p, s) = sbrk avail (nu * 8) s
      in if p = - 1 then Some (0, s)
         else case ufree (p + 8) (set_size p nu s) of
                None \<Rightarrow> None
              | Some s \<Rightarrow> Some (freep s, s))"

definition malloc_take :: "uint \<Rightarrow> uint \<Rightarrow> uint \<Rightarrow> uheap \<Rightarrow> uint \<times> uheap" where
  "malloc_take nunits prevp p s =
     (let (p, s) =
        (if hsize s p = nunits then (p, set_ptr prevp (hptr s p) s)
         else let s = set_size p (hsize s p - nunits) s;
                  p = p + 8 * hsize s p
              in (p, set_size p nunits s))
      in (p + 8, s\<lparr>freep := prevp\<rparr>))"

partial_function (option) malloc_loop ::
  "(uint \<Rightarrow> bool) \<Rightarrow> uint \<Rightarrow> uint \<Rightarrow> uint \<Rightarrow> uheap \<Rightarrow> (uint \<times> uheap) option" where
  "malloc_loop avail nunits prevp p s =
     (if hsize s p \<ge> nunits then Some (malloc_take nunits prevp p s)
      else if p = freep s then
        (case morecore avail nunits s of
           None \<Rightarrow> None
         | Some (p, s) \<Rightarrow> if p = 0 then Some (0, s) else malloc_loop avail nunits p (hptr s p) s)
      else malloc_loop avail nunits p (hptr s p) s)"

definition malloc_units :: "uint \<Rightarrow> uint" where
  "malloc_units nbytes = (nbytes + 8 - 1) div 8 + 1"

text \<open>\<open>base\<close> is the address of the static header.\<close>

definition malloc :: "uint \<Rightarrow> (uint \<Rightarrow> bool) \<Rightarrow> uint \<Rightarrow> uheap \<Rightarrow> (uint \<times> uheap) option" where
  "malloc base avail nbytes s =
     (let nunits = malloc_units nbytes;
          s = (if freep s = 0 then set_size base 0 ((set_ptr base base s)\<lparr>freep := base\<rparr>) else s);
          prevp = freep s
      in malloc_loop avail nunits prevp (hptr s prevp) s)"

subsection \<open>Walking the ring\<close>

text \<open>The successor of \<open>x\<close> among the addresses \<open>F\<close>, in circular order.\<close>

definition nxt :: "uint set \<Rightarrow> uint \<Rightarrow> uint" where
  "nxt F x = (if {y \<in> F. x < y} = {} then Min F else Min {y \<in> F. x < y})"

lemma fin_uint [simp]: "finite (F :: uint set)"
  by (rule finite_subset [OF subset_UNIV]) simp

lemma nxt_up:
  assumes "y \<in> F" "x < y" "\<And>z. z \<in> F \<Longrightarrow> x < z \<Longrightarrow> y \<le> z"
  shows "nxt F x = y"
proof -
  have "Min {y \<in> F. x < y} = y" using assms by (intro Min_eqI) auto
  moreover have "{y \<in> F. x < y} \<noteq> {}" using assms(1,2) by blast
  ultimately show ?thesis unfolding nxt_def by (simp only: if_False simp_thms)
qed

definition least :: "uint \<Rightarrow> uint set \<Rightarrow> bool" where
  "least b F \<longleftrightarrow> b \<in> F \<and> (\<forall>z\<in>F. b \<le> z)"

lemma nxt_last:
  assumes "least b F" "\<forall>z\<in>F. z \<le> x"
  shows "nxt F x = b"
proof -
  have "Min F = b" using assms(1) by (intro Min_eqI) (auto simp: least_def)
  moreover have "{y \<in> F. x < y} = {}" using assms(2) by (auto simp: not_less)
  ultimately show ?thesis unfolding nxt_def by (simp only: if_True simp_thms)
qed

definition goes_up :: "uint set \<Rightarrow> uint \<Rightarrow> bool" where
  "goes_up F x \<longleftrightarrow> nxt F x \<in> F \<and> x < nxt F x \<and> (\<forall>z\<in>F. x < z \<longrightarrow> nxt F x \<le> z)"

lemma nxt_cases:
  assumes "least b F"
  shows "goes_up F x \<or> (nxt F x = b \<and> (\<forall>z\<in>F. z \<le> x))"
proof (cases "{y \<in> F. x < y} = {}")
  case True
  then have "\<forall>z\<in>F. z \<le> x" by (auto simp: not_less)
  with nxt_last [OF assms] show ?thesis by blast
next
  case False
  then have "Min {y \<in> F. x < y} \<in> {y \<in> F. x < y}" by (intro Min_in) auto
  moreover have "nxt F x = Min {y \<in> F. x < y}" using False unfolding nxt_def by (simp only: if_False simp_thms)
  ultimately show ?thesis by (auto simp: goes_up_def)
qed

lemma nxt_in: "least b F \<Longrightarrow> nxt F x \<in> F"
  using nxt_cases [of b F x] by (auto simp: goes_up_def least_def)

lemma nxt_pow_in: "least b F \<Longrightarrow> x \<in> F \<Longrightarrow> (nxt F ^^ k) x \<in> F"
  by (induction k) (simp_all add: nxt_in)

lemma nxt_reach_least:
  assumes "least b F" "x \<in> F"
  shows "\<exists>k. (nxt F ^^ Suc k) x = b"
  using assms(2)
proof (induction "card {y \<in> F. x < y}" arbitrary: x rule: less_induct)
  case less
  show ?case
  proof (cases "goes_up F x")
    case True
    then have up: "nxt F x \<in> F" "x < nxt F x" by (auto simp: goes_up_def)
    then have "{y \<in> F. nxt F x < y} \<subset> {y \<in> F. x < y}" by auto
    then have "card {y \<in> F. nxt F x < y} < card {y \<in> F. x < y}" by (intro psubset_card_mono) auto
    from less.hyps [OF this up(1)] obtain k where "(nxt F ^^ Suc k) (nxt F x) = b" by blast
    then have "(nxt F ^^ Suc (Suc k)) x = b" by (simp only: funpow_Suc_right o_apply)
    then show ?thesis by blast
  next
    case False
    with nxt_cases [OF assms(1), of x] have "(nxt F ^^ Suc 0) x = b" by simp
    then show ?thesis by blast
  qed
qed

lemma nxt_pred:
  assumes "least b F" "b < y"
  obtains p where "p \<in> F" "p < y" "\<forall>z\<in>F. p < z \<longrightarrow> y \<le> z"
proof -
  define p where "p = Max {z \<in> F. z < y}"
  have "b \<in> {z \<in> F. z < y}" using assms by (auto simp: least_def)
  then have "p \<in> {z \<in> F. z < y}" unfolding p_def by (intro Max_in) auto
  moreover have "\<forall>z\<in>F. p < z \<longrightarrow> y \<le> z"
  proof (intro ballI impI)
    fix z assume "z \<in> F" "p < z"
    show "y \<le> z"
    proof (rule ccontr)
      assume "\<not> y \<le> z"
      with \<open>z \<in> F\<close> have "z \<le> p" unfolding p_def by (intro Max_ge) auto
      with \<open>p < z\<close> show False by simp
    qed
  qed
  ultimately show thesis using that by blast
qed

lemma nxt_from_least:
  assumes "least b F" "y \<in> F"
  shows "\<exists>k. (nxt F ^^ k) b = y"
  using assms(2)
proof (induction "card {z \<in> F. z < y}" arbitrary: y rule: less_induct)
  case less
  show ?case
  proof (cases "y = b")
    case True
    then show ?thesis by (intro exI [of _ 0]) simp
  next
    case False
    with assms(1) less.prems have "b < y" by (auto simp: least_def)
    from nxt_pred [OF assms(1) this] obtain p where
      p: "p \<in> F" "p < y" "\<forall>z\<in>F. p < z \<longrightarrow> y \<le> z" by blast
    have "nxt F p = y" by (rule nxt_up [OF less.prems p(2)]) (use p(3) in blast)
    moreover have "{z \<in> F. z < p} \<subset> {z \<in> F. z < y}" using p by auto
    then have "card {z \<in> F. z < p} < card {z \<in> F. z < y}" by (intro psubset_card_mono) auto
    from less.hyps [OF this p(1)] obtain k where "(nxt F ^^ k) b = p" by blast
    ultimately have "(nxt F ^^ Suc k) b = y" by simp
    then show ?thesis by blast
  qed
qed

lemma nxt_reach:
  assumes "least b F" "x \<in> F" "y \<in> F"
  shows "\<exists>k. (nxt F ^^ Suc k) x = y"
proof -
  obtain i where i: "(nxt F ^^ Suc i) x = b" using nxt_reach_least [OF assms(1,2)] by blast
  obtain j where "(nxt F ^^ j) b = y" using nxt_from_least [OF assms(1,3)] by blast
  then have "(nxt F ^^ (j + Suc i)) x = y" by (simp only: funpow_add o_apply i)
  then show ?thesis by (intro exI [of _ "j + i"]) simp
qed

text \<open>How the ring changes when a block is inserted or removed.\<close>

lemma goes_upD:
  assumes "goes_up F x"
  shows "nxt F x \<in> F" "x < nxt F x" "z \<in> F \<Longrightarrow> x < z \<Longrightarrow> nxt F x \<le> z"
  using assms by (auto simp: goes_up_def)

lemma nxt_insert_self:
  assumes "least b F" "p \<in> F" "p < y" "\<forall>z\<in>F. p < z \<longrightarrow> y < z"
  shows "nxt (insert y F) y = nxt F p"
proof (cases "goes_up F p")
  case True
  note up = goes_upD [OF True]
  show ?thesis
  proof (rule nxt_up)
    show "nxt F p \<in> insert y F" "y < nxt F p" using up assms(4) by auto
    fix z assume "z \<in> insert y F" "y < z"
    then show "nxt F p \<le> z" using up(3) [of z] assms(3) by auto
  qed
next
  case False
  with nxt_cases [OF assms(1), of p] have l: "nxt F p = b" "\<forall>z\<in>F. z \<le> p" by blast+
  have "least b (insert y F)" using assms by (auto simp: least_def)
  then show ?thesis using l assms(3) nxt_last [of b "insert y F" y] by force
qed

lemma nxt_insert_other:
  assumes "least b F" "p \<in> F" "p < y" "\<forall>z\<in>F. p < z \<longrightarrow> y < z" "x \<in> F" "x \<noteq> p"
  shows "nxt (insert y F) x = nxt F x"
proof (cases "goes_up F x")
  case True
  note up = goes_upD [OF True]
  have "nxt F x \<le> y" if "x < y"
  proof -
    have "x < p" using assms(4-6) that by (metis linorder_neqE not_less_iff_gr_or_eq)
    then show ?thesis using up(3) [OF assms(2)] assms(3) by simp
  qed
  then show ?thesis using up by (intro nxt_up) auto
next
  case False
  with nxt_cases [OF assms(1), of x] have l: "nxt F x = b" "\<forall>z\<in>F. z \<le> x" by blast+
  with assms(2,5,6) have "p < x" by force
  then have "y < x" using assms(4,5) by blast
  moreover have "least b (insert y F)" using assms by (auto simp: least_def)
  ultimately show ?thesis using l nxt_last [of b "insert y F" x] by auto
qed

lemma nxt_insert_before:
  assumes "p < y" "\<forall>z\<in>F. p < z \<longrightarrow> y < z"
  shows "nxt (insert y F) p = y"
  by (rule nxt_up) (use assms in auto)

lemma nxt_remove_next:
  assumes "least b F" "y \<noteq> b" "nxt F x = y" "x \<noteq> y"
  shows "nxt (F - {y}) x = nxt F y"
proof -
  have "goes_up F x" using nxt_cases [OF assms(1), of x] assms by auto
  note up = goes_upD [OF this, unfolded assms(3)]
  show ?thesis
  proof (cases "goes_up F y")
    case True
    note u = goes_upD [OF True]
    show ?thesis
    proof (rule nxt_up)
      show "nxt F y \<in> F - {y}" "x < nxt F y" using u(1,2) up(2) by auto
      fix z assume "z \<in> F - {y}" "x < z"
      then show "nxt F y \<le> z" using up(3) [of z] u(3) [of z] by auto
    qed
  next
    case False
    with nxt_cases [OF assms(1), of y] have l: "nxt F y = b" "\<forall>z\<in>F. z \<le> y" by blast+
    have "z \<le> x" if "z \<in> F - {y}" for z
      using up(3) [of z] l(2) that by force
    moreover have "least b (F - {y})" using assms by (auto simp: least_def)
    ultimately show ?thesis using nxt_last [of b "F - {y}" x] l(1) by simp
  qed
qed

lemma nxt_remove_other:
  assumes "least b F" "y \<noteq> b" "nxt F x \<noteq> y"
  shows "nxt (F - {y}) x = nxt F x"
proof (cases "goes_up F x")
  case True
  note up = goes_upD [OF True]
  show ?thesis using up assms by (intro nxt_up) auto
next
  case False
  with nxt_cases [OF assms(1), of x] have l: "nxt F x = b" "\<forall>z\<in>F. z \<le> x" by blast+
  moreover have "least b (F - {y})" using assms by (auto simp: least_def)
  ultimately show ?thesis using nxt_last [of b "F - {y}" x] by auto
qed

subsection \<open>The heap invariant\<close>

text \<open>
  \<open>F\<close> are the headers on the free list, the static one at \<open>b\<close> included, and \<open>A\<close> the headers of the
  blocks in use. The list is the ring of \<open>F\<close> in address order; all blocks are disjoint, non-empty
  and inside the heap.
\<close>

definition bend :: "uheap \<Rightarrow> uint \<Rightarrow> nat" where
  "bend s x = unat x + 8 * unat (hsize s x)"

definition block_in :: "uint \<Rightarrow> uheap \<Rightarrow> uint \<Rightarrow> bool" where
  "block_in b s x \<longleftrightarrow> 1 \<le> unat (hsize s x) \<and> unat b + 8 \<le> unat x \<and> bend s x \<le> unat (brk s)"

definition blocks_ok :: "uint \<Rightarrow> uint set \<Rightarrow> uheap \<Rightarrow> bool" where
  "blocks_ok b B s \<longleftrightarrow> (\<forall>x\<in>B. block_in b s x) \<and> (\<forall>x\<in>B. \<forall>y\<in>B. x < y \<longrightarrow> bend s x \<le> unat y)"

definition ring_ok :: "uint \<Rightarrow> uint set \<Rightarrow> uheap \<Rightarrow> bool" where
  "ring_ok b F s \<longleftrightarrow> least b F \<and> (\<forall>x\<in>F. hptr s x = nxt F x)"

definition heap_ok :: "uint \<Rightarrow> uint set \<Rightarrow> uint set \<Rightarrow> uheap \<Rightarrow> bool" where
  "heap_ok b F A s \<longleftrightarrow>
     b \<noteq> 0 \<and> ring_ok b F s \<and> A \<inter> F = {} \<and> hsize s b = 0 \<and> blocks_ok b (F \<union> A - {b}) s
     \<and> unat b + 8 \<le> unat (brk s) \<and> unat (brk s) < 2 ^ 31"

definition coalesced :: "uint set \<Rightarrow> uheap \<Rightarrow> bool" where
  "coalesced F s \<longleftrightarrow> (\<forall>x\<in>F. \<forall>y\<in>F. x < y \<longrightarrow> bend s x \<noteq> unat y)"

text \<open>The bytes from the header of \<open>a\<close> to the end of its block are as before: no header that meets them changed.\<close>

definition keeps :: "uint \<Rightarrow> uheap \<Rightarrow> uheap \<Rightarrow> bool" where
  "keeps a s s' \<longleftrightarrow> (\<forall>x. unat a < unat x + 8 \<longrightarrow> unat x < bend s a \<longrightarrow> hptr s' x = hptr s x \<and> hsize s' x = hsize s x)"

definition units :: "uint set \<Rightarrow> uheap \<Rightarrow> nat" where
  "units B s = (\<Sum>x\<in>B. unat (hsize s x))"

lemma heap_sel [simp]:
  "hsize (set_ptr p v s) = hsize s" "hptr (set_size p v s) = hptr s"
  "hptr (set_ptr p v s) = (hptr s)(p := v)" "hsize (set_size p v s) = (hsize s)(p := v)"
  "brk (set_ptr p v s) = brk s" "brk (set_size p v s) = brk s"
  "freep (set_ptr p v s) = freep s" "freep (set_size p v s) = freep s"
  by (simp_all add: set_ptr_def set_size_def)

lemma block_bound:
  assumes "block_in b s x" "unat (brk s) < 2 ^ 31"
  shows "8 * unat (hsize s x) < 2 ^ 31" "bend s x < 2 ^ 31" "b < x"
  using assms by (auto simp: block_in_def bend_def word_less_nat_alt)

lemma unat_bend:
  assumes "bend s x < 2 ^ 32"
  shows "unat (x + 8 * hsize s x) = bend s x"
proof -
  have "unat (8 * hsize s x) = 8 * unat (hsize s x)" using assms by (simp add: unat_word_ariths bend_def)
  then show ?thesis using assms by (simp add: unat_word_ariths bend_def)
qed

lemma heap_ok_cong:
  assumes "heap_ok b F A s" "hptr s' = hptr s" "hsize s' = hsize s" "brk s' = brk s"
  shows "heap_ok b F A s'"
  using assms by (simp add: heap_ok_def ring_ok_def blocks_ok_def block_in_def bend_def)

lemma keeps_trans:
  assumes "keeps a s s1" "keeps a s1 s2" "8 \<le> bend s a - unat a"
  shows "keeps a s s2"
proof -
  have "unat a < unat a + 8" "unat a < bend s a" using assms(3) by auto
  then have "hsize s1 a = hsize s a" using assms(1) by (simp add: keeps_def)
  then have "bend s1 a = bend s a" by (simp add: bend_def)
  then show ?thesis using assms(1,2) by (simp add: keeps_def)
qed

lemma units_insert: "x \<notin> B \<Longrightarrow> units (insert x B) s = unat (hsize s x) + units B s"
  by (simp add: units_def)

lemma units_upd: "x \<notin> B \<Longrightarrow> units B (set_size x v s) = units B s"
  unfolding units_def by (intro sum.cong) auto

lemma units_cong: "(\<And>x. x \<in> B \<Longrightarrow> hsize s' x = hsize s x) \<Longrightarrow> units B s' = units B s"
  unfolding units_def by (intro sum.cong) auto

subsection \<open>The steps that change the ring\<close>

text \<open>Putting a block on the list after its predecessor.\<close>

lemma link_ok:
  assumes ok: "heap_ok b F A s" and bp: "bp \<in> A" and p: "p \<in> F" "p < bp" "\<forall>z\<in>F. p < z \<longrightarrow> bp < z"
  shows "heap_ok b (insert bp F) (A - {bp}) (set_ptr p bp (set_ptr bp (hptr s p) s))"
proof -
  let ?s = "set_ptr p bp (set_ptr bp (hptr s p) s)"
  have r: "least b F" "\<forall>x\<in>F. hptr s x = nxt F x" and n: "bp \<notin> F"
    using ok bp by (auto simp: heap_ok_def ring_ok_def)
  have "least b (insert bp F)" using r(1) p by (auto simp: least_def)
  moreover have "hptr ?s x = nxt (insert bp F) x" if "x \<in> insert bp F" for x
    using that r(2) p n nxt_insert_self [OF r(1) p] nxt_insert_other [OF r(1) p] nxt_insert_before [OF p(2,3)]
    by auto
  moreover have "insert bp F \<union> (A - {bp}) = F \<union> A" using bp by auto
  ultimately show ?thesis
    using ok by (auto simp: heap_ok_def ring_ok_def blocks_ok_def block_in_def bend_def)
qed

text \<open>Taking the successor of a block off the list.\<close>

lemma unlink_ok:
  assumes ok: "heap_ok b F A s" and x: "x \<in> F" "x \<noteq> hptr s x" "hptr s x \<noteq> b"
  shows "heap_ok b (F - {hptr s x}) (insert (hptr s x) A) (set_ptr x (hptr s (hptr s x)) s)"
proof -
  define y where "y = hptr s x"
  let ?s = "set_ptr x (hptr s y) s"
  have r: "least b F" "\<forall>x\<in>F. hptr s x = nxt F x" using ok by (auto simp: heap_ok_def ring_ok_def)
  then have y: "y = nxt F x" "y \<in> F" using x nxt_in by (auto simp: y_def)
  have b: "y \<noteq> b" using x by (simp add: y_def)
  have "least b (F - {y})" using r(1) b by (auto simp: least_def)
  moreover have "hptr ?s z = nxt (F - {y}) z" if "z \<in> F - {y}" for z
  proof (cases "z = x")
    case True
    then show ?thesis using nxt_remove_next [OF r(1) b] y x r(2) by (auto simp: y_def)
  next
    case False
    have "nxt F z \<noteq> y"
    proof
      assume e: "nxt F z = y"
      have zu: "goes_up F z" using nxt_cases [OF r(1), of z] e b by auto
      have xu: "goes_up F x" using nxt_cases [OF r(1), of x] y b by auto
      show False
        using goes_upD(2,3) [OF zu] goes_upD(2,3) [OF xu] e y False that x(1)
        by (metis DiffD1 leD linorder_neqE)
    qed
    then show ?thesis using nxt_remove_other [OF r(1) b] False r(2) that by auto
  qed
  moreover have "F - {y} \<union> insert y A = F \<union> A" using y by auto
  ultimately show ?thesis
    unfolding y_def [symmetric] using ok
    by (auto simp: heap_ok_def ring_ok_def blocks_ok_def block_in_def bend_def)
qed

text \<open>A block grows over the detached block behind it.\<close>

lemma absorb_ok:
  assumes ok: "heap_ok b F (insert y A) s" and y: "y \<notin> A" and x: "x \<in> F" "x \<noteq> b" "bend s x = unat y"
  shows "heap_ok b F A (set_size x (hsize s x + hsize s y) s)"
    "unat (hsize s x + hsize s y) = unat (hsize s x) + unat (hsize s y)"
proof -
  let ?s = "set_size x (hsize s x + hsize s y) s"
  let ?B = "F \<union> insert y A - {b}"
  have r: "least b F" "y \<notin> F" and bl: "blocks_ok b ?B s" and k: "unat (brk s) < 2 ^ 31"
    using ok by (auto simp: heap_ok_def ring_ok_def)
  then have "y \<noteq> b" by (auto simp: least_def)
  then have in_B: "x \<in> ?B" "y \<in> ?B" using x by auto
  then have bx: "block_in b s x" and iy: "block_in b s y" using bl by (auto simp: blocks_ok_def)
  show u: "unat (hsize s x + hsize s y) = unat (hsize s x) + unat (hsize s y)"
    using block_bound(1) [OF bx k] block_bound(1) [OF iy k] by (simp add: unat_word_ariths)
  have ex: "bend ?s x = bend s y" using u x(3) by (simp add: bend_def)
  have eo: "bend ?s z = bend s z" if "z \<noteq> x" for z using that by (simp add: bend_def)
  have "block_in b ?s z" if "z \<in> F \<union> A - {b}" for z
    using that bl bx iy ex eo u by (cases "z = x") (auto simp: blocks_ok_def block_in_def)
  moreover have "bend ?s z \<le> unat w" if "z \<in> F \<union> A - {b}" "w \<in> F \<union> A - {b}" "z < w" for z w
  proof (cases "z = x")
    case True
    have "w \<noteq> y" using that r(2) y by auto
    moreover have "bend s x \<le> unat w" using that bl True in_B by (auto simp: blocks_ok_def)
    ultimately have "y < w" using x(3) by (metis linorder_neqE word_less_nat_alt leD)
    then show ?thesis using bl that in_B True ex by (auto simp: blocks_ok_def)
  next
    case False
    then show ?thesis using bl that eo by (auto simp: blocks_ok_def)
  qed
  ultimately have "blocks_ok b (F \<union> A - {b}) ?s" by (auto simp: blocks_ok_def)
  then show "heap_ok b F A ?s" using ok x by (auto simp: heap_ok_def ring_ok_def)
qed

text \<open>The tail of a free block becomes a block in use.\<close>

lemma split_ok:
  assumes ok: "heap_ok b F A s" and y: "y \<in> F" "n < hsize s y" "0 < n"
  defines "w \<equiv> y + 8 * (hsize s y - n)"
  shows "heap_ok b F (insert w A) (set_size w n (set_size y (hsize s y - n) s))" "w \<notin> F \<union> A"
    "unat y + 8 \<le> unat w" "unat w + 8 * unat n = bend s y"
proof -
  let ?s = "set_size w n (set_size y (hsize s y - n) s)"
  have r: "least b F" and bl: "blocks_ok b (F \<union> A - {b}) s" and k: "unat (brk s) < 2 ^ 31"
    and b0: "hsize s b = 0" using ok by (auto simp: heap_ok_def ring_ok_def)
  have yb: "y \<noteq> b" using y(2) b0 by auto
  then have "y \<in> F \<union> A - {b}" using y by auto
  then have iy: "block_in b s y" using bl by (auto simp: blocks_ok_def)
  note bb = block_bound [OF iy k]
  have n: "unat n < unat (hsize s y)" "1 \<le> unat n"
    using y(2,3) by (auto simp: word_less_nat_alt)
  have d: "unat (hsize s y - n) = unat (hsize s y) - unat n" using y(2) by (simp add: unat_sub less_imp_le)
  let ?s1 = "set_size y (hsize s y - n) s"
  have b1: "bend ?s1 y = bend s y - 8 * unat n" using d n by (simp add: bend_def)
  have uw: "unat w = bend s y - 8 * unat n"
    using unat_bend [of ?s1 y] bb(2) by (simp add: b1 w_def)
  show w8: "unat y + 8 \<le> unat w" and we: "unat w + 8 * unat n = bend s y"
    using uw n by (auto simp: bend_def)
  have gap: "z = y \<or> bend s z \<le> unat y \<or> bend s y \<le> unat z" if "z \<in> F \<union> A - {b}" for z
    using that bl y yb by (cases z y rule: linorder_cases) (auto simp: blocks_ok_def)
  have out: "w \<noteq> z" if "z \<in> F \<union> A" for z
  proof (cases "z = b")
    case True
    then show ?thesis using w8 by (auto simp: word_less_nat_alt bb(3)) (use bb(3) in \<open>simp add: word_less_nat_alt\<close>)
  next
    case False
    then show ?thesis using gap [of z] that w8 we n by (auto simp: bend_def)
  qed
  then show wn: "w \<notin> F \<union> A" by blast
  have wy: "w \<noteq> y" using w8 by auto
  have e: "bend ?s w = bend s y" "bend ?s y = unat w" using we uw wy b1 by (auto simp: bend_def)
  have eo: "bend ?s z = bend s z" "hsize ?s z = hsize s z" if "z \<noteq> w" "z \<noteq> y" for z
    using that by (auto simp: bend_def)
  have "block_in b ?s z" if "z \<in> F \<union> insert w A - {b}" for z
  proof -
    consider "z = w" | "z = y" | "z \<noteq> w" "z \<noteq> y" by blast
    then show ?thesis
    proof cases
      case 1
      then show ?thesis using iy e n w8 wy by (auto simp: block_in_def)
    next
      case 2
      then show ?thesis using iy e n w8 we d wy by (auto simp: block_in_def)
    next
      case 3
      then show ?thesis using bl that eo [OF 3] by (auto simp: blocks_ok_def block_in_def)
    qed
  qed
  moreover have "bend ?s z \<le> unat v" if zv: "z \<in> F \<union> insert w A - {b}" "v \<in> F \<union> insert w A - {b}" "z < v" for z v
  proof -
    have lt: "unat z < unat v" using zv(3) by (simp add: word_less_nat_alt)
    have gz: "z = w \<or> z = y \<or> bend s z \<le> unat y \<or> bend s y \<le> unat z" using gap [of z] zv(1) by auto
    have gv: "v = w \<or> v = y \<or> bend s v \<le> unat y \<or> bend s y \<le> unat v" using gap [of v] zv(2) by auto
    have zz: "bend s z \<le> unat v" if "z \<noteq> w" "v \<noteq> w" using bl zv that by (auto simp: blocks_ok_def)
    have lv: "unat v \<le> bend s v" by (simp add: bend_def)
    have lz: "unat z \<le> bend s z" by (simp add: bend_def)
    have ly: "unat y < unat w" "unat w < bend s y" using w8 we n by auto
    consider "z = w" | "z = y" | "z \<noteq> w" "z \<noteq> y" by blast
    then show ?thesis
    proof cases
      case 1
      then show ?thesis using gv lt e(1) ly lv by auto
    next
      case 2
      then show ?thesis using gv lt e(2) ly lv by auto
    next
      case 3
      then show ?thesis using gz zz lt eo [OF 3] ly lz by (cases "v = w") auto
    qed
  qed
  ultimately have "blocks_ok b (F \<union> insert w A - {b}) ?s" by (auto simp: blocks_ok_def)
  moreover have "w \<noteq> b" using wn r by (auto simp: least_def)
  ultimately show "heap_ok b F (insert w A) ?s"
    using ok wn yb by (auto simp: heap_ok_def ring_ok_def)
qed

subsection \<open>free puts a block back\<close>

lemma heap_okD:
  assumes "heap_ok b F A s"
  shows "least b F" "x \<in> F \<Longrightarrow> hptr s x = nxt F x" "A \<inter> F = {}" "hsize s b = 0" "b \<noteq> 0" "b \<in> F"
    "x \<in> F \<union> A \<Longrightarrow> x \<noteq> b \<Longrightarrow> block_in b s x"
    "x \<in> F \<union> A \<Longrightarrow> y \<in> F \<union> A \<Longrightarrow> x < y \<Longrightarrow> bend s x \<le> unat y"
    "x \<in> F \<union> A \<Longrightarrow> bend s x < 2 ^ 31"
proof -
  show "least b F" "x \<in> F \<Longrightarrow> hptr s x = nxt F x" "A \<inter> F = {}" and b0: "hsize s b = 0" and "b \<noteq> 0" and bF: "b \<in> F"
    using assms by (auto simp: heap_ok_def ring_ok_def least_def)
  have k: "unat b + 8 \<le> unat (brk s)" "unat (brk s) < 2 ^ 31" using assms by (auto simp: heap_ok_def)
  show bi: "block_in b s x" if "x \<in> F \<union> A" "x \<noteq> b" for x
    using assms that by (auto simp: heap_ok_def blocks_ok_def)
  show "x \<in> F \<union> A \<Longrightarrow> bend s x < 2 ^ 31"
    using bi [of x] block_bound(2) [OF _ k(2)] k b0 by (cases "x = b") (auto simp: bend_def)
  assume xy: "x \<in> F \<union> A" "y \<in> F \<union> A" "x < y"
  show "bend s x \<le> unat y"
  proof (cases "x = b \<or> y = b")
    case True
    moreover have "b < x" if "x \<noteq> b" using that xy(1) block_bound(3) [OF bi k(2)] by blast
    ultimately have "x = b" using xy(3) by (metis less_asym)
    then show ?thesis using b0 xy(3) by (simp add: bend_def word_less_nat_alt)
  next
    case False
    then show ?thesis using assms xy by (auto simp: heap_ok_def blocks_ok_def)
  qed
qed

lemma used_above:
  assumes "heap_ok b F A s" "a \<in> A"
  shows "b < a"
proof -
  have "a \<noteq> b" using heap_okD(3,6) [OF assms(1)] assms(2) by blast
  then have "block_in b s a" using heap_okD(7) [OF assms(1)] assms(2) by blast
  then show ?thesis using block_bound(3) assms(1) by (simp add: heap_ok_def)
qed

lemma bend_eq_iff:
  assumes "heap_ok b F A s" "x \<in> F \<union> A"
  shows "x + 8 * hsize s x = y \<longleftrightarrow> bend s x = unat y"
proof -
  have "unat (x + 8 * hsize s x) = bend s x" using heap_okD(9) [OF assms] by (intro unat_bend) simp
  then show ?thesis by (simp only: word_unat_eq_iff)
qed

definition stop_at :: "uheap \<Rightarrow> uint \<Rightarrow> uint \<Rightarrow> bool" where
  "stop_at s bp p \<longleftrightarrow> bp > p \<and> bp < hptr s p \<or> p \<ge> hptr s p \<and> (bp > p \<or> bp < hptr s p)"

lemma free_search_step:
  "free_search s bp p = (if stop_at s bp p then Some p else free_search s bp (hptr s p))"
  by (subst free_search.simps) (auto simp: stop_at_def)

lemma free_search_walk:
  "stop_at s bp ((hptr s ^^ k) x) \<Longrightarrow>
    \<exists>k. free_search s bp x = Some ((hptr s ^^ k) x) \<and> stop_at s bp ((hptr s ^^ k) x)"
proof (induction k arbitrary: x)
  case 0
  then show ?case by (intro exI [of _ 0]) (simp add: free_search_step [of s bp x])
next
  case (Suc k)
  show ?case
  proof (cases "stop_at s bp x")
    case True
    then show ?thesis by (intro exI [of _ 0]) (simp add: free_search_step [of s bp x])
  next
    case False
    from Suc.prems have "stop_at s bp ((hptr s ^^ k) (hptr s x))" by (simp only: funpow_Suc_right o_apply)
    from Suc.IH [OF this] obtain j where
      j: "free_search s bp (hptr s x) = Some ((hptr s ^^ j) (hptr s x))" "stop_at s bp ((hptr s ^^ j) (hptr s x))" by blast
    have "free_search s bp x = free_search s bp (hptr s x)"
      using False by (simp add: free_search_step [of s bp x])
    with j show ?thesis by (intro exI [of _ "Suc j"]) (simp only: funpow_Suc_right o_apply simp_thms)
  qed
qed

lemma hptr_pow:
  assumes "heap_ok b F A s" "x \<in> F"
  shows "(hptr s ^^ k) x = (nxt F ^^ k) x"
  using nxt_pow_in [OF heap_okD(1) [OF assms(1)] assms(2)] heap_okD(2) [OF assms(1)]
  by (induction k) simp_all

lemma stop_at_iff:
  assumes ok: "heap_ok b F A s" and bp: "bp \<in> A" and p: "p \<in> F"
  shows "stop_at s bp p \<longleftrightarrow> p < bp \<and> (\<forall>z\<in>F. p < z \<longrightarrow> bp < z)"
proof -
  have h: "hptr s p = nxt F p" using heap_okD(2) [OF ok p] .
  have n: "bp \<notin> F" "b < bp" using bp heap_okD(3) [OF ok] used_above [OF ok bp] by auto
  show ?thesis
  proof (cases "goes_up F p")
    case True
    then show ?thesis using h by (force simp: stop_at_def goes_up_def)
  next
    case False
    with nxt_cases [OF heap_okD(1) [OF ok], of p] have "nxt F p = b" "\<forall>z\<in>F. z \<le> p" by blast+
    then show ?thesis using h n p heap_okD(6) [OF ok] by (auto simp: stop_at_def)
  qed
qed

lemma free_search_returns:
  assumes ok: "heap_ok b F A s" and bp: "bp \<in> A" and x: "x \<in> F"
  shows "\<exists>p\<in>F. free_search s bp x = Some p \<and> p < bp \<and> (\<forall>z\<in>F. p < z \<longrightarrow> bp < z)"
proof -
  note least = heap_okD(1) [OF ok]
  have n: "bp \<notin> F" using bp heap_okD(3) [OF ok] by auto
  from nxt_pred [OF least used_above [OF ok bp]] obtain p where
    p: "p \<in> F" "p < bp" "\<forall>z\<in>F. p < z \<longrightarrow> bp \<le> z" by blast
  then have "\<forall>z\<in>F. p < z \<longrightarrow> bp < z" using n by (metis le_neq_trans)
  then have "stop_at s bp p" using stop_at_iff [OF ok bp p(1)] p(2) by blast
  moreover obtain k where "(nxt F ^^ Suc k) x = p" using nxt_reach [OF least x p(1)] by blast
  ultimately have "stop_at s bp ((hptr s ^^ Suc k) x)" using hptr_pow [OF ok x] by metis
  from free_search_walk [OF this] obtain j where
    j: "free_search s bp x = Some ((hptr s ^^ j) x)" "stop_at s bp ((hptr s ^^ j) x)" by blast
  have "(hptr s ^^ j) x \<in> F" using hptr_pow [OF ok x] nxt_pow_in [OF least x] by simp
  with j stop_at_iff [OF ok bp this] show ?thesis by blast
qed

text \<open>A free block absorbs its successor on the list.\<close>

definition merge :: "uint \<Rightarrow> uheap \<Rightarrow> uheap" where
  "merge x s = set_ptr x (hptr s (hptr s x)) (set_size x (hsize s x + hsize s (hptr s x)) s)"

lemma set_ptr_size: "set_ptr p v (set_size q w s) = set_size q w (set_ptr p v s)"
  by (simp add: set_ptr_def set_size_def)

lemma merge_ok:
  assumes ok: "heap_ok b F A s" and x: "x \<in> F" "x \<noteq> b" "hptr s x = y" "bend s x = unat y"
  shows "heap_ok b (F - {y}) A (merge x s)" "units (F - {y} \<union> A) (merge x s) = units (F \<union> A) s"
    "x < y" "y \<in> F" "hsize s x \<le> hsize (merge x s) x" "hsize s y \<le> hsize (merge x s) x" "bend (merge x s) x = bend s y"
proof -
  have bx: "block_in b s x" using heap_okD(7) [OF ok] x by blast
  then have lt: "unat x < unat y" "unat b < unat x" using x(4) by (auto simp: block_in_def bend_def)
  then show "x < y" by (simp add: word_less_nat_alt)
  have yb: "y \<noteq> b" "x \<noteq> y" using lt by auto
  show y: "y \<in> F" using nxt_in [OF heap_okD(1) [OF ok]] heap_okD(2) [OF ok x(1)] x(3) by metis
  have yA: "y \<notin> A" using heap_okD(3) [OF ok] y by auto
  have u: "heap_ok b (F - {y}) (insert y A) (set_ptr x (hptr s y) s)"
    using unlink_ok [OF ok x(1)] x(3) yb by simp
  have ab: "bend (set_ptr x (hptr s y) s) x = unat y" using x(4) by (simp add: bend_def)
  have m: "merge x s = set_size x (hsize s x + hsize s y) (set_ptr x (hptr s y) s)"
    by (simp add: merge_def x(3) set_ptr_size)
  have xF: "x \<in> F - {y}" using x(1) yb by auto
  note a = absorb_ok [OF u yA xF x(2) ab, simplified]
  show "heap_ok b (F - {y}) A (merge x s)" using a(1) by (simp add: m)
  have s: "unat (hsize (merge x s) x) = unat (hsize s x) + unat (hsize s y)" using a(2) by (simp add: m)
  then show "hsize s x \<le> hsize (merge x s) x" "hsize s y \<le> hsize (merge x s) x" by (simp_all add: word_le_nat_alt)
  show "bend (merge x s) x = bend s y" using s x(4) by (simp add: bend_def)
  define R where "R = F \<union> A - {x, y}"
  have R: "x \<notin> R" "y \<notin> R" "F - {y} \<union> A = insert x R" "F \<union> A = insert x (insert y R)"
    using x(1) y yA yb by (auto simp: R_def)
  have "units R (merge x s) = units R s" by (rule units_cong) (use R(1) in \<open>auto simp: m\<close>)
  then show "units (F - {y} \<union> A) (merge x s) = units (F \<union> A) s"
    unfolding R(3,4) using R(1,2) s yb by (simp add: units_insert)
qed

lemma merge_coalesced:
  assumes ok: "heap_ok b F A s" and x: "x \<in> F" "x \<noteq> b" "hptr s x = y" "bend s x = unat y"
    and p: "\<forall>w\<in>F. \<forall>z\<in>F. w < z \<longrightarrow> bend s w = unat z \<longrightarrow> w = x \<or> w \<in> V" and y: "y \<notin> V"
  shows "\<forall>w\<in>F - {y}. \<forall>z\<in>F - {y}. w < z \<longrightarrow> bend (merge x s) w = unat z \<longrightarrow> w \<in> V"
proof (intro ballI impI)
  fix w z assume w: "w \<in> F - {y}" and z: "z \<in> F - {y}" and lt: "w < z" and e: "bend (merge x s) w = unat z"
  note m = merge_ok [OF ok x]
  show "w \<in> V"
  proof (cases "w = x")
    case True
    with e m(7) have e2: "bend s y = unat z" by simp
    then have "y \<le> z" by (simp add: word_le_nat_alt bend_def)
    then have "y < z" using z by auto
    then have "y = x \<or> y \<in> V" using p m(4) z e2 by blast
    then show ?thesis using y m(3) by auto
  next
    case False
    then have "bend (merge x s) w = bend s w" by (simp add: bend_def merge_def)
    then show ?thesis using p w z lt e False by auto
  qed
qed

lemma header_apart:
  assumes ok: "heap_ok b F A s" and a: "a \<in> A" and x: "x \<in> F \<union> A" "x \<noteq> a"
  shows "unat x + 8 \<le> unat a \<or> bend s a \<le> unat x"
proof (cases "x = b")
  case True
  have "a \<noteq> b" using used_above [OF ok a] by auto
  then have "block_in b s a" using heap_okD(7) [OF ok] a by blast
  then show ?thesis using True by (simp add: block_in_def)
next
  case False
  then have bx: "block_in b s x" using heap_okD(7) [OF ok] x by blast
  from x(2) consider "x < a" | "a < x" using linorder_neqE by blast
  then show ?thesis
  proof cases
    case 1
    then have "bend s x \<le> unat a" using heap_okD(8) [OF ok x(1)] a by blast
    then show ?thesis using bx by (simp add: block_in_def bend_def)
  next
    case 2
    then show ?thesis using heap_okD(8) [OF ok _ x(1)] a by blast
  qed
qed

lemma keeps_changed:
  assumes ok: "heap_ok b F A s" and a: "a \<in> A" and X: "X \<subseteq> F \<union> A - {a}"
    and s': "\<And>x. x \<notin> X \<Longrightarrow> hptr s' x = hptr s x \<and> hsize s' x = hsize s x"
  shows "keeps a s s'"
  unfolding keeps_def
proof (intro allI impI)
  fix x :: uint assume x: "unat a < unat x + 8" "unat x < bend s a"
  have "x \<notin> X"
  proof
    assume "x \<in> X"
    then have "unat x + 8 \<le> unat a \<or> bend s a \<le> unat x" using X by (intro header_apart [OF ok a]) auto
    with x show False by auto
  qed
  then show "hptr s' x = hptr s x \<and> hsize s' x = hsize s x" by (rule s')
qed

text \<open>What the two conditionals of \<open>free\<close> amount to.\<close>

definition free_up :: "uint \<Rightarrow> uint \<Rightarrow> uheap \<Rightarrow> uheap" where
  "free_up p bp s =
     (let s0 = set_ptr p bp (set_ptr bp (hptr s p) s)
      in if bp + 8 * hsize s bp = hptr s p then merge bp s0 else s0)"

definition free_down :: "uint \<Rightarrow> uint \<Rightarrow> uheap \<Rightarrow> uheap" where
  "free_down p bp s = (if p + 8 * hsize s p = bp then merge p s else s)"

lemma ufree_steps:
  assumes "free_search s bp (freep s) = Some p" "p \<noteq> bp" "hptr s p \<noteq> bp"
    "bp + 8 * hsize s bp = hptr s p \<Longrightarrow> hptr s p \<noteq> p"
  shows "ufree (bp + 8) s = Some (free_down p bp (free_up p bp s)\<lparr>freep := p\<rparr>)"
proof -
  have bp: "bp + 8 - 8 = bp" by simp
  show ?thesis
    unfolding ufree_def Let_def bp
    using assms
    by (auto simp: free_up_def free_down_def merge_def set_ptr_def set_size_def Let_def fun_upd_twist)
qed

lemma link_adjacent:
  assumes ok: "heap_ok b F A s" and bp: "bp \<in> A" and p: "p \<in> F" "p < bp" "\<forall>z\<in>F. p < z \<longrightarrow> bp < z"
    and co: "coalesced F s" and wz: "w \<in> insert bp F" "z \<in> insert bp F" "w < z" "bend s w = unat z"
  shows "w = bp \<or> w = p"
proof (rule ccontr)
  assume n: "\<not> (w = bp \<or> w = p)"
  then have w: "w \<in> F" using wz(1) by auto
  then have z: "z = bp" using co wz by (auto simp: coalesced_def)
  then have "w < p" using p(3) w n wz(3) by (metis linorder_neqE less_asym)
  then have "bend s w \<le> unat p" using heap_okD(8) [OF ok] w p(1) by blast
  then show False using wz(4) z p(2) by (simp add: word_less_nat_alt)
qed

lemma ufree_spec:
  assumes ok: "heap_ok b F A s" and f: "freep s \<in> F" and bp: "bp \<in> A"
  obtains F' s' where "ufree (bp + 8) s = Some s'" "heap_ok b F' (A - {bp}) s'" "freep s' \<in> F'"
    "\<forall>a\<in>A - {bp}. keeps a s s'" "units (F' \<union> (A - {bp})) s' = units (F \<union> A) s" "brk s' = brk s"
    "\<exists>z\<in>F'. hsize s bp \<le> hsize s' z" "coalesced F s \<longrightarrow> coalesced F' s'"
proof -
  from free_search_returns [OF ok bp f] obtain p where
    p: "p \<in> F" "free_search s bp (freep s) = Some p" "p < bp" "\<forall>z\<in>F. p < z \<longrightarrow> bp < z" by blast
  define q where "q = hptr s p"
  have bF: "bp \<notin> F" using bp heap_okD(3) [OF ok] by auto
  have bb: "b < bp" using used_above [OF ok bp] .
  have q: "q \<in> F" using nxt_in [OF heap_okD(1) [OF ok]] heap_okD(2) [OF ok p(1)] by (simp add: q_def)
  define up where "up \<longleftrightarrow> bend s bp = unat q"
  have upw: "bp + 8 * hsize s bp = q \<longleftrightarrow> up" using bend_eq_iff [OF ok, of bp] bp by (simp add: up_def)
  have upq: "bp < q" if up
  proof -
    have "block_in b s bp" using heap_okD(7) [OF ok] bp bb by blast
    then show ?thesis using that by (auto simp: up_def block_in_def bend_def word_less_nat_alt)
  qed
  define s0 where "s0 = set_ptr p bp (set_ptr bp q s)"
  have ok0: "heap_ok b (insert bp F) (A - {bp}) s0"
    using link_ok [OF ok bp p(1,3,4)] by (simp add: s0_def q_def)
  have F0: "insert bp (F \<union> (A - {bp})) = F \<union> A" using bp by auto
  have e0: "bend s0 x = bend s x" "hsize s0 = hsize s" for x by (simp_all add: s0_def bend_def)
  have h0: "hptr s0 bp = q" "hptr s0 p = bp" using p(3) by (auto simp: s0_def)
  define F1 where "F1 = (if up then insert bp F - {q} else insert bp F)"
  define s1 where "s1 = (if up then merge bp s0 else s0)"
  have s1: "free_up p bp s = s1" by (simp add: free_up_def s1_def s0_def Let_def upw flip: q_def)
  have up_args: "bp \<in> insert bp F" "bp \<noteq> b" "hptr s0 bp = q" "up \<Longrightarrow> bend s0 bp = unat q"
    using bb h0 by (auto simp: up_def e0)
  note m1 = merge_ok [OF ok0 up_args(1,2,3) up_args(4)]
  have ok1: "heap_ok b F1 (A - {bp}) s1" using m1(1) ok0 by (simp add: F1_def s1_def)
  have u1: "units (F1 \<union> (A - {bp})) s1 = units (F \<union> A) s"
    using m1(2) units_cong [of "F \<union> A" s0 s] by (simp add: F1_def s1_def F0 e0)
  have pF1: "p \<in> F1" "bp \<in> F1" using p(1,3) upq bF q by (auto simp: F1_def)
  have h1: "hptr s1 p = bp" using h0 p(3) by (auto simp: s1_def merge_def)
  have z1: "hsize s1 p = hsize s p" using p(3) by (auto simp: s1_def merge_def e0)
  have g1: "hsize s bp \<le> hsize s1 bp" using m1(5) by (simp add: s1_def e0)
  define down where "down \<longleftrightarrow> bend s1 p = unat bp"
  have dw: "p + 8 * hsize s1 p = bp \<longleftrightarrow> down" using bend_eq_iff [OF ok1, of p] pF1 by (simp add: down_def)
  have pb: "p \<noteq> b" if down
    using that bb heap_okD(4) [OF ok1] by (auto simp: down_def bend_def word_less_nat_alt)
  define F2 where "F2 = (if down then F1 - {bp} else F1)"
  define s2 where "s2 = free_down p bp s1"
  have s2: "s2 = (if down then merge p s1 else s1)" by (simp add: s2_def free_down_def dw)
  have down_arg: "down \<Longrightarrow> bend s1 p = unat bp" by (simp add: down_def)
  note m2 = merge_ok [OF ok1 pF1(1) pb h1 down_arg]
  have ok2: "heap_ok b F2 (A - {bp}) s2" using m2(1) ok1 by (simp add: F2_def s2)
  have u2: "units (F2 \<union> (A - {bp})) s2 = units (F \<union> A) s" using m2(2) u1 by (simp add: F2_def s2)
  have pF2: "p \<in> F2" using pF1 p(3) by (auto simp: F2_def)
  let ?t = "s2\<lparr>freep := p\<rparr>"
  show thesis
  proof (rule that [of ?t F2])
    show "ufree (bp + 8) s = Some ?t"
    proof -
      have "p \<noteq> bp" "hptr s p \<noteq> bp" using p(3) q bF by (auto simp: q_def)
      moreover have "hptr s p \<noteq> p" if "bp + 8 * hsize s bp = hptr s p"
        using that upq upw p(3) by (auto simp: q_def)
      ultimately show ?thesis using ufree_steps [OF p(2)] by (simp add: s2_def s1)
    qed
    show "heap_ok b F2 (A - {bp}) ?t" by (rule heap_ok_cong [OF ok2]) simp_all
    show "freep ?t \<in> F2" using pF2 by simp
    show "units (F2 \<union> (A - {bp})) ?t = units (F \<union> A) s" using u2 by (simp add: units_def)
    show "brk ?t = brk s" by (simp add: s2 s1_def s0_def merge_def)
    show "\<forall>a\<in>A - {bp}. keeps a s ?t"
    proof
      fix a assume a: "a \<in> A - {bp}"
      then have "p \<noteq> a" using p(1) heap_okD(3) [OF ok] by auto
      with a bp p(1) have X: "{p, bp} \<subseteq> F \<union> A - {a}" by auto
      have aA: "a \<in> A" using a by auto
      show "keeps a s ?t"
        by (rule keeps_changed [OF ok aA X]) (simp add: s2 s1_def s0_def merge_def)
    qed
    show "\<exists>z\<in>F2. hsize s bp \<le> hsize ?t z"
    proof (cases down)
      case True
      then show ?thesis using m2(6) g1 pF2 by (intro bexI [of _ p]) (auto simp: s2)
    next
      case False
      then show ?thesis using g1 pF1 by (intro bexI [of _ bp]) (auto simp: s2 F2_def)
    qed
    show "coalesced F s \<longrightarrow> coalesced F2 ?t"
    proof
      assume co: "coalesced F s"
      have c0: "\<forall>w\<in>insert bp F. \<forall>z\<in>insert bp F. w < z \<longrightarrow> bend s0 w = unat z \<longrightarrow> w = bp \<or> w \<in> {p}"
        using link_adjacent [OF ok bp p(1,3,4) co] by (auto simp only: e0)
      have c1: "\<forall>w\<in>F1. \<forall>z\<in>F1. w < z \<longrightarrow> bend s1 w = unat z \<longrightarrow> w = p"
      proof (cases up)
        case True
        then show ?thesis
          using merge_coalesced [OF ok0 up_args(1,2,3) up_args(4) c0] upq p(3) by (simp add: F1_def s1_def)
      next
        case False
        have "w = p" if "w \<in> insert bp F" "z \<in> insert bp F" "w < z" "bend s0 w = unat z" for w z
        proof (rule ccontr)
          assume "w \<noteq> p"
          then have w: "w = bp" using c0 that by blast
          then have z: "z \<in> F" using that by auto
          then have "hptr s p \<le> z \<and> p < hptr s p"
            using w that(3) p(3) nxt_cases [OF heap_okD(1) [OF ok], of p] heap_okD(2) [OF ok p(1)]
            by (auto simp: goes_up_def)
          then have "q \<le> z" "bp < q" using p(4) q by (auto simp: q_def)
          moreover have "bend s bp \<le> unat q" using heap_okD(8) [OF ok] bp q \<open>bp < q\<close> by blast
          ultimately show False using that(4) w False by (auto simp: e0 up_def word_le_nat_alt)
        qed
        then show ?thesis using False by (auto simp: F1_def s1_def)
      qed
      have "\<forall>w\<in>F2. \<forall>z\<in>F2. w < z \<longrightarrow> bend s2 w \<noteq> unat z"
      proof (cases down)
        case True
        have c1': "\<forall>w\<in>F1. \<forall>z\<in>F1. w < z \<longrightarrow> bend s1 w = unat z \<longrightarrow> w = p \<or> w \<in> {}" using c1 by blast
        show ?thesis
          using merge_coalesced [OF ok1 pF1(1) pb h1 down_arg c1'] True by (auto simp: F2_def s2)
      next
        case False
        have "bend s1 p \<le> unat bp" using heap_okD(8) [OF ok1] pF1 p(3) by blast
        then have less: "bend s1 p < unat bp" using False by (simp add: down_def)
        have "bend s1 w \<noteq> unat z" if "w \<in> F1" "z \<in> F1" "w < z" for w z
        proof
          assume e: "bend s1 w = unat z"
          then have w: "w = p" using c1 that by blast
          have "z = bp \<or> bp < z" using that(2,3) w p(4) by (auto simp: F1_def split: if_splits)
          then show False using e w less by (auto simp: word_less_nat_alt)
        qed
        then show ?thesis using False by (auto simp: F2_def s2)
      qed
      then show "coalesced F2 ?t" by (auto simp: coalesced_def bend_def)
    qed
  qed
qed

subsection \<open>morecore grows the heap\<close>

lemma used_room:
  assumes "heap_ok b F A s" "a \<in> A"
  shows "8 \<le> bend s a - unat a" "bend s a \<le> unat (brk s)"
proof -
  have "block_in b s a" using heap_okD(7) [OF assms(1)] used_above [OF assms] assms(2) by blast
  then show "8 \<le> bend s a - unat a" "bend s a \<le> unat (brk s)" by (auto simp: block_in_def bend_def)
qed

lemma sbrk_cases:
  assumes "unat (brk s) < 2 ^ 31" "0 < unat n" "unat n < 2 ^ 31"
  shows "sbrk avail n s =
    (if unat (brk s) + unat n < 2 ^ 31 \<and> avail (brk s + n) then (brk s, s\<lparr>brk := brk s + n\<rparr>) else (- 1, s))"
    "unat (brk s + n) = unat (brk s) + unat n"
proof -
  show u: "unat (brk s + n) = unat (brk s) + unat n" using assms by (intro unat_add_lem [THEN iffD1]) simp
  have "uint n = int (unat n)" by simp
  then have "0 < uint n" "uint n < 2147483648" using assms(2) assms(3) [simplified] by linarith+
  then have "0 < sint n" by (simp add: sint_uint signed_take_bit_int_eq_self)
  then have "0 <s n" by (simp add: word_sless_alt)
  then show "sbrk avail n s =
    (if unat (brk s) + unat n < 2 ^ 31 \<and> avail (brk s + n) then (brk s, s\<lparr>brk := brk s + n\<rparr>) else (- 1, s))"
    using u by (auto simp: sbrk_def Let_def KERNBASE_def word_le_nat_alt word_less_nat_alt)
qed

lemma grow_ok:
  assumes ok: "heap_ok b F A s" and n: "0 < unat n" "unat (brk s) + 8 * unat n < 2 ^ 31"
  defines "s' \<equiv> set_size (brk s) n (s\<lparr>brk := brk s + 8 * n\<rparr>)"
  shows "heap_ok b F (insert (brk s) A) s'" "brk s \<notin> F \<union> A" "\<forall>a\<in>A. keeps a s s'"
    "unat (brk s') = unat (brk s) + 8 * unat n" "coalesced F s \<longrightarrow> coalesced F s'"
proof -
  let ?k = "brk s"
  have "unat (8 * n) = 8 * unat n" using n by (simp add: unat_word_ariths)
  then show k: "unat (brk s') = unat ?k + 8 * unat n" using n by (simp add: s'_def unat_word_ariths)
  have kb: "unat b + 8 \<le> unat ?k" using ok by (simp add: heap_ok_def)
  have lt: "unat x < unat ?k \<and> bend s x \<le> unat ?k" if "x \<in> F \<union> A" for x
  proof (cases "x = b")
    case True
    then show ?thesis using kb heap_okD(4) [OF ok] by (simp add: bend_def)
  next
    case False
    then have "block_in b s x" using heap_okD(7) [OF ok that] by blast
    then show ?thesis by (auto simp: block_in_def bend_def)
  qed
  show nk: "?k \<notin> F \<union> A" using lt by blast
  have e: "bend s' x = bend s x" "hsize s' x = hsize s x" if "x \<noteq> ?k" for x
    using that by (auto simp: s'_def bend_def)
  have ek: "bend s' ?k = unat ?k + 8 * unat n" "hsize s' ?k = n" by (auto simp: s'_def bend_def)
  have "block_in b s' x" if "x \<in> insert ?k (F \<union> A)" "x \<noteq> b" for x
  proof (cases "x = ?k")
    case True
    then show ?thesis using ek k n kb by (auto simp: block_in_def)
  next
    case False
    then have "block_in b s x" using heap_okD(7) [OF ok] that by auto
    then show ?thesis using e [OF False] k by (auto simp: block_in_def)
  qed
  moreover have "bend s' x \<le> unat y" if "x \<in> insert ?k (F \<union> A)" "y \<in> insert ?k (F \<union> A)" "x < y" for x y
  proof -
    have "x \<noteq> ?k" using that lt [of y] by (auto simp: word_less_nat_alt)
    then show ?thesis using that lt heap_okD(8) [OF ok, of x y] e by auto
  qed
  ultimately have "blocks_ok b (F \<union> insert ?k A - {b}) s'" by (auto simp: blocks_ok_def)
  moreover have "b \<noteq> ?k" using kb by auto
  moreover have "hsize s' b = 0" using e(2) [of b] heap_okD(4) [OF ok] \<open>b \<noteq> ?k\<close> by simp
  moreover have "hptr s' = hptr s" by (simp add: s'_def)
  ultimately show "heap_ok b F (insert ?k A) s'"
    using ok nk k kb n by (auto simp: heap_ok_def ring_ok_def)
  show "\<forall>a\<in>A. keeps a s s'"
    using used_room(2) [OF ok] by (fastforce simp: keeps_def s'_def)
  show "coalesced F s \<longrightarrow> coalesced F s'"
    unfolding coalesced_def using e(1) nk by (metis UnI1)
qed

text \<open>What \<open>malloc\<close> and \<open>free\<close> leave alone and account for, between the heaps \<open>F, A\<close> and \<open>F', A'\<close>.\<close>

definition heap_step :: "uint \<Rightarrow> uint set \<Rightarrow> uint set \<Rightarrow> uheap \<Rightarrow> uint set \<Rightarrow> uint set \<Rightarrow> uheap \<Rightarrow> bool" where
  "heap_step b F A s F' A' s' \<longleftrightarrow>
     heap_ok b F' A' s' \<and> freep s' \<in> F' \<and> (\<forall>a\<in>A \<inter> A'. keeps a s s')
     \<and> 8 * units (F' \<union> A') s' + unat (brk s) = 8 * units (F \<union> A) s + unat (brk s')
     \<and> (coalesced F s \<longrightarrow> coalesced F' s')"

lemma ufree_step:
  assumes "heap_ok b F A s" "freep s \<in> F" "bp \<in> A"
  obtains F' s' where "ufree (bp + 8) s = Some s'" "heap_step b F A s F' (A - {bp}) s'"
    "\<exists>z\<in>F'. hsize s bp \<le> hsize s' z"
  by (rule ufree_spec [OF assms]) (auto simp: heap_step_def)

lemma morecore_step:
  assumes ok: "heap_ok b F A s" "freep s \<in> F" and n: "8 * unat nu < 2 ^ 31"
  shows "morecore avail nu s = Some (0, s) \<or>
    (\<exists>F' s'. morecore avail nu s = Some (freep s', s') \<and> freep s' \<noteq> 0 \<and> heap_step b F A s F' A s'
       \<and> (\<exists>z\<in>F'. nu \<le> hsize s' z))"
proof -
  define m where "m = (if nu < 4096 then 4096 else nu)"
  have m: "8 * unat m < 2 ^ 31" "0 < unat m" "nu \<le> m"
    using n by (auto simp: m_def word_less_nat_alt word_le_nat_alt)
  have m8: "unat (m * 8) = 8 * unat m" using m by (simp add: unat_word_ariths)
  have k: "unat (brk s) < 2 ^ 31" using ok by (simp add: heap_ok_def)
  note sb = sbrk_cases(1) [OF k, of "m * 8" avail, unfolded m8]
  show ?thesis
  proof (cases "unat (brk s) + 8 * unat m < 2 ^ 31 \<and> avail (brk s + m * 8)")
    case False
    then show ?thesis using sb m by (auto simp: morecore_def Let_def simp flip: m_def)
  next
    case True
    let ?s = "set_size (brk s) m (s\<lparr>brk := brk s + 8 * m\<rparr>)"
    note g = grow_ok [OF ok(1) m(2) conjunct1 [OF True]]
    have fp: "freep ?s \<in> F" "brk s \<in> insert (brk s) A" using ok(2) by simp_all
    obtain F' s' where
      f: "ufree (brk s + 8) ?s = Some s'" "heap_step b F (insert (brk s) A) ?s F' (insert (brk s) A - {brk s}) s'"
      "\<exists>z\<in>F'. hsize ?s (brk s) \<le> hsize s' z"
      by (rule ufree_step [OF g(1) fp])
    have A: "insert (brk s) A - {brk s} = A" using g(2) by auto
    have "sbrk avail (m * 8) s = (brk s, s\<lparr>brk := brk s + 8 * m\<rparr>)" using sb m True by (simp add: mult.commute)
    moreover have "brk s \<noteq> - 1" using k by (auto simp: unsigned_minus_1_eq_mask mask_eq_exp_minus_1)
    ultimately have "morecore avail nu s = Some (freep s', s')"
      using f(1) by (simp add: morecore_def Let_def flip: m_def)
    moreover have "freep s' \<noteq> 0"
    proof -
      have "heap_ok b F' A s'" "freep s' \<in> F'" using f(2) by (auto simp: heap_step_def A)
      then have "b \<le> freep s'" "b \<noteq> 0" using heap_okD(1,5) [of b F' A s'] by (auto simp: least_def)
      then show ?thesis by auto
    qed
    moreover have "\<exists>z\<in>F'. nu \<le> hsize s' z" using f(3) m(3) by (auto intro: order.trans)
    moreover have "heap_step b F A s F' A s'"
    proof -
      have "keeps a s s'" if "a \<in> A" for a
        using keeps_trans [of a s ?s s'] g(3) f(2) used_room(1) [OF ok(1) that] that by (auto simp: heap_step_def A)
      moreover have "units (F \<union> insert (brk s) A) ?s = unat m + units (F \<union> A) s"
        using units_insert [of "brk s" "F \<union> A" ?s] g(2) units_upd [of "brk s" "F \<union> A" m "s\<lparr>brk := brk s + 8 * m\<rparr>"]
        by (simp add: units_def)
      ultimately show ?thesis using f(2) g(4,5) by (auto simp: heap_step_def A)
    qed
    ultimately show ?thesis by blast
  qed
qed

subsection \<open>malloc hands out a fresh block\<close>

text \<open>The block with header \<open>bp\<close> is new and has \<open>n\<close> units.\<close>

definition handed_out :: "uint \<Rightarrow> uint \<Rightarrow> uint set \<Rightarrow> uint set \<Rightarrow> uheap \<Rightarrow> uint \<Rightarrow> uheap \<Rightarrow> bool" where
  "handed_out b n F A s bp s' \<longleftrightarrow>
     bp \<notin> A \<and> hsize s' bp = n \<and> (\<exists>F'. heap_step b F A s F' (insert bp A) s')"

lemma take_exact:
  assumes ok: "heap_ok b F A s" and q: "q \<in> F" "p = hptr s q" and n: "hsize s p = n" "0 < n"
  shows "handed_out b n F A s p (set_ptr q (hptr s p) s\<lparr>freep := q\<rparr>)"
proof -
  let ?s = "set_ptr q (hptr s p) s\<lparr>freep := q\<rparr>"
  have pb: "p \<noteq> b" using n heap_okD(4) [OF ok] by auto
  have pn: "p = nxt F q" using heap_okD(2) [OF ok q(1)] q(2) by simp
  then have pF: "p \<in> F" using nxt_in [OF heap_okD(1) [OF ok]] by simp
  have qp: "q < p" using nxt_cases [OF heap_okD(1) [OF ok], of q] pn pb by (auto simp: goes_up_def)
  have pA: "p \<notin> A" using pF heap_okD(3) [OF ok] by auto
  have "heap_ok b (F - {p}) (insert p A) (set_ptr q (hptr s p) s)"
    using unlink_ok [OF ok q(1)] q(2) qp pb by auto
  then have "heap_ok b (F - {p}) (insert p A) ?s" by (rule heap_ok_cong) simp_all
  moreover have "F - {p} \<union> insert p A = F \<union> A" using pF by auto
  moreover have "keeps a s ?s" if "a \<in> A" for a
  proof -
    have X: "{q} \<subseteq> F \<union> A - {a}" using q(1) that heap_okD(3) [OF ok] by auto
    show ?thesis by (rule keeps_changed [OF ok that X]) simp
  qed
  moreover have "coalesced F s \<longrightarrow> coalesced (F - {p}) ?s" by (auto simp: coalesced_def bend_def)
  ultimately have "heap_step b F A s (F - {p}) (insert p A) ?s"
    using q(1) qp by (auto simp: heap_step_def units_def)
  then show ?thesis using pA n by (auto simp: handed_out_def)
qed

lemma take_split:
  assumes ok: "heap_ok b F A s" and q: "q \<in> F" "p = hptr s q" and n: "n < hsize s p" "0 < n"
  defines "w \<equiv> p + 8 * (hsize s p - n)"
  shows "handed_out b n F A s w (set_size w n (set_size p (hsize s p - n) s)\<lparr>freep := q\<rparr>)"
proof -
  let ?s1 = "set_size w n (set_size p (hsize s p - n) s)"
  let ?s = "?s1\<lparr>freep := q\<rparr>"
  have pF: "p \<in> F" using nxt_in [OF heap_okD(1) [OF ok]] heap_okD(2) [OF ok q(1)] q(2) by simp
  note sp = split_ok [OF ok pF n, folded w_def]
  have wp: "w \<noteq> p" using sp(3) by auto
  have "heap_ok b F (insert w A) ?s" using sp(1) by (rule heap_ok_cong) simp_all
  moreover have "keeps a s ?s" if a: "a \<in> A" for a
    unfolding keeps_def
  proof (intro allI impI)
    fix x :: uint assume x: "unat a < unat x + 8" "unat x < bend s a"
    have ap: "p \<noteq> a" using a pF heap_okD(3) [OF ok] by auto
    then have "unat p + 8 \<le> unat a \<or> bend s a \<le> unat p" using header_apart [OF ok a] pF by blast
    moreover have "bend s p \<le> unat a \<or> bend s a \<le> unat p"
      using heap_okD(8) [OF ok, of p a] heap_okD(8) [OF ok, of a p] a pF ap by (metis UnI1 UnI2 linorder_neqE)
    moreover have "unat w + 8 \<le> bend s p"
      using sp(4) n(2) by (auto simp: word_less_nat_alt)
    ultimately have "x \<noteq> p" "x \<noteq> w" using x sp(3) by auto
    then show "hptr ?s x = hptr s x \<and> hsize ?s x = hsize s x" by simp
  qed
  moreover have "units (F \<union> insert w A) ?s = units (F \<union> A) s"
  proof -
    define R where "R = F \<union> A - {p}"
    have R: "p \<notin> R" "w \<notin> insert p R" "F \<union> A = insert p R" "F \<union> insert w A = insert w (insert p R)"
      using pF sp(2) wp by (auto simp: R_def)
    have "units R ?s = units R s" by (rule units_cong) (use R in auto)
    moreover have "unat (hsize s p - n) = unat (hsize s p) - unat n" "unat n < unat (hsize s p)"
      using n(1) by (simp_all add: unat_sub less_imp_le word_less_nat_alt)
    ultimately show ?thesis unfolding R(3,4) using R(1,2) wp by (simp add: units_insert)
  qed
  moreover have "coalesced F s \<longrightarrow> coalesced F ?s"
  proof
    assume co: "coalesced F s"
    have "bend ?s x \<noteq> unat z" if "x \<in> F" "z \<in> F" "x < z" for x z
    proof (cases "x = p")
      case True
      have "bend ?s p = unat w"
        using sp(4) n(1) wp by (simp add: bend_def unat_sub less_imp_le word_less_nat_alt)
      moreover have "unat w \<noteq> unat z" using sp(2) that(2) word_unat_eq_iff [of w z] by blast
      ultimately show ?thesis using True by metis
    next
      case False
      have "x \<noteq> w" using sp(2) that by auto
      with False have "bend ?s x = bend s x" by (simp add: bend_def)
      then show ?thesis using co that by (auto simp: coalesced_def)
    qed
    then show "coalesced F ?s" by (auto simp: coalesced_def)
  qed
  ultimately have "heap_step b F A s F (insert w A) ?s"
    using q(1) by (auto simp: heap_step_def)
  then show ?thesis using sp(2) by (auto simp: handed_out_def)
qed

lemma malloc_take_ok:
  assumes ok: "heap_ok b F A s" and q: "q \<in> F" "p = hptr s q" and n: "n \<le> hsize s p" "0 < n"
  shows "\<exists>bp s'. malloc_take n q p s = (bp + 8, s') \<and> handed_out b n F A s bp s'"
proof (cases "hsize s p = n")
  case True
  then show ?thesis using take_exact [OF ok q True n(2)] by (auto simp: malloc_take_def)
next
  case False
  with n have "n < hsize s p" by auto
  from take_split [OF ok q this n(2)] False show ?thesis
    by (auto simp: malloc_take_def Let_def)
qed

text \<open>The walk of \<open>malloc\<close>: past the blocks that are too small, as long as it does not meet \<open>freep\<close>.\<close>

lemma malloc_loop_skip:
  "hsize s p < n \<Longrightarrow> p \<noteq> freep s \<Longrightarrow> malloc_loop avail n q p s = malloc_loop avail n p (hptr s p) s"
  by (subst malloc_loop.simps) (simp flip: not_le)

lemma malloc_loop_hit:
  "n \<le> hsize s p \<Longrightarrow> malloc_loop avail n q p s = Some (malloc_take n q p s)"
  by (subst malloc_loop.simps) simp

lemma malloc_loop_more:
  "hsize s p < n \<Longrightarrow> p = freep s \<Longrightarrow> malloc_loop avail n q p s =
     (case morecore avail n s of
        None \<Rightarrow> None
      | Some (p, s) \<Rightarrow> if p = 0 then Some (0, s) else malloc_loop avail n p (hptr s p) s)"
  by (subst malloc_loop.simps) (simp flip: not_le)

lemma malloc_loop_walk:
  assumes "\<forall>i<k. hsize s ((hptr s ^^ Suc i) x) < n \<and> (hptr s ^^ Suc i) x \<noteq> freep s"
  shows "malloc_loop avail n x (hptr s x) s = malloc_loop avail n ((hptr s ^^ k) x) ((hptr s ^^ Suc k) x) s"
  using assms
proof (induction k)
  case (Suc k)
  then have "malloc_loop avail n x (hptr s x) s = malloc_loop avail n ((hptr s ^^ k) x) ((hptr s ^^ Suc k) x) s" by simp
  also have "\<dots> = malloc_loop avail n ((hptr s ^^ Suc k) x) ((hptr s ^^ Suc (Suc k)) x) s"
    using Suc.prems by (subst malloc_loop_skip) auto
  finally show ?case .
qed simp

lemma malloc_loop_found:
  assumes ok: "heap_ok b F A s" and f: "freep s \<in> F" and z: "z \<in> F" "n \<le> hsize s z"
  shows "\<exists>q\<in>F. malloc_loop avail n (freep s) (hptr s (freep s)) s = Some (malloc_take n q (hptr s q) s)
    \<and> n \<le> hsize s (hptr s q)"
proof -
  let ?at = "\<lambda>k. (hptr s ^^ k) (freep s)"
  have P: "\<exists>k. n \<le> hsize s (?at (Suc k))"
    using nxt_reach [OF heap_okD(1) [OF ok] f z(1)] z(2) hptr_pow [OF ok f] by metis
  define j where "j = (LEAST k. n \<le> hsize s (?at (Suc k)))"
  have j: "n \<le> hsize s (?at (Suc j))" unfolding j_def by (rule LeastI_ex [OF P])
  have small: "hsize s (?at (Suc i)) < n" if "i < j" for i
    using not_less_Least [of i "\<lambda>k. n \<le> hsize s (?at (Suc k))"] that by (simp add: j_def not_le)
  have "?at (Suc i) \<noteq> freep s" if i: "i < j" for i
  proof
    assume e: "?at (Suc i) = freep s"
    have "Suc j = Suc (j - i - 1) + Suc i" using i by simp
    then have "?at (Suc j) = (hptr s ^^ Suc (j - i - 1)) (?at (Suc i))" by (simp only: funpow_add o_apply)
    then have "?at (Suc j) = ?at (Suc (j - i - 1))" by (simp only: e)
    moreover have "hsize s (?at (Suc (j - i - 1))) < n" using i by (intro small) simp
    ultimately show False using j by simp
  qed
  with small have "malloc_loop avail n (freep s) (hptr s (freep s)) s = malloc_loop avail n (?at j) (?at (Suc j)) s"
    by (intro malloc_loop_walk) blast
  also have "\<dots> = Some (malloc_take n (?at j) (?at (Suc j)) s)" by (rule malloc_loop_hit [OF j])
  finally show ?thesis
    using j hptr_pow [OF ok f] nxt_pow_in [OF heap_okD(1) [OF ok] f] by (intro bexI [of _ "?at j"]) auto
qed

lemma malloc_loop_full:
  assumes ok: "heap_ok b F A s" and f: "freep s \<in> F" and z: "\<forall>z\<in>F. hsize s z < n"
  shows "malloc_loop avail n (freep s) (hptr s (freep s)) s =
     (case morecore avail n s of
        None \<Rightarrow> None
      | Some (p, s) \<Rightarrow> if p = 0 then Some (0, s) else malloc_loop avail n p (hptr s p) s)"
proof -
  let ?at = "\<lambda>k. (hptr s ^^ k) (freep s)"
  have P: "\<exists>k. ?at (Suc k) = freep s"
    using nxt_reach [OF heap_okD(1) [OF ok] f f] hptr_pow [OF ok f] by metis
  define j where "j = (LEAST k. ?at (Suc k) = freep s)"
  have j: "?at (Suc j) = freep s" unfolding j_def by (rule LeastI_ex [OF P])
  have "?at (Suc i) \<noteq> freep s" if "i < j" for i
    using not_less_Least [of i "\<lambda>k. ?at (Suc k) = freep s"] that by (simp add: j_def)
  moreover have "?at k \<in> F" for k using hptr_pow [OF ok f] nxt_pow_in [OF heap_okD(1) [OF ok] f] by simp
  ultimately have "malloc_loop avail n (freep s) (hptr s (freep s)) s = malloc_loop avail n (?at j) (?at (Suc j)) s"
    using z by (intro malloc_loop_walk) blast
  also have "\<dots> = malloc_loop avail n (?at j) (freep s) s" by (simp only: j)
  also have "\<dots> = (case morecore avail n s of
        None \<Rightarrow> None
      | Some (p, s) \<Rightarrow> if p = 0 then Some (0, s) else malloc_loop avail n p (hptr s p) s)"
    using z f by (intro malloc_loop_more) auto
  finally show ?thesis .
qed

lemma heap_step_trans:
  assumes "heap_step b F A s F1 A s1" "heap_step b F1 A s1 F2 A2 s2" "heap_ok b F A s"
  shows "heap_step b F A s F2 A2 s2"
proof -
  have "keeps a s s2" if "a \<in> A \<inter> A2" for a
    using keeps_trans [of a s s1 s2] assms(1,2) used_room(1) [OF assms(3)] that by (auto simp: heap_step_def)
  then show ?thesis using assms(1,2) by (auto simp: heap_step_def)
qed

lemma malloc_loop_ok:
  assumes ok: "heap_ok b F A s" and f: "freep s \<in> F" and n: "8 * unat n < 2 ^ 31" "0 < n"
  shows "malloc_loop avail n (freep s) (hptr s (freep s)) s = Some (0, s) \<or>
    (\<exists>bp s'. malloc_loop avail n (freep s) (hptr s (freep s)) s = Some (bp + 8, s') \<and> handed_out b n F A s bp s')"
proof (cases "\<exists>z\<in>F. n \<le> hsize s z")
  case True
  then obtain z where z: "z \<in> F" "n \<le> hsize s z" by blast
  from malloc_loop_found [OF ok f this] obtain q where
    q: "q \<in> F" "malloc_loop avail n (freep s) (hptr s (freep s)) s = Some (malloc_take n q (hptr s q) s)"
    "n \<le> hsize s (hptr s q)" by blast
  from malloc_take_ok [OF ok q(1) HOL.refl q(3) n(2)] q(2) show ?thesis by auto
next
  case False
  then have full: "\<forall>z\<in>F. hsize s z < n" by (auto simp: not_le)
  note loop = malloc_loop_full [OF ok f this]
  from morecore_step [OF ok f n(1), of avail] show ?thesis
  proof
    assume "morecore avail n s = Some (0, s)"
    then show ?thesis using loop by simp
  next
    assume "\<exists>F' s'. morecore avail n s = Some (freep s', s') \<and> freep s' \<noteq> 0 \<and> heap_step b F A s F' A s'
       \<and> (\<exists>z\<in>F'. n \<le> hsize s' z)"
    then obtain F1 s1 z where
      m: "morecore avail n s = Some (freep s1, s1)" "freep s1 \<noteq> 0" "heap_step b F A s F1 A s1"
        "z \<in> F1" "n \<le> hsize s1 z" by blast
    then have ok1: "heap_ok b F1 A s1" "freep s1 \<in> F1" by (auto simp: heap_step_def)
    from malloc_loop_found [OF ok1 m(4,5)] obtain q where
      q: "q \<in> F1" "malloc_loop avail n (freep s1) (hptr s1 (freep s1)) s1 = Some (malloc_take n q (hptr s1 q) s1)"
      "n \<le> hsize s1 (hptr s1 q)" by blast
    from malloc_take_ok [OF ok1(1) q(1) HOL.refl q(3) n(2)] obtain bp s2 where
      t: "malloc_take n q (hptr s1 q) s1 = (bp + 8, s2)" "handed_out b n F1 A s1 bp s2" by blast
    have "handed_out b n F A s bp s2"
      using t(2) heap_step_trans [OF m(3) _ ok] by (auto simp: handed_out_def)
    then show ?thesis using loop m q t by auto
  qed
qed

lemma malloc_units_value:
  assumes "unat nbytes < 2 ^ 31 - 16"
  shows "8 * unat (malloc_units nbytes) < 2 ^ 31" "unat nbytes + 8 \<le> 8 * unat (malloc_units nbytes)"
    "0 < malloc_units nbytes"
proof -
  have u: "unat (nbytes + 8 - 1) = unat nbytes + 7" using assms by (simp add: unat_word_ariths)
  have d: "unat ((nbytes + 8 - 1) div 8) = (unat nbytes + 7) div 8" by (simp only: unat_div u) simp
  then have m: "unat (malloc_units nbytes) = (unat nbytes + 7) div 8 + 1"
    unfolding malloc_units_def using assms by (subst unat_add_lem [THEN iffD1]) (auto simp only: d, simp_all)
  then show "8 * unat (malloc_units nbytes) < 2 ^ 31" "unat nbytes + 8 \<le> 8 * unat (malloc_units nbytes)"
    using assms by auto
  show "0 < malloc_units nbytes" using m by (simp add: word_less_nat_alt)
qed

lemma malloc_is_loop:
  "freep s \<noteq> 0 \<Longrightarrow> malloc b avail nbytes s = malloc_loop avail (malloc_units nbytes) (freep s) (hptr s (freep s)) s"
  by (simp add: malloc_def Let_def)

lemma freep_nonzero:
  assumes "heap_ok b F A s" "freep s \<in> F"
  shows "freep s \<noteq> 0"
proof -
  have "b \<le> freep s" "b \<noteq> 0" using heap_okD(1,5) [OF assms(1)] assms(2) by (auto simp: least_def)
  then show ?thesis by auto
qed

text \<open>
  C10. In a well-formed heap \<open>malloc\<close> of less than \<open>2 ^ 31 - 16\<close> bytes always returns. Unless it
  returns null and changes nothing, the block is none of the blocks in use, holds the bytes asked
  for, and the heap stays well-formed with the blocks in use untouched, header and contents, with no
  unit of the heap lost, and with the free list still fully coalesced if it was. (For requests
  near \<open>2 ^ 32\<close> the code computes a wrapped size, as \<open>malloc_size_wraps\<close> shows.)
\<close>

theorem malloc_fresh:
  assumes "heap_ok b F A s" "freep s \<in> F" "unat nbytes < 2 ^ 31 - 16"
  shows "malloc b avail nbytes s = Some (0, s) \<or>
    (\<exists>bp F' s'. malloc b avail nbytes s = Some (bp + 8, s') \<and> bp \<notin> A
       \<and> unat nbytes + 8 \<le> 8 * unat (hsize s' bp) \<and> heap_step b F A s F' (insert bp A) s')"
  using malloc_loop_ok [OF assms(1,2) malloc_units_value(1,3) [OF assms(3)], of avail]
    malloc_is_loop [OF freep_nonzero [OF assms(1,2)], of b avail nbytes] malloc_units_value(2) [OF assms(3)]
  by (auto simp: handed_out_def)

declare free_search.simps [code] malloc_loop.simps [code]

text \<open>A process of 0x5000 bytes with the static header at 0x1000, before the first call and with the empty list.\<close>

definition uheap0 :: uheap where
  "uheap0 = \<lparr>hptr = (\<lambda>_. 0), hsize = (\<lambda>_. 0), freep = 0, brk = 0x5000\<rparr>"

definition uheap1 :: uheap where
  "uheap1 = \<lparr>hptr = (\<lambda>_. 0)(0x1000 := 0x1000), hsize = (\<lambda>_. 0), freep = 0x1000, brk = 0x5000\<rparr>"

lemma empty_heap_ok:
  assumes "b \<noteq> 0" "unat b + 8 \<le> unat (brk s)" "unat (brk s) < 2 ^ 31" "hptr s b = b" "hsize s b = 0"
  shows "heap_ok b {b} {} s"
proof -
  have "nxt {b} b = b" by (rule nxt_last) (auto simp: least_def)
  then show ?thesis using assms by (simp add: heap_ok_def ring_ok_def least_def blocks_ok_def)
qed

theorem malloc_fresh_witness:
  "\<exists>bp F' s'. malloc 0x1000 (\<lambda>_. True) 100 uheap1 = Some (bp + 8, s') \<and> 108 \<le> 8 * unat (hsize s' bp)
     \<and> heap_step 0x1000 {0x1000} {} uheap1 F' {bp} s'"
proof -
  have "map_option fst (malloc 0x1000 (\<lambda>_. True) 100 uheap1) = Some 0xCF98" by code_simp
  moreover have "heap_ok 0x1000 {0x1000} {} uheap1" by (rule empty_heap_ok) (simp_all add: uheap1_def)
  ultimately show ?thesis
    using malloc_fresh [of "0x1000" "{0x1000}" "{}" uheap1 100 "\<lambda>_. True"] by (auto simp: uheap1_def)
qed

subsection \<open>Programs that allocate and free\<close>

text \<open>
  A call of \<open>malloc\<close>, with the growth the kernel grants during it, or \<open>free\<close> of the \<open>i\<close>-th pointer
  the program holds. The program holds the pointers it got and did not free, with the sizes it asked for.
\<close>

datatype uop = Malloc "uint \<Rightarrow> bool" uint | Free nat

fun heap_run :: "uint \<Rightarrow> uop list \<Rightarrow> (uint \<times> uint) list \<Rightarrow> uheap \<Rightarrow> ((uint \<times> uint) list \<times> uheap) option" where
  "heap_run b [] live s = Some (live, s)"
| "heap_run b (Malloc avail n # ops) live s =
     (case malloc b avail n s of
        None \<Rightarrow> None
      | Some (r, s) \<Rightarrow> heap_run b ops (if r = 0 then live else (r, n) # live) s)"
| "heap_run b (Free i # ops) live s =
     (if i < length live then
        (case ufree (fst (live ! i)) s of
           None \<Rightarrow> None
         | Some s \<Rightarrow> heap_run b ops (take i live @ drop (Suc i) live) s)
      else heap_run b ops live s)"

fun small_op :: "uop \<Rightarrow> bool" where
  "small_op (Malloc avail n) \<longleftrightarrow> unat n < 2 ^ 31 - 16"
| "small_op (Free i) \<longleftrightarrow> True"

definition headers :: "(uint \<times> uint) list \<Rightarrow> uint set" where
  "headers live = (\<lambda>x. fst x - 8) ` set live"

definition live_ok :: "uint \<Rightarrow> nat \<Rightarrow> uint set \<Rightarrow> (uint \<times> uint) list \<Rightarrow> uheap \<Rightarrow> bool" where
  "live_ok b k F live s \<longleftrightarrow>
     heap_ok b F (headers live) s \<and> freep s \<in> F \<and> coalesced F s
     \<and> 8 * units (F \<union> headers live) s + k = unat (brk s)
     \<and> distinct (map fst live) \<and> (\<forall>x\<in>set live. unat (snd x) + 8 \<le> 8 * unat (hsize s (fst x - 8)))"

lemma headers_simps:
  "headers ((r, n) # live) = insert (r - 8) (headers live)"
  by (simp add: headers_def)

lemma keeps_size: "keeps a s s' \<Longrightarrow> heap_ok b F A s \<Longrightarrow> a \<in> A \<Longrightarrow> hsize s' a = hsize s a"
  using used_room(1) [of b F A s a] by (simp add: keeps_def)

lemma live_malloc:
  assumes l: "live_ok b k F live s" and n: "unat n < 2 ^ 31 - 16"
  shows "\<exists>r F' s'. malloc b avail n s = Some (r, s') \<and> live_ok b k F' (if r = 0 then live else (r, n) # live) s'"
proof -
  have ok: "heap_ok b F (headers live) s" "freep s \<in> F" using l by (auto simp: live_ok_def)
  have mu: "unat n + 8 \<le> 8 * unat (malloc_units n)" using malloc_units_value(2) [OF n] .
  from malloc_loop_ok [OF ok malloc_units_value(1,3) [OF n], of avail]
  show ?thesis
  proof
    assume "malloc_loop avail (malloc_units n) (freep s) (hptr s (freep s)) s = Some (0, s)"
    then show ?thesis using malloc_is_loop [OF freep_nonzero [OF ok]] l by (intro exI [of _ 0] exI [of _ F] exI [of _ s]) simp
  next
    assume "\<exists>bp s'. malloc_loop avail (malloc_units n) (freep s) (hptr s (freep s)) s = Some (bp + 8, s')
       \<and> handed_out b (malloc_units n) F (headers live) s bp s'"
    then obtain bp s' F' where m: "malloc b avail n s = Some (bp + 8, s')" "bp \<notin> headers live"
      "hsize s' bp = malloc_units n" "heap_step b F (headers live) s F' (insert bp (headers live)) s'"
      using malloc_is_loop [OF freep_nonzero [OF ok]] by (auto simp: handed_out_def)
    have ok': "heap_ok b F' (insert bp (headers live)) s'" using m(4) by (simp add: heap_step_def)
    have "bend s' bp < 2 ^ 31" using heap_okD(9) [OF ok', of bp] by simp
    then have "unat (bp + 8) = unat bp + 8" by (simp add: unat_word_ariths bend_def)
    then have r0: "bp + 8 \<noteq> 0" by auto
    have "bp + 8 \<notin> fst ` set live" using m(2) by (force simp: headers_def)
    moreover have "hsize s' (fst x - 8) = hsize s (fst x - 8)" if "x \<in> set live" for x
    proof (rule keeps_size [OF _ ok(1)])
      show "fst x - 8 \<in> headers live" using that by (simp add: headers_def)
      then show "keeps (fst x - 8) s s'" using m(4) by (simp add: heap_step_def)
    qed
    moreover have "8 * units (F' \<union> insert bp (headers live)) s' + k = unat (brk s')"
      using m(4) l by (auto simp: heap_step_def live_ok_def)
    ultimately have "live_ok b k F' ((bp + 8, n) # live) s'"
      using m(3,4) l mu by (auto simp: live_ok_def heap_step_def headers_simps)
    then show ?thesis using m(1) r0 by (intro exI [of _ "bp + 8"] exI [of _ F'] exI [of _ s']) simp
  qed
qed

lemma live_free:
  assumes l: "live_ok b k F live s" and i: "i < length live"
  shows "\<exists>F' s'. ufree (fst (live ! i)) s = Some s' \<and> live_ok b k F' (take i live @ drop (Suc i) live) s'"
proof -
  let ?l = "take i live @ drop (Suc i) live"
  let ?bp = "fst (live ! i) - 8"
  have ok: "heap_ok b F (headers live) s" "freep s \<in> F" using l by (auto simp: live_ok_def)
  have bp: "?bp \<in> headers live" using i by (simp add: headers_def)
  have e: "live = take i live @ live ! i # drop (Suc i) live" using i by (simp add: id_take_nth_drop)
  have d: "distinct (map fst ?l)" "fst (live ! i) \<notin> fst ` set ?l" and sub: "set ?l \<subseteq> set live"
  proof -
    have "distinct (map fst (take i live @ live ! i # drop (Suc i) live))" using l e by (auto simp: live_ok_def)
    then show "distinct (map fst ?l)" "fst (live ! i) \<notin> fst ` set ?l" by auto
    show "set ?l \<subseteq> set live" by (auto dest: in_set_takeD in_set_dropD)
  qed
  have "set live = insert (live ! i) (set ?l)" using arg_cong [OF e, of set] by auto
  then have "headers live = insert ?bp (headers ?l)" by (simp add: headers_def)
  moreover have "?bp \<notin> headers ?l" 
  proof
    assume "?bp \<in> headers ?l"
    then obtain x where "x \<in> set ?l" "?bp = fst x - 8" unfolding headers_def by blast
    then have "x \<in> set ?l" "fst (live ! i) = fst x" by auto
    then show False using d(2) by blast
  qed
  ultimately have h: "headers live - {?bp} = headers ?l" by auto
  obtain F' s' where f: "ufree (?bp + 8) s = Some s'" "heap_step b F (headers live) s F' (headers live - {?bp}) s'"
    by (rule ufree_step [OF ok bp])
  have "hsize s' (fst x - 8) = hsize s (fst x - 8)" if "x \<in> set ?l" for x
  proof (rule keeps_size [OF _ ok(1)])
    have "fst x - 8 \<in> headers ?l" using that by (auto simp: headers_def)
    then show "fst x - 8 \<in> headers live" "keeps (fst x - 8) s s'" using f(2) h by (auto simp: heap_step_def)
  qed
  moreover have "8 * units (F' \<union> headers ?l) s' + k = unat (brk s')"
    using f(2) l h by (auto simp: heap_step_def live_ok_def)
  ultimately have "live_ok b k F' ?l s'" using f(2) l h d(1) sub by (auto simp: live_ok_def heap_step_def)
  then show ?thesis using f(1) by auto
qed

lemma first_malloc:
  assumes "b \<noteq> 0" "unat b + 8 \<le> unat (brk s)" "unat (brk s) < 2 ^ 31" "freep s = 0"
  defines "s1 \<equiv> set_size b 0 ((set_ptr b b s)\<lparr>freep := b\<rparr>)"
  shows "malloc b avail n s = malloc b avail n s1" "live_ok b (unat (brk s)) {b} [] s1"
proof -
  show "malloc b avail n s = malloc b avail n s1" using assms by (simp add: malloc_def Let_def)
  have "heap_ok b {b} {} s1" using assms by (intro empty_heap_ok) simp_all
  then show "live_ok b (unat (brk s)) {b} [] s1"
    using assms by (auto simp: live_ok_def headers_def coalesced_def units_def)
qed

lemma heap_run_live:
  assumes "live_ok b k F live s" "\<forall>x\<in>set ops. small_op x"
  shows "\<exists>F' live' s'. heap_run b ops live s = Some (live', s') \<and> live_ok b k F' live' s'"
  using assms
proof (induction ops arbitrary: F live s)
  case (Cons x ops)
  show ?case
  proof (cases x)
    case (Malloc avail n)
    with Cons.prems live_malloc [OF Cons.prems(1), of n avail] obtain r F1 s1 where
      m: "malloc b avail n s = Some (r, s1)" "live_ok b k F1 (if r = 0 then live else (r, n) # live) s1" by auto
    from Cons.IH [OF m(2)] Cons.prems(2) m(1) Malloc show ?thesis by simp
  next
    case (Free i)
    show ?thesis
    proof (cases "i < length live")
      case True
      from live_free [OF Cons.prems(1) this] obtain F1 s1 where
        m: "ufree (fst (live ! i)) s = Some s1" "live_ok b k F1 (take i live @ drop (Suc i) live) s1" by blast
      from Cons.IH [OF m(2)] Cons.prems(2) m(1) Free True show ?thesis by simp
    next
      case False
      then show ?thesis using Cons.IH [OF Cons.prems(1)] Cons.prems(2) Free by simp
    qed
  qed
qed auto

lemma heap_run_start:
  assumes "b \<noteq> 0" "unat b + 8 \<le> unat (brk s)" "unat (brk s) < 2 ^ 31" "freep s = 0" "\<forall>x\<in>set ops. small_op x"
  shows "\<exists>live s'. heap_run b ops [] s = Some (live, s') \<and>
    (live = [] \<and> s' = s \<or> (\<exists>F. live_ok b (unat (brk s)) F live s'))"
  using assms(5)
proof (induction ops)
  case (Cons x ops)
  show ?case
  proof (cases x)
    case (Malloc avail n)
    define s1 where "s1 = set_size b 0 ((set_ptr b b s)\<lparr>freep := b\<rparr>)"
    note f = first_malloc [OF assms(1-4), folded s1_def]
    have "heap_run b (x # ops) [] s = heap_run b (x # ops) [] s1" using f(1) [of avail n] Malloc by simp
    then show ?thesis using heap_run_live [OF f(2) Cons.prems] by metis
  next
    case (Free i)
    then show ?thesis using Cons by simp
  qed
qed simp

lemma live_inside:
  assumes l: "live_ok b k F live s" and z: "z \<in> set live"
  shows "fst z - 8 \<in> headers live" "unat (fst z) = unat (fst z - 8) + 8" "unat b + 8 \<le> unat (fst z - 8)"
    "unat (fst z) + unat (snd z) \<le> bend s (fst z - 8)" "bend s (fst z - 8) \<le> unat (brk s)"
proof -
  have ok: "heap_ok b F (headers live) s" using l by (auto simp: live_ok_def)
  show h: "fst z - 8 \<in> headers live" using z by (simp add: headers_def)
  have bi: "block_in b s (fst z - 8)" using heap_okD(7) [OF ok] used_above [OF ok h] h by blast
  have "bend s (fst z - 8) < 2 ^ 31" using heap_okD(9) [OF ok] h by blast
  then have "unat (fst z - 8) < 2 ^ 31" unfolding bend_def by linarith
  moreover have "unat (p + 8) = unat p + 8" if "unat p < 2 ^ 31" for p :: uint
    using that by (simp add: unat_word_ariths)
  ultimately have "unat (fst z - 8 + 8) = unat (fst z - 8) + 8" by blast
  then show r: "unat (fst z) = unat (fst z - 8) + 8" by simp
  have n: "unat (snd z) + 8 \<le> 8 * unat (hsize s (fst z - 8))" using l z by (simp add: live_ok_def)
  show "unat b + 8 \<le> unat (fst z - 8)" "bend s (fst z - 8) \<le> unat (brk s)" using bi by (auto simp: block_in_def)
  show "unat (fst z) + unat (snd z) \<le> bend s (fst z - 8)" unfolding r bend_def using n by linarith
qed

lemma live_apart:
  assumes l: "live_ok b k F live s" and x: "x \<in> set live" and y: "y \<in> set live" and ne: "fst x \<noteq> fst y"
  shows "unat (fst x) + unat (snd x) + 8 \<le> unat (fst y) \<or> unat (fst y) + unat (snd y) + 8 \<le> unat (fst x)"
proof -
  have ok: "heap_ok b F (headers live) s" using l by (auto simp: live_ok_def)
  note px = live_inside [OF l x] and py = live_inside [OF l y]
  have "fst x - 8 \<noteq> fst y - 8" using ne by simp
  then consider "fst x - 8 < fst y - 8" | "fst y - 8 < fst x - 8" using linorder_neqE by blast
  then show ?thesis
  proof cases
    case 1
    then have "bend s (fst x - 8) \<le> unat (fst y - 8)" using heap_okD(8) [OF ok] px(1) py(1) by blast
    then show ?thesis using px(4) py(2) by linarith
  next
    case 2
    then have "bend s (fst y - 8) \<le> unat (fst x - 8)" using heap_okD(8) [OF ok] px(1) py(1) by blast
    then show ?thesis using py(4) px(2) by linarith
  qed
qed

text \<open>
  C6. Every sequence of calls of \<open>malloc\<close>, each for less than \<open>2 ^ 31 - 16\<close> bytes, and of \<open>free\<close> of
  pointers the program holds runs to its end, for a process that starts with the heap unused and
  is smaller than \<open>2 ^ 31\<close> bytes. The pointers the program then holds are different; the bytes behind
  each lie inside the heap, and any two of them, with a header between, apart. If the heap is in
  use, all its bytes since the start are in the blocks of the program and of the free list, and
  no two free blocks are adjacent.
\<close>

theorem malloc_free_sound:
  assumes "b \<noteq> 0" "unat b + 8 \<le> unat (brk s)" "unat (brk s) < 2 ^ 31" "freep s = 0"
    and "\<forall>x\<in>set ops. small_op x"
  shows "\<exists>live s'. heap_run b ops [] s = Some (live, s') \<and> distinct (map fst live)
    \<and> (\<forall>x\<in>set live. unat b + 16 \<le> unat (fst x) \<and> unat (fst x) + unat (snd x) \<le> unat (brk s')
        \<and> (\<forall>y\<in>set live. fst x \<noteq> fst y \<longrightarrow>
             unat (fst x) + unat (snd x) + 8 \<le> unat (fst y) \<or> unat (fst y) + unat (snd y) + 8 \<le> unat (fst x)))
    \<and> (freep s' \<noteq> 0 \<longrightarrow>
        (\<exists>F. heap_ok b F (headers live) s' \<and> coalesced F s'
           \<and> 8 * units (F \<union> headers live) s' + unat (brk s) = unat (brk s')))"
proof -
  from heap_run_start [OF assms] obtain live s' where
    r: "heap_run b ops [] s = Some (live, s')" "live = [] \<and> s' = s \<or> (\<exists>F. live_ok b (unat (brk s)) F live s')" by blast
  from r(2) show ?thesis
  proof
    assume "live = [] \<and> s' = s"
    then show ?thesis using r(1) assms(4) by auto
  next
    assume "\<exists>F. live_ok b (unat (brk s)) F live s'"
    then obtain F where l: "live_ok b (unat (brk s)) F live s'" by blast
    have "unat b + 16 \<le> unat (fst x) \<and> unat (fst x) + unat (snd x) \<le> unat (brk s')" if "x \<in> set live" for x
      using live_inside [OF l that] by linarith
    then show ?thesis using r(1) l live_apart(1) [OF l] by (intro exI [of _ live] exI [of _ s']) (auto simp: live_ok_def)
  qed
qed

theorem malloc_free_sound_witness:
  "\<exists>live s'. heap_run 0x1000 [Malloc (\<lambda>_. True) 100, Malloc (\<lambda>_. True) 200, Free 1, Malloc (\<lambda>_. False) 40] [] uheap0
     = Some (live, s') \<and> length live = 2 \<and> distinct (map fst live) \<and> (\<forall>x\<in>set live. unat (fst x) + unat (snd x) \<le> unat (brk s'))"
proof -
  let ?ops = "[Malloc (\<lambda>_. True) 100, Malloc (\<lambda>_. True) 200, Free 1, Malloc (\<lambda>_. False) 40]"
  have "map_option (\<lambda>r. length (fst r)) (heap_run 0x1000 ?ops [] uheap0) = Some 2" by code_simp
  moreover from malloc_free_sound [of "0x1000" uheap0 ?ops] obtain live s' where
    "heap_run 0x1000 ?ops [] uheap0 = Some (live, s')" "distinct (map fst live)"
    "\<forall>x\<in>set live. unat (fst x) + unat (snd x) \<le> unat (brk s')"
    by (auto simp: uheap0_def)
  ultimately show ?thesis by auto
qed

text \<open>
  The size in units is computed modulo \<open>2 ^ 32\<close>: a request for the whole address space succeeds
  with a block of one unit, its header alone.
\<close>

theorem malloc_size_wraps:
  "malloc_units 0xFFFFFFFF = 1
   \<and> map_option (\<lambda>r. (fst r, hsize (snd r) (fst r - 8))) (malloc 0x1000 (\<lambda>_. True) 0xFFFFFFFF uheap0) = Some (0xD000, 1)"
  by code_simp

end
