(* ===== verification/Grep.thy ===== *)
theory Grep
  imports Prelude
begin

section \<open>The pattern matcher and the line loop of grep (grep.c)\<close>

text \<open>
  A C string is the list of its bytes before the terminating zero. The matcher is shown to decide
  a small pattern language; the line loop is run on the list of what successive reads returned.
\<close>

subsection \<open>The matcher\<close>

function matchhere :: "byte list \<Rightarrow> byte list \<Rightarrow> bool"
  and matchstar :: "byte \<Rightarrow> byte list \<Rightarrow> byte list \<Rightarrow> bool" where
  "matchhere re tx =
     (if re = [] then True
      else if tl re \<noteq> [] \<and> re ! 1 = 42 then matchstar (re ! 0) (drop 2 re) tx
      else if re ! 0 = 36 \<and> tl re = [] then tx = []
      else if tx \<noteq> [] \<and> (re ! 0 = 46 \<or> re ! 0 = tx ! 0) then matchhere (tl re) (tl tx)
      else False)"
| "matchstar c re tx =
     (if matchhere re tx then True
      else if tx \<noteq> [] \<and> (tx ! 0 = c \<or> c = 46) then matchstar c re (tl tx)
      else False)"
  by pat_completeness auto
termination
  by (relation "measures [case_sum (\<lambda>(re, t). 2 * length re) (\<lambda>(c, re, t). 2 * length re + 1),
        case_sum (\<lambda>(re, t). length t) (\<lambda>(c, re, t). length t)]")
    (auto simp: Suc_le_eq neq_Nil_conv)

declare matchhere.simps [simp del] matchstar.simps [simp del]

fun match_loop :: "byte list \<Rightarrow> byte list \<Rightarrow> bool" where
  "match_loop re tx =
     (if matchhere re tx then True
      else case tx of [] \<Rightarrow> False | _ # ts \<Rightarrow> match_loop re ts)"

declare match_loop.simps [simp del]

definition match :: "byte list \<Rightarrow> byte list \<Rightarrow> bool" where
  "match re tx = (if re \<noteq> [] \<and> re ! 0 = 94 then matchhere (tl re) tx else match_loop re tx)"

subsection \<open>The line loop\<close>

text \<open>\<open>strchr\<close>: the bytes before the first \<open>c\<close> and those after it, if it comes before a zero byte.\<close>

fun split_at :: "byte \<Rightarrow> byte list \<Rightarrow> (byte list \<times> byte list) option" where
  "split_at c [] = None"
| "split_at c (x # xs) =
     (if x = 0 then None else if x = c then Some ([], xs)
      else map_option (\<lambda>(a, b). (x # a, b)) (split_at c xs))"

lemma split_at_shorter [termination_simp]: "split_at c p = Some (a, b) \<Longrightarrow> length b < length p"
  by (induction p arbitrary: a) (auto split: if_splits)

text \<open>The inner loop from \<open>p\<close>: what is written, and where \<open>p\<close> stops.\<close>

fun grep_lines :: "byte list \<Rightarrow> byte list \<Rightarrow> byte list list \<times> byte list" where
  "grep_lines pat p =
     (case split_at 10 p of
        None \<Rightarrow> ([], p)
      | Some (line, rest) \<Rightarrow>
          let (out, p') = grep_lines pat rest in
          (if match pat line then (line @ [10]) # out else out, p'))"

declare grep_lines.simps [simp del]

text \<open>
  The outer loop: \<open>kept\<close> is the content of \<open>buf\<close> before the read, \<open>chunks\<close> what the reads return,
  up to an empty one. When the inner loop found no newline, \<open>p\<close> is still \<open>buf\<close> and \<open>m\<close> becomes 0.
\<close>

fun grep_loop :: "byte list \<Rightarrow> byte list \<Rightarrow> byte list list \<Rightarrow> byte list list" where
  "grep_loop pat kept [] = []"
| "grep_loop pat kept (chunk # chunks) =
     (if chunk = [] then []
      else let buf = kept @ chunk; (out, p) = grep_lines pat buf in
        out @ grep_loop pat (if length p = length buf then [] else p) chunks)"

definition grep :: "byte list \<Rightarrow> byte list list \<Rightarrow> byte list list" where
  "grep pat chunks = grep_loop pat [] chunks"

subsection \<open>The pattern language\<close>

datatype item = Lit byte | Star byte

definition fits :: "byte \<Rightarrow> byte \<Rightarrow> bool" where
  "fits c x \<longleftrightarrow> c = 46 \<or> x = c"

fun lang :: "item list \<Rightarrow> byte list set" where
  "lang [] = {[]}"
| "lang (Lit c # is) = {x # w | x w. fits c x \<and> w \<in> lang is}"
| "lang (Star c # is) = {u @ w | u w. (\<forall>x \<in> set u. fits c x) \<and> w \<in> lang is}"

text \<open>The items of a pattern after a leading \<open>^\<close>, and whether it ends in an anchoring \<open>$\<close>.\<close>

fun items :: "byte list \<Rightarrow> item list \<times> bool" where
  "items [] = ([], False)"
| "items [c] = (if c = 36 then ([], True) else ([Lit c], False))"
| "items (c # d # re) =
     (if d = 42 then apfst ((#) (Star c)) (items re) else apfst ((#) (Lit c)) (items (d # re)))"

definition begins :: "byte list \<Rightarrow> byte list \<Rightarrow> bool" where
  "begins re tx \<longleftrightarrow>
     (\<exists>w rest. tx = w @ rest \<and> w \<in> lang (fst (items re)) \<and> (snd (items re) \<longrightarrow> rest = []))"

lemma begins_Nil [simp]: "begins [] tx"
  by (simp add: begins_def)

lemma begins_Lit:
  assumes "re = c # re'" "re' = [] \<Longrightarrow> c \<noteq> 36" "re' \<noteq> [] \<Longrightarrow> hd re' \<noteq> 42"
  shows "begins re tx \<longleftrightarrow> (\<exists>x t. tx = x # t \<and> fits c x \<and> begins re' t)"
proof -
  have i: "items re = apfst ((#) (Lit c)) (items re')"
    using assms by (cases re') auto
  show ?thesis
  proof
    assume "begins re tx"
    then obtain v rest where v: "tx = v @ rest" "v \<in> lang (fst (items re))" "snd (items re) \<longrightarrow> rest = []"
      unfolding begins_def by blast
    from v(2) obtain x w where w: "v = x # w" "fits c x" "w \<in> lang (fst (items re'))" by (auto simp: i)
    have "begins re' (w @ rest)" unfolding begins_def using w(3) v(3) i by (metis snd_apfst)
    with v(1) w show "\<exists>x t. tx = x # t \<and> fits c x \<and> begins re' t" by simp
  next
    assume "\<exists>x t. tx = x # t \<and> fits c x \<and> begins re' t"
    then obtain x w rest where "tx = (x # w) @ rest" "fits c x" "w \<in> lang (fst (items re'))" "snd (items re') \<longrightarrow> rest = []"
      unfolding begins_def by (metis append_Cons)
    then show "begins re tx" unfolding begins_def i by (intro exI [of _ "x # w"] exI [of _ rest]) simp
  qed
qed

lemma begins_Star:
  "begins (c # 42 # re) tx \<longleftrightarrow> begins re tx \<or> (\<exists>x t. tx = x # t \<and> fits c x \<and> begins (c # 42 # re) t)"
proof -
  have L: "fst (items (c # 42 # re)) = Star c # fst (items re)" "snd (items (c # 42 # re)) = snd (items re)" by simp_all
  have "begins (c # 42 # re) t \<longleftrightarrow> (\<exists>u w rest. t = u @ w @ rest \<and> (\<forall>x \<in> set u. fits c x) \<and> w \<in> lang (fst (items re))
      \<and> (snd (items re) \<longrightarrow> rest = []))" for t
  proof
    assume "begins (c # 42 # re) t"
    then obtain v rest where v: "t = v @ rest" "v \<in> lang (fst (items (c # 42 # re)))" "snd (items (c # 42 # re)) \<longrightarrow> rest = []"
      unfolding begins_def by blast
    from v(2) obtain u w where "v = u @ w" "\<forall>x \<in> set u. fits c x" "w \<in> lang (fst (items re))" unfolding L by auto
    with v L(2) show "\<exists>u w rest. t = u @ w @ rest \<and> (\<forall>x \<in> set u. fits c x) \<and> w \<in> lang (fst (items re)) \<and> (snd (items re) \<longrightarrow> rest = [])"
      by (intro exI [of _ u] exI [of _ w] exI [of _ rest]) simp
  next
    assume "\<exists>u w rest. t = u @ w @ rest \<and> (\<forall>x \<in> set u. fits c x) \<and> w \<in> lang (fst (items re)) \<and> (snd (items re) \<longrightarrow> rest = [])"
    then obtain u w rest where u: "t = u @ w @ rest" "\<forall>x \<in> set u. fits c x" "w \<in> lang (fst (items re))" "snd (items re) \<longrightarrow> rest = []" by blast
    then have "u @ w \<in> lang (fst (items (c # 42 # re)))" unfolding L lang.simps by blast
    with u(1,4) L(2) show "begins (c # 42 # re) t" unfolding begins_def by (intro exI [of _ "u @ w"] exI [of _ rest]) simp
  qed
  note b = this
  show ?thesis
  proof
    assume "begins (c # 42 # re) tx"
    then obtain u w rest where u: "tx = u @ w @ rest" "\<forall>x \<in> set u. fits c x" "w \<in> lang (fst (items re))" "snd (items re) \<longrightarrow> rest = []"
      using b by blast
    show "begins re tx \<or> (\<exists>x t. tx = x # t \<and> fits c x \<and> begins (c # 42 # re) t)"
    proof (cases u)
      case Nil
      with u show ?thesis by (auto simp: begins_def)
    next
      case (Cons x v)
      with u have "tx = x # v @ w @ rest" "fits c x" "\<forall>y \<in> set v. fits c y" by simp_all
      with u(3,4) b [of "v @ w @ rest"] show ?thesis by blast
    qed
  next
    assume "begins re tx \<or> (\<exists>x t. tx = x # t \<and> fits c x \<and> begins (c # 42 # re) t)"
    then show "begins (c # 42 # re) tx"
    proof
      assume "begins re tx"
      then obtain w rest where "tx = [] @ w @ rest" "w \<in> lang (fst (items re))" "snd (items re) \<longrightarrow> rest = []"
        unfolding begins_def by (metis append_Nil)
      then show ?thesis unfolding b by (metis empty_iff empty_set)
    next
      assume "\<exists>x t. tx = x # t \<and> fits c x \<and> begins (c # 42 # re) t"
      then obtain x u w rest where "tx = (x # u) @ w @ rest" "\<forall>y \<in> set (x # u). fits c y" "w \<in> lang (fst (items re))"
        "snd (items re) \<longrightarrow> rest = []" unfolding b by (metis append_Cons set_ConsD)
      then show ?thesis unfolding b by blast
    qed
  qed
qed

lemma matchhere_begins: "matchhere re tx = begins re tx"
  and matchstar_begins: "matchstar c re tx = begins (c # 42 # re) tx"
proof (induction re tx and c re tx rule: matchhere_matchstar.induct)
  case (1 re tx)
  consider "re = []" | c re' where "re = c # 42 # re'" | "re = [36]"
    | c re' where "re = c # re'" "re' = [] \<Longrightarrow> c \<noteq> 36" "re' \<noteq> [] \<Longrightarrow> hd re' \<noteq> 42"
    by (metis list.exhaust_sel)
  then show ?case
  proof cases
    case 1
    then show ?thesis by (simp add: matchhere.simps)
  next
    case 2
    with 1(1) show ?thesis by (simp add: matchhere.simps [of "c # 42 # re'"])
  next
    case 3
    then show ?thesis by (simp add: matchhere.simps begins_def)
  next
    case 4
    then have n: "\<not> (tl re \<noteq> [] \<and> re ! 1 = 42)" "\<not> (re ! 0 = 36 \<and> tl re = [])" "re \<noteq> []"
      by (auto simp: hd_conv_nth)
    have e: "matchhere re tx \<longleftrightarrow> tx \<noteq> [] \<and> (re ! 0 = 46 \<or> re ! 0 = tx ! 0) \<and> matchhere (tl re) (tl tx)"
      using n by (subst matchhere.simps) auto
    show ?thesis
    proof (cases tx)
      case Nil
      with e show ?thesis using begins_Lit [OF 4, of tx] by simp
    next
      case (Cons x t)
      with e 4(1) 1(2) [OF n(3,1,2)] show ?thesis using begins_Lit [OF 4, of tx] by (auto simp: fits_def)
    qed
  qed
next
  case (2 c re tx)
  have e: "matchstar c re tx \<longleftrightarrow> matchhere re tx \<or> (tx \<noteq> [] \<and> (tx ! 0 = c \<or> c = 46) \<and> matchstar c re (tl tx))"
    by (subst matchstar.simps) auto
  show ?case
  proof (cases tx)
    case Nil
    with e 2(1) show ?thesis using begins_Star [of c re tx] by simp
  next
    case (Cons x t)
    with e 2 show ?thesis using begins_Star [of c re tx] by (auto simp: fits_def)
  qed
qed

lemma match_loop_suffix: "match_loop re tx \<longleftrightarrow> (\<exists>pre post. tx = pre @ post \<and> begins re post)"
proof (induction tx)
  case Nil
  then show ?case by (simp add: match_loop.simps matchhere_begins)
next
  case (Cons x t)
  have "match_loop re (x # t) \<longleftrightarrow> begins re (x # t) \<or> match_loop re t"
    by (simp add: match_loop.simps [of re "x # t"] matchhere_begins)
  also have "\<dots> \<longleftrightarrow> (\<exists>pre post. x # t = pre @ post \<and> begins re post)"
    unfolding Cons.IH by (metis append_Cons append_Nil append_eq_Cons_conv)
  finally show ?case .
qed

text \<open>
  C39. The matcher of grep decides its pattern language: a pattern matches a text exactly when some
  part of the text is a word of the pattern, where \<open>.\<close> stands for any byte, \<open>c*\<close> for any number of
  \<open>c\<close>, a leading \<open>^\<close> requires the part to start the text and a final \<open>$\<close> requires it to end the
  text.
\<close>

theorem grep_match_language:
  "match re tx \<longleftrightarrow>
     (let anchored = re \<noteq> [] \<and> hd re = 94; (pat, at_end) = items (if anchored then tl re else re) in
      \<exists>pre w post. tx = pre @ w @ post \<and> w \<in> lang pat \<and> (anchored \<longrightarrow> pre = []) \<and> (at_end \<longrightarrow> post = []))"
proof (cases "re \<noteq> [] \<and> hd re = 94")
  case True
  then have "match re tx = begins (tl re) tx"
    by (cases re) (simp_all add: match_def matchhere_begins)
  with True show ?thesis by (simp add: begins_def Let_def split_beta)
next
  case False
  then have "match re tx \<longleftrightarrow> (\<exists>pre post. tx = pre @ post \<and> begins re post)"
    by (cases re) (simp_all add: match_def match_loop_suffix)
  also have "\<dots> \<longleftrightarrow> (\<exists>pre w post. tx = pre @ w @ post \<and> w \<in> lang (fst (items re)) \<and> (snd (items re) \<longrightarrow> post = []))"
    by (auto simp: begins_def)
  finally show ?thesis using False by (auto simp: Let_def split_beta)
qed

theorem grep_match_language_witness: "match (str ''^ab*$'') (str ''abb'')"
proof -
  have "[98, 98] @ [] \<in> lang [Star 98]" unfolding lang.simps fits_def by force
  then have w: "str ''abb'' \<in> lang [Lit 97, Star 98]" by (simp add: str_def fits_def)
  have i: "items (str ''ab*$'') = ([Lit 97, Star 98], True)" by (simp add: str_def)
  have h: "str ''^ab*$'' = 94 # str ''ab*$''" by (simp add: str_def)
  show ?thesis unfolding grep_match_language h using w i
    by (simp add: Let_def)
qed

subsection \<open>Complete lines\<close>

text \<open>The lines of a byte stream that are ended by a newline, and what follows the last of them.\<close>

fun full_lines :: "byte list \<Rightarrow> byte list list \<times> byte list" where
  "full_lines [] = ([], [])"
| "full_lines (c # cs) =
     (case full_lines cs of
        (ls, r) \<Rightarrow> if c = 10 then ([] # ls, r)
                   else (case ls of [] \<Rightarrow> ([], c # r) | l # ls' \<Rightarrow> ((c # l) # ls', r)))"

lemma full_lines_line:
  "split_at 10 p = Some (line, rest) \<Longrightarrow> full_lines p = (line # fst (full_lines rest), snd (full_lines rest))"
  by (induction p arbitrary: line) (auto split: if_splits prod.splits)

lemma full_lines_none: "split_at 10 p = None \<Longrightarrow> 0 \<notin> set p \<Longrightarrow> full_lines p = ([], p)"
  by (induction p) (auto split: if_splits)

lemma split_at_zero: "split_at 10 p = Some (line, rest) \<Longrightarrow> 0 \<notin> set p \<Longrightarrow> 0 \<notin> set rest"
  by (induction p arbitrary: line) (auto split: if_splits)

lemma grep_lines_eq:
  "0 \<notin> set p \<Longrightarrow> grep_lines pat p = (map (\<lambda>l. l @ [10]) (filter (match pat) (fst (full_lines p))), snd (full_lines p))"
proof (induction pat p rule: grep_lines.induct)
  case (1 pat p)
  show ?case
  proof (cases "split_at 10 p")
    case None
    with 1 show ?thesis by (simp add: grep_lines.simps [of pat p] full_lines_none)
  next
    case (Some lr)
    obtain line rest where lr: "lr = (line, rest)" by fastforce
    with Some 1 split_at_zero [of p line rest] full_lines_line [of p line rest] show ?thesis
      by (simp add: grep_lines.simps [of pat p])
  qed
qed

lemma full_lines_append:
  "full_lines (a @ b) = (fst (full_lines a) @ fst (full_lines (snd (full_lines a) @ b)), snd (full_lines (snd (full_lines a) @ b)))"
proof (induction a)
  case (Cons c a)
  obtain ls r where a: "full_lines a = (ls, r)" by fastforce
  with Cons show ?case by (cases ls) (auto split: prod.splits)
qed simp

lemma full_lines_rest:
  "set (snd (full_lines p)) \<subseteq> set p" "10 \<in> set p \<Longrightarrow> length (snd (full_lines p)) < length p"
  "length (snd (full_lines p)) \<le> length p"
  "fst (full_lines p) = [] \<longleftrightarrow> 10 \<notin> set p" "10 \<notin> set (snd (full_lines p))"
proof (induction p)
  case (Cons c p)
  { case 1 then show ?case using Cons by (cases "full_lines p"; cases "fst (full_lines p)") (auto split: if_splits) }
  { case 2 then show ?case using Cons by (cases "full_lines p"; cases "fst (full_lines p)") (auto split: if_splits) }
  { case 3 then show ?case using Cons by (cases "full_lines p"; cases "fst (full_lines p)") (auto split: if_splits) }
  { case 5 then show ?case using Cons by (cases "full_lines p"; cases "fst (full_lines p)") (auto split: if_splits) }
  { case 4 then show ?case using Cons by (cases "full_lines p"; cases "fst (full_lines p)") (auto split: if_splits) }
qed auto

lemma grep_loop_lines:
  assumes "0 \<notin> set kept" "10 \<notin> set kept" "\<forall>ch \<in> set chunks. 0 \<notin> set ch \<and> 10 \<in> set ch"
  shows "grep_loop pat kept chunks =
    map (\<lambda>l. l @ [10]) (filter (match pat) (fst (full_lines (kept @ concat chunks))))"
  using assms
proof (induction chunks arbitrary: kept)
  case Nil
  then show ?case using full_lines_rest(4) [of kept] by simp
next
  case (Cons ch chunks)
  let ?buf = "kept @ ch" and ?r = "snd (full_lines (kept @ ch))"
  have z: "0 \<notin> set ?buf" "10 \<in> set ?buf" "ch \<noteq> []" using Cons.prems by auto
  have r: "0 \<notin> set ?r" "10 \<notin> set ?r" "length ?r < length ?buf"
    using z full_lines_rest(1,2,5) [of ?buf] by auto
  have "grep_loop pat kept (ch # chunks) =
      map (\<lambda>l. l @ [10]) (filter (match pat) (fst (full_lines ?buf))) @ grep_loop pat ?r chunks"
    using z(3) r(3) grep_lines_eq [OF z(1), of pat] by (simp add: Let_def)
  also have "grep_loop pat ?r chunks = map (\<lambda>l. l @ [10]) (filter (match pat) (fst (full_lines (?r @ concat chunks))))"
    using Cons.IH [OF r(1,2)] Cons.prems(3) by simp
  finally show ?case using full_lines_append [of ?buf "concat chunks"] by simp
qed

text \<open>
  C40. As long as every read of grep returns at least one newline, and no zero bytes, grep prints
  exactly the complete lines of its input that match the pattern, in order and unchanged, also
  those that are split over two reads.
\<close>

theorem grep_prints_matching_lines:
  assumes "\<forall>ch \<in> set chunks. 0 \<notin> set ch \<and> 10 \<in> set ch"
  shows "concat (grep pat chunks) = concat (map (\<lambda>l. l @ [10]) (filter (match pat) (fst (full_lines (concat chunks)))))"
  using grep_loop_lines [of "[]" chunks pat] assms by (simp add: grep_def)

theorem grep_prints_matching_lines_witness:
  "concat (grep (str ''b*c'') [str ''ab'' @ [10] @ str ''a'', str ''bc'' @ [10]]) = str ''abc'' @ [10]"
proof -
  have "filter (match (str ''b*c'')) (fst (full_lines (concat [str ''ab'' @ [10] @ str ''a'', str ''bc'' @ [10]]))) = [str ''abc'']"
    by (simp add: str_def match_def match_loop.simps matchhere.simps matchstar.simps)
  with grep_prints_matching_lines [of "[str ''ab'' @ [10] @ str ''a'', str ''bc'' @ [10]]" "str ''b*c''"] show ?thesis
    by (simp add: str_def)
qed

text \<open>
  Without that condition grep loses text: when a read returns part of a line and no newline, as
  a pipe or the console may do, that part is thrown away. The line \<open>abc\<close>, read in two pieces, is
  not found by the pattern \<open>^ab\<close>, and the pattern \<open>^c\<close> finds a line \<open>c\<close> that is not in the input.
\<close>

theorem grep_drops_partial_line:
  "grep (str ''^ab'') [str ''ab'', str ''c'' @ [10]] = []
   \<and> grep (str ''^c'') [str ''ab'', str ''c'' @ [10]] = [str ''c'' @ [10]]
   \<and> fst (full_lines (concat [str ''ab'', str ''c'' @ [10]])) = [str ''abc'']"
  by (simp add: str_def grep_def grep_lines.simps match_def matchhere.simps)

end
