(* ===== verification/Shell.thy ===== *)
theory Shell
  imports Fcntl
begin

section \<open>The shell (sh.c)\<close>

text \<open>
  The command line parser of the shell and what it does with a parsed command. A pointer \<open>*ps\<close>
  into the line is the part of the line from there to its end \<open>es\<close>; a token is the pair of the
  offsets \<open>q\<close> and \<open>eq\<close> into the line, whose length is the argument \<open>n\<close> of the parsing functions.
  A panic is an error value. The recursion of the grammar is bounded by the text that is left:
  where it goes on after text that another function has consumed, the bound is tested, and
  \<open>Diverge\<close>, which never comes out, stands for a loop.
\<close>

definition MAXARGS :: nat where "MAXARGS = 10"

type_synonym token = "nat \<times> nat"

datatype cmd =
    ExecC "token list"
  | RedirC cmd token cint nat
  | PipeC cmd cmd
  | ListC cmd cmd
  | BackC cmd

datatype perr = Syntax string | Diverge

definition whitespace :: "byte list" where "whitespace = [32, 9, 13, 10, 11]"
definition symbols :: "byte list" where "symbols = [60, 124, 62, 38, 59, 40, 41]"

subsection \<open>Tokens\<close>

definition skip_ws :: "byte list \<Rightarrow> byte list" where
  "skip_ws s = dropWhile (\<lambda>c. c \<in> set whitespace) s"

definition word_char :: "byte \<Rightarrow> bool" where
  "word_char c \<longleftrightarrow> c \<notin> set whitespace \<and> c \<notin> set symbols"

text \<open>The kind of a token and the text after it, from its first character.\<close>

definition token_end :: "byte list \<Rightarrow> byte \<times> byte list" where
  "token_end s =
     (case s of
        [] \<Rightarrow> (0, [])
      | c # r \<Rightarrow>
          if c \<in> {124, 40, 41, 59, 38, 60} then (c, r)
          else if c = 62 then (case r of d # r' \<Rightarrow> if d = 62 then (43, r') else (62, r) | [] \<Rightarrow> (62, r))
          else (97, dropWhile word_char s))"

definition gettoken :: "nat \<Rightarrow> byte list \<Rightarrow> byte \<times> nat \<times> nat \<times> byte list" where
  "gettoken n s =
     (let s = skip_ws s; q = n - length s; (ret, s) = token_end s; eq = n - length s in
      (ret, q, eq, skip_ws s))"

definition peek :: "byte list \<Rightarrow> byte list \<Rightarrow> bool \<times> byte list" where
  "peek toks s = (let s = skip_ws s in (s \<noteq> [] \<and> hd s \<in> set toks, s))"

lemma length_skip_ws: "length (skip_ws s) \<le> length s"
  by (simp add: skip_ws_def length_dropWhile_le)

lemma skip_ws_head: "skip_ws s = c # r \<Longrightarrow> c \<notin> set whitespace"
  unfolding skip_ws_def by (metis hd_dropWhile list.discI list.sel(1))

lemma token_end_shorter:
  assumes "token_end s = (ret, r)"
  shows "length r \<le> length s" "s = skip_ws s \<Longrightarrow> ret \<noteq> 0 \<Longrightarrow> length r < length s"
proof -
  show "length r \<le> length s"
    using assms length_dropWhile_le [of word_char s]
    by (auto simp: token_end_def split: list.splits if_splits)
  show "length r < length s" if s: "s = skip_ws s" "ret \<noteq> 0"
  proof (cases s)
    case (Cons c t)
    then have w: "c \<notin> set whitespace" using s(1) skip_ws_head by metis
    show ?thesis
    proof (cases "c \<in> {124, 40, 41, 59, 38, 60, 62}")
      case True
      with Cons assms show ?thesis by (auto simp: token_end_def split: list.splits if_splits)
    next
      case False
      with w have "word_char c" by (simp add: word_char_def symbols_def)
      with False Cons assms length_dropWhile_le [of word_char t] show ?thesis by (auto simp: token_end_def)
    qed
  qed (use assms s in \<open>simp add: token_end_def\<close>)
qed

lemma skip_ws_idem [simp]: "skip_ws (skip_ws s) = skip_ws s"
  by (simp add: skip_ws_def)

lemma gettoken_shorter:
  assumes "gettoken n s = (ret, q, eq, r)"
  shows "length r \<le> length s" "ret \<noteq> 0 \<Longrightarrow> length r < length s"
proof -
  obtain t where t: "token_end (skip_ws s) = (ret, t)" "r = skip_ws t"
    using assms by (auto simp: gettoken_def Let_def split: prod.splits)
  show "length r \<le> length s" "ret \<noteq> 0 \<Longrightarrow> length r < length s"
    using token_end_shorter [OF t(1)] length_skip_ws [of s] length_skip_ws [of t] t(2) by auto
qed

lemma peek_eq: "peek toks s = (b, r) \<longleftrightarrow> r = skip_ws s \<and> b = (r \<noteq> [] \<and> hd r \<in> set toks)"
  by (auto simp: peek_def Let_def)

text \<open>A token that \<open>peek\<close> saw is taken by \<open>gettoken\<close>.\<close>

lemma gettoken_peeked:
  assumes "peek toks s = (True, r)" "0 \<notin> set toks" "gettoken n r = (ret, q, eq, t)"
  shows "length t < length s"
proof -
  have r: "r = skip_ws s" "r \<noteq> []" "hd r \<in> set toks" using assms(1) by (auto simp: peek_eq)
  obtain c x where c: "r = c # x" using r(2) by (cases r) simp_all
  then have "c \<noteq> 0" using r(3) assms(2) by auto
  have "skip_ws r = r" using r by simp
  then have "ret \<noteq> 0" using assms(3) c \<open>c \<noteq> 0\<close>
    by (auto simp: gettoken_def token_end_def Let_def split: list.splits if_splits prod.splits)
  with gettoken_shorter(2) [OF assms(3)] r(1) length_skip_ws [of s] show ?thesis by simp
qed

subsection \<open>Grammar\<close>

text \<open>The redirections at the front of the text, each with its file, mode and descriptor.\<close>

type_synonym redir = "token \<times> cint \<times> nat"

lemma two_tokens:
  assumes "(True, y) = peek [60, 62] s" "(xa, a, aa, b) = gettoken n y" "(97, ac, ad, bb) = gettoken n b"
  shows "length bb < length s"
  using gettoken_peeked [OF assms(1) [symmetric] _ assms(2) [symmetric]]
    gettoken_shorter(1) [OF assms(3) [symmetric]] by simp

function parseredirs :: "nat \<Rightarrow> byte list \<Rightarrow> perr + redir list \<times> byte list" where
  "parseredirs n s =
     (case peek [60, 62] s of (b, s0) \<Rightarrow>
        if \<not> b then Inr ([], s0)
        else case gettoken n s0 of (tok, _, _, s1) \<Rightarrow>
          (case gettoken n s1 of (tok2, q, eq, s2) \<Rightarrow>
             if tok2 \<noteq> 97 then Inl (Syntax ''missing file for redirection'')
             else let r = (if tok = 60 then ((q, eq), O_RDONLY, 0)
                           else if tok = 62 then ((q, eq), O_WRONLY OR O_CREATE, 1)
                           else ((q, eq), O_WRONLY OR O_CREATE, 1)) in
               (case parseredirs n s2 of
                  Inl e \<Rightarrow> Inl e
                | Inr (rs, s3) \<Rightarrow> Inr (r # rs, s3))))"
  by pat_completeness auto
termination
  by (relation "measure (\<lambda>(n, s). length s)") (simp, clarsimp, rule two_tokens)

declare parseredirs.simps [simp del]

lemma parseredirs_shorter:
  "parseredirs n s = Inr (rs, r) \<Longrightarrow> length r \<le> length s"
proof (induction n s arbitrary: rs rule: parseredirs.induct)
  case (1 n s)
  obtain b s0 where p: "peek [60, 62] s = (b, s0)" by fastforce
  show ?case
  proof (cases b)
    case False
    with 1(2) p show ?thesis using length_skip_ws [of s] by (auto simp: parseredirs.simps [of n s] peek_eq)
  next
    case True
    obtain tok a c s1 where t: "gettoken n s0 = (tok, a, c, s1)" by (cases "gettoken n s0")
    obtain tok2 q eq s2 where t2: "gettoken n s1 = (tok2, q, eq, s2)" by (cases "gettoken n s1")
    from 1(2) p t t2 True obtain rs' where k: "tok2 = 97" "parseredirs n s2 = Inr (rs', r)"
      by (auto simp: parseredirs.simps [of n s] Let_def split: if_splits sum.splits)
    have "length s2 < length s" using two_tokens [of s0 s tok a c s1 n q eq s2] p t t2 True k by simp
    moreover have "length r \<le> length s2" using 1(1) p t t2 True k by auto
    ultimately show ?thesis by simp
  qed
qed

lemma arg_shorter:
  assumes "(b, y) = peek ts s" "(97, q, eq, s1) = gettoken n y" "parseredirs n s1 = Inr (rs, s2)"
  shows "length s2 < length s"
proof -
  have y: "length y \<le> length s" using assms(1) length_skip_ws [of s] by (simp add: peek_def Let_def)
  have "(97 :: byte) \<noteq> 0" by simp
  from gettoken_shorter(2) [OF assms(2) [symmetric] this] y parseredirs_shorter [OF assms(3)] show ?thesis by simp
qed

lemma amp_shorter:
  assumes "(True, y) = peek [38] s" "(tok, q, eq, s1) = gettoken n y"
  shows "length s1 < length s"
  using gettoken_peeked [OF assms(1) [symmetric] _ assms(2) [symmetric]] by simp

text \<open>The loop of \<open>parseexec\<close>: arguments and redirections in the order of the line.\<close>

function parseargs :: "nat \<Rightarrow> nat \<Rightarrow> byte list \<Rightarrow> perr + token list \<times> redir list \<times> byte list" where
  "parseargs n argc s =
     (case peek [124, 41, 38, 59] s of (b, s0) \<Rightarrow>
        if b then Inr ([], [], s0)
        else case gettoken n s0 of (tok, q, eq, s1) \<Rightarrow>
          if tok = 0 then Inr ([], [], s1)
          else if tok \<noteq> 97 then Inl (Syntax ''syntax'')
          else if argc + 1 \<ge> MAXARGS then Inl (Syntax ''too many args'')
          else (case parseredirs n s1 of
                  Inl e \<Rightarrow> Inl e
                | Inr (rs, s2) \<Rightarrow>
                    (case parseargs n (argc + 1) s2 of
                       Inl e \<Rightarrow> Inl e
                     | Inr (as, rs', s3) \<Rightarrow> Inr ((q, eq) # as, rs @ rs', s3))))"
  by pat_completeness auto
termination
  by (relation "measure (\<lambda>(n, argc, s). length s)") (simp, clarsimp, rule arg_shorter)

declare parseargs.simps [simp del]

definition wrap :: "redir list \<Rightarrow> cmd \<Rightarrow> cmd" where
  "wrap rs c = fold (\<lambda>(f, mode, fd) c. RedirC c f mode fd) rs c"

function amps :: "nat \<Rightarrow> cmd \<Rightarrow> byte list \<Rightarrow> cmd \<times> byte list" where
  "amps n c s =
     (case peek [38] s of (b, s0) \<Rightarrow>
        if \<not> b then (c, s0)
        else case gettoken n s0 of (_, _, _, s1) \<Rightarrow> amps n (BackC c) s1)"
  by pat_completeness auto
termination
  by (relation "measure (\<lambda>(n, c, s). length s)") (simp, clarsimp, rule amp_shorter)

declare amps.simps [simp del]

function parseline :: "nat \<Rightarrow> byte list \<Rightarrow> perr + cmd \<times> byte list"
  and parsepipe :: "nat \<Rightarrow> byte list \<Rightarrow> perr + cmd \<times> byte list"
  and parseexec :: "nat \<Rightarrow> byte list \<Rightarrow> perr + cmd \<times> byte list"
  and parseblock :: "nat \<Rightarrow> byte list \<Rightarrow> perr + cmd \<times> byte list" where
  "parseline n s =
     (case parsepipe n s of
        Inl e \<Rightarrow> Inl e
      | Inr (c, s1) \<Rightarrow>
          (case amps n c s1 of (c, s2) \<Rightarrow>
             (case peek [59] s2 of (b, s3) \<Rightarrow>
                if \<not> b then Inr (c, s3)
                else (case gettoken n s3 of (_, _, _, s4) \<Rightarrow>
                        if length s4 < length s
                        then (case parseline n s4 of
                                Inl e \<Rightarrow> Inl e
                              | Inr (d, s5) \<Rightarrow> Inr (ListC c d, s5))
                        else Inl Diverge))))"
| "parsepipe n s =
     (case parseexec n s of
        Inl e \<Rightarrow> Inl e
      | Inr (c, s1) \<Rightarrow>
          (case peek [124] s1 of (b, s2) \<Rightarrow>
             if \<not> b then Inr (c, s2)
             else (case gettoken n s2 of (_, _, _, s3) \<Rightarrow>
                     if length s3 < length s
                     then (case parsepipe n s3 of
                             Inl e \<Rightarrow> Inl e
                           | Inr (d, s4) \<Rightarrow> Inr (PipeC c d, s4))
                     else Inl Diverge)))"
| "parseexec n s =
     (case peek [40] s of (b, s0) \<Rightarrow>
        if b then (if length s0 \<le> length s then parseblock n s0 else Inl Diverge)
        else (case parseredirs n s0 of
                Inl e \<Rightarrow> Inl e
              | Inr (rs, s1) \<Rightarrow>
                  (case parseargs n 0 s1 of
                     Inl e \<Rightarrow> Inl e
                   | Inr (as, rs', s2) \<Rightarrow> Inr (wrap (rs @ rs') (ExecC as), s2))))"
| "parseblock n s =
     (case peek [40] s of (b, s0) \<Rightarrow>
        if \<not> b then Inl (Syntax ''parseblock'')
        else (case gettoken n s0 of (_, _, _, s1) \<Rightarrow>
                if length s1 < length s
                then (case parseline n s1 of
                        Inl e \<Rightarrow> Inl e
                      | Inr (c, s2) \<Rightarrow>
                          (case peek [41] s2 of (b, s3) \<Rightarrow>
                             if \<not> b then Inl (Syntax ''syntax - missing )'')
                             else (case gettoken n s3 of (_, _, _, s4) \<Rightarrow>
                                     (case parseredirs n s4 of
                                        Inl e \<Rightarrow> Inl e
                                      | Inr (rs, s5) \<Rightarrow> Inr (wrap rs c, s5)))))
                else Inl Diverge))"
  by pat_completeness auto
termination
  by (relation "measures [case_sum (case_sum (length \<circ> snd) (length \<circ> snd)) (case_sum (length \<circ> snd) (length \<circ> snd)),
      case_sum (case_sum (\<lambda>_. 3) (\<lambda>_. 2)) (case_sum (\<lambda>_. 1) (\<lambda>_. 0))]") auto

declare parseline.simps [simp del] parsepipe.simps [simp del] parseexec.simps [simp del] parseblock.simps [simp del]

definition parsecmd_tree :: "byte list \<Rightarrow> perr + cmd" where
  "parsecmd_tree s =
     (case parseline (length s) s of
        Inl e \<Rightarrow> Inl e
      | Inr (c, s1) \<Rightarrow> if skip_ws s1 = [] then Inr c else Inl (Syntax ''syntax''))"

subsection \<open>Terminating the strings\<close>

fun cut_tokens :: "token list \<Rightarrow> byte list \<Rightarrow> byte list" where
  "cut_tokens [] b = b"
| "cut_tokens ((q, eq) # ts) b = cut_tokens ts (b[eq := 0])"

fun nulterminate :: "cmd \<Rightarrow> byte list \<Rightarrow> byte list" where
  "nulterminate (ExecC as) b = cut_tokens as b"
| "nulterminate (RedirC c (q, eq) mode fd) b = (nulterminate c b)[eq := 0]"
| "nulterminate (PipeC l r) b = nulterminate r (nulterminate l b)"
| "nulterminate (ListC l r) b = nulterminate r (nulterminate l b)"
| "nulterminate (BackC c) b = nulterminate c b"

text \<open>The whole of \<open>parsecmd\<close> on the line \<open>s\<close> with its terminating zero: the tree and the changed line.\<close>

definition parsecmd :: "byte list \<Rightarrow> perr + cmd \<times> byte list" where
  "parsecmd s =
     (case parsecmd_tree s of Inl e \<Rightarrow> Inl e | Inr c \<Rightarrow> Inr (c, nulterminate c (s @ [0])))"

subsection \<open>Running a command\<close>

text \<open>
  What \<open>runcmd\<close> does is a script of system calls: \<open>ForkOr\<close> has the script of the child, of the
  parent and of a failed fork; \<open>ExecOr\<close> goes on only if the program could not be started. The two
  ends of the pipe of a pipeline at nesting depth \<open>k\<close> are \<open>PipeR k\<close> and \<open>PipeW k\<close>.
\<close>

datatype fdesc = Fd nat | PipeR nat | PipeW nat

datatype act = AClose fdesc | ADup fdesc | AWait | APrint "byte list" "token option"

datatype script =
    Exit
  | Act act script
  | OpenOr token cint script script
  | ExecOr "token list" script
  | PipeOr nat script script
  | ForkOr script script script

definition sh_panic :: "string \<Rightarrow> script" where
  "sh_panic m = Act (APrint (str m @ [10]) None) Exit"

fun runcmd :: "nat \<Rightarrow> cmd \<Rightarrow> script" where
  "runcmd k (ExecC as) =
     (case as of [] \<Rightarrow> Exit
      | a # _ \<Rightarrow> ExecOr as (Act (APrint (str ''exec %s failed'' @ [10]) (Some a)) Exit))"
| "runcmd k (RedirC c f mode fd) =
     Act (AClose (Fd fd))
       (OpenOr f mode (runcmd k c) (Act (APrint (str ''open %s failed'' @ [10]) (Some f)) Exit))"
| "runcmd k (ListC l r) = ForkOr (runcmd k l) (Act AWait (runcmd k r)) (sh_panic ''fork'')"
| "runcmd k (PipeC l r) =
     PipeOr k
       (ForkOr (Act (AClose (Fd 1)) (Act (ADup (PipeW k)) (Act (AClose (PipeR k)) (Act (AClose (PipeW k)) (runcmd (k + 1) l)))))
          (ForkOr (Act (AClose (Fd 0)) (Act (ADup (PipeR k)) (Act (AClose (PipeR k)) (Act (AClose (PipeW k)) (runcmd (k + 1) r)))))
             (Act (AClose (PipeR k)) (Act (AClose (PipeW k)) (Act AWait (Act AWait Exit))))
             (sh_panic ''fork''))
          (sh_panic ''fork''))
       (sh_panic ''pipe'')"
| "runcmd k (BackC c) = ForkOr (runcmd k c) Exit (sh_panic ''fork'')"

text \<open>
  One round of the main loop on the line that \<open>getcmd\<close> read: a change of directory, with the last
  character of the line cut off, or a child that runs the parsed line while the shell waits.
\<close>

datatype round = Chdir "byte list" | Run script | Bad perr

definition main_line :: "byte list \<Rightarrow> round" where
  "main_line buf =
     (if take 3 buf = str ''cd '' then Chdir (drop 3 (butlast buf))
      else case parsecmd buf of
             Inl e \<Rightarrow> Bad e
           | Inr (c, _) \<Rightarrow> Run (ForkOr (runcmd 0 c) (Act AWait Exit) (sh_panic ''fork'')))"

subsection \<open>The parser ends\<close>

lemma parseargs_shorter:
  "parseargs n k s = Inr (as, rs, r) \<Longrightarrow> length r \<le> length s"
proof (induction n k s arbitrary: as rs rule: parseargs.induct)
  case (1 n k s)
  obtain b s0 where p: "peek [124, 41, 38, 59] s = (b, s0)" by fastforce
  then have s0: "length s0 \<le> length s" using length_skip_ws [of s] by (simp add: peek_def Let_def)
  obtain tok q eq s1 where t: "gettoken n s0 = (tok, q, eq, s1)" by (cases "gettoken n s0")
  note l = gettoken_shorter(1) [OF t]
  show ?case
  proof (cases "b \<or> tok = 0")
    case True
    with 1(2) p t s0 l show ?thesis by (auto simp: parseargs.simps [of n k s] split: if_splits)
  next
    case False
    with 1(2) p t obtain rs0 s2 as' rs' where k: "tok = 97" "\<not> k + 1 \<ge> MAXARGS" "parseredirs n s1 = Inr (rs0, s2)"
      "parseargs n (k + 1) s2 = Inr (as', rs', r)"
      by (auto simp: parseargs.simps [of n k s] split: if_splits sum.splits)
    have "length r \<le> length s2" using 1(1) p t False k by auto
    with parseredirs_shorter [OF k(3)] s0 l show ?thesis by simp
  qed
qed

lemma amps_shorter: "amps n c s = (d, r) \<Longrightarrow> length r \<le> length s"
proof (induction n c s rule: amps.induct)
  case (1 n c s)
  obtain b s0 where p: "peek [38] s = (b, s0)" by fastforce
  then have s0: "length s0 \<le> length s" using length_skip_ws [of s] by (simp add: peek_def Let_def)
  obtain tok q eq s1 where t: "gettoken n s0 = (tok, q, eq, s1)" by (cases "gettoken n s0")
  show ?case
  proof (cases b)
    case False
    with 1(2) p s0 show ?thesis by (simp add: amps.simps [of n c s])
  next
    case True
    with 1(2) p t have a: "amps n (BackC c) s1 = (d, r)" by (simp add: amps.simps [of n c s])
    have "length r \<le> length s1" using 1(1) p t True a by auto
    with gettoken_shorter(1) [OF t] s0 show ?thesis by simp
  qed
qed

lemma peek_shorter: "peek ts s = (b, r) \<Longrightarrow> length r \<le> length s"
  using length_skip_ws [of s] by (auto simp: peek_eq)

lemma parseredirs_ends: "parseredirs n s \<noteq> Inl Diverge"
proof (induction n s rule: parseredirs.induct)
  case (1 n s)
  obtain b s0 where p: "peek [60, 62] s = (b, s0)" by fastforce
  obtain tok a c s1 where t: "gettoken n s0 = (tok, a, c, s1)" by (cases "gettoken n s0")
  obtain tok2 q eq s2 where t2: "gettoken n s1 = (tok2, q, eq, s2)" by (cases "gettoken n s1")
  show ?case
  proof (cases "b \<and> tok2 = 97")
    case True
    then have "parseredirs n s2 \<noteq> Inl Diverge" using 1 p t t2 by auto
    with True p t t2 show ?thesis by (auto simp: parseredirs.simps [of n s] Let_def split: sum.splits)
  next
    case False
    with p t t2 show ?thesis by (auto simp: parseredirs.simps [of n s])
  qed
qed

lemma parseargs_ends: "parseargs n k s \<noteq> Inl Diverge"
proof (induction n k s rule: parseargs.induct)
  case (1 n k s)
  obtain b s0 where p: "peek [124, 41, 38, 59] s = (b, s0)" by fastforce
  obtain tok q eq s1 where t: "gettoken n s0 = (tok, q, eq, s1)" by (cases "gettoken n s0")
  have d: "parseredirs n s1 \<noteq> Inl Diverge" by (rule parseredirs_ends)
  have "parseargs n (k + 1) s2 \<noteq> Inl Diverge"
    if "\<not> b" "tok = 97" "\<not> MAXARGS \<le> k + 1" "parseredirs n s1 = Inr (rs, s2)" for rs s2
    using 1 p t that by auto
  with p t d show ?case by (auto simp: parseargs.simps [of n k s] split: if_splits sum.splits)
qed

definition parses_within :: "byte list \<Rightarrow> perr + cmd \<times> byte list \<Rightarrow> bool" where
  "parses_within s r \<longleftrightarrow> (case r of Inl e \<Rightarrow> e \<noteq> Diverge | Inr (c, s') \<Rightarrow> length s' \<le> length s)"

lemma parses_within_simps [simp]:
  "parses_within s (Inl e) \<longleftrightarrow> e \<noteq> Diverge" "parses_within s (Inr (c, s')) \<longleftrightarrow> length s' \<le> length s"
  by (simp_all add: parses_within_def)

lemma parser_ends:
  "parses_within s (parseline n s)" "parses_within s (parsepipe n s)" "parses_within s (parseexec n s)" "parses_within s (parseblock n s)"
proof (induction n s and n s and n s and n s rule: parseline_parsepipe_parseexec_parseblock.induct)
  case (1 n s)
  show ?case
  proof (cases "parsepipe n s")
    case (Inl e)
    with 1(1) show ?thesis by (simp add: parseline.simps [of n s])
  next
    case (Inr cs)
    obtain c s1 where c: "cs = (c, s1)" by fastforce
    obtain c' s2 where a: "amps n c s1 = (c', s2)" by fastforce
    obtain b s3 where p: "peek [59] s2 = (b, s3)" by fastforce
    obtain tok q eq s4 where t: "gettoken n s3 = (tok, q, eq, s4)" by (cases "gettoken n s3")
    have le: "length s3 \<le> length s"
      using 1(1) Inr c amps_shorter [OF a] peek_shorter [OF p] by simp
    show ?thesis
    proof (cases b)
      case False
      with Inr c a p le show ?thesis by (simp add: parseline.simps [of n s])
    next
      case True
      have "length s4 < length s2" using gettoken_peeked [of "[59]" s2 s3 n] p True t by simp
      then have lt: "length s4 < length s" using 1(1) Inr c amps_shorter [OF a] by simp
      have "parses_within s4 (parseline n s4)" using 1(2) Inr c a p True t lt by auto
      with Inr c a p True t lt show ?thesis
        by (cases "parseline n s4") (auto simp: parseline.simps [of n s])
    qed
  qed
next
  case (2 n s)
  show ?case
  proof (cases "parseexec n s")
    case (Inl e)
    with 2(1) show ?thesis by (simp add: parsepipe.simps [of n s])
  next
    case (Inr cs)
    obtain c s1 where c: "cs = (c, s1)" by fastforce
    obtain b s2 where p: "peek [124] s1 = (b, s2)" by fastforce
    obtain tok q eq s3 where t: "gettoken n s2 = (tok, q, eq, s3)" by (cases "gettoken n s2")
    have le: "length s1 \<le> length s" using 2(1) Inr c by simp
    show ?thesis
    proof (cases b)
      case False
      with Inr c p le peek_shorter [OF p] show ?thesis by (simp add: parsepipe.simps [of n s])
    next
      case True
      have lt: "length s3 < length s" using gettoken_peeked [of "[124]" s1 s2 n] p True t le by simp
      have "parses_within s3 (parsepipe n s3)" using 2(2) Inr c p True t lt by auto
      with Inr c p True t lt show ?thesis
        by (cases "parsepipe n s3") (auto simp: parsepipe.simps [of n s])
    qed
  qed
next
  case (3 n s)
  obtain b s0 where p: "peek [40] s = (b, s0)" by fastforce
  note le = peek_shorter [OF p]
  show ?case
  proof (cases b)
    case True
    have "parses_within s0 (parseblock n s0)" using 3(1) p True le by auto
    with p True le show ?thesis by (cases "parseblock n s0") (auto simp: parseexec.simps [of n s])
  next
    case False
    have d: "parseredirs n s0 \<noteq> Inl Diverge" "parseargs n 0 r \<noteq> Inl Diverge" for r
      by (rule parseredirs_ends parseargs_ends)+
    show ?thesis
    proof (cases "parseredirs n s0")
      case (Inl e)
      with d p False show ?thesis by (simp add: parseexec.simps [of n s])
    next
      case (Inr rs)
      obtain r s1 where r: "rs = (r, s1)" by fastforce
      with Inr parseredirs_shorter [of n s0 r s1] p le False d parseargs_shorter [of n 0 s1] show ?thesis
        by (cases "parseargs n 0 s1") (fastforce simp: parseexec.simps [of n s])+
    qed
  qed
next
  case (4 n s)
  obtain b s0 where p: "peek [40] s = (b, s0)" by fastforce
  obtain tok q eq s1 where t: "gettoken n s0 = (tok, q, eq, s1)" by (cases "gettoken n s0")
  show ?case
  proof (cases b)
    case False
    with p show ?thesis by (simp add: parseblock.simps [of n s])
  next
    case True
    have lt: "length s1 < length s" using gettoken_peeked [of "[40]" s s0 n] p True t by simp
    have ih: "parses_within s1 (parseline n s1)" using 4(1) p True t lt by auto
    show ?thesis
    proof (cases "parseline n s1")
      case (Inl e)
      with ih p True t lt show ?thesis by (simp add: parseblock.simps [of n s])
    next
      case (Inr cs)
      obtain c s2 where c: "cs = (c, s2)" by fastforce
      obtain b2 s3 where p2: "peek [41] s2 = (b2, s3)" by fastforce
      obtain tok2 q2 eq2 s4 where t2: "gettoken n s3 = (tok2, q2, eq2, s4)" by (cases "gettoken n s3")
      have l4: "length s4 \<le> length s"
        using ih Inr c lt peek_shorter [OF p2] gettoken_shorter(1) [OF t2] by simp
      have d: "parseredirs n s4 \<noteq> Inl Diverge" by (rule parseredirs_ends)
      show ?thesis
      proof (cases "parseredirs n s4")
        case (Inl e)
        with d p True t lt Inr c p2 t2 show ?thesis by (simp add: parseblock.simps [of n s] \<open>parseline n s1 = Inr cs\<close>)
      next
        case (Inr rs)
        obtain r s5 where r: "rs = (r, s5)" by fastforce
        with Inr parseredirs_shorter [of n s4 r s5] l4 p True t lt c p2 t2 \<open>parseline n s1 = Inr cs\<close> show ?thesis
          by (simp add: parseblock.simps [of n s])
      qed
    qed
  qed
qed

subsection \<open>Tokens are words of the line\<close>

definition tail_of :: "byte list \<Rightarrow> byte list \<Rightarrow> bool" where
  "tail_of L s \<longleftrightarrow> (\<exists>p. L = p @ s)"

definition tok_ok :: "byte list \<Rightarrow> token \<Rightarrow> bool" where
  "tok_ok L t \<longleftrightarrow> fst t < snd t \<and> snd t \<le> length L \<and> (\<forall>i. fst t \<le> i \<and> i < snd t \<longrightarrow> word_char (L ! i))
     \<and> (snd t < length L \<longrightarrow> \<not> word_char (L ! snd t))"

fun toks :: "cmd \<Rightarrow> token list" where
  "toks (ExecC as) = as"
| "toks (RedirC c t mode fd) = t # toks c"
| "toks (PipeC l r) = toks l @ toks r"
| "toks (ListC l r) = toks l @ toks r"
| "toks (BackC c) = toks c"

lemma tail_append: "tail_of L (p @ s) \<Longrightarrow> tail_of L s"
  unfolding tail_of_def by (metis append_assoc)

lemma tail_dropWhile: "tail_of L s \<Longrightarrow> tail_of L (dropWhile P s)"
  by (metis takeWhile_dropWhile_id tail_append)

lemma tail_skip: "tail_of L s \<Longrightarrow> tail_of L (skip_ws s)"
  by (simp add: skip_ws_def tail_dropWhile)

lemma tail_peek: "tail_of L s \<Longrightarrow> peek ts s = (b, r) \<Longrightarrow> tail_of L r"
  by (auto simp: peek_eq tail_skip)

lemma tail_Cons: "tail_of L (c # s) \<Longrightarrow> tail_of L s"
  using tail_append [of L "[c]" s] by simp

lemma tail_token_end: "tail_of L s \<Longrightarrow> token_end s = (ret, r) \<Longrightarrow> tail_of L r"
  by (auto simp: token_end_def tail_dropWhile split: list.splits if_splits dest!: tail_Cons)

lemma gettoken_ok:
  assumes "tail_of L s" "gettoken (length L) s = (ret, q, eq, r)"
  shows "tail_of L r" "ret = 97 \<Longrightarrow> tok_ok L (q, eq)"
proof -
  obtain t where t: "token_end (skip_ws s) = (ret, t)" "r = skip_ws t" "q = length L - length (skip_ws s)" "eq = length L - length t"
    using assms(2) by (auto simp: gettoken_def Let_def split: prod.splits)
  show "tail_of L r" using tail_token_end [OF tail_skip [OF assms(1)] t(1)] t(2) by (simp add: tail_skip)
  show "tok_ok L (q, eq)" if ret: "ret = 97"
  proof (cases "skip_ws s")
    case Nil
    with t(1) ret show ?thesis by (simp add: token_end_def)
  next
    case (Cons c x)
    let ?s = "skip_ws s"
    obtain p where p: "L = p @ ?s" using tail_skip [OF assms(1)] by (auto simp: tail_of_def)
    have c: "c \<notin> {124, 40, 41, 59, 38, 60, 62}" "t = dropWhile word_char ?s"
      using t(1) ret Cons by (auto simp: token_end_def split: if_splits list.splits)
    then have "word_char c" using skip_ws_head [OF Cons] by (simp add: word_char_def symbols_def)
    then have w: "takeWhile word_char ?s \<noteq> []" using Cons by simp
    define tw where "tw = takeWhile word_char ?s"
    have s: "?s = tw @ t" using c(2) by (simp add: tw_def)
    have q: "q = length p" "eq = length p + length tw"
      using t(3,4) arg_cong [OF p, of length] arg_cong [OF s, of length] by simp_all
    have in_word: "word_char (L ! i)" if "q \<le> i" "i < eq" for i
    proof -
      have "i - length p < length tw" using that q by linarith
      then have "L ! i = tw ! (i - length p)" using that p s q by (simp add: nth_append)
      moreover have "tw ! (i - length p) \<in> set tw" using that q by (intro nth_mem) simp
      ultimately show ?thesis by (auto simp: tw_def dest: set_takeWhileD)
    qed
    have at_end: "\<not> word_char (L ! eq)" if "eq < length L"
    proof -
      have "t \<noteq> []" using that p s q arg_cong [OF p, of length] arg_cong [OF s, of length] by auto
      then have "\<not> word_char (hd t)" using c(2) hd_dropWhile by metis
      moreover have "L ! eq = hd t" using p s q \<open>t \<noteq> []\<close> by (simp add: nth_append hd_conv_nth)
      ultimately show ?thesis by simp
    qed
    have "eq \<le> length L" using t(4) by simp
    with in_word at_end w q show ?thesis by (simp add: tok_ok_def tw_def)
  qed
qed

lemma parseredirs_ok:
  "tail_of L s \<Longrightarrow> n = length L \<Longrightarrow> parseredirs n s = Inr (rs, r) \<Longrightarrow> tail_of L r \<and> (\<forall>x \<in> set rs. tok_ok L (fst x))"
proof (induction n s arbitrary: rs rule: parseredirs.induct)
  case (1 n s)
  obtain b s0 where p: "peek [60, 62] s = (b, s0)" by fastforce
  note s0 = tail_peek [OF 1(2) p]
  show ?case
  proof (cases b)
    case False
    with 1(4) p s0 show ?thesis by (auto simp: parseredirs.simps [of n s])
  next
    case True
    obtain tok a c s1 where t: "gettoken n s0 = (tok, a, c, s1)" by (cases "gettoken n s0")
    obtain tok2 q eq s2 where t2: "gettoken n s1 = (tok2, q, eq, s2)" by (cases "gettoken n s1")
    note s1 = gettoken_ok(1) [OF s0, of tok a c s1] and s2 = gettoken_ok [of L s1 tok2 q eq s2]
    from 1(4) p t t2 True obtain rs' m where k: "tok2 = 97" "parseredirs n s2 = Inr (rs', r)" "rs = ((q, eq), m) # rs'"
      by (auto simp: parseredirs.simps [of n s] Let_def split: if_splits sum.splits)
    have w: "tail_of L s2" "tok_ok L (q, eq)" using s1 s2 t t2 1(3) k(1) by simp_all
    have "tail_of L r \<and> (\<forall>x \<in> set rs'. tok_ok L (fst x))" using 1(1,3) p t t2 True k w by auto
    with k(3) w(2) show ?thesis by simp
  qed
qed

lemma parseargs_ok:
  "tail_of L s \<Longrightarrow> n = length L \<Longrightarrow> parseargs n k s = Inr (as, rs, r) \<Longrightarrow>
   tail_of L r \<and> (\<forall>x \<in> set as. tok_ok L x) \<and> (\<forall>x \<in> set rs. tok_ok L (fst x))"
proof (induction n k s arbitrary: as rs rule: parseargs.induct)
  case (1 n k s)
  obtain b s0 where p: "peek [124, 41, 38, 59] s = (b, s0)" by fastforce
  obtain tok q eq s1 where t: "gettoken n s0 = (tok, q, eq, s1)" by (cases "gettoken n s0")
  note s0 = tail_peek [OF 1(2) p]
  note g = gettoken_ok [OF s0, of tok q eq s1]
  show ?case
  proof (cases "b \<or> tok = 0")
    case True
    with 1(4) p t have "as = [] \<and> rs = [] \<and> (r = s0 \<or> r = s1)" by (auto simp: parseargs.simps [of n k s] split: if_splits)
    with s0 g(1) t 1(3) show ?thesis by auto
  next
    case False
    with 1(4) p t obtain rs0 s2 as' rs' where k: "tok = 97" "\<not> k + 1 \<ge> MAXARGS" "parseredirs n s1 = Inr (rs0, s2)"
      "parseargs n (k + 1) s2 = Inr (as', rs', r)" "as = (q, eq) # as'" "rs = rs0 @ rs'"
      by (auto simp: parseargs.simps [of n k s] split: if_splits sum.splits)
    have w: "tail_of L s1" "tok_ok L (q, eq)" using g t 1(3) k(1) by simp_all
    note rd = parseredirs_ok [OF w(1) 1(3) k(3)]
    have "tail_of L r \<and> (\<forall>x \<in> set as'. tok_ok L x) \<and> (\<forall>x \<in> set rs'. tok_ok L (fst x))" using 1(1,3) p t False k rd by auto
    with k(5,6) w(2) rd show ?thesis by auto
  qed
qed

lemma amps_ok: "tail_of L s \<Longrightarrow> n = length L \<Longrightarrow> amps n c s = (d, r) \<Longrightarrow> tail_of L r \<and> toks d = toks c"
proof (induction n c s rule: amps.induct)
  case (1 n c s)
  obtain b s0 where p: "peek [38] s = (b, s0)" by fastforce
  obtain tok q eq s1 where t: "gettoken n s0 = (tok, q, eq, s1)" by (cases "gettoken n s0")
  note s0 = tail_peek [OF 1(2) p]
  show ?case
  proof (cases b)
    case False
    with 1(4) p s0 show ?thesis by (simp add: amps.simps [of n c s])
  next
    case True
    with 1(4) p t have a: "amps n (BackC c) s1 = (d, r)" by (simp add: amps.simps [of n c s])
    have "tail_of L s1" using gettoken_ok(1) [OF s0] t 1(3) by simp
    then have "tail_of L r \<and> toks d = toks (BackC c)" using 1(1,3) p t True a by auto
    then show ?thesis by simp
  qed
qed

lemma toks_wrap: "set (toks (wrap rs c)) = set (toks c) \<union> fst ` set rs"
  by (induction rs arbitrary: c) (auto simp: wrap_def)

definition good :: "byte list \<Rightarrow> perr + cmd \<times> byte list \<Rightarrow> bool" where
  "good L r \<longleftrightarrow> (case r of Inl e \<Rightarrow> True | Inr (c, s) \<Rightarrow> tail_of L s \<and> (\<forall>t \<in> set (toks c). tok_ok L t))"

lemma good_simps [simp]:
  "good L (Inl e)" "good L (Inr (c, s)) \<longleftrightarrow> tail_of L s \<and> (\<forall>t \<in> set (toks c). tok_ok L t)"
  by (simp_all add: good_def)

lemma parser_good:
  "tail_of L s \<Longrightarrow> n = length L \<Longrightarrow> good L (parseline n s)"
  "tail_of L s \<Longrightarrow> n = length L \<Longrightarrow> good L (parsepipe n s)"
  "tail_of L s \<Longrightarrow> n = length L \<Longrightarrow> good L (parseexec n s)"
  "tail_of L s \<Longrightarrow> n = length L \<Longrightarrow> good L (parseblock n s)"
proof (induction n s and n s and n s and n s rule: parseline_parsepipe_parseexec_parseblock.induct)
  case (1 n s)
  show ?case
  proof (cases "parsepipe n s")
    case (Inl e)
    then show ?thesis by (simp add: parseline.simps [of n s])
  next
    case (Inr cs)
    obtain c s1 where c: "cs = (c, s1)" by fastforce
    obtain c' s2 where a: "amps n c s1 = (c', s2)" by fastforce
    obtain b s3 where p: "peek [59] s2 = (b, s3)" by fastforce
    obtain tok q eq s4 where t: "gettoken n s3 = (tok, q, eq, s4)" by (cases "gettoken n s3")
    have g: "tail_of L s1" "\<forall>t \<in> set (toks c). tok_ok L t" using 1(1) [OF 1(3,4)] Inr c by simp_all
    note am = amps_ok [OF g(1) 1(4) a]
    have s3: "tail_of L s3" using am tail_peek [OF _ p] by simp
    have s4: "tail_of L s4" using gettoken_ok(1) [OF s3] t 1(4) by simp
    have ih: "good L (parseline n s4)" if "b" "length s4 < length s"
      using 1(2) Inr c a p t that s4 1(4) by auto
    show ?thesis
    proof (cases "b \<and> length s4 < length s")
      case True
      with ih Inr c a p t g am show ?thesis
        by (cases "parseline n s4") (auto simp: parseline.simps [of n s])
    next
      case False
      with Inr c a p t g am s3 show ?thesis by (auto simp: parseline.simps [of n s])
    qed
  qed
next
  case (2 n s)
  show ?case
  proof (cases "parseexec n s")
    case (Inl e)
    then show ?thesis by (simp add: parsepipe.simps [of n s])
  next
    case (Inr cs)
    obtain c s1 where c: "cs = (c, s1)" by fastforce
    obtain b s2 where p: "peek [124] s1 = (b, s2)" by fastforce
    obtain tok q eq s3 where t: "gettoken n s2 = (tok, q, eq, s3)" by (cases "gettoken n s2")
    have g: "tail_of L s1" "\<forall>t \<in> set (toks c). tok_ok L t" using 2(1) [OF 2(3,4)] Inr c by simp_all
    have s2: "tail_of L s2" using tail_peek [OF g(1) p] .
    have s3: "tail_of L s3" using gettoken_ok(1) [OF s2] t 2(4) by simp
    have ih: "good L (parsepipe n s3)" if "b" "length s3 < length s"
      using 2(2) Inr c p t that s3 2(4) by auto
    show ?thesis
    proof (cases "b \<and> length s3 < length s")
      case True
      with ih Inr c p t g show ?thesis
        by (cases "parsepipe n s3") (auto simp: parsepipe.simps [of n s])
    next
      case False
      with Inr c p t g s2 show ?thesis by (auto simp: parsepipe.simps [of n s])
    qed
  qed
next
  case (3 n s)
  obtain b s0 where p: "peek [40] s = (b, s0)" by fastforce
  note s0 = tail_peek [OF 3(2) p]
  show ?case
  proof (cases b)
    case True
    have "good L (parseblock n s0)" if "length s0 \<le> length s" using 3(1) p True s0 3(3) that by auto
    with p True show ?thesis by (auto simp: parseexec.simps [of n s])
  next
    case False
    show ?thesis
    proof (cases "\<exists>rs s1 as rs' s2. parseredirs n s0 = Inr (rs, s1) \<and> parseargs n 0 s1 = Inr (as, rs', s2)")
      case True
      then obtain rs s1 as rs' s2 where r: "parseredirs n s0 = Inr (rs, s1)" "parseargs n 0 s1 = Inr (as, rs', s2)" by blast
      note rd = parseredirs_ok [OF s0 3(3) r(1)]
      note ra = parseargs_ok [OF conjunct1 [OF rd] 3(3) r(2)]
      have "parseexec n s = Inr (wrap (rs @ rs') (ExecC as), s2)" using r p False by (simp add: parseexec.simps [of n s])
      with rd ra show ?thesis by (auto simp: toks_wrap)
    next
      case no: False
      with p False show ?thesis
        by (cases "parseredirs n s0") (auto simp: parseexec.simps [of n s] split: sum.splits)
    qed
  qed
next
  case (4 n s)
  obtain b s0 where p: "peek [40] s = (b, s0)" by fastforce
  obtain tok q eq s1 where t: "gettoken n s0 = (tok, q, eq, s1)" by (cases "gettoken n s0")
  have s1: "tail_of L s1" using gettoken_ok(1) [OF tail_peek [OF 4(2) p]] t 4(3) by simp
  show ?case
  proof (cases "b \<and> length s1 < length s")
    case False
    with p t show ?thesis by (auto simp: parseblock.simps [of n s])
  next
    case True
    then have ih: "good L (parseline n s1)" using 4(1) p t s1 4(3) by auto
    show ?thesis
    proof (cases "parseline n s1")
      case (Inl e)
      with p True t show ?thesis by (simp add: parseblock.simps [of n s])
    next
      case (Inr cs)
      obtain c s2 where c: "cs = (c, s2)" by fastforce
      obtain b2 s3 where p2: "peek [41] s2 = (b2, s3)" by fastforce
      obtain tok2 q2 eq2 s4 where t2: "gettoken n s3 = (tok2, q2, eq2, s4)" by (cases "gettoken n s3")
      have g: "tail_of L s2" "\<forall>t \<in> set (toks c). tok_ok L t" using ih Inr c by simp_all
      have s4: "tail_of L s4" using gettoken_ok(1) [OF tail_peek [OF g(1) p2]] t2 4(3) by simp
      have "parseblock n s = (if b2 then (case parseredirs n s4 of Inl e \<Rightarrow> Inl e | Inr (rs, s5) \<Rightarrow> Inr (wrap rs c, s5))
          else Inl (Syntax ''syntax - missing )''))"
        using p True t Inr c p2 t2 by (simp add: parseblock.simps [of n s])
      with parseredirs_ok [OF s4 4(3)] g show ?thesis
        by (auto simp: toks_wrap split: sum.splits) (metis fst_conv)
    qed
  qed
qed

subsection \<open>Strings after parsing\<close>

text \<open>The line after \<open>nulterminate\<close>: zero at the end of every token, unchanged where no token ends.\<close>

lemma length_cut [simp]: "length (cut_tokens ts b) = length b"
  by (induction ts b rule: cut_tokens.induct) simp_all

lemma length_nul [simp]: "length (nulterminate c b) = length b"
  by (induction c b rule: nulterminate.induct) simp_all

lemma cut_nth:
  "i < length b \<Longrightarrow> cut_tokens ts b ! i = (if i \<in> snd ` set ts then 0 else b ! i)"
  by (induction ts b rule: cut_tokens.induct) (auto simp: nth_list_update_if)

lemma nul_nth:
  "i < length b \<Longrightarrow> nulterminate c b ! i = (if i \<in> snd ` set (toks c) then 0 else b ! i)"
  by (induction c b rule: nulterminate.induct) (simp_all add: cut_nth nth_list_update_if image_Un)

definition c_string :: "byte list \<Rightarrow> nat \<Rightarrow> byte list" where
  "c_string b q = takeWhile (\<lambda>x. x \<noteq> 0) (drop q b)"

lemma c_string_token:
  assumes ok: "\<forall>t \<in> set ts. tok_ok L t" and z: "0 \<notin> set L" and t: "(q, eq) \<in> set ts"
    and b: "length b = Suc (length L)" "\<And>i. i \<le> length L \<Longrightarrow> b ! i = (if i \<in> snd ` set ts then 0 else (L @ [0]) ! i)"
  shows "c_string b q = take (eq - q) (drop q L)"
proof -
  from ok t have o: "q < eq" "eq \<le> length L" "\<And>i. q \<le> i \<Longrightarrow> i < eq \<Longrightarrow> word_char (L ! i)"
    by (auto simp: tok_ok_def)
  have keep: "b ! i = L ! i" if i: "q \<le> i" "i < eq" for i
  proof -
    have "i \<notin> snd ` set ts"
    proof
      assume "i \<in> snd ` set ts"
      then obtain p where "(p, i) \<in> set ts" by auto
      with ok have "i < length L \<longrightarrow> \<not> word_char (L ! i)" by (auto simp: tok_ok_def)
      with o i show False by simp
    qed
    with b(2) [of i] o i show ?thesis by (simp add: nth_append)
  qed
  have at_end: "b ! eq = 0" using b(2) [of eq] o t by force
  have "drop q b = take (eq - q) (drop q b) @ drop eq b"
    using o append_take_drop_id [of "eq - q" "drop q b"] by (simp add: drop_drop)
  moreover have "drop eq b = b ! eq # drop (Suc eq) b" using o b(1) by (simp add: Cons_nth_drop_Suc)
  ultimately have split: "drop q b = take (eq - q) (drop q b) @ b ! eq # drop (Suc eq) b" by simp
  have m: "take (eq - q) (drop q b) = take (eq - q) (drop q L)"
  proof (rule nth_equalityI)
    show "length (take (eq - q) (drop q b)) = length (take (eq - q) (drop q L))" using o(2) b(1) by simp
    fix i assume "i < length (take (eq - q) (drop q b))"
    then have i: "i < eq - q" by simp
    then have "b ! (q + i) = L ! (q + i)" by (intro keep) simp_all
    with i o(2) b(1) show "take (eq - q) (drop q b) ! i = take (eq - q) (drop q L) ! i" by simp
  qed
  have nz: "\<forall>x \<in> set (take (eq - q) (drop q L)). x \<noteq> 0"
    using z by (auto dest!: in_set_takeD in_set_dropD)
  show ?thesis unfolding c_string_def by (subst split, unfold m at_end) (use nz in \<open>simp add: takeWhile_append2\<close>)
qed

text \<open>
  C38. On every line without zero bytes the parser of the shell ends, with a syntax error or a
  command. In a command, every argument and every file name is a non-empty run of characters that
  are neither blanks nor shell symbols, cannot be extended to the right, and, after
  \<open>nulterminate\<close> has written its zeros into the line, is the C string at its place.
\<close>

theorem shell_parser_tokens:
  assumes "0 \<notin> set s"
  shows "parsecmd s \<noteq> Inl Diverge \<and>
    (\<forall>c b. parsecmd s = Inr (c, b) \<longrightarrow> (\<forall>(q, eq) \<in> set (toks c).
       tok_ok s (q, eq) \<and> c_string b q = take (eq - q) (drop q s)))"
proof -
  have t: "tail_of s s" by (simp add: tail_of_def)
  have e: "parses_within s (parseline (length s) s)" by (rule parser_ends)
  have g: "good s (parseline (length s) s)" by (rule parser_good [OF t HOL.refl])
  have "parsecmd s \<noteq> Inl Diverge"
    using e by (auto simp: parsecmd_def parsecmd_tree_def split: sum.splits if_splits)
  moreover have "tok_ok s (q, eq) \<and> c_string b q = take (eq - q) (drop q s)"
    if p: "parsecmd s = Inr (c, b)" and q: "(q, eq) \<in> set (toks c)" for c b q eq
  proof -
    from p obtain s1 where l: "parseline (length s) s = Inr (c, s1)" and b: "b = nulterminate c (s @ [0])"
      by (auto simp: parsecmd_def parsecmd_tree_def split: sum.splits if_splits)
    from g l have ok: "\<forall>t \<in> set (toks c). tok_ok s t" by simp
    have "c_string b q = take (eq - q) (drop q s)"
      by (rule c_string_token [OF ok assms q]) (simp_all add: b nul_nth)
    with ok q show ?thesis by auto
  qed
  ultimately show ?thesis by auto
qed

theorem shell_parser_tokens_witness:
  "\<exists>b. parsecmd (str ''ls -l >out &'') = Inr (BackC (RedirC (ExecC [(0, 2), (3, 5)]) (7, 10) 0x201 1), b)
    \<and> c_string b 0 = str ''ls'' \<and> c_string b 3 = str ''-l'' \<and> c_string b 7 = str ''out''"
proof -
  have z: "0 \<notin> set (str ''ls -l >out &'')" by code_simp
  have "parsecmd_tree (str ''ls -l >out &'') = Inr (BackC (RedirC (ExecC [(0, 2), (3, 5)]) (7, 10) 0x201 1))"
    by code_simp
  then have p: "\<exists>b. parsecmd (str ''ls -l >out &'') = Inr (BackC (RedirC (ExecC [(0, 2), (3, 5)]) (7, 10) 0x201 1), b)"
    by (simp add: parsecmd_def)
  have s: "take (2 - 0) (drop 0 (str ''ls -l >out &'')) = str ''ls''" "take (5 - 3) (drop 3 (str ''ls -l >out &'')) = str ''-l''"
    "take (10 - 7) (drop 7 (str ''ls -l >out &'')) = str ''out''" by code_simp+
  from p shell_parser_tokens [OF z] s show ?thesis by auto
qed

end
