(* ===== verification/Spec2Isabelle.thy ===== *)
theory Spec2Isabelle
  imports Trap Directory Ide BufRing LineDisc Lifecycle Apic Umalloc Grep Shell
begin

section \<open>The kernel as a whole\<close>

text \<open>
  A model of the kernel of this repository, xv6 for x86 with a three-level scheduler, a priority
  lock, shared memory segments and extra system calls. C functions are HOL functions over one
  growing state record; the theories follow the files under src/.

  \<^bold>\<open>State.\<close> The state is a chain of extensible records, one link per component: \<open>kcore\<close> (held
  locks, Locks), \<open>tty\<close> (screen and serial port, Cprintf), \<open>pcore\<close> (process table, current process,
  ticks, Proc), \<open>slcore\<close> (sleep locks and the priority lock, Sleeplock), \<open>kmstate\<close> (free list,
  memory, page tables, shared segments, Kalloc and Vm), \<open>bstate\<close> (buffer cache and disk, Bio),
  \<open>logstate\<close> (Log), \<open>istate\<close> (inode cache, Inode), \<open>constate\<close> (console input, Console),
  \<open>pipestate\<close> (Pipe), \<open>fstate\<close> (open files, File), \<open>kstate\<close> (the rest, Process). Functions are
  polymorphic in the links below theirs, so a component is used unchanged by the ones above it.

  \<^bold>\<open>Outcomes.\<close> A function returns \<open>Ok\<close> with a result and a state, \<open>Panic\<close>, \<open>Swtch\<close> when it gives
  up the processor, \<open>Spin\<close> when it waits for another processor or a device, or \<open>Fault\<close> for a null
  or out-of-table pointer (Prelude). A function that sleeps is cut at the switch: the part before
  it, and a \<open>_resume\<close> function for the part after, so that interleavings are sequences of calls.

  \<^bold>\<open>Theories and what they show.\<close>
  \<^item> Spinlock (spinlock.c): the lock word, interrupt flag and nesting counter of each processor;
    mutual exclusion over all interleavings, \<open>pushcli\<close>/\<open>popcli\<close> balanced exactly as long as the 32-bit
    counter holds the depth. Locks is the interface
    the kernel code uses on one processor.
  \<^item> Proc, Sched, ProcDump (proc.c): scheduling policy, ageing, \<open>sleep\<close>/\<open>wakeup\<close>; the policy is
    characterised, at most one process runs, a sleeper is not lost, starvation is bounded except
    for the rank limit. Float32 is the single-precision arithmetic of the ranks: each operation is
    rounded to 24 bits, exponents are unbounded, and the wider registers of the x87 are not modelled.
  \<^item> Sleeplock (sleeplock.c, priority_lock.c): both locks are exclusive; the priority lock wakes
    the waiter with the largest pid.
  \<^item> Cprintf, Kbd, Console (console.c, kbd.c, uart.c): formatted output, line editing. LineDisc: what a
    reader of the console gets is the text as edited, one line at a time.
  \<^item> CString (string.c): the memory and string functions against their specifications.
  \<^item> Kalloc, Vm (kalloc.c, vm.c): the page allocator and page tables. Segments (mmu.h, \<open>seginit\<close>,
    \<open>tvinit\<close>): the descriptor tables as the processor decodes them; user code enters the kernel only by
    the system call gate.
  \<^item> Bio, Cache (bio.c, memide.c): the buffer cache behaves as one map from blocks to contents.
    BufRing: the linked list of buffers is the list of the model, in least-recently-used order.
    Ide (ide.c): the interrupt-driven disk has the effect of the synchronous one.
  \<^item> Log, Crash (log.c): a commit is atomic under a crash after any write; recovery is idempotent.
  \<^item> Inode, Fs (fs.c), File, Pipe (file.c, pipe.c): the file system layers; a pipe is a bounded
    first-in first-out queue.
  \<^item> Txn, FileData, FileIO, Directory (fs.c over log.c and bio.c): a transaction changes the logical
    disk only; \<open>balloc\<close> gives a block that was free, \<open>writei\<close> then \<open>readi\<close> gives the bytes back and
    leaves other files alone, a crash keeps all of a write or nothing, and a directory is a map
    from names to inode numbers.
  \<^item> Process, Syscall, Sysproc, Sysfile, Exec, Lapic, Trap, Fcntl: process life cycle, system calls and
    their arguments, program loading, the clock, trap dispatch (with the disk of memide.c).
    Lifecycle: \<open>exit\<close> and \<open>wait\<close> meet.
  \<^item> Mp, Apic (mp.c, lapic.c, ioapic.c, picirq.c, uart.c): the walk over the multiprocessor table, the
    routing of interrupts, and the start of a second processor.
  \<^item> Umalloc (umalloc.c): the blocks a program holds never overlap, no byte of the heap is lost, free
    blocks are coalesced, and both loops end. Requests are below \<open>2 ^ 31\<close> bytes; above that the size wraps.
  \<^item> Shell, Grep (sh.c, grep.c): the parser ends and its tokens are those of the line; the matcher
    decides the language of its pattern and the lines printed are the matching ones.

  \<^bold>\<open>Loops.\<close> Loops over tables and buffers are structural recursions. Loops whose end depends on a
  device or on a pointer chain are partial functions into \<open>option\<close>; where they are used, their
  termination is proved from the stated condition.

  \<^bold>\<open>Not modelled.\<close> Assembly and start-up code (bootasm.S, bootmain.c, entry.S, entryother.S,
  swtch.S, trapasm.S, main.c): \<open>swtch\<close> is the outcome \<open>Swtch\<close>, and \<open>main\<close> calls the modelled
  initialisers in order. The loading of processor registers (CR3, the task register, the descriptor table
  registers) has no state the rest of the kernel reads back. The image builder (mkfs.c) and the
  tests (usertests.c and others) are outside the kernel, and so are the other user programs and
  the string and print functions of ulib.c and printf.c.
\<close>

end
